(* ===== verification/Prelude.thy ===== *)
theory Prelude
  imports Main "HOL-Library.Word" "HOL-Library.Multiset"
begin

text \<open>
  What every component shares: the fixed-width integer types of the C code, byte memory with
  checked accesses (an access outside the object is the value None, C's undefined behaviour),
  little- and big-endian loads and stores, C strings, and the printf conversions that turn a
  digest into text.  The collections \<open>c_mem\<close> and \<open>endian\<close> gather the rewrite rules the
  component proofs use.
\<close>

unbundle bit_operations_syntax

named_theorems c_mem \<open>facts on checked memory accesses\<close>
named_theorems endian \<open>facts on byte loads and stores\<close>

section \<open>Integers\<close>

type_synonym u8 = "8 word"
type_synonym u16 = "16 word"
type_synonym u32 = "32 word"
type_synonym u64 = "64 word"

section \<open>Checked memory\<close>

text \<open>An object of C memory is the list of its elements; a load, a store, a memcpy or a memset
  that leaves the object is None.\<close>

definition c_load :: "'a list \<Rightarrow> nat \<Rightarrow> 'a option" where
  "c_load xs i = (if i < length xs then Some (xs ! i) else None)"

definition c_store :: "'a list \<Rightarrow> nat \<Rightarrow> 'a \<Rightarrow> 'a list option" where
  "c_store xs i v = (if i < length xs then Some (xs[i := v]) else None)"

definition c_memcpy :: "'a list \<Rightarrow> nat \<Rightarrow> 'a list \<Rightarrow> nat \<Rightarrow> nat \<Rightarrow> 'a list option" where
  "c_memcpy dst doff src soff n =
     (if doff + n \<le> length dst \<and> soff + n \<le> length src
      then Some (take doff dst @ take n (drop soff src) @ drop (doff + n) dst) else None)"

definition c_memset :: "'a list \<Rightarrow> nat \<Rightarrow> 'a \<Rightarrow> nat \<Rightarrow> 'a list option" where
  "c_memset dst doff v n =
     (if doff + n \<le> length dst
      then Some (take doff dst @ replicate n v @ drop (doff + n) dst) else None)"

lemma c_load_Some [c_mem]: "i < length xs \<Longrightarrow> c_load xs i = Some (xs ! i)"
  by (simp add: c_load_def)

lemma c_load_None [c_mem]: "length xs \<le> i \<Longrightarrow> c_load xs i = None"
  by (simp add: c_load_def)

lemma c_store_Some [c_mem]: "i < length xs \<Longrightarrow> c_store xs i v = Some (xs[i := v])"
  by (simp add: c_store_def)

lemma c_memcpy_Some [c_mem]:
  "doff + n \<le> length dst \<Longrightarrow> soff + n \<le> length src \<Longrightarrow>
   c_memcpy dst doff src soff n = Some (take doff dst @ take n (drop soff src) @ drop (doff + n) dst)"
  by (simp add: c_memcpy_def)

lemma c_memcpy_length:
  "c_memcpy dst doff src soff n = Some xs \<Longrightarrow> length xs = length dst"
  by (auto simp: c_memcpy_def split: if_splits)

lemma c_memset_length:
  "c_memset dst doff v n = Some xs \<Longrightarrow> length xs = length dst"
  by (auto simp: c_memset_def split: if_splits)

lemma c_store_length: "c_store xs i v = Some ys \<Longrightarrow> length ys = length xs"
  by (auto simp: c_store_def split: if_splits)

lemma c_memcpy_all:
  "length dst = n \<Longrightarrow> soff + n \<le> length src \<Longrightarrow>
   c_memcpy dst 0 src soff n = Some (take n (drop soff src))"
  by (simp add: c_memcpy_def)

lemma c_memset_all [c_mem]: "length dst = n \<Longrightarrow> c_memset dst 0 v n = Some (replicate n v)"
  by (simp add: c_memset_def)

section \<open>C strings\<close>

text \<open>The string at the start of a byte object: the bytes before the first NUL.  A list that holds
  no NUL stands for an object whose terminator follows its last byte.\<close>

definition c_str :: "u8 list \<Rightarrow> u8 list" where
  "c_str bs = takeWhile (\<lambda>b. b \<noteq> 0) bs"

definition bytes :: "string \<Rightarrow> u8 list" where
  "bytes s = map of_char s"

lemma c_str_id: "0 \<notin> set bs \<Longrightarrow> c_str bs = bs"
  by (auto simp: c_str_def)

lemma c_str_nonzero: "0 \<notin> set (c_str bs)"
  by (auto simp: c_str_def dest: set_takeWhileD)

lemma c_str_append_nonzero: "0 \<notin> set as \<Longrightarrow> c_str (as @ bs) = as @ c_str bs"
  by (induction as) (auto simp: c_str_def)

lemma c_str_text: "0 \<notin> set xs \<Longrightarrow> c_str (xs @ 0 # ys) = xs"
  by (simp add: c_str_append_nonzero) (simp add: c_str_def)

lemma length_bytes [simp]: "length (bytes s) = length s"
  by (simp add: bytes_def)

section \<open>Byte order\<close>

text \<open>The little-endian load is the target's \<open>*(uint32_t*)p\<close>; the big-endian one is the shift
  and or of the code.\<close>

definition le32 :: "u8 list \<Rightarrow> nat \<Rightarrow> u32" where
  "le32 bs i = ucast (bs ! i) OR push_bit 8 (ucast (bs ! (i + 1)))
     OR push_bit 16 (ucast (bs ! (i + 2))) OR push_bit 24 (ucast (bs ! (i + 3)))"

definition be32 :: "u8 list \<Rightarrow> nat \<Rightarrow> u32" where
  "be32 bs i = push_bit 24 (ucast (bs ! i)) OR push_bit 16 (ucast (bs ! (i + 1)))
     OR push_bit 8 (ucast (bs ! (i + 2))) OR ucast (bs ! (i + 3))"

definition le64 :: "u8 list \<Rightarrow> nat \<Rightarrow> u64" where
  "le64 bs i = ucast (le32 bs i) OR push_bit 32 (ucast (le32 bs (i + 4)))"

definition be64 :: "u8 list \<Rightarrow> nat \<Rightarrow> u64" where
  "be64 bs i = push_bit 32 (ucast (be32 bs i)) OR ucast (be32 bs (i + 4))"

definition le_bytes32 :: "u32 \<Rightarrow> u8 list" where
  "le_bytes32 w = [ucast w, ucast (drop_bit 8 w), ucast (drop_bit 16 w), ucast (drop_bit 24 w)]"

definition be_bytes32 :: "u32 \<Rightarrow> u8 list" where
  "be_bytes32 w = [ucast (drop_bit 24 w), ucast (drop_bit 16 w), ucast (drop_bit 8 w), ucast w]"

definition le_bytes64 :: "u64 \<Rightarrow> u8 list" where
  "le_bytes64 w = map (\<lambda>i. ucast (drop_bit (8 * i) w)) [0..<8]"

definition be_bytes64 :: "u64 \<Rightarrow> u8 list" where
  "be_bytes64 w = rev (le_bytes64 w)"

lemma length_le_bytes32 [simp]: "length (le_bytes32 w) = 4"
  by (simp add: le_bytes32_def)

lemma length_be_bytes32 [simp]: "length (be_bytes32 w) = 4"
  by (simp add: be_bytes32_def)

lemma length_le_bytes64 [simp]: "length (le_bytes64 w) = 8"
  by (simp add: le_bytes64_def)

lemma length_be_bytes64 [simp]: "length (be_bytes64 w) = 8"
  by (simp add: be_bytes64_def)

section \<open>printf conversions\<close>

text \<open>The conversions \<open>%x\<close>, \<open>%0Nx\<close> and \<open>%Nx\<close> on an unsigned value.\<close>

definition hex_digit :: "nat \<Rightarrow> char" where
  "hex_digit d = char_of (if d < 10 then 48 + d else 87 + d)"

fun fmt_x :: "nat \<Rightarrow> string" where
  "fmt_x n = (if n < 16 then [hex_digit n] else fmt_x (n div 16) @ [hex_digit (n mod 16)])"

declare fmt_x.simps [simp del]

definition fmt_pad :: "char \<Rightarrow> nat \<Rightarrow> nat \<Rightarrow> string" where
  "fmt_pad c w n = (let s = fmt_x n in replicate (w - length s) c @ s)"

abbreviation fmt_0x :: "nat \<Rightarrow> nat \<Rightarrow> string" where
  "fmt_0x w n \<equiv> fmt_pad (CHR ''0'') w n"

text \<open>The conversion \<open>%i\<close> on a value that is not negative.\<close>

fun fmt_i :: "nat \<Rightarrow> string" where
  "fmt_i n = (if n < 10 then [char_of (48 + n)] else fmt_i (n div 10) @ [char_of (48 + n mod 10)])"

declare fmt_i.simps [simp del]

text \<open>Reading hexadecimal text back, as strtol with base 16 does on such text.\<close>

definition hex_value :: "char \<Rightarrow> nat" where
  "hex_value c = (let k = of_char c in if k < 58 then k - 48 else k - (87::nat))"

definition hex_nat :: "string \<Rightarrow> nat" where
  "hex_nat s = foldl (\<lambda>a c. 16 * a + hex_value c) 0 s"

lemma hex_value_digit: "d < 16 \<Longrightarrow> hex_value (hex_digit d) = d"
  by (auto simp: hex_value_def hex_digit_def Let_def of_char_of take_bit_eq_mod)

lemma hex_nat_snoc: "hex_nat (s @ [c]) = 16 * hex_nat s + hex_value c"
  by (simp add: hex_nat_def)

lemma hex_nat_fmt_x: "hex_nat (fmt_x n) = n"
proof (induction n rule: fmt_x.induct)
  case (1 n)
  show ?case
  proof (cases "n < 16")
    case True
    then show ?thesis by (simp add: fmt_x.simps [of n] hex_nat_def hex_value_digit)
  next
    case False
    then show ?thesis using 1 by (simp add: fmt_x.simps [of n] hex_nat_snoc hex_value_digit)
  qed
qed

lemma hex_nat_zeros: "hex_nat (replicate k (CHR ''0'') @ s) = hex_nat s"
  by (induction k) (simp_all add: hex_nat_def hex_value_def)

lemma hex_nat_fmt_0x: "hex_nat (fmt_0x w n) = n"
  by (simp add: fmt_pad_def Let_def hex_nat_zeros hex_nat_fmt_x)

lemma fmt_x_length_pos: "0 < length (fmt_x n)"
  by (subst fmt_x.simps) simp

lemma fmt_x_length: "n < 16 ^ w \<Longrightarrow> 0 < w \<Longrightarrow> length (fmt_x n) \<le> w"
proof (induction w arbitrary: n)
  case 0
  then show ?case by simp
next
  case (Suc w)
  show ?case
  proof (cases "n < 16")
    case True
    then show ?thesis by (subst fmt_x.simps) simp
  next
    case False
    have "n div 16 < 16 ^ w" using Suc.prems(1) by (simp add: less_mult_imp_div_less)
    moreover have "0 < w" using False Suc.prems(1) by (cases w) auto
    ultimately have "length (fmt_x (n div 16)) \<le> w" by (rule Suc.IH)
    then show ?thesis using False by (subst fmt_x.simps) simp
  qed
qed

lemma fmt_0x_length: "n < 16 ^ w \<Longrightarrow> 0 < w \<Longrightarrow> length (fmt_pad c w n) = w"
  using fmt_x_length [of n w] by (simp add: fmt_pad_def Let_def)

lemma fmt_0x_inject: "fmt_0x w m = fmt_0x w n \<Longrightarrow> m = n"
  by (metis hex_nat_fmt_0x)

section \<open>Lists\<close>

lemma fold_invariant:
  "P s \<Longrightarrow> (\<And>x s. P s \<Longrightarrow> P (f x s)) \<Longrightarrow> P (fold f xs s)"
  by (induction xs arbitrary: s) auto

lemma list_update_swap_mset:
  "i < length xs \<Longrightarrow> j < length xs \<Longrightarrow> mset (xs[i := xs ! j, j := xs ! i]) = mset xs"
  by (rule mset_swap)

end
