(* ===== verification/Words.thy ===== *)
theory Words
  imports Prelude
begin

text \<open>
  Facts on machine words the hash components share: the steps that hash functions are made of
  (multiplication by an odd constant, a shift added or xored to the word itself, the reduction step
  of a cyclic redundancy check) lose no information.
\<close>

unbundle bit_operations_syntax

named_theorems word_inj \<open>steps on words that are injective\<close>

lemma mult_inverse_inject:
  fixes x y :: "'a::len word"
  assumes "c * d = 1" and "x * c = y * c"
  shows "x = y"
proof -
  have "x * c * d = y * c * d" using assms(2) by simp
  then show ?thesis using assms(1) by (simp add: mult.assoc)
qed

lemma add_push_bit: "x + push_bit n x = x * (1 + 2 ^ n)" for x :: "'a::len word"
  by (simp add: push_bit_eq_mult algebra_simps)

lemma eq_drop_bit_0:
  fixes z :: "'a::len word"
  assumes "z = drop_bit n z" and "0 < n"
  shows "z = 0"
proof (rule ccontr)
  assume "z \<noteq> 0"
  then have pos: "0 < unat z" by (simp add: unat_gt_0)
  have "unat z = unat z div 2 ^ n" using assms(1) by (metis unat_drop_bit_eq drop_bit_eq_div)
  moreover have "unat z div 2 ^ n < unat z" using pos assms(2) by (intro div_less_dividend one_less_power) simp_all
  ultimately show False by simp
qed

lemma xor_zero_eq:
  fixes x y :: "'a::len word"
  assumes "x XOR y = 0"
  shows "x = y"
proof (rule bit_eqI)
  fix k
  have "bit (x XOR y) k = bit 0 k" using assms by simp
  then show "bit x k = bit y k" by (simp add: bit_xor_iff)
qed

lemma xor_drop_bit_inject:
  fixes x y :: "'a::len word"
  assumes "x XOR drop_bit n x = y XOR drop_bit n y" and "0 < n"
  shows "x = y"
proof -
  have "x XOR y = drop_bit n (x XOR y)"
  proof (rule bit_eqI)
    fix k
    have "bit (x XOR drop_bit n x) k = bit (y XOR drop_bit n y) k" using assms(1) by simp
    then show "bit (x XOR y) k = bit (drop_bit n (x XOR y)) k" by (auto simp: bit_simps)
  qed
  then have "x XOR y = 0" using assms(2) by (rule eq_drop_bit_0)
  then show ?thesis by (rule xor_zero_eq)
qed

lemma xor_cancel_right: "(x XOR a = y XOR a) \<longleftrightarrow> x = y" for x y a :: "'a::len word"
  by (metis xor.assoc xor.right_neutral xor_self_eq)

lemma xor_cancel_left: "(a XOR x = a XOR y) \<longleftrightarrow> x = y" for x y a :: "'a::len word"
  by (metis xor.commute xor_cancel_right)

lemma ucast_u8_inject:
  fixes x y :: u8
  assumes "8 \<le> LENGTH('b)" and "(ucast x :: 'b::len word) = ucast y"
  shows "x = y"
proof -
  have "unat (ucast z :: 'b word) = unat z" for z :: u8
  proof -
    have "unat z < 2 ^ 8" using unsigned_less [of z, where ?'a = nat] by simp
    also have "\<dots> \<le> 2 ^ LENGTH('b)" using assms(1) by (intro power_increasing) auto
    finally show ?thesis by (simp add: unsigned_ucast_eq take_bit_nat_eq_self)
  qed
  then show ?thesis using assms(2) by (metis word_unat_eq_iff)
qed

lemma push_bit_or_add:
  fixes a b :: "'a::len word"
  assumes "unat b < 2 ^ n"
  shows "push_bit n a OR b = push_bit n a + b"
proof -
  have small: "bit b k \<Longrightarrow> k < n" for k
  proof -
    assume "bit b k"
    then have "bit (unat b) k" by (simp add: bit_unsigned_iff)
    moreover have "take_bit n (unat b) = unat b" using assms by (simp add: take_bit_nat_eq_self)
    ultimately show "k < n" by (metis bit_take_bit_iff)
  qed
  have "push_bit n a AND b = 0"
    by (rule bit_word_eqI) (auto simp: bit_simps dest: small)
  then show ?thesis by (simp add: disjunctive_add_eq_or)
qed

lemma unat_add_small:
  fixes a b :: "'a::len word"
  shows "unat a + unat b < 2 ^ LENGTH('a) \<Longrightarrow> unat (a + b) = unat a + unat b"
  by (simp add: unat_word_ariths)

lemma unat_u8_less: "unat (x :: u8) < 256"
  using unsigned_less [of x, where ?'a = nat] by simp

lemma unat_u16_less: "unat (x :: u16) < 65536"
  using unsigned_less [of x, where ?'a = nat] by simp

lemma unat_ucast8: "unat (ucast (w :: 'a::len word) :: u8) = unat w mod 256"
  by (simp add: unsigned_ucast_eq take_bit_eq_mod)

lemma unat_ucast16: "unat (ucast (w :: 'a::len word) :: u16) = unat w mod 65536"
  by (simp add: unsigned_ucast_eq take_bit_eq_mod)

lemma ucast_down_add:
  fixes x y :: "'a::len word"
  assumes "LENGTH('b) \<le> LENGTH('a)"
  shows "(ucast (x + y) :: 'b::len word) = ucast x + ucast y"
proof -
  have "(2::nat) ^ LENGTH('b) dvd 2 ^ LENGTH('a)" using assms by (rule le_imp_power_dvd)
  then show ?thesis
    by (simp add: word_unat_eq_iff unsigned_ucast_eq take_bit_eq_mod unat_word_ariths
        mod_mod_cancel mod_add_eq)
qed

section \<open>The step of a reflected cyclic redundancy check\<close>

definition crc_shift :: "'a::len word \<Rightarrow> 'a word \<Rightarrow> 'a word" where
  "crc_shift poly s = drop_bit 1 s XOR (if odd s then poly else 0)"

lemma crc_shift_inject:
  fixes s t poly :: "'a::len word"
  assumes top: "bit poly (LENGTH('a) - 1)" and eq: "crc_shift poly s = crc_shift poly t"
  shows "s = t"
proof -
  have lsb: "bit (crc_shift poly u) (LENGTH('a) - 1) = odd u" for u
    using top by (auto simp: crc_shift_def bit_simps bit_imp_le_length dest: bit_imp_le_length)
  then have odd: "odd s = odd t" using eq by metis
  then have "drop_bit 1 s = drop_bit 1 t"
    using eq by (simp add: crc_shift_def xor_cancel_right)
  then have "bit (drop_bit 1 s) j = bit (drop_bit 1 t) j" for j by simp
  then have "bit s (Suc j) = bit t (Suc j)" for j by (simp add: bit_drop_bit_eq)
  then have "bit s k = bit t k" for k using odd by (cases k) (simp_all add: bit_0)
  then show ?thesis by (rule bit_eqI)
qed

lemma crc_shift_xor: "crc_shift poly (s XOR t) = crc_shift poly s XOR crc_shift poly t"
  by (auto simp: crc_shift_def drop_bit_xor even_xor_iff ac_simps)

lemma crc_shift_funpow_inject:
  fixes poly :: "'a::len word"
  assumes "bit poly (LENGTH('a) - 1)"
  shows "(crc_shift poly ^^ n) s = (crc_shift poly ^^ n) t \<Longrightarrow> s = t"
  by (induction n arbitrary: s t) (auto dest!: crc_shift_inject [OF assms])

lemma crc_shift_funpow_iff:
  fixes poly :: "'a::len word"
  assumes "bit poly (LENGTH('a) - 1)"
  shows "(crc_shift poly ^^ n) s = (crc_shift poly ^^ n) t \<longleftrightarrow> s = t"
  using crc_shift_funpow_inject [OF assms] by auto

lemma and_1_odd: "w AND 1 \<noteq> 0 \<longleftrightarrow> odd w" for w :: "'a::len word"
  by (simp add: and_one_eq mod2_eq_if)

lemma xor_xor_cancel: "e XOR (x XOR e) = x" "(e XOR x) XOR e = x" for e x :: "'a::len word"
  by (metis xor.commute xor.assoc xor.right_neutral xor_self_eq)+

lemma drop_bit_8_u8: "drop_bit 8 (x :: u8) = 0" "drop_bit 8 (ucast (x :: u8) :: u32) = 0"
  by (rule bit_word_eqI, auto simp: bit_simps dest: bit_imp_le_length)+

end
