(* ===== verification/StreamHash.thy ===== *)
theory StreamHash
  imports Words
begin

text \<open>
  What every incremental hash of \<open>src/src/hash\<close> offers, and the Lua objects around it.
  The locale \<open>stream_hash\<close> is the contract of an init / update / final family with its one-shot
  function; \<open>detecting_hash\<close> adds that no step loses information.  The second half models the
  macros of \<open>src/src/crypto.h\<close>, which turn such a family into userdata objects of a Lua heap
  with update, the + operator (clone, then update the clone) and final.
\<close>

section \<open>The interface\<close>

locale stream_hash =
  fixes init :: "'s" and update :: "u8 list \<Rightarrow> 's \<Rightarrow> 's" and final :: "'s \<Rightarrow> 'd"
    and oneshot :: "u8 list \<Rightarrow> 'd"
  assumes update_Nil: "update [] s = s"
    and update_append: "update (xs @ ys) s = update ys (update xs s)"
    and oneshot: "oneshot xs = final (update xs init)"
begin

lemma fold_update: "fold update css s = update (concat css) s"
  by (induction css arbitrary: s) (simp_all add: update_Nil update_append)

lemma chunks: "final (fold update css init) = oneshot (concat css)"
  by (simp add: fold_update oneshot)

lemma update_Cons: "update (x # xs) s = update xs (update [x] s)"
  using update_append [of "[x]" xs s] by simp

lemma bytewise: "final (fold (\<lambda>b. update [b]) xs init) = oneshot xs"
proof -
  have "fold (\<lambda>b. update [b]) xs s = update xs s" for s
    by (induction xs arbitrary: s) (simp_all add: update_Nil flip: update_Cons)
  then show ?thesis by (simp add: oneshot)
qed

end

locale detecting_hash = stream_hash init update final oneshot
  for init :: "'s" and update :: "u8 list \<Rightarrow> 's \<Rightarrow> 's" and final :: "'s \<Rightarrow> 'd"
    and oneshot :: "u8 list \<Rightarrow> 'd" +
  assumes state_inj: "update [x] s = update [x] t \<Longrightarrow> s = t"
    and byte_inj: "update [x] s = update [y] s \<Longrightarrow> x = y"
    and final_inj: "final s = final t \<Longrightarrow> s = t"
begin

lemma update_inject: "update xs s = update xs t \<Longrightarrow> s = t"
proof (induction xs arbitrary: s t)
  case Nil
  then show ?case by (simp add: update_Nil)
next
  case (Cons x xs)
  then have "update xs (update [x] s) = update xs (update [x] t)" by (metis update_Cons)
  then have "update [x] s = update [x] t" by (rule Cons.IH)
  then show ?case by (rule state_inj)
qed

lemma detects_byte:
  assumes "x \<noteq> y"
  shows "oneshot (as @ x # bs) \<noteq> oneshot (as @ y # bs)"
proof
  have split: "oneshot (as @ z # bs) = final (update bs (update [z] (update as init)))" for z
    by (metis oneshot update_append update_Cons)
  assume "oneshot (as @ x # bs) = oneshot (as @ y # bs)"
  then have "update [x] (update as init) = update [y] (update as init)"
    by (metis split final_inj update_inject)
  then have "x = y" by (rule byte_inj)
  with assms show False by simp
qed

end

section \<open>Hash objects in Lua\<close>

text \<open>The Lua heap of hash objects: userdata blocks by address, and the next free address.
  An update that is undefined (None) or an argument that is no object ends the call.\<close>

record 's ud_heap =
  ud :: "nat \<Rightarrow> 's option"
  ud_next :: nat

definition ud_wf :: "'s ud_heap \<Rightarrow> bool" where
  "ud_wf hp \<longleftrightarrow> (\<forall>r. ud hp r \<noteq> None \<longrightarrow> r < ud_next hp)"

definition l_hash_init :: "'s \<Rightarrow> 's ud_heap \<Rightarrow> nat \<times> 's ud_heap" where
  "l_hash_init initf hp =
     (ud_next hp, hp\<lparr>ud := (ud hp)(ud_next hp \<mapsto> initf), ud_next := Suc (ud_next hp)\<rparr>)"

definition l_hash_update ::
  "(u8 list \<Rightarrow> 's \<Rightarrow> 's option) \<Rightarrow> nat \<Rightarrow> u8 list \<Rightarrow> 's ud_heap \<Rightarrow> (nat \<times> 's ud_heap) option" where
  "l_hash_update upd r b hp =
     (case ud hp r of None \<Rightarrow> None
      | Some a \<Rightarrow> (case upd b a of None \<Rightarrow> None
                 | Some a' \<Rightarrow> Some (r, hp\<lparr>ud := (ud hp)(r \<mapsto> a')\<rparr>)))"

definition l_hash_clone ::
  "'s \<Rightarrow> ('s \<Rightarrow> 's \<Rightarrow> 's) \<Rightarrow> nat \<Rightarrow> 's ud_heap \<Rightarrow> (nat \<times> 's ud_heap) option" where
  "l_hash_clone initf copy r hp =
     (case ud hp r of None \<Rightarrow> None
      | Some a \<Rightarrow> (case l_hash_init initf hp of (q, hp') \<Rightarrow>
           (case ud hp' q of None \<Rightarrow> None
            | Some b \<Rightarrow> Some (q, hp'\<lparr>ud := (ud hp')(q \<mapsto> copy a b)\<rparr>))))"

definition l_hash_add ::
  "'s \<Rightarrow> ('s \<Rightarrow> 's \<Rightarrow> 's) \<Rightarrow> (u8 list \<Rightarrow> 's \<Rightarrow> 's option) \<Rightarrow> nat \<Rightarrow> u8 list \<Rightarrow> 's ud_heap
     \<Rightarrow> (nat \<times> 's ud_heap) option" where
  "l_hash_add initf copy upd r b hp =
     (case l_hash_clone initf copy r hp of None \<Rightarrow> None
      | Some (q, hp') \<Rightarrow> l_hash_update upd q b hp')"

text \<open>What a hash function of the Lua module returns: called without an input the object its init
  function makes, called with one the digest.\<close>

datatype 's lua_hash = HashObject 's | Digest string

definition lua_hash_call ::
  "'s option \<Rightarrow> (u8 list \<Rightarrow> string option) \<Rightarrow> u8 list list \<Rightarrow> 's lua_hash option" where
  "lua_hash_call init_l oneshot args =
     (case args of [] \<Rightarrow> map_option HashObject init_l | a # _ \<Rightarrow> map_option Digest (oneshot a))"

text \<open>The clone macro's \<open>*b = *a\<close>.\<close>

definition struct_copy :: "'s \<Rightarrow> 's \<Rightarrow> 's" where
  "struct_copy a b = a"

lemma l_hash_clone_Some:
  "ud hp r = Some a \<Longrightarrow>
   l_hash_clone initf copy r hp =
     Some (ud_next hp, hp\<lparr>ud := (ud hp)(ud_next hp \<mapsto> copy a initf), ud_next := Suc (ud_next hp)\<rparr>)"
  by (simp add: l_hash_clone_def l_hash_init_def)

lemma l_hash_add_Some:
  "ud hp r = Some a \<Longrightarrow> upd b (copy a initf) = Some a' \<Longrightarrow>
   l_hash_add initf copy upd r b hp =
     Some (ud_next hp, hp\<lparr>ud := (ud hp)(ud_next hp \<mapsto> a'), ud_next := Suc (ud_next hp)\<rparr>)"
  by (simp add: l_hash_add_def l_hash_clone_Some l_hash_update_def)

lemma ud_wf_init: "ud_wf hp \<Longrightarrow> ud_wf (snd (l_hash_init initf hp))"
  by (auto simp: ud_wf_def l_hash_init_def less_Suc_eq)

lemma ud_wf_update: "ud_wf hp \<Longrightarrow> l_hash_update upd r b hp = Some (q, hp') \<Longrightarrow> ud_wf hp'"
  by (force simp: ud_wf_def l_hash_update_def split: option.splits if_splits)

lemma ud_wf_clone: "ud_wf hp \<Longrightarrow> l_hash_clone initf copy r hp = Some (q, hp') \<Longrightarrow> ud_wf hp'"
  by (auto simp: ud_wf_def l_hash_clone_def l_hash_init_def less_Suc_eq split: option.splits)

lemma ud_wf_add: "ud_wf hp \<Longrightarrow> l_hash_add initf copy upd r b hp = Some (q, hp') \<Longrightarrow> ud_wf hp'"
  by (auto simp: l_hash_add_def split: option.splits prod.splits dest: ud_wf_clone ud_wf_update)

text \<open>The + operator never touches an object that existed before it.\<close>

lemma l_hash_add_frame:
  assumes wf: "ud_wf hp" and add: "l_hash_add initf copy upd r b hp = Some (q, hp')"
  shows "ud hp q = None" and "p \<noteq> q \<Longrightarrow> ud hp' p = ud hp p"
    and "\<exists>a. ud hp r = Some a \<and> ud hp' q = upd b (copy a initf)"
proof -
  from add obtain a where a: "ud hp r = Some a"
    by (auto simp: l_hash_add_def l_hash_clone_def split: option.splits)
  with add obtain a' where a': "upd b (copy a initf) = Some a'"
    by (auto simp: l_hash_add_def l_hash_clone_Some l_hash_update_def split: option.splits)
  have q: "q = ud_next hp" and hp': "ud hp' = (ud hp)(ud_next hp \<mapsto> a')"
    using add l_hash_add_Some [of hp r a upd b copy initf a'] a a' by auto
  show "ud hp q = None" using wf q by (auto simp: ud_wf_def)
  show "p \<noteq> q \<Longrightarrow> ud hp' p = ud hp p" using q hp' by simp
  show "\<exists>a. ud hp r = Some a \<and> ud hp' q = upd b (copy a initf)" using a a' q hp' by simp
qed

end
