(* ===== verification/Rotate.thy ===== *)
theory Rotate
  imports Prelude
begin

text \<open>
  The rotations of \<open>src/src/crypto.c\<close>.  C leaves a shift by a negative count or by at least the
  operand's width undefined.  Each rotation has its value, in which the shift count is taken
  modulo the width of the shifted operand as the x86 shift instructions do, and a predicate that
  says for which offsets C defines it (\<open>rotr32\<close> reduces its counts itself and is always
  defined).  Narrow operands are promoted to int (32 bits) first.  Within the defined offsets each
  is the rotation of the library.
\<close>

unbundle bit_operations_syntax

named_theorems rotates \<open>the rotations of the code as rotations of words\<close>

definition rotl8 :: "u8 \<Rightarrow> u8 \<Rightarrow> u8" where
  "rotl8 y offset =
     (let i = (ucast y :: u32); n = (ucast offset :: u32)
      in ucast (push_bit (unat n mod 32) i OR drop_bit (unat (8 - n) mod 32) i))"

definition rotl8_defined :: "u8 \<Rightarrow> bool" where
  "rotl8_defined offset \<longleftrightarrow> offset \<le> 8"

definition rotl16 :: "u16 \<Rightarrow> u16 \<Rightarrow> u16" where
  "rotl16 y offset =
     (let i = (ucast y :: u32); n = (ucast offset :: u32)
      in ucast (push_bit (unat n mod 32) i OR drop_bit (unat (16 - n) mod 32) i))"

definition rotl16_defined :: "u16 \<Rightarrow> bool" where
  "rotl16_defined offset \<longleftrightarrow> offset \<le> 16"

definition rotl32 :: "u32 \<Rightarrow> u32 \<Rightarrow> u32" where
  "rotl32 y offset = push_bit (unat offset mod 32) y OR drop_bit (unat (32 - offset) mod 32) y"

definition rotl32_defined :: "u32 \<Rightarrow> bool" where
  "rotl32_defined offset \<longleftrightarrow> 0 < offset \<and> offset < 32"

definition rotr32 :: "u32 \<Rightarrow> u32 \<Rightarrow> u32" where
  "rotr32 x n = drop_bit (unat (n mod 32)) x OR push_bit (unat ((32 - n) mod 32)) x"

definition rotl64 :: "u64 \<Rightarrow> u64 \<Rightarrow> u64" where
  "rotl64 y offset = push_bit (unat offset mod 64) y OR drop_bit (unat (64 - offset) mod 64) y"

definition rotr64 :: "u64 \<Rightarrow> u64 \<Rightarrow> u64" where
  "rotr64 x n = drop_bit (unat n mod 64) x OR push_bit (unat (64 - n) mod 64) x"

definition rot64_defined :: "u64 \<Rightarrow> bool" where
  "rot64_defined offset \<longleftrightarrow> 0 < offset \<and> offset < 64"

text \<open>A left and a right shift by complementary counts make a rotation.\<close>

lemma shifts_rotl:
  fixes w :: "'a::len word"
  assumes "n \<le> LENGTH('a)"
  shows "push_bit n w OR drop_bit (LENGTH('a) - n) w = word_rotl n w"
proof (rule bit_word_eqI)
  fix k assume k: "k < LENGTH('a)"
  show "bit (push_bit n w OR drop_bit (LENGTH('a) - n) w) k = bit (word_rotl n w) k"
  proof (cases "n \<le> k")
    case True
    have "\<not> bit w (LENGTH('a) - n + k)" using True k assms by (auto dest: bit_imp_le_length)
    moreover have "(k + (LENGTH('a) - n)) mod LENGTH('a) = k - n"
      using True k assms by (simp add: mod_if)
    ultimately show ?thesis using True k assms
      by (cases "n = LENGTH('a)") (auto simp: bit_simps)
  next
    case False
    have "k + (LENGTH('a) - n) = LENGTH('a) - n + k" by simp
    then show ?thesis using False k assms
      by (cases "n = LENGTH('a)") (auto simp: bit_simps add.commute [of k])
  qed
qed

lemma word_rotr_mod: "word_rotr (m mod LENGTH('a)) w = word_rotr m (w :: 'a::len word)"
  by (rule bit_word_eqI) (simp add: bit_word_rotr_iff mod_add_right_eq)

lemma word_rotr_0: "word_rotr 0 w = (w :: 'a::len word)"
  by (rule bit_word_eqI) (simp add: bit_word_rotr_iff)

lemma shifts_rotr:
  fixes w :: "'a::len word"
  assumes "n \<le> LENGTH('a)"
  shows "drop_bit n w OR push_bit (LENGTH('a) - n) w = word_rotr n w"
proof -
  have full: "word_rotr LENGTH('a) w = w"
    using word_rotr_mod [of "LENGTH('a)" w] by (simp add: word_rotr_0)
  have "word_rotl (LENGTH('a) - n) w = word_rotr n w"
    using assms by (cases "n = 0"; cases "n = LENGTH('a)")
      (simp_all add: word_rotl_eq_word_rotr full word_rotr_0)
  then show ?thesis using shifts_rotl [of "LENGTH('a) - n" w] assms by (simp add: or.commute)
qed

lemma rotl32_word_rotl [rotates]:
  assumes "rotl32_defined n"
  shows "rotl32 y n = word_rotl (unat n) y"
proof -
  have n: "0 < unat n" "unat n < 32"
    using assms by (auto simp: rotl32_defined_def word_less_nat_alt)
  have "unat (32 - n) = 32 - unat n"
    using n by (simp add: unat_sub word_le_nat_alt)
  then show ?thesis using n shifts_rotl [of "unat n" y] by (simp add: rotl32_def)
qed

lemma rotl64_word_rotl [rotates]:
  assumes "rot64_defined n"
  shows "rotl64 y n = word_rotl (unat n) y"
proof -
  have n: "0 < unat n" "unat n < 64"
    using assms by (auto simp: rot64_defined_def word_less_nat_alt)
  have "unat (64 - n) = 64 - unat n"
    using n by (simp add: unat_sub word_le_nat_alt)
  then show ?thesis using n shifts_rotl [of "unat n" y] by (simp add: rotl64_def)
qed

lemma rotr64_word_rotr [rotates]:
  assumes "rot64_defined n"
  shows "rotr64 y n = word_rotr (unat n) y"
proof -
  have n: "0 < unat n" "unat n < 64"
    using assms by (auto simp: rot64_defined_def word_less_nat_alt)
  have "unat (64 - n) = 64 - unat n"
    using n by (simp add: unat_sub word_le_nat_alt)
  then show ?thesis using n shifts_rotr [of "unat n" y] by (simp add: rotr64_def)
qed

lemma mod_32_complement:
  assumes "m \<le> 32 * c"
  shows "(32 * c - m) mod 32 = (32 - m mod 32) mod (32 :: nat)"
proof (cases "m mod 32 = 0")
  case True
  then have "m = 32 * (m div 32)" using mult_div_mod_eq [of 32 m] by simp
  then have "32 * c - m = 32 * (c - m div 32)" by (metis diff_mult_distrib2)
  then show ?thesis using True by simp
next
  case False
  define q r where "q = m div 32" and "r = m mod 32"
  have m: "m = 32 * q + r" and r: "0 < r" "r < 32" using False by (auto simp: q_def r_def)
  with assms have "q < c" by simp
  then obtain d where "c = q + 1 + d" by (auto simp: less_iff_Suc_add)
  then have "32 * c - m = 32 * d + (32 - r)" using m r by simp
  then have "(32 * c - m) mod 32 = (32 - r) mod 32" by (simp only: mod_mult_self4)
  then show ?thesis by (simp only: r_def)
qed

lemma unat_mod_32: "unat (n mod 32 :: u32) = unat n mod 32"
  by (simp add: unat_mod)

lemma unat_neg_mod_32: "unat (32 - n :: u32) mod 32 = (32 - unat n mod 32) mod 32"
proof (cases "n \<le> 32")
  case True
  then have "unat n \<le> 32 * 1" by (simp add: word_le_nat_alt)
  moreover have "unat (32 - n) = 32 * 1 - unat n" using True by (simp add: unat_sub)
  ultimately show ?thesis using mod_32_complement [of "unat n" 1] by (simp only:)
next
  case False
  have "unat n \<le> 32 * (1 + 2 ^ 27)" using unsigned_less [of n, where ?'a = nat] by simp
  moreover have "unat (32 - n) = 32 * (1 + 2 ^ 27) - unat n"
    using False by (simp add: unat_sub_if_size word_size word_le_nat_alt)
  ultimately show ?thesis using mod_32_complement [of "unat n" "1 + 2 ^ 27"] by (simp only:)
qed

lemma rotr32_word_rotr [rotates]: "rotr32 x n = word_rotr (unat n) x"
proof -
  define m where "m = unat n mod 32"
  have "rotr32 x n = drop_bit m x OR push_bit ((32 - m) mod 32) x"
    by (simp only: rotr32_def unat_mod_32 unat_neg_mod_32 m_def)
  also have "\<dots> = word_rotr m x"
  proof (cases "m = 0")
    case True
    then show ?thesis by (simp add: word_rotr_0)
  next
    case False
    moreover have "m < 32" by (simp add: m_def)
    ultimately show ?thesis using shifts_rotr [of m x] by simp
  qed
  also have "\<dots> = word_rotr (unat n) x"
    using word_rotr_mod [of "unat n" x] by (simp add: m_def)
  finally show ?thesis .
qed

lemma unat_ucast_u32 [simp]: "unat (ucast (x :: u8) :: u32) = unat x"
  using unsigned_less [of x, where ?'a = nat] by (simp add: unsigned_ucast_eq take_bit_nat_eq_self)

lemma unat_ucast16_u32 [simp]: "unat (ucast (x :: u16) :: u32) = unat x"
  using unsigned_less [of x, where ?'a = nat] by (simp add: unsigned_ucast_eq take_bit_nat_eq_self)

end
