(* ===== verification/Checksums.thy ===== *)
theory Checksums
  imports StreamHash Rotate
begin

text \<open>
  The checksums of \<open>src/src/hash\<close>: adler.c, bsdchecksum.c, fletcher.c (three widths),
  sysvchecksum.c, xor.c, loselose.c and pearson.c.  Each section has the struct as a record, the
  init / update / final functions, the one-shot function and the Lua-facing functions, which print
  the digest (\<open>l_X_final\<close> and \<open>l_X\<close>, the latter on one argument; with none it is \<open>l_X_init\<close>, the
  object constructor of StreamHash).  A loop over the input bytes is a fold.  Narrow operands are
  promoted to int, 32 bits, before arithmetic, as C does.
\<close>

unbundle bit_operations_syntax

definition byte_sum :: "u8 list \<Rightarrow> nat" where
  "byte_sum bs = sum_list (map unat bs)"

primrec weighted_sum :: "u8 list \<Rightarrow> nat" where
  "weighted_sum [] = 0"
| "weighted_sum (x # xs) = (length xs + 1) * unat x + weighted_sum xs"

lemma byte_sum_simps [simp]: "byte_sum [] = 0" "byte_sum (x # xs) = unat x + byte_sum xs"
  by (simp_all add: byte_sum_def)

section \<open>adler.c\<close>

record adler32_hash =
  ad_a :: u16
  ad_b :: u16

definition adler32_init :: adler32_hash where
  "adler32_init = \<lparr>ad_a = 1, ad_b = 0\<rparr>"

definition adler32_update :: "u8 list \<Rightarrow> adler32_hash \<Rightarrow> adler32_hash" where
  "adler32_update aa hash = fold (\<lambda>x h.
     let h = h\<lparr>ad_a := ad_a h + ucast x\<rparr> in h\<lparr>ad_b := ad_b h + ad_a h\<rparr>) aa hash"

definition adler32_final :: "adler32_hash \<Rightarrow> u32" where
  "adler32_final hash = ucast (ad_b hash) * 65536 + ucast (ad_a hash)"

definition adler32 :: "u8 list \<Rightarrow> u32" where
  "adler32 aa = adler32_final (adler32_update aa adler32_init)"

definition l_adler32_final :: "adler32_hash \<Rightarrow> string" where
  "l_adler32_final a = fmt_0x 8 (unat (adler32_final a))"

definition l_adler32 :: "u8 list \<Rightarrow> string" where
  "l_adler32 a = fmt_0x 8 (unat (adler32 a))"

lemma adler32_sums:
  "ad_a (adler32_update bs h) = ad_a h + of_nat (byte_sum bs) \<and>
   ad_b (adler32_update bs h) = ad_b h + of_nat (length bs) * ad_a h + of_nat (weighted_sum bs)"
proof (induction bs arbitrary: h)
  case Nil
  then show ?case by (simp add: adler32_update_def)
next
  case (Cons x xs)
  have "adler32_update (x # xs) h = adler32_update xs
      (h\<lparr>ad_a := ad_a h + ucast x, ad_b := ad_b h + (ad_a h + ucast x)\<rparr>)"
    by (simp add: adler32_update_def Let_def)
  then show ?case using Cons.IH by (simp add: algebra_simps)
qed

lemma digits_inject:
  fixes a b c d k :: nat
  assumes "b * k + a = d * k + c" and "a < k" and "c < k"
  shows "a = c \<and> b = d"
proof -
  have "(b * k + a) mod k = (d * k + c) mod k" "(b * k + a) div k = (d * k + c) div k"
    using assms(1) by simp_all
  then show ?thesis using assms(2,3) by simp
qed

lemma unat_u16_pair: "unat (ucast y * 65536 + ucast x :: u32) = unat y * 65536 + unat x"
  for x y :: u16
proof -
  have "unat x < 65536" "unat y < 65536"
    using unsigned_less [of x, where ?'a = nat] unsigned_less [of y, where ?'a = nat] by simp_all
  then have "unat y * 65536 + unat x < 2 ^ 32" by simp
  then show ?thesis by (simp only: unat_word_ariths unat_ucast16_u32) (simp add: mod_if)
qed

lemma u16_pair_inject:
  fixes a b c d :: u16
  assumes "ucast b * 65536 + ucast a = (ucast d * 65536 + ucast c :: u32)"
  shows "a = c \<and> b = d"
proof -
  have "unat b * 65536 + unat a = unat d * 65536 + unat c"
    using assms by (metis unat_u16_pair)
  moreover have "unat a < 65536" "unat c < 65536"
    using unsigned_less [of a, where ?'a = nat] unsigned_less [of c, where ?'a = nat] by simp_all
  ultimately have "unat a = unat c \<and> unat b = unat d" by (rule digits_inject)
  then show ?thesis by (simp add: word_unat_eq_iff)
qed

interpretation adler32_s: detecting_hash adler32_init adler32_update adler32_final adler32
proof unfold_locales
  show "adler32_update [x] s = adler32_update [x] t \<Longrightarrow> s = t" for x s t
    by (cases s; cases t) (simp add: adler32_update_def Let_def)
  show "adler32_update [x] s = adler32_update [y] s \<Longrightarrow> x = y" for x y s
    by (cases s) (auto simp: adler32_update_def Let_def dest: ucast_u8_inject [rotated])
  show "adler32_final s = adler32_final t \<Longrightarrow> s = t" for s t
    by (cases s; cases t) (auto simp: adler32_final_def dest: u16_pair_inject)
qed (simp_all add: adler32_update_def adler32_def)

section \<open>bsdchecksum.c\<close>

record bsdchecksum_hash =
  bsd_check :: u16

definition bsdchecksum_init :: bsdchecksum_hash where
  "bsdchecksum_init = \<lparr>bsd_check = 0\<rparr>"

definition bsdchecksum_update :: "u8 list \<Rightarrow> bsdchecksum_hash \<Rightarrow> bsdchecksum_hash" where
  "bsdchecksum_update aa hash = fold (\<lambda>a h.
     let c = drop_bit 1 (bsd_check h) + push_bit 15 (bsd_check h AND 1);
         c = c + ucast a
     in h\<lparr>bsd_check := c AND 0xffff\<rparr>) aa hash"

definition bsdchecksum_final :: "bsdchecksum_hash \<Rightarrow> u16" where
  "bsdchecksum_final hash = bsd_check hash"

definition bsdchecksum :: "u8 list \<Rightarrow> u16" where
  "bsdchecksum a = bsdchecksum_final (bsdchecksum_update a bsdchecksum_init)"

definition l_bsdchecksum_final :: "bsdchecksum_hash \<Rightarrow> string" where
  "l_bsdchecksum_final a = fmt_i (unat (bsdchecksum_final a))"

definition l_bsdchecksum :: "u8 list \<Rightarrow> string" where
  "l_bsdchecksum a = fmt_i (unat (bsdchecksum a))"

lemma bsd_rotate: "drop_bit 1 c + push_bit 15 (c AND 1) = word_rotr 1 (c :: u16)"
proof -
  have "push_bit 15 (c AND 1) = push_bit 15 c"
  proof (rule bit_word_eqI)
    fix n assume n: "n < LENGTH(16)"
    show "bit (push_bit 15 (c AND 1)) n = bit (push_bit 15 c) n"
    proof (cases "n = 15")
      case True
      then show ?thesis by (simp only: bit_push_bit_iff) (simp add: bit_simps)
    next
      case False
      with n show ?thesis by (simp only: bit_push_bit_iff) simp
    qed
  qed
  moreover have "drop_bit 1 c AND push_bit 15 c = 0"
    by (rule bit_word_eqI) (auto simp: bit_simps dest: bit_imp_le_length)
  ultimately show ?thesis
    using shifts_rotr [of 1 c] by (simp add: disjunctive_add_eq_or)
qed

lemma bsd_step:
  "bsdchecksum_update [a] h = h\<lparr>bsd_check := word_rotr 1 (bsd_check h) + ucast a\<rparr>"
proof -
  have "(0xffff :: u16) = - 1" by simp
  then have "w AND 0xffff = w" for w :: u16 by (metis and.right_neutral)
  then show ?thesis by (simp only: bsdchecksum_update_def fold_simps Let_def bsd_rotate)
qed

interpretation bsdchecksum_s: detecting_hash
  bsdchecksum_init bsdchecksum_update bsdchecksum_final bsdchecksum
proof unfold_locales
  show "bsdchecksum_update [x] s = bsdchecksum_update [x] t \<Longrightarrow> s = t" for x s t
    by (cases s; cases t) (auto simp: bsd_step dest: arg_cong [of _ _ "word_rotl 1"])
  show "bsdchecksum_update [x] s = bsdchecksum_update [y] s \<Longrightarrow> x = y" for x y s
    by (cases s) (auto simp: bsd_step dest: ucast_u8_inject [rotated])
qed (simp_all add: bsdchecksum_update_def bsdchecksum_def bsdchecksum_final_def)

section \<open>fletcher.c\<close>

record fletcher8_hash =
  f8_s1 :: u8
  f8_s2 :: u8

definition fletcher8_init :: fletcher8_hash where
  "fletcher8_init = \<lparr>f8_s1 = 0, f8_s2 = 0\<rparr>"

definition fletcher8_update :: "u8 list \<Rightarrow> fletcher8_hash \<Rightarrow> fletcher8_hash" where
  "fletcher8_update aa hash = fold (\<lambda>x h.
     let h = h\<lparr>f8_s1 := ucast ((ucast (f8_s1 h) + ucast x :: u32) mod 15)\<rparr>
     in h\<lparr>f8_s2 := ucast ((ucast (f8_s2 h) + ucast (f8_s1 h) :: u32) mod 15)\<rparr>) aa hash"

definition fletcher8_final :: "fletcher8_hash \<Rightarrow> u8" where
  "fletcher8_final hash = ucast (push_bit 4 (ucast (f8_s2 hash) :: u32) OR ucast (f8_s1 hash))"

definition fletcher8 :: "u8 list \<Rightarrow> u8" where
  "fletcher8 aa = fletcher8_final (fletcher8_update aa fletcher8_init)"

definition l_fletcher8_final :: "fletcher8_hash \<Rightarrow> string" where
  "l_fletcher8_final a = fmt_0x 2 (unat (fletcher8_final a))"

definition l_fletcher8 :: "u8 list \<Rightarrow> string" where
  "l_fletcher8 a = fmt_0x 2 (unat (fletcher8 a))"

record fletcher16_hash =
  f16_s1 :: u16
  f16_s2 :: u16

definition fletcher16_init :: fletcher16_hash where
  "fletcher16_init = \<lparr>f16_s1 = 0, f16_s2 = 0\<rparr>"

definition fletcher16_update :: "u8 list \<Rightarrow> fletcher16_hash \<Rightarrow> fletcher16_hash" where
  "fletcher16_update aa hash = fold (\<lambda>x h.
     let h = h\<lparr>f16_s1 := ucast ((ucast (f16_s1 h) + ucast x :: u32) mod 255)\<rparr>
     in h\<lparr>f16_s2 := ucast ((ucast (f16_s2 h) + ucast (f16_s1 h) :: u32) mod 255)\<rparr>) aa hash"

definition fletcher16_final :: "fletcher16_hash \<Rightarrow> u16" where
  "fletcher16_final hash = ucast (push_bit 8 (ucast (f16_s2 hash) :: u32) OR ucast (f16_s1 hash))"

definition fletcher16 :: "u8 list \<Rightarrow> u16" where
  "fletcher16 aa = fletcher16_final (fletcher16_update aa fletcher16_init)"

definition l_fletcher16_final :: "fletcher16_hash \<Rightarrow> string" where
  "l_fletcher16_final a = fmt_0x 4 (unat (fletcher16_final a))"

definition l_fletcher16 :: "u8 list \<Rightarrow> string" where
  "l_fletcher16 a = fmt_0x 4 (unat (fletcher16 a))"

record fletcher32_hash =
  f32_s1 :: u32
  f32_s2 :: u32

definition fletcher32_init :: fletcher32_hash where
  "fletcher32_init = \<lparr>f32_s1 = 0, f32_s2 = 0\<rparr>"

definition fletcher32_update :: "u8 list \<Rightarrow> fletcher32_hash \<Rightarrow> fletcher32_hash" where
  "fletcher32_update aa hash = fold (\<lambda>x h.
     let h = h\<lparr>f32_s1 := (f32_s1 h + ucast x) mod 65535\<rparr>
     in h\<lparr>f32_s2 := (f32_s2 h + f32_s1 h) mod 65535\<rparr>) aa hash"

definition fletcher32_final :: "fletcher32_hash \<Rightarrow> u32" where
  "fletcher32_final hash = push_bit 16 (f32_s2 hash) OR f32_s1 hash"

definition fletcher32 :: "u8 list \<Rightarrow> u32" where
  "fletcher32 aa = fletcher32_final (fletcher32_update aa fletcher32_init)"

definition l_fletcher32_final :: "fletcher32_hash \<Rightarrow> string" where
  "l_fletcher32_final a = fmt_0x 8 (unat (fletcher32_final a))"

definition l_fletcher32 :: "u8 list \<Rightarrow> string" where
  "l_fletcher32 a = fmt_0x 8 (unat (fletcher32 a))"

interpretation fletcher8_s: stream_hash fletcher8_init fletcher8_update fletcher8_final fletcher8
  by unfold_locales (simp_all add: fletcher8_update_def fletcher8_def)

interpretation fletcher16_s: stream_hash
  fletcher16_init fletcher16_update fletcher16_final fletcher16
  by unfold_locales (simp_all add: fletcher16_update_def fletcher16_def)

interpretation fletcher32_s: stream_hash
  fletcher32_init fletcher32_update fletcher32_final fletcher32
  by unfold_locales (simp_all add: fletcher32_update_def fletcher32_def)

text \<open>The two running sums on natural numbers, modulo \<open>m\<close>.\<close>

definition fletcher_step :: "nat \<Rightarrow> u8 \<Rightarrow> nat \<times> nat \<Rightarrow> nat \<times> nat" where
  "fletcher_step m x s = ((fst s + unat x) mod m, (snd s + (fst s + unat x) mod m) mod m)"

lemma fletcher_sums:
  "fold (fletcher_step m) bs (a mod m, b mod m) =
     ((a + byte_sum bs) mod m, (b + length bs * a + weighted_sum bs) mod m)"
proof (induction bs arbitrary: a b)
  case Nil
  then show ?case by simp
next
  case (Cons x xs)
  have "fletcher_step m x (a mod m, b mod m) = ((a + unat x) mod m, (b + a + unat x) mod m)"
    by (simp add: fletcher_step_def mod_simps add.assoc)
  then have "fold (fletcher_step m) (x # xs) (a mod m, b mod m) =
      ((a + unat x + byte_sum xs) mod m,
       (b + a + unat x + length xs * (a + unat x) + weighted_sum xs) mod m)"
    using Cons.IH [of "a + unat x" "b + a + unat x"] by simp
  then show ?case by (simp add: algebra_simps)
qed

lemma fletcher8_abs:
  "fold (fletcher_step 15) aa (unat (f8_s1 h), unat (f8_s2 h)) =
     (unat (f8_s1 (fletcher8_update aa h)), unat (f8_s2 (fletcher8_update aa h)))"
proof (induction aa arbitrary: h)
  case Nil
  then show ?case by (simp add: fletcher8_update_def)
next
  case (Cons x xs)
  have step: "unat (ucast ((ucast a + ucast b :: u32) mod 15) :: u8) = (unat a + unat b) mod 15"
    for a b :: u8
    using unat_u8_less [of a] unat_u8_less [of b]
    by (simp add: unat_ucast8 unat_mod unat_add_small)
  have "fletcher8_update (x # xs) h = fletcher8_update xs (fletcher8_update [x] h)"
    by (simp add: fletcher8_update_def)
  moreover have "fletcher_step 15 x (unat (f8_s1 h), unat (f8_s2 h)) =
      (unat (f8_s1 (fletcher8_update [x] h)), unat (f8_s2 (fletcher8_update [x] h)))"
    by (simp add: fletcher8_update_def fletcher_step_def Let_def step)
  ultimately show ?case using Cons.IH [of "fletcher8_update [x] h"] by simp
qed

lemma fletcher16_abs:
  "fold (fletcher_step 255) aa (unat (f16_s1 h), unat (f16_s2 h)) =
     (unat (f16_s1 (fletcher16_update aa h)), unat (f16_s2 (fletcher16_update aa h)))"
proof (induction aa arbitrary: h)
  case Nil
  then show ?case by (simp add: fletcher16_update_def)
next
  case (Cons x xs)
  have step: "unat (ucast ((ucast a + ucast b :: u32) mod 255) :: u16) = (unat a + unat b) mod 255"
    for a :: u16 and b :: u8
    using unat_u16_less [of a] unat_u8_less [of b]
    by (simp add: unat_ucast16 unat_mod unat_add_small)
  have step': "unat (ucast ((ucast a + ucast b :: u32) mod 255) :: u16) = (unat a + unat b) mod 255"
    for a b :: u16
    using unat_u16_less [of a] unat_u16_less [of b]
    by (simp add: unat_ucast16 unat_mod unat_add_small)
  have "fletcher16_update (x # xs) h = fletcher16_update xs (fletcher16_update [x] h)"
    by (simp add: fletcher16_update_def)
  moreover have "fletcher_step 255 x (unat (f16_s1 h), unat (f16_s2 h)) =
      (unat (f16_s1 (fletcher16_update [x] h)), unat (f16_s2 (fletcher16_update [x] h)))"
    by (simp add: fletcher16_update_def fletcher_step_def Let_def step step')
  ultimately show ?case using Cons.IH [of "fletcher16_update [x] h"] by simp
qed

lemma fletcher32_abs:
  "unat (f32_s1 h) < 65535 \<Longrightarrow> unat (f32_s2 h) < 65535 \<Longrightarrow>
   fold (fletcher_step 65535) aa (unat (f32_s1 h), unat (f32_s2 h)) =
     (unat (f32_s1 (fletcher32_update aa h)), unat (f32_s2 (fletcher32_update aa h)))"
proof (induction aa arbitrary: h)
  case Nil
  then show ?case by (simp add: fletcher32_update_def)
next
  case (Cons x xs)
  let ?h = "fletcher32_update [x] h"
  have s1: "unat (f32_s1 ?h) = (unat (f32_s1 h) + unat x) mod 65535"
    using Cons.prems unat_u8_less [of x]
    by (simp add: fletcher32_update_def Let_def unat_mod unat_add_small)
  have s2: "unat (f32_s2 ?h) = (unat (f32_s2 h) + unat (f32_s1 ?h)) mod 65535"
  proof -
    have "unat (f32_s1 ?h) < 65535" using s1 by simp
    moreover have "f32_s2 ?h = (f32_s2 h + f32_s1 ?h) mod 65535"
      by (simp add: fletcher32_update_def Let_def)
    ultimately show ?thesis using Cons.prems by (simp add: unat_mod unat_add_small)
  qed
  have "fletcher32_update (x # xs) h = fletcher32_update xs ?h"
    by (simp add: fletcher32_update_def)
  moreover have "fletcher_step 65535 x (unat (f32_s1 h), unat (f32_s2 h)) =
      (unat (f32_s1 ?h), unat (f32_s2 ?h))"
    by (simp add: fletcher_step_def s1 s2)
  ultimately show ?case using Cons.IH [of ?h] by (simp add: s1 s2)
qed

lemma fletcher8_closed:
  "unat (fletcher8 aa) = 16 * (weighted_sum aa mod 15) + byte_sum aa mod 15"
proof -
  let ?h = "fletcher8_update aa fletcher8_init"
  have s: "unat (f8_s1 ?h) = byte_sum aa mod 15" "unat (f8_s2 ?h) = weighted_sum aa mod 15"
    using fletcher8_abs [of aa fletcher8_init] fletcher_sums [of 15 aa 0 0]
    by (simp_all add: fletcher8_init_def)
  have "unat (f8_s1 ?h) < 2 ^ 4" by (simp add: s order_less_trans [OF mod_less_divisor])
  then have "fletcher8 aa = ucast (push_bit 4 (ucast (f8_s2 ?h)) + ucast (f8_s1 ?h) :: u32)"
    by (simp add: fletcher8_def fletcher8_final_def push_bit_or_add)
  moreover have "unat (push_bit 4 (ucast (f8_s2 ?h)) + ucast (f8_s1 ?h) :: u32) =
      16 * (weighted_sum aa mod 15) + byte_sum aa mod 15"
  proof -
    have "weighted_sum aa mod 15 < 15" "byte_sum aa mod 15 < 15" by simp_all
    then show ?thesis by (simp add: push_bit_eq_mult unat_word_ariths s)
  qed
  moreover have "weighted_sum aa mod 15 < 15" "byte_sum aa mod 15 < 15" by simp_all
  ultimately show ?thesis by (simp add: unat_ucast8)
qed

lemma fletcher16_closed:
  "unat (fletcher16 aa) = 256 * (weighted_sum aa mod 255) + byte_sum aa mod 255"
proof -
  let ?h = "fletcher16_update aa fletcher16_init"
  have s: "unat (f16_s1 ?h) = byte_sum aa mod 255" "unat (f16_s2 ?h) = weighted_sum aa mod 255"
    using fletcher16_abs [of aa fletcher16_init] fletcher_sums [of 255 aa 0 0]
    by (simp_all add: fletcher16_init_def)
  have lt: "weighted_sum aa mod 255 < 255" "byte_sum aa mod 255 < 255" by simp_all
  then have "unat (f16_s1 ?h) < 2 ^ 8" by (simp only: s) simp
  then have "fletcher16 aa = ucast (push_bit 8 (ucast (f16_s2 ?h)) + ucast (f16_s1 ?h) :: u32)"
    by (simp add: fletcher16_def fletcher16_final_def push_bit_or_add)
  moreover have "unat (push_bit 8 (ucast (f16_s2 ?h)) + ucast (f16_s1 ?h) :: u32) =
      256 * (weighted_sum aa mod 255) + byte_sum aa mod 255"
    using lt by (simp add: push_bit_eq_mult unat_word_ariths s)
  ultimately show ?thesis using lt by (simp add: unat_ucast16)
qed

lemma fletcher32_closed:
  "unat (fletcher32 aa) = 65536 * (weighted_sum aa mod 65535) + byte_sum aa mod 65535"
proof -
  let ?h = "fletcher32_update aa fletcher32_init"
  have s: "unat (f32_s1 ?h) = byte_sum aa mod 65535"
    "unat (f32_s2 ?h) = weighted_sum aa mod 65535"
    using fletcher32_abs [of fletcher32_init aa] fletcher_sums [of 65535 aa 0 0]
    by (simp_all add: fletcher32_init_def)
  have lt: "weighted_sum aa mod 65535 < 65535" "byte_sum aa mod 65535 < 65535" by simp_all
  then have "unat (f32_s1 ?h) < 2 ^ 16" by (simp only: s) simp
  then have "fletcher32 aa = push_bit 16 (f32_s2 ?h) + f32_s1 ?h"
    by (simp add: fletcher32_def fletcher32_final_def push_bit_or_add)
  then show ?thesis using lt by (simp add: push_bit_eq_mult unat_word_ariths s)
qed

section \<open>sysvchecksum.c\<close>

record sysvchecksum_hash =
  sysv_check :: u32

definition sysvchecksum_init :: sysvchecksum_hash where
  "sysvchecksum_init = \<lparr>sysv_check = 0\<rparr>"

definition sysvchecksum_update :: "u8 list \<Rightarrow> sysvchecksum_hash \<Rightarrow> sysvchecksum_hash" where
  "sysvchecksum_update aa hash =
     fold (\<lambda>x h. h\<lparr>sysv_check := sysv_check h + ucast x\<rparr>) aa hash"

text \<open>In \<open>r & 0xffff + (r >> 16)\<close> the addition binds first.\<close>

definition sysvchecksum_final :: "sysvchecksum_hash \<Rightarrow> u16" where
  "sysvchecksum_final hash =
     (let r = (sysv_check hash AND 0xffff) + drop_bit 16 (sysv_check hash)
      in ucast (r AND (0xffff + drop_bit 16 r)))"

definition sysvchecksum :: "u8 list \<Rightarrow> u16" where
  "sysvchecksum aa = sysvchecksum_final (sysvchecksum_update aa sysvchecksum_init)"

definition l_sysvchecksum_final :: "sysvchecksum_hash \<Rightarrow> string" where
  "l_sysvchecksum_final a = fmt_x (unat (sysvchecksum_final a))"

definition l_sysvchecksum :: "u8 list \<Rightarrow> string" where
  "l_sysvchecksum a = fmt_x (unat (sysvchecksum a))"

interpretation sysvchecksum_s: stream_hash
  sysvchecksum_init sysvchecksum_update sysvchecksum_final sysvchecksum
  by unfold_locales (simp_all add: sysvchecksum_update_def sysvchecksum_def)

lemma sysvchecksum_sum:
  "sysv_check (sysvchecksum_update aa h) = sysv_check h + of_nat (byte_sum aa)"
proof (induction aa arbitrary: h)
  case Nil
  then show ?case by (simp add: sysvchecksum_update_def)
next
  case (Cons x xs)
  have "sysvchecksum_update (x # xs) h =
      sysvchecksum_update xs (h\<lparr>sysv_check := sysv_check h + ucast x\<rparr>)"
    by (simp add: sysvchecksum_update_def)
  then show ?case using Cons.IH by (simp add: algebra_simps)
qed

text \<open>The value in arithmetic: the folded sum when it needs no second fold, and 0 when it does.\<close>

lemma and_ffff: "unat (w AND 0xffff) = unat w mod 65536" for w :: u32
proof -
  have "(0xffff :: u32) = mask 16" by (simp add: mask_eq_exp_minus_1)
  then have "w AND 0xffff = take_bit 16 w" by (simp only: take_bit_eq_mask)
  then have "unat (w AND 0xffff) = take_bit 16 (unat w)" by (simp only: unsigned_take_bit_eq)
  then show ?thesis by (simp add: take_bit_eq_mod)
qed

lemma ucast_and_10000: "(ucast (w AND 0x10000) :: u16) = 0" for w :: u32
proof (rule bit_word_eqI)
  fix n assume n: "n < LENGTH(16)"
  have "(0x10000 :: u32) = push_bit 16 1" by simp
  then show "bit (ucast (w AND 0x10000) :: u16) n = bit 0 n"
    using n by (simp only: bit_ucast_iff bit_and_iff bit_push_bit_iff) simp
qed

lemma sysvchecksum_closed:
  assumes "byte_sum aa < 2 ^ 32"
  shows "unat (sysvchecksum aa) =
    (let r = byte_sum aa mod 65536 + byte_sum aa div 65536 in if r < 65536 then r else 0)"
proof -
  let ?s = "of_nat (byte_sum aa) :: u32"
  have s: "unat ?s = byte_sum aa" using assms by (simp add: unat_of_nat take_bit_nat_eq_self)
  define r where "r = (?s AND 0xffff) + drop_bit 16 ?s"
  have high: "unat (drop_bit 16 w) = unat w div 65536" for w :: u32
  proof -
    have "unat (drop_bit 16 w) = drop_bit 16 (unat w)" by (simp only: unat_drop_bit_eq)
    then show ?thesis by (simp add: drop_bit_eq_div del: drop_bit_word_beyond)
  qed
  have "byte_sum aa div 65536 < 65536" using assms by (simp add: less_mult_imp_div_less)
  then have r: "unat r = byte_sum aa mod 65536 + byte_sum aa div 65536"
    unfolding r_def by (subst unat_add_small) (simp_all only: and_ffff high s, auto)
  have val: "sysvchecksum aa = ucast (r AND (0xffff + drop_bit 16 r))"
    by (simp add: sysvchecksum_def sysvchecksum_final_def sysvchecksum_sum sysvchecksum_init_def
        Let_def r_def)
  show ?thesis
  proof (cases "unat r < 65536")
    case True
    then have "drop_bit 16 r = 0" using high [of r] by (simp add: unat_eq_0 [symmetric] del: unat_eq_0)
    then show ?thesis using True r and_ffff [of r] by (simp add: val unat_ucast16)
  next
    case False
    have "unat r < 131072"
      using r \<open>byte_sum aa div 65536 < 65536\<close> by (simp add: add_less_le_mono)
    then have "unat (drop_bit 16 r) = unat (1 :: u32)" using False high [of r] by simp
    then have "drop_bit 16 r = 1" by (simp only: word_unat_eq_iff)
    then show ?thesis using False r ucast_and_10000 [of r] by (simp add: val)
  qed
qed

section \<open>xor.c\<close>

record xor8_hash =
  xor8_a :: u8

definition xor8_init :: xor8_hash where
  "xor8_init = \<lparr>xor8_a = 0\<rparr>"

definition xor8_update :: "u8 list \<Rightarrow> xor8_hash \<Rightarrow> xor8_hash" where
  "xor8_update aa hash = fold (\<lambda>x h. h\<lparr>xor8_a := xor8_a h + (x AND 0xff)\<rparr>) aa hash"

definition xor8_final :: "xor8_hash \<Rightarrow> u8" where
  "xor8_final hash = ucast (((ucast (xor8_a hash) XOR 0xff) + 1 :: u32) AND 0xff)"

definition xor8 :: "u8 list \<Rightarrow> u8" where
  "xor8 aa = xor8_final (xor8_update aa xor8_init)"

definition l_xor8_final :: "xor8_hash \<Rightarrow> string" where
  "l_xor8_final a = fmt_0x 2 (unat (xor8_final a))"

definition l_xor8 :: "u8 list \<Rightarrow> string" where
  "l_xor8 a = fmt_0x 2 (unat (xor8 a))"

lemma xor8_final_neg: "xor8_final h = - xor8_a h"
proof -
  have low: "ucast (w AND 0xff) = (ucast w :: u8)" for w :: u32
    by (rule bit_word_eqI) (simp only: bit_simps, auto simp: bit_numeral_rec numeral_eq_Suc less_Suc_eq)
  have add: "ucast (w + 1) = (ucast w + 1 :: u8)" for w :: u32
    by (simp add: ucast_down_add)
  have "ucast (ucast a XOR 0xff :: u32) = NOT (a :: u8)" for a
    by (rule bit_word_eqI) (simp only: bit_simps, auto simp: bit_numeral_rec numeral_eq_Suc less_Suc_eq)
  then show ?thesis by (simp add: xor8_final_def low add minus_eq_not_plus_1)
qed

lemma xor8_step: "xor8_update [x] h = h\<lparr>xor8_a := xor8_a h + x\<rparr>"
proof -
  have "(0xff :: u8) = - 1" by simp
  then have "x AND 0xff = x" by (metis and.right_neutral)
  then show ?thesis by (simp only: xor8_update_def fold_simps)
qed

interpretation xor8_s: detecting_hash xor8_init xor8_update xor8_final xor8
proof unfold_locales
  show "xor8_update [x] s = xor8_update [x] t \<Longrightarrow> s = t" for x s t
    by (cases s; cases t) (simp add: xor8_step)
  show "xor8_update [x] s = xor8_update [y] s \<Longrightarrow> x = y" for x y s
    by (cases s) (simp add: xor8_step)
  show "xor8_final s = xor8_final t \<Longrightarrow> s = t" for s t
    by (cases s; cases t) (simp add: xor8_final_neg)
qed (simp_all add: xor8_update_def xor8_def)

lemma xor8_sum: "xor8_a (xor8_update aa h) = xor8_a h + of_nat (byte_sum aa)"
proof (induction aa arbitrary: h)
  case Nil
  then show ?case by (simp add: xor8_update_def)
next
  case (Cons x xs)
  then show ?case
    using xor8_s.update_Cons [of x xs h] by (simp add: xor8_step algebra_simps)
qed

section \<open>loselose.c\<close>

record loselose_hash =
  lose_hash :: u64

definition loselose_init :: loselose_hash where
  "loselose_init = \<lparr>lose_hash = 0\<rparr>"

definition loselose_update :: "u8 list \<Rightarrow> loselose_hash \<Rightarrow> loselose_hash" where
  "loselose_update inp hash = fold (\<lambda>x h. h\<lparr>lose_hash := lose_hash h + ucast x\<rparr>) inp hash"

definition loselose_final :: "loselose_hash \<Rightarrow> u64" where
  "loselose_final hash = lose_hash hash"

definition loselose :: "u8 list \<Rightarrow> u64" where
  "loselose inp = loselose_final (loselose_update inp loselose_init)"

definition l_loselose_final :: "loselose_hash \<Rightarrow> string" where
  "l_loselose_final a = fmt_0x 8 (unat (loselose_final a))"

definition l_loselose :: "u8 list \<Rightarrow> string" where
  "l_loselose a = fmt_0x 8 (unat (loselose a))"

interpretation loselose_s: detecting_hash loselose_init loselose_update loselose_final loselose
proof unfold_locales
  show "loselose_update [x] s = loselose_update [x] t \<Longrightarrow> s = t" for x s t
    by (cases s; cases t) (simp add: loselose_update_def)
  show "loselose_update [x] s = loselose_update [y] s \<Longrightarrow> x = y" for x y s
    by (cases s) (auto simp: loselose_update_def dest: ucast_u8_inject [rotated])
  show "loselose_final s = loselose_final t \<Longrightarrow> s = t" for s t
    by (cases s; cases t) (simp add: loselose_final_def)
qed (simp_all add: loselose_update_def loselose_def)

section \<open>pearson.c\<close>

text \<open>The table is a global array that \<open>l_setpearson\<close> replaces; the functions take it as an
  argument.  Its initial value is the identity.\<close>

record pearson_hash =
  pearson_ret :: u8

definition pearson_table :: "u8 list" where
  "pearson_table = map of_nat [0..<256]"

definition pearson_init :: pearson_hash where
  "pearson_init = \<lparr>pearson_ret = 0\<rparr>"

definition pearson_update :: "u8 list \<Rightarrow> u8 list \<Rightarrow> pearson_hash \<Rightarrow> pearson_hash" where
  "pearson_update tbl aa hash =
     fold (\<lambda>x h. h\<lparr>pearson_ret := tbl ! unat (pearson_ret h XOR x)\<rparr>) aa hash"

definition pearson_final :: "pearson_hash \<Rightarrow> u8" where
  "pearson_final hash = pearson_ret hash"

definition pearson :: "u8 list \<Rightarrow> u8 list \<Rightarrow> u8" where
  "pearson tbl aa = pearson_final (pearson_update tbl aa pearson_init)"

text \<open>\<open>l_setpearson\<close> on a Lua array: \<open>Some n\<close> is an element that is a number, given as the byte
  it converts to, \<open>None\<close> one that \<open>luaL_checknumber\<close> rejects with a Lua error.  A table of another
  length ends the process (\<open>exit(0)\<close>).  The stores made before an error stay.\<close>

datatype set_table_result = ProcessExit | LuaError "u8 list" | TableSet "u8 list"

fun set_table_loop :: "nat \<Rightarrow> u8 option list \<Rightarrow> u8 list \<Rightarrow> set_table_result" where
  "set_table_loop i [] tbl = TableSet tbl"
| "set_table_loop i (None # vs) tbl = LuaError tbl"
| "set_table_loop i (Some v # vs) tbl = set_table_loop (Suc i) vs (tbl[i := v])"

definition l_setpearson :: "u8 option list \<Rightarrow> u8 list \<Rightarrow> set_table_result" where
  "l_setpearson vs tbl = (if length vs \<noteq> 256 then ProcessExit else set_table_loop 0 vs tbl)"

definition l_pearson_final :: "pearson_hash \<Rightarrow> string" where
  "l_pearson_final a = fmt_x (unat (pearson_final a))"

definition l_pearson :: "u8 list \<Rightarrow> u8 list \<Rightarrow> string" where
  "l_pearson tbl a = fmt_x (unat (pearson tbl a))"

lemma set_table_loop_all:
  "i + length vs = length tbl \<Longrightarrow>
   set_table_loop i (map Some vs) tbl = TableSet (take i tbl @ vs)"
proof (induction vs arbitrary: i tbl)
  case Nil
  then show ?case by simp
next
  case (Cons v vs)
  then show ?case by (simp add: take_Suc_conv_app_nth)
qed

lemma set_table_loop_length:
  "set_table_loop i vs tbl = TableSet t \<Longrightarrow> length t = length tbl"
  "set_table_loop i vs tbl = LuaError t \<Longrightarrow> length t = length tbl"
  by (induction i vs tbl rule: set_table_loop.induct) auto

interpretation pearson_s: stream_hash
  pearson_init "pearson_update tbl" pearson_final "pearson tbl" for tbl
  by unfold_locales (simp_all add: pearson_update_def pearson_def)

lemma pearson_step:
  "length tbl = 256 \<Longrightarrow> distinct tbl \<Longrightarrow>
   tbl ! unat (a :: u8) = tbl ! unat b \<longleftrightarrow> a = b"
  using unat_u8_less [of a] unat_u8_less [of b] by (simp add: nth_eq_iff_index_eq word_unat_eq_iff)

lemma pearson_detects_locale:
  assumes "length tbl = 256" and "distinct tbl"
  shows "detecting_hash pearson_init (pearson_update tbl) pearson_final (pearson tbl)"
proof unfold_locales
  show "pearson_update tbl [x] s = pearson_update tbl [x] t \<Longrightarrow> s = t" for x s t
    by (cases s; cases t) (simp add: pearson_update_def pearson_step [OF assms] xor_cancel_right)
  show "pearson_update tbl [x] s = pearson_update tbl [y] s \<Longrightarrow> x = y" for x y s
    by (cases s) (simp add: pearson_update_def pearson_step [OF assms] xor_cancel_left)
  show "pearson_final s = pearson_final t \<Longrightarrow> s = t" for s t
    by (cases s; cases t) (simp add: pearson_final_def)
qed

lemma pearson_table_wf: "length pearson_table = 256" "distinct pearson_table"
  by (auto simp: pearson_table_def distinct_map inj_on_def unat_of_nat dest: arg_cong [of _ _ unat])

lemma pearson_table_nth: "pearson_table ! unat w = w"
  using unat_u8_less [of w] by (simp add: pearson_table_def)

interpretation pearson_d: detecting_hash
  pearson_init "pearson_update pearson_table" pearson_final "pearson pearson_table"
  by (rule pearson_detects_locale) (fact pearson_table_wf)+

lemma pearson_identity_xor:
  "pearson_ret (pearson_update pearson_table aa h) = fold (\<lambda>x r. r XOR x) aa (pearson_ret h)"
  by (induction aa arbitrary: h) (simp_all add: pearson_update_def pearson_table_nth)

end
