(* ===== verification/StringHashes.thy ===== *)
theory StringHashes
  imports StreamHash
begin

text \<open>
  The byte-at-a-time hashes of \<open>src/src/hash\<close>: crc.c (three widths), djb2.c, sdbm.c, fnv.c,
  jenkins.c and pjw.c, with the struct, init / update / final, the one-shot function and the digest
  text of each.  The lemmas give closed forms (polynomials in the multiplier), the equivalence of the
  two loops of crc.c with the reduction step of a cyclic redundancy check, the bound pjw keeps, and
  the interpretations of \<open>stream_hash\<close> and \<open>detecting_hash\<close>.
\<close>

unbundle bit_operations_syntax

section \<open>crc.c\<close>

record crc32_hash =
  c32_crc :: u32

record crc16_hash =
  c16_crc :: u16

record crc8_hash =
  c8_crc :: u8

definition crc32_init :: crc32_hash where
  "crc32_init = \<lparr>c32_crc = 0xFFFFFFFF\<rparr>"

definition crc32_bit :: "u32 \<times> u32 \<Rightarrow> u32 \<times> u32" where
  "crc32_bit s = (case s of (extract, crc) \<Rightarrow>
     let b = (extract XOR crc) AND 1;
         crc = drop_bit 1 crc;
         crc = (if b \<noteq> 0 then crc XOR 0xEDB88320 else crc)
     in (drop_bit 1 extract, crc))"

definition crc32_update :: "u8 list \<Rightarrow> crc32_hash \<Rightarrow> crc32_hash" where
  "crc32_update dat hash =
     fold (\<lambda>x h. h\<lparr>c32_crc := snd ((crc32_bit ^^ 8) (ucast x, c32_crc h))\<rparr>) dat hash"

definition crc32_final :: "crc32_hash \<Rightarrow> u32" where
  "crc32_final hash = - (c32_crc hash + 1)"

definition crc32 :: "u8 list \<Rightarrow> u32" where
  "crc32 dat = crc32_final (crc32_update dat crc32_init)"

definition crc16_init :: crc16_hash where
  "crc16_init = \<lparr>c16_crc = 0\<rparr>"

definition crc16_bit :: "u16 \<Rightarrow> u16" where
  "crc16_bit crc = (if crc AND 1 \<noteq> 0 then drop_bit 1 crc XOR 0xA001 else drop_bit 1 crc)"

definition crc16_update :: "u8 list \<Rightarrow> crc16_hash \<Rightarrow> crc16_hash" where
  "crc16_update aa hash =
     fold (\<lambda>a h. h\<lparr>c16_crc := (crc16_bit ^^ 8) (c16_crc h XOR ucast a)\<rparr>) aa hash"

definition crc16_final :: "crc16_hash \<Rightarrow> u16" where
  "crc16_final hash = c16_crc hash"

definition crc16 :: "u8 list \<Rightarrow> u16" where
  "crc16 aa = crc16_final (crc16_update aa crc16_init)"

definition crc8_init :: crc8_hash where
  "crc8_init = \<lparr>c8_crc = 0\<rparr>"

definition crc8_bit :: "u8 \<times> u8 \<Rightarrow> u8 \<times> u8" where
  "crc8_bit s = (case s of (a, crc) \<Rightarrow>
     let b = (crc XOR a) AND 1;
         crc = drop_bit 1 crc;
         crc = (if b \<noteq> 0 then crc XOR 0x8c else crc)
     in (drop_bit 1 a, crc))"

definition crc8_update :: "u8 list \<Rightarrow> crc8_hash \<Rightarrow> crc8_hash" where
  "crc8_update aa hash =
     fold (\<lambda>a h. h\<lparr>c8_crc := snd ((crc8_bit ^^ 8) (a, c8_crc h))\<rparr>) aa hash"

definition crc8_final :: "crc8_hash \<Rightarrow> u8" where
  "crc8_final hash = c8_crc hash"

definition crc8 :: "u8 list \<Rightarrow> u8" where
  "crc8 aa = crc8_final (crc8_update aa crc8_init)"

definition l_crc8_final :: "crc8_hash \<Rightarrow> string" where
  "l_crc8_final a = fmt_x (unat (crc8_final a))"

definition l_crc16_final :: "crc16_hash \<Rightarrow> string" where
  "l_crc16_final a = fmt_0x 4 (unat (crc16_final a))"

definition l_crc32_final :: "crc32_hash \<Rightarrow> string" where
  "l_crc32_final a = fmt_0x 8 (unat (crc32_final a))"

definition l_crc8 :: "u8 list \<Rightarrow> string" where
  "l_crc8 a = fmt_x (unat (crc8 a))"

definition l_crc16 :: "u8 list \<Rightarrow> string" where
  "l_crc16 a = fmt_x (unat (crc16 a))"

definition l_crc32 :: "u8 list \<Rightarrow> string" where
  "l_crc32 a = fmt_x (unat (crc32 a))"

text \<open>The standard formulation: xor the byte into the register, then reduce eight times.\<close>

lemma crc32_bit_shift:
  "crc32_bit (e, c) = (drop_bit 1 e, crc_shift 0xEDB88320 (e XOR c) XOR drop_bit 1 e)"
  by (simp only: crc32_bit_def Let_def crc_shift_def drop_bit_xor and_1_odd prod.case)
    (simp add: ac_simps xor_xor_cancel)

lemma crc32_bits:
  "(crc32_bit ^^ n) (e, c) =
     (drop_bit n e, (crc_shift 0xEDB88320 ^^ n) (e XOR c) XOR drop_bit n e)"
  by (induction n) (simp_all add: xor_xor_cancel crc32_bit_shift)

lemma crc8_bit_shift:
  "crc8_bit (e, c) = (drop_bit 1 e, crc_shift 0x8c (e XOR c) XOR drop_bit 1 e)"
  by (simp only: crc8_bit_def Let_def crc_shift_def drop_bit_xor and_1_odd prod.case)
    (simp add: ac_simps xor_xor_cancel)

lemma crc8_bits:
  "(crc8_bit ^^ n) (e, c) = (drop_bit n e, (crc_shift 0x8c ^^ n) (e XOR c) XOR drop_bit n e)"
  by (induction n) (simp_all add: xor_xor_cancel crc8_bit_shift)

lemma crc32_step:
  "crc32_update [x] h = h\<lparr>c32_crc := (crc_shift 0xEDB88320 ^^ 8) (c32_crc h XOR ucast x)\<rparr>"
  by (simp add: crc32_update_def crc32_bits crc8_bits drop_bit_8_u8 xor.commute)

lemma crc8_step:
  "crc8_update [x] h = h\<lparr>c8_crc := (crc_shift 0x8c ^^ 8) (c8_crc h XOR x)\<rparr>"
  by (simp add: crc8_update_def crc32_bits crc8_bits drop_bit_8_u8 xor.commute)

lemma crc16_bit_shift: "crc16_bit = crc_shift 0xA001"
  by (simp add: fun_eq_iff crc16_bit_def crc_shift_def and_1_odd)

lemma crc16_step:
  "crc16_update [x] h = h\<lparr>c16_crc := (crc_shift 0xA001 ^^ 8) (c16_crc h XOR ucast x)\<rparr>"
  by (simp add: crc16_update_def crc16_bit_shift)

lemma crc32_final_not: "crc32_final h = NOT (c32_crc h)"
  by (simp add: crc32_final_def not_eq_complement)

lemma crc_registers:
  "(crc_shift (0xEDB88320 :: u32) ^^ 8) s = (crc_shift 0xEDB88320 ^^ 8) t \<longleftrightarrow> s = t"
  "(crc_shift (0xA001 :: u16) ^^ 8) u = (crc_shift 0xA001 ^^ 8) v \<longleftrightarrow> u = v"
  "(crc_shift (0x8c :: u8) ^^ 8) x = (crc_shift 0x8c ^^ 8) y \<longleftrightarrow> x = y"
  by (simp_all add: crc_shift_funpow_iff)

interpretation crc32_s: detecting_hash crc32_init crc32_update crc32_final crc32
proof unfold_locales
  show "crc32_update [x] s = crc32_update [x] t \<Longrightarrow> s = t" for x s t
    by (cases s; cases t) (simp add: crc32_step crc_registers xor_cancel_right)
  show "crc32_update [x] s = crc32_update [y] s \<Longrightarrow> x = y" for x y s
    by (cases s) (auto simp: crc32_step crc_registers xor_cancel_left
        dest: ucast_u8_inject [rotated])
  show "crc32_final s = crc32_final t \<Longrightarrow> s = t" for s t
    by (cases s; cases t) (simp add: crc32_final_def)
qed (simp_all add: crc32_update_def crc32_def)

interpretation crc16_s: detecting_hash crc16_init crc16_update crc16_final crc16
proof unfold_locales
  show "crc16_update [x] s = crc16_update [x] t \<Longrightarrow> s = t" for x s t
    by (cases s; cases t) (simp add: crc16_step crc_registers xor_cancel_right)
  show "crc16_update [x] s = crc16_update [y] s \<Longrightarrow> x = y" for x y s
    by (cases s) (auto simp: crc16_step crc_registers xor_cancel_left
        dest: ucast_u8_inject [rotated])
  show "crc16_final s = crc16_final t \<Longrightarrow> s = t" for s t
    by (cases s; cases t) (simp add: crc16_final_def)
qed (simp_all add: crc16_update_def crc16_def)

interpretation crc8_s: detecting_hash crc8_init crc8_update crc8_final crc8
proof unfold_locales
  show "crc8_update [x] s = crc8_update [x] t \<Longrightarrow> s = t" for x s t
    by (cases s; cases t) (simp add: crc8_step crc_registers xor_cancel_right)
  show "crc8_update [x] s = crc8_update [y] s \<Longrightarrow> x = y" for x y s
    by (cases s) (simp add: crc8_step crc_registers xor_cancel_left)
  show "crc8_final s = crc8_final t \<Longrightarrow> s = t" for s t
    by (cases s; cases t) (simp add: crc8_final_def)
qed (simp_all add: crc8_update_def crc8_def)

section \<open>djb2.c and sdbm.c\<close>

record djb2_hash =
  djb2_h :: u32

definition djb2_init :: djb2_hash where
  "djb2_init = \<lparr>djb2_h = 5381\<rparr>"

definition djb2_update :: "u8 list \<Rightarrow> djb2_hash \<Rightarrow> djb2_hash" where
  "djb2_update inp hash =
     fold (\<lambda>x h. h\<lparr>djb2_h := (push_bit 5 (djb2_h h) + djb2_h h) + ucast x\<rparr>) inp hash"

definition djb2_final :: "djb2_hash \<Rightarrow> u32" where
  "djb2_final hash = djb2_h hash"

definition djb2 :: "u8 list \<Rightarrow> u32" where
  "djb2 inp = djb2_final (djb2_update inp djb2_init)"

definition l_djb2_final :: "djb2_hash \<Rightarrow> string" where
  "l_djb2_final a = fmt_0x 8 (unat (djb2_final a))"

definition l_djb2 :: "u8 list \<Rightarrow> string" where
  "l_djb2 a = fmt_0x 8 (unat (djb2 a))"

record sdbm_hash =
  sdbm_h :: u64

definition sdbm_init :: sdbm_hash where
  "sdbm_init = \<lparr>sdbm_h = 0\<rparr>"

definition sdbm_update :: "u8 list \<Rightarrow> sdbm_hash \<Rightarrow> sdbm_hash" where
  "sdbm_update inp hash = fold (\<lambda>x h.
     h\<lparr>sdbm_h := ucast x + push_bit 6 (sdbm_h h) + push_bit 16 (sdbm_h h) - sdbm_h h\<rparr>) inp hash"

definition sdbm_final :: "sdbm_hash \<Rightarrow> u64" where
  "sdbm_final hash = sdbm_h hash"

definition sdbm :: "u8 list \<Rightarrow> u64" where
  "sdbm inp = sdbm_final (sdbm_update inp sdbm_init)"

definition l_sdbm_final :: "sdbm_hash \<Rightarrow> string" where
  "l_sdbm_final a = fmt_0x 16 (unat (sdbm_final a))"

definition l_sdbm :: "u8 list \<Rightarrow> string" where
  "l_sdbm a = fmt_0x 16 (unat (sdbm a))"

text \<open>The polynomial with the bytes as coefficients, the last byte's being constant.\<close>

primrec byte_poly :: "'a::len word \<Rightarrow> u8 list \<Rightarrow> 'a word" where
  "byte_poly k [] = 0"
| "byte_poly k (x # xs) = ucast x * k ^ length xs + byte_poly k xs"

lemma djb2_step: "djb2_update [x] h = h\<lparr>djb2_h := djb2_h h * 33 + ucast x\<rparr>"
  by (simp add: djb2_update_def push_bit_eq_mult algebra_simps)

lemma sdbm_step: "sdbm_update [x] h = h\<lparr>sdbm_h := sdbm_h h * 65599 + ucast x\<rparr>"
  by (simp add: sdbm_update_def push_bit_eq_mult algebra_simps)

lemma djb2_state_inject: "a * 33 = b * 33 \<longleftrightarrow> a = b" for a b :: u32
  using mult_inverse_inject [of 33 "1041204193 :: u32" a b] by auto

lemma sdbm_state_inject: "a * 65599 = b * 65599 \<longleftrightarrow> a = b" for a b :: u64
  using mult_inverse_inject [of 65599 "16079000890114764735 :: u64" a b] by auto

interpretation djb2_s: detecting_hash djb2_init djb2_update djb2_final djb2
proof unfold_locales
  show "djb2_update [x] s = djb2_update [x] t \<Longrightarrow> s = t" for x s t
    by (cases s; cases t) (simp add: djb2_step djb2_state_inject)
  show "djb2_update [x] s = djb2_update [y] s \<Longrightarrow> x = y" for x y s
    by (cases s) (auto simp: djb2_step dest: ucast_u8_inject [rotated])
  show "djb2_final s = djb2_final t \<Longrightarrow> s = t" for s t
    by (cases s; cases t) (simp add: djb2_final_def)
qed (simp_all add: djb2_update_def djb2_def)

interpretation sdbm_s: detecting_hash sdbm_init sdbm_update sdbm_final sdbm
proof unfold_locales
  show "sdbm_update [x] s = sdbm_update [x] t \<Longrightarrow> s = t" for x s t
    by (cases s; cases t) (simp add: sdbm_step sdbm_state_inject)
  show "sdbm_update [x] s = sdbm_update [y] s \<Longrightarrow> x = y" for x y s
    by (cases s) (auto simp: sdbm_step dest: ucast_u8_inject [rotated])
  show "sdbm_final s = sdbm_final t \<Longrightarrow> s = t" for s t
    by (cases s; cases t) (simp add: sdbm_final_def)
qed (simp_all add: sdbm_update_def sdbm_def)

lemma djb2_poly: "djb2_h (djb2_update xs h) = djb2_h h * 33 ^ length xs + byte_poly 33 xs"
proof (induction xs arbitrary: h)
  case Nil
  then show ?case by (simp add: djb2_s.update_Nil)
next
  case (Cons x xs)
  then show ?case by (simp add: djb2_s.update_Cons [of x xs] djb2_step algebra_simps)
qed

lemma sdbm_poly: "sdbm_h (sdbm_update xs h) = sdbm_h h * 65599 ^ length xs + byte_poly 65599 xs"
proof (induction xs arbitrary: h)
  case Nil
  then show ?case by (simp add: sdbm_s.update_Nil)
next
  case (Cons x xs)
  then show ?case by (simp add: sdbm_s.update_Cons [of x xs] sdbm_step algebra_simps)
qed

section \<open>fnv.c\<close>

datatype fnv_version = v_1 | v_a | v_0

record fnv_1_hash =
  fnv_A :: fnv_version
  fnv_h :: u64

definition fnv_1_init :: "fnv_version \<Rightarrow> fnv_1_hash" where
  "fnv_1_init A = \<lparr>fnv_A = A, fnv_h = (if A \<noteq> v_0 then 0xcbf29ce484222325 else 0)\<rparr>"

definition fnv_prime :: u64 where
  "fnv_prime = 0x100000001b3"

definition fnv_1_update :: "u8 list \<Rightarrow> fnv_1_hash \<Rightarrow> fnv_1_hash" where
  "fnv_1_update inp hash = fold (\<lambda>x h.
     (case fnv_A h of
        v_1 \<Rightarrow> h\<lparr>fnv_h := (fnv_h h * fnv_prime) XOR ucast x\<rparr>
      | v_0 \<Rightarrow> h\<lparr>fnv_h := (fnv_h h * fnv_prime) XOR ucast x\<rparr>
      | v_a \<Rightarrow> h\<lparr>fnv_h := (fnv_h h XOR ucast x) * fnv_prime\<rparr>)) inp hash"

definition fnv_1_final :: "fnv_1_hash \<Rightarrow> u64" where
  "fnv_1_final hash = fnv_h hash"

definition fnv_1 :: "u8 list \<Rightarrow> fnv_version \<Rightarrow> u64" where
  "fnv_1 inp A = fnv_1_final (fnv_1_update inp (fnv_1_init A))"

text \<open>The format is \<open>%16llx\<close>: padded with blanks.\<close>

definition l_fnv_final :: "fnv_1_hash \<Rightarrow> string" where
  "l_fnv_final a = fmt_pad (CHR '' '') 16 (unat (fnv_1_final a))"

definition l_fnv_0 :: "u8 list \<Rightarrow> string" where
  "l_fnv_0 a = fmt_pad (CHR '' '') 16 (unat (fnv_1 a v_0))"

definition l_fnv_1 :: "u8 list \<Rightarrow> string" where
  "l_fnv_1 a = fmt_pad (CHR '' '') 16 (unat (fnv_1 a v_1))"

definition l_fnv_a :: "u8 list \<Rightarrow> string" where
  "l_fnv_a a = fmt_pad (CHR '' '') 16 (unat (fnv_1 a v_a))"

lemma fnv_A_update: "fnv_A (fnv_1_update xs h) = fnv_A h"
  by (induction xs arbitrary: h) (simp_all add: fnv_1_update_def split: fnv_version.splits)

lemma fnv_mult_inject: "a * fnv_prime = b * fnv_prime \<longleftrightarrow> a = b" for a b :: u64
  using mult_inverse_inject [of fnv_prime "14886173955864302971" a b] by (auto simp: fnv_prime_def)

interpretation fnv_s: stream_hash "fnv_1_init A" fnv_1_update fnv_1_final "\<lambda>inp. fnv_1 inp A" for A
  by unfold_locales (simp_all add: fnv_1_update_def fnv_1_def)

text \<open>The register alone, for one version: on it every step is injective.\<close>

definition fnv_reg :: "fnv_version \<Rightarrow> u8 list \<Rightarrow> u64 \<Rightarrow> u64" where
  "fnv_reg A inp w = fnv_h (fnv_1_update inp \<lparr>fnv_A = A, fnv_h = w\<rparr>)"

lemma fnv_reg_append: "fnv_reg A (xs @ ys) w = fnv_reg A ys (fnv_reg A xs w)"
proof -
  have "fnv_1_update xs \<lparr>fnv_A = A, fnv_h = w\<rparr> = \<lparr>fnv_A = A, fnv_h = fnv_reg A xs w\<rparr>"
    by (rule fnv_1_hash.equality) (simp_all add: fnv_A_update fnv_reg_def)
  then show ?thesis by (simp add: fnv_reg_def fnv_s.update_append)
qed

interpretation fnv_d: detecting_hash
  "fnv_h (fnv_1_init A)" "fnv_reg A" "\<lambda>w. w" "\<lambda>inp. fnv_1 inp A" for A
proof unfold_locales
  show "fnv_1 inp A = fnv_reg A inp (fnv_h (fnv_1_init A))" for inp
    by (simp add: fnv_1_def fnv_1_final_def fnv_reg_def fnv_1_init_def)
  show "fnv_reg A [x] s = fnv_reg A [x] t \<Longrightarrow> s = t" for x s t
    by (auto simp: fnv_reg_def fnv_1_update_def xor_cancel_right fnv_mult_inject
        split: fnv_version.splits)
  show "fnv_reg A [x] s = fnv_reg A [y] s \<Longrightarrow> x = y" for x y s
    by (auto simp: fnv_reg_def fnv_1_update_def xor_cancel_left fnv_mult_inject
        split: fnv_version.splits dest: ucast_u8_inject [rotated])
qed (simp_all add: fnv_reg_append, simp add: fnv_reg_def fnv_1_update_def)

section \<open>jenkins.c\<close>

record jenkins_oaat_hash =
  oaat_h :: u32

definition jenkins_oaat_init :: jenkins_oaat_hash where
  "jenkins_oaat_init = \<lparr>oaat_h = 0\<rparr>"

definition jenkins_oaat_step :: "u8 \<Rightarrow> u32 \<Rightarrow> u32" where
  "jenkins_oaat_step x h =
     (let h = h + ucast x; h = h + push_bit 10 h in h XOR drop_bit 6 h)"

definition jenkins_oaat_update :: "u8 list \<Rightarrow> jenkins_oaat_hash \<Rightarrow> jenkins_oaat_hash" where
  "jenkins_oaat_update inp hash =
     fold (\<lambda>x h. h\<lparr>oaat_h := jenkins_oaat_step x (oaat_h h)\<rparr>) inp hash"

definition jenkins_oaat_final :: "jenkins_oaat_hash \<Rightarrow> u32" where
  "jenkins_oaat_final hash =
     (let h = oaat_h hash; h = h + push_bit 3 h; h = h XOR drop_bit 11 h in h + push_bit 15 h)"

definition jenkins_oaat :: "u8 list \<Rightarrow> u32" where
  "jenkins_oaat inp = jenkins_oaat_final (jenkins_oaat_update inp jenkins_oaat_init)"

definition l_oaat_final :: "jenkins_oaat_hash \<Rightarrow> string" where
  "l_oaat_final a = fmt_0x 4 (unat (jenkins_oaat_final a))"

definition l_oaat :: "u8 list \<Rightarrow> string" where
  "l_oaat a = fmt_0x 4 (unat (jenkins_oaat a))"

lemma oaat_mults:
  "a * 1025 = b * 1025 \<longleftrightarrow> a = b" "a * 9 = b * 9 \<longleftrightarrow> a = b" "a * 32769 = b * 32769 \<longleftrightarrow> a = b"
  for a b :: u32
  using mult_inverse_inject [of 1025 "3222273025 :: u32" a b]
    mult_inverse_inject [of 9 "954437177 :: u32" a b]
    mult_inverse_inject [of 32769 "1073709057 :: u32" a b] by auto

lemma oaat_xors:
  "a XOR drop_bit 6 a = b XOR drop_bit 6 b \<longleftrightarrow> a = b"
  "a XOR drop_bit 11 a = b XOR drop_bit 11 b \<longleftrightarrow> a = b"
  for a b :: u32
  using xor_drop_bit_inject [of a 6 b] xor_drop_bit_inject [of a 11 b] by auto

lemma oaat_step_iff: "jenkins_oaat_step x h = jenkins_oaat_step y k \<longleftrightarrow> h + ucast x = k + ucast y"
  by (simp add: jenkins_oaat_step_def Let_def add_push_bit oaat_xors oaat_mults del: distrib_right_numeral)

lemma oaat_final_iff: "jenkins_oaat_final a = jenkins_oaat_final b \<longleftrightarrow> oaat_h a = oaat_h b"
  by (simp add: jenkins_oaat_final_def Let_def add_push_bit oaat_xors oaat_mults)

interpretation oaat_s: detecting_hash
  jenkins_oaat_init jenkins_oaat_update jenkins_oaat_final jenkins_oaat
proof unfold_locales
  show "jenkins_oaat_update [x] s = jenkins_oaat_update [x] t \<Longrightarrow> s = t" for x s t
    by (cases s; cases t) (simp add: jenkins_oaat_update_def oaat_step_iff)
  show "jenkins_oaat_update [x] s = jenkins_oaat_update [y] s \<Longrightarrow> x = y" for x y s
    by (cases s) (auto simp: jenkins_oaat_update_def oaat_step_iff dest: ucast_u8_inject [rotated])
  show "jenkins_oaat_final s = jenkins_oaat_final t \<Longrightarrow> s = t" for s t
    by (cases s; cases t) (simp add: oaat_final_iff)
qed (simp_all add: jenkins_oaat_update_def jenkins_oaat_def)

section \<open>pjw.c\<close>

record pjw_hash =
  pjw_h :: u32
  pjw_high :: u32

definition pjw_init :: pjw_hash where
  "pjw_init = \<lparr>pjw_h = 0, pjw_high = 0\<rparr>"

definition pjw_step :: "u8 \<Rightarrow> pjw_hash \<Rightarrow> pjw_hash" where
  "pjw_step x s =
     (let h = push_bit 4 (pjw_h s) + ucast x;
          high = h AND 0xf0000000;
          h = (if high \<noteq> 0 then h XOR drop_bit 24 high else h);
          h = h AND NOT high
      in \<lparr>pjw_h = h, pjw_high = high\<rparr>)"

definition pjw_update :: "u8 list \<Rightarrow> pjw_hash \<Rightarrow> pjw_hash" where
  "pjw_update inp hash = fold pjw_step inp hash"

definition pjw_final :: "pjw_hash \<Rightarrow> u32" where
  "pjw_final hash = pjw_h hash"

definition pjw :: "u8 list \<Rightarrow> u32" where
  "pjw inp = pjw_final (pjw_update inp pjw_init)"

definition l_pjw_final :: "pjw_hash \<Rightarrow> string" where
  "l_pjw_final a = fmt_0x 8 (unat (pjw_final a))"

definition l_pjw :: "u8 list \<Rightarrow> string" where
  "l_pjw a = fmt_0x 8 (unat (pjw a))"

interpretation pjw_s: stream_hash pjw_init pjw_update pjw_final pjw
  by unfold_locales (simp_all add: pjw_update_def pjw_def)

text \<open>The top nibble is clear after every byte.\<close>

definition pjw_ok :: "pjw_hash \<Rightarrow> bool" where
  "pjw_ok s \<longleftrightarrow> drop_bit 28 (pjw_h s) = 0"

lemma drop_bit_eq_0I:
  fixes w :: "'a::len word"
  assumes "\<And>k. n \<le> k \<Longrightarrow> \<not> bit w k"
  shows "drop_bit n w = 0"
  by (rule bit_word_eqI) (simp add: bit_drop_bit_eq assms)

lemma top_nibble_clear: "drop_bit 28 (h AND NOT (h AND (0xf0000000 :: u32))) = 0"
  "drop_bit 28 ((h XOR drop_bit 24 (h AND 0xf0000000)) AND NOT (h AND (0xf0000000 :: u32))) = 0"
proof -
  have mask: "(0xf0000000 :: u32) = push_bit 28 (mask 4)" by (simp add: mask_eq_exp_minus_1)
  have high: "bit (0xf0000000 :: u32) k \<longleftrightarrow> possible_bit TYPE(u32) k" if "28 \<le> k" for k
    unfolding mask using that by (auto simp: bit_simps)
  show "drop_bit 28 (h AND NOT (h AND (0xf0000000 :: u32))) = 0"
    by (rule drop_bit_eq_0I)
      (simp only: bit_and_iff bit_not_iff high, blast)
  show "drop_bit 28 ((h XOR drop_bit 24 (h AND 0xf0000000)) AND NOT (h AND (0xf0000000 :: u32))) = 0"
    by (rule drop_bit_eq_0I)
      (simp only: bit_and_iff bit_xor_iff bit_drop_bit_eq o_apply bit_not_iff high,
        auto simp: possible_bit_word dest: bit_imp_le_length)
qed

lemma pjw_step_ok: "pjw_ok (pjw_step x s)"
  unfolding pjw_ok_def pjw_step_def Let_def pjw_hash.simps
  by (split if_split) (simp only: top_nibble_clear simp_thms)

lemma pjw_update_ok: "pjw_ok s \<Longrightarrow> pjw_ok (pjw_update xs s)"
  unfolding pjw_update_def by (rule fold_invariant) (simp_all add: pjw_step_ok)

lemma pjw_ok_bound: "pjw_ok s \<Longrightarrow> unat (pjw_h s) < 2 ^ 28"
proof -
  assume "pjw_ok s"
  then have "unat (drop_bit 28 (pjw_h s)) = 0" by (simp add: pjw_ok_def)
  then have "drop_bit 28 (unat (pjw_h s)) = 0" by (simp only: unat_drop_bit_eq)
  then have "unat (pjw_h s) div 2 ^ 28 = 0" by (simp only: drop_bit_eq_div)
  then show ?thesis by (simp add: div_eq_0_iff)
qed

lemma pjw_bound: "unat (pjw xs) < 2 ^ 28"
  by (simp only: pjw_def pjw_final_def)
    (rule pjw_ok_bound, rule pjw_update_ok, simp add: pjw_ok_def pjw_init_def)

end
