(* ===== verification/OneShotHashes.thy ===== *)
theory OneShotHashes
  imports Checksums Rotate
begin

text \<open>
  The hashes of \<open>src/src/hash\<close> that exist as one function: buzhash.c, fasthash.c and murmur.c.
  buzhash rotates by the distance to the end of the input, which C defines for short inputs only.
  The fasthash and murmur functions are chains of steps that lose no information, so two inputs
  that differ in one byte have different hashes.
\<close>

unbundle bit_operations_syntax

section \<open>buzhash.c\<close>

definition buzhash_table :: "u8 list" where
  "buzhash_table = map of_nat [0..<256]"

text \<open>The rotation count is converted to the width of the rotation's parameter.\<close>

definition buzhash8 :: "u8 list \<Rightarrow> u8 list \<Rightarrow> u8 option" where
  "buzhash8 T inp = fold (\<lambda>i hash. case hash of None \<Rightarrow> None | Some h \<Rightarrow>
     (let n = of_nat (length inp - (i + 1))
      in if rotl8_defined n then Some (h XOR rotl8 (T ! unat (inp ! i)) n) else None))
     [0..<length inp] (Some 0)"

definition buzhash16 :: "u8 list \<Rightarrow> u8 list \<Rightarrow> u16 option" where
  "buzhash16 T inp = fold (\<lambda>i hash. case hash of None \<Rightarrow> None | Some h \<Rightarrow>
     (let n = of_nat (length inp - (i + 1))
      in if rotl16_defined n then Some (h XOR rotl16 (ucast (T ! unat (inp ! i))) n) else None))
     [0..<length inp] (Some 0)"

definition l_setbuzhash :: "u8 option list \<Rightarrow> u8 list \<Rightarrow> set_table_result" where
  "l_setbuzhash vs tbl = (if length vs \<noteq> 256 then ProcessExit else set_table_loop 0 vs tbl)"

definition l_buzhash8 :: "u8 list \<Rightarrow> u8 list \<Rightarrow> string option" where
  "l_buzhash8 T a = map_option (\<lambda>u. fmt_x (unat u)) (buzhash8 T a)"

definition l_buzhash16 :: "u8 list \<Rightarrow> u8 list \<Rightarrow> string option" where
  "l_buzhash16 T a = map_option (\<lambda>u. fmt_0x 4 (unat u)) (buzhash16 T a)"

lemma fold_None: "fold (\<lambda>i s. case s of None \<Rightarrow> None | Some h \<Rightarrow> f i h) xs None = None"
  by (induction xs) simp_all

text \<open>A chain of guarded steps is defined when every guard holds.\<close>

lemma fold_guarded:
  "fold (\<lambda>i s. case s of None \<Rightarrow> None | Some h \<Rightarrow> (if P i then Some (f i h) else None)) xs (Some h)
    = (if \<forall>i \<in> set xs. P i then Some (fold f xs h) else None)"
  by (induction xs arbitrary: h) (simp_all add: fold_None)

lemma buzhash8_guarded: "buzhash8 T inp =
    (if \<forall>i < length inp. rotl8_defined (of_nat (length inp - (i + 1)))
     then Some (fold (\<lambda>i h. h XOR rotl8 (T ! unat (inp ! i)) (of_nat (length inp - (i + 1))))
       [0..<length inp] 0) else None)"
  unfolding buzhash8_def Let_def by (subst fold_guarded) simp

lemma buzhash16_guarded: "buzhash16 T inp =
    (if \<forall>i < length inp. rotl16_defined (of_nat (length inp - (i + 1)))
     then Some (fold (\<lambda>i h. h XOR rotl16 (ucast (T ! unat (inp ! i))) (of_nat (length inp - (i + 1))))
       [0..<length inp] 0) else None)"
  unfolding buzhash16_def Let_def by (subst fold_guarded) simp

lemma rotl8_defined_of_nat: "n \<le> 8 \<Longrightarrow> rotl8_defined (of_nat n)" "\<not> rotl8_defined (of_nat 9)"
  by (simp_all add: rotl8_defined_def word_le_nat_alt unat_of_nat)

lemma rotl16_defined_of_nat: "n \<le> 16 \<Longrightarrow> rotl16_defined (of_nat n)" "\<not> rotl16_defined (of_nat 17)"
  by (simp_all add: rotl16_defined_def word_le_nat_alt unat_of_nat)

lemma buzhash8_defined: "buzhash8 T inp \<noteq> None \<longleftrightarrow> length inp \<le> 9"
proof -
  have "\<not> (\<forall>i < length inp. rotl8_defined (of_nat (length inp - (i + 1))))" if "9 < length inp"
    using that rotl8_defined_of_nat(2) by (intro notI) (drule spec [of _ "length inp - 10"], simp)
  moreover have "\<forall>i < length inp. rotl8_defined (of_nat (length inp - (i + 1)))" if "length inp \<le> 9"
    using that by (intro allI impI rotl8_defined_of_nat(1)) simp
  ultimately show ?thesis unfolding buzhash8_guarded
    by (metis (no_types) linorder_not_le option.distinct(1))
qed

lemma buzhash16_defined: "buzhash16 T inp \<noteq> None \<longleftrightarrow> length inp \<le> 17"
proof -
  have "\<not> (\<forall>i < length inp. rotl16_defined (of_nat (length inp - (i + 1))))" if "17 < length inp"
    using that rotl16_defined_of_nat(2) by (intro notI) (drule spec [of _ "length inp - 18"], simp)
  moreover have "\<forall>i < length inp. rotl16_defined (of_nat (length inp - (i + 1)))" if "length inp \<le> 17"
    using that by (intro allI impI rotl16_defined_of_nat(1)) simp
  ultimately show ?thesis unfolding buzhash16_guarded
    by (metis (no_types) linorder_not_le option.distinct(1))
qed

section \<open>Words of the input\<close>

lemma le32_byte:
  "(ucast (le32 b i) :: u8) = b ! i"
  "(ucast (drop_bit 8 (le32 b i)) :: u8) = b ! (i + 1)"
  "(ucast (drop_bit 16 (le32 b i)) :: u8) = b ! (i + 2)"
  "(ucast (drop_bit 24 (le32 b i)) :: u8) = b ! (i + 3)"
  by (rule bit_word_eqI, auto simp: le32_def bit_simps dest: bit_imp_le_length)+

lemma le32_inject:
  "le32 b i = le32 c j \<Longrightarrow> b ! i = c ! j \<and> b ! (i + 1) = c ! (j + 1) \<and> b ! (i + 2) = c ! (j + 2)
    \<and> b ! (i + 3) = c ! (j + 3)"
  using le32_byte [of b i] le32_byte [of c j] by metis

lemma le64_half:
  "(ucast (le64 b i) :: u32) = le32 b i"
  "(ucast (drop_bit 32 (le64 b i)) :: u32) = le32 b (i + 4)"
  by (rule bit_word_eqI, auto simp: le64_def bit_simps dest: bit_imp_le_length)+

lemma less_4: "k < 4 \<Longrightarrow> k = 0 \<or> k = 1 \<or> k = 2 \<or> k = (3 :: nat)"
  by auto

lemma le32_nth: "le32 b i = le32 c j \<Longrightarrow> k < 4 \<Longrightarrow> b ! (i + k) = c ! (j + k)"
  using le32_inject [of b i c j] by (auto dest!: less_4)

lemma le64_nth:
  assumes "le64 b i = le64 c j" and "k < 8"
  shows "b ! (i + k) = c ! (j + k)"
proof (cases "k < 4")
  case True
  then show ?thesis using le32_nth [of b i c j k] assms by (metis le64_half(1))
next
  case False
  then obtain l where "k = 4 + l" "l < 4" using assms(2) by (metis add_diff_inverse_nat
        less_diff_conv2 not_le_imp_less numeral_Bit0 add.commute linorder_not_le)
  then show ?thesis using le32_nth [of b "i + 4" c "j + 4" l] assms(1)
    by (metis le64_half(2) add.assoc)
qed

section \<open>Loops over whole words\<close>

text \<open>The contract of a loop that folds an injective step over the words of the input and returns the
  bytes that make no whole word.\<close>

locale word_loop =
  fixes n :: nat and load :: "u8 list \<Rightarrow> 'k" and step :: "'k \<Rightarrow> 's \<Rightarrow> 's"
    and loop :: "u8 list \<Rightarrow> 's \<Rightarrow> 's \<times> u8 list"
  assumes n_pos: "0 < n"
    and loop: "loop d s = (if n \<le> length d then loop (drop n d) (step (load d) s) else (s, d))"
    and load_take: "n \<le> length d \<Longrightarrow> load (take n d) = load d"
    and load_inj: "n \<le> length d \<Longrightarrow> n \<le> length e \<Longrightarrow> load d = load e \<Longrightarrow> take n d = take n e"
    and step_state: "step k s = step k t \<Longrightarrow> s = t"
    and step_word: "step k s = step l s \<Longrightarrow> k = l"
begin

lemma loop_step: "n \<le> length d \<Longrightarrow> loop d s = loop (drop n d) (step (load d) s)"
  and loop_end: "length d < n \<Longrightarrow> loop d s = (s, d)"
  by (subst loop, simp)+

lemma loop_inject: "fst (loop d s) = fst (loop d t) \<Longrightarrow> s = t"
  and loop_rest: "snd (loop d s) = snd (loop d t)"
proof (induction d arbitrary: s t rule: length_induct)
  case (1 d)
  {
    case 1
    show ?case
    proof (cases "n \<le> length d")
      case True
      then have "length (drop n d) < length d" using n_pos by simp
      moreover have "fst (loop (drop n d) (step (load d) s)) = fst (loop (drop n d) (step (load d) t))"
        using 1 True by (simp add: loop_step)
      ultimately have "step (load d) s = step (load d) t" using "1.IH" by blast
      then show ?thesis by (rule step_state)
    qed (use 1 in \<open>simp add: loop_end\<close>)
  next
    case 2
    show ?case
    proof (cases "n \<le> length d")
      case True
      then have "length (drop n d) < length d" using n_pos by simp
      then show ?thesis using "1.IH" True by (simp add: loop_step)
    qed (simp add: loop_end)
  }
qed

text \<open>A change of one byte shows in the state, or is still in the rest.\<close>

lemma loop_detects:
  assumes "x \<noteq> y"
  shows "fst (loop (as @ x # bs) s) \<noteq> fst (loop (as @ y # bs) s)
      \<and> snd (loop (as @ x # bs) s) = snd (loop (as @ y # bs) s)
    \<or> fst (loop (as @ x # bs) s) = fst (loop (as @ y # bs) s)
      \<and> (\<exists>cs. snd (loop (as @ x # bs) s) = cs @ x # bs
          \<and> snd (loop (as @ y # bs) s) = cs @ y # bs \<and> length (cs @ x # bs) < n)"
proof (induction as arbitrary: s rule: length_induct)
  case (1 as)
  let ?p = "as @ x # bs" and ?q = "as @ y # bs"
  consider "length ?p < n" | "n \<le> length as" | "length as < n" "n \<le> length ?p"
    by linarith
  then show ?case
  proof cases
    case 1
    then show ?thesis by (auto simp: loop_end)
  next
    case 2
    have "load ?p = load ?q" using 2 load_take [of ?p] load_take [of ?q] by simp
    then have "loop ?p s = loop (drop n as @ x # bs) (step (load ?p) s)"
      "loop ?q s = loop (drop n as @ y # bs) (step (load ?p) s)"
      using 2 loop_step [of ?p s] loop_step [of ?q s] by simp_all
    moreover have "length (drop n as) < length as" using 2 n_pos by simp
    ultimately show ?thesis using "1.IH" by simp
  next
    case 3
    have "take n ?p ! length as \<noteq> take n ?q ! length as"
      using 3 assms by (simp del: take_append)
    then have "load ?p \<noteq> load ?q" using load_inj [of ?p ?q] 3(2) by auto
    then have step: "step (load ?p) s \<noteq> step (load ?q) s" using step_word by blast
    have "n \<le> length ?q" and "drop n ?p = drop n ?q" using 3 by (cases "n - length as"; simp)+
    then have P: "loop ?p s = loop (drop n ?q) (step (load ?p) s)"
      and Q: "loop ?q s = loop (drop n ?q) (step (load ?q) s)"
      using loop_step [OF 3(2), of s] loop_step [of ?q s] by (simp_all only:)
    have "fst (loop ?p s) \<noteq> fst (loop ?q s)" unfolding P Q using step loop_inject by blast
    moreover have "snd (loop ?p s) = snd (loop ?q s)" unfolding P Q by (rule loop_rest)
    ultimately show ?thesis by blast
  qed
qed

end

lemma le32_cong:
  assumes "\<And>k. k < 4 \<Longrightarrow> b ! (i + k) = c ! (i + k)"
  shows "le32 b i = le32 c i"
  using assms [of 0] assms [of 1] assms [of 2] assms [of 3] by (simp add: le32_def)

lemma le32_take: "4 \<le> length d \<Longrightarrow> le32 (take 4 d) 0 = le32 d 0"
  by (rule le32_cong) simp

lemma le64_take: "8 \<le> length d \<Longrightarrow> le64 (take 8 d) 0 = le64 d 0"
  unfolding le64_def
  by (intro arg_cong2 [where f = "\<lambda>a b. ucast a OR push_bit 32 (ucast b)"] le32_cong) simp_all

lemma le32_load: "4 \<le> length d \<Longrightarrow> 4 \<le> length e \<Longrightarrow> le32 d 0 = le32 e 0 \<Longrightarrow> take 4 d = take 4 e"
  using le32_nth [of d 0 e 0] by (intro nth_equalityI) simp_all

lemma le64_load: "8 \<le> length d \<Longrightarrow> 8 \<le> length e \<Longrightarrow> le64 d 0 = le64 e 0 \<Longrightarrow> take 8 d = take 8 e"
  using le64_nth [of d 0 e 0] by (intro nth_equalityI) simp_all

section \<open>fasthash.c\<close>

definition fasthash_m :: u64 where
  "fasthash_m = 0x880355f21e6d1965"

definition fasthash_mix :: "u64 \<Rightarrow> u64" where
  "fasthash_mix h = (let h = h XOR drop_bit 23 h; h = h * 0x2127599bf4325c37 in h XOR drop_bit 47 h)"

text \<open>The loop over whole words; what is left are the 0 to 7 bytes of \<open>data2\<close>.\<close>

fun fasthash_loop :: "u8 list \<Rightarrow> u64 \<Rightarrow> u64 \<times> u8 list" where
  "fasthash_loop data hash =
     (if 8 \<le> length data
      then fasthash_loop (drop 8 data) ((hash XOR fasthash_mix (le64 data 0)) * fasthash_m)
      else (hash, data))"

declare fasthash_loop.simps [simp del]

text \<open>The cases of the switch fall through to case 1, which mixes; case 0 is absent.\<close>

definition fasthash_tail :: "u8 list \<Rightarrow> u64" where
  "fasthash_tail data2 = fold (\<lambda>i v. v XOR push_bit (8 * i) (ucast (data2 ! i))) (rev [0..<length data2]) 0"

definition fasthash64 :: "u8 list \<Rightarrow> u64 \<Rightarrow> u64" where
  "fasthash64 inp seed =
     (case fasthash_loop inp (seed XOR of_nat (length inp) * fasthash_m) of (hash, data2) \<Rightarrow>
        let hash = (if data2 = [] then hash
                    else (hash XOR fasthash_mix (fasthash_tail data2)) * fasthash_m)
        in fasthash_mix hash)"

definition fasthash32 :: "u8 list \<Rightarrow> u32 \<Rightarrow> u32" where
  "fasthash32 buf seed = (let hash = fasthash64 buf (ucast seed) in ucast (hash - drop_bit 32 hash))"

definition l_fasthash64 :: "u8 list \<Rightarrow> u64 \<Rightarrow> string" where
  "l_fasthash64 a seed = fmt_0x 16 (unat (fasthash64 a seed))"

definition l_fasthash32 :: "u8 list \<Rightarrow> u32 \<Rightarrow> string" where
  "l_fasthash32 a seed = fmt_0x 4 (unat (fasthash32 a seed))"

lemma fasthash_m_inject: "a * fasthash_m = b * fasthash_m \<longleftrightarrow> a = b" for a b :: u64
  using mult_inverse_inject [of fasthash_m "2953274455019778157" a b] by (auto simp: fasthash_m_def)

lemma fasthash_mix_inject: "fasthash_mix a = fasthash_mix b \<longleftrightarrow> a = b"
proof
  assume "fasthash_mix a = fasthash_mix b"
  then have "(a XOR drop_bit 23 a) * 0x2127599bf4325c37 = (b XOR drop_bit 23 b) * 0x2127599bf4325c37"
    unfolding fasthash_mix_def Let_def by (rule xor_drop_bit_inject) simp
  then have "a XOR drop_bit 23 a = b XOR drop_bit 23 b"
    by (rule mult_inverse_inject [of _ "11654453480509151623", rotated]) simp
  then show "a = b" by (rule xor_drop_bit_inject) simp
qed simp

text \<open>The tail of equal length determines its bytes.\<close>

lemma fold_xor_bit:
  "bit (fold (\<lambda>i v. v XOR push_bit (8 * i) (ucast (d ! i :: u8) :: u64)) is v) n
    = (bit v n \<noteq> odd (length (filter (\<lambda>i. bit (push_bit (8 * i) (ucast (d ! i) :: u64)) n) is)))"
  by (induction "is" arbitrary: v) (auto simp: bit_xor_iff)

lemma fasthash_tail_byte:
  assumes "k < length d" and "length d \<le> 8"
  shows "(ucast (drop_bit (8 * k) (fasthash_tail d)) :: u8) = d ! k"
proof (rule bit_word_eqI)
  fix n assume n: "n < LENGTH(8)"
  have byte: "bit (push_bit (8 * i) (ucast (d ! i) :: u64)) (8 * k + n) \<longleftrightarrow> i = k \<and> bit (d ! k) n"
    if "i < length d" for i
  proof (cases i k rule: linorder_cases)
    case less
    then have "8 \<le> 8 * k + n - 8 * i" by simp
    then have "\<not> bit (d ! i) (8 * k + n - 8 * i)" by (auto dest: bit_imp_le_length)
    then show ?thesis using less by (auto simp: bit_simps)
  next
    case equal
    then show ?thesis using n assms by (auto simp: bit_simps)
  next
    case greater
    then have "8 * k + n < 8 * i" using n by simp
    then show ?thesis using greater by (auto simp: bit_simps)
  qed
  have "filter (\<lambda>i. bit (push_bit (8 * i) (ucast (d ! i) :: u64)) (8 * k + n)) (rev [0..<length d])
      = filter (\<lambda>i. i = k \<and> bit (d ! k) n) (rev [0..<length d])"
    using byte by (intro filter_cong) auto
  also have "length \<dots> = (if bit (d ! k) n then 1 else 0)"
  proof -
    have "length (filter (\<lambda>i. i = k) (rev [0..<length d])) = card {i. i = k \<and> i < length d}"
      by (subst distinct_length_filter) (auto intro!: arg_cong [where f = card])
    also have "{i. i = k \<and> i < length d} = {k}" using assms(1) by auto
    finally show ?thesis by simp
  qed
  finally show "bit (ucast (drop_bit (8 * k) (fasthash_tail d)) :: u8) n = bit (d ! k) n"
    using n by (simp add: fasthash_tail_def bit_ucast_iff bit_drop_bit_eq fold_xor_bit)
qed

interpretation fasthash_w: word_loop 8 "\<lambda>d. le64 d 0"
  "\<lambda>v hash. (hash XOR fasthash_mix v) * fasthash_m" fasthash_loop
  by unfold_locales
    (simp, subst fasthash_loop.simps, simp, simp add: le64_take, erule (2) le64_load,
      simp_all add: fasthash_m_inject
      xor_cancel_right xor_cancel_left fasthash_mix_inject)

lemma fasthash64_detects_byte:
  assumes "x \<noteq> y"
  shows "fasthash64 (as @ x # bs) seed \<noteq> fasthash64 (as @ y # bs) seed"
proof -
  let ?s = "seed XOR of_nat (length (as @ x # bs)) * fasthash_m"
  have same: "seed XOR of_nat (length (as @ y # bs)) * fasthash_m = ?s" by simp
  obtain h1 d1 h2 d2 where loops: "fasthash_loop (as @ x # bs) ?s = (h1, d1)"
    "fasthash_loop (as @ y # bs) ?s = (h2, d2)" by (metis surj_pair)
  have val: "fasthash64 (as @ x # bs) seed
      = fasthash_mix (if d1 = [] then h1 else (h1 XOR fasthash_mix (fasthash_tail d1)) * fasthash_m)"
    "fasthash64 (as @ y # bs) seed
      = fasthash_mix (if d2 = [] then h2 else (h2 XOR fasthash_mix (fasthash_tail d2)) * fasthash_m)"
    by (simp_all only: fasthash64_def same loops Let_def prod.case)
  consider "h1 \<noteq> h2" "d1 = d2"
    | cs where "h1 = h2" "d1 = cs @ x # bs" "d2 = cs @ y # bs" "length (cs @ x # bs) < 8"
    using fasthash_w.loop_detects [OF assms, of as bs ?s] loops by auto
  then show ?thesis
  proof cases
    case 1
    then show ?thesis
      by (simp add: val fasthash_mix_inject fasthash_m_inject xor_cancel_right)
  next
    case 2
    have "fasthash_tail d1 \<noteq> fasthash_tail d2"
    proof
      assume "fasthash_tail d1 = fasthash_tail d2"
      then have "d1 ! length cs = d2 ! length cs"
        using fasthash_tail_byte [of "length cs" d1] fasthash_tail_byte [of "length cs" d2] 2 by simp
      then show False using 2 assms by simp
    qed
    then show ?thesis using 2
      by (simp add: val fasthash_mix_inject fasthash_m_inject xor_cancel_left)
  qed
qed

section \<open>murmur.c\<close>

definition murmur1_step :: "u32 \<Rightarrow> u32 \<Rightarrow> u32" where
  "murmur1_step k hash = (let hash = hash + k; hash = hash * 0xc6a4a793 in hash XOR drop_bit 16 hash)"

text \<open>The cases of the switch, which fall through: the remaining bytes as one number.\<close>

definition murmur_tail :: "u8 list \<Rightarrow> u32 \<Rightarrow> u32" where
  "murmur_tail inp hash =
     (let hash = (if length inp = 3 then hash + push_bit 16 (ucast (inp ! 2)) else hash);
          hash = (if length inp = 3 \<or> length inp = 2 then hash + push_bit 8 (ucast (inp ! 1)) else hash)
      in hash + ucast (inp ! 0))"

fun murmur1_loop :: "u8 list \<Rightarrow> u32 \<Rightarrow> u32 \<times> u8 list" where
  "murmur1_loop inp hash =
     (if 4 \<le> length inp then murmur1_loop (drop 4 inp) (murmur1_step (le32 inp 0) hash)
      else (hash, inp))"

declare murmur1_loop.simps [simp del]

definition murmur1_32 :: "u8 list \<Rightarrow> u32 \<Rightarrow> u32" where
  "murmur1_32 inp seed =
     (let m = 0xc6a4a793;
          (hash, inp') = murmur1_loop inp (seed XOR of_nat (length inp) * m);
          hash = (if inp' = [] then hash
                  else (let hash = murmur_tail inp' hash; hash = hash * m in hash XOR drop_bit 16 hash));
          hash = hash * m;
          hash = hash XOR drop_bit 10 hash;
          hash = hash * m
      in hash XOR drop_bit 17 hash)"

definition murmur2_step :: "u32 \<Rightarrow> u32 \<Rightarrow> u32" where
  "murmur2_step k hash =
     (let m = 0x5bd1e995; k = k * m; k = k XOR drop_bit 24 k; k = k * m; hash = hash * m
      in hash XOR k)"

fun murmur2_loop :: "u8 list \<Rightarrow> u32 \<Rightarrow> u32 \<times> u8 list" where
  "murmur2_loop inp hash =
     (if 4 \<le> length inp then murmur2_loop (drop 4 inp) (murmur2_step (le32 inp 0) hash)
      else (hash, inp))"

declare murmur2_loop.simps [simp del]

definition murmur2_32 :: "u8 list \<Rightarrow> u32 \<Rightarrow> u32" where
  "murmur2_32 inp seed =
     (let m = 0x5bd1e995;
          (hash, inp') = murmur2_loop inp (seed XOR of_nat (length inp));
          hash = (if inp' = [] then hash else murmur_tail inp' hash * m);
          hash = hash XOR drop_bit 13 hash;
          hash = hash * m
      in hash XOR drop_bit 15 hash)"

text \<open>The seed is a Lua integer cut to 32 bits; the digest is \<open>%08lx\<close>.\<close>

definition l_murmur1_32 :: "u8 list \<Rightarrow> u64 \<Rightarrow> string" where
  "l_murmur1_32 a seed = fmt_0x 8 (unat (murmur1_32 a (ucast seed)))"

definition l_murmur2_32 :: "u8 list \<Rightarrow> u64 \<Rightarrow> string" where
  "l_murmur2_32 a seed = fmt_0x 8 (unat (murmur2_32 a (ucast seed)))"

lemma murmur_mult_inject:
  "a * 0xc6a4a793 = b * 0xc6a4a793 \<longleftrightarrow> a = b" "a * 0x5bd1e995 = b * 0x5bd1e995 \<longleftrightarrow> a = b" for a b :: u32
  using mult_inverse_inject [of "0xc6a4a793" "3625553563 :: u32" a b]
    mult_inverse_inject [of "0x5bd1e995" "3852147133 :: u32" a b] by auto

lemma xor_drop_bit_iff:
  "0 < n \<Longrightarrow> a XOR drop_bit n a = b XOR drop_bit n b \<longleftrightarrow> a = b" for a b :: "'a::len word"
  using xor_drop_bit_inject [of a n b] by auto

lemma murmur1_step_iff:
  "murmur1_step k s = murmur1_step k t \<longleftrightarrow> s = t" "murmur1_step k s = murmur1_step l s \<longleftrightarrow> k = l"
  by (simp_all add: murmur1_step_def Let_def xor_drop_bit_iff murmur_mult_inject
      del: distrib_right_numeral)

lemma murmur2_step_iff:
  "murmur2_step k s = murmur2_step k t \<longleftrightarrow> s = t" "murmur2_step k s = murmur2_step l s \<longleftrightarrow> k = l"
  by (simp_all add: murmur2_step_def Let_def xor_drop_bit_iff murmur_mult_inject xor_cancel_left
      xor_cancel_right)

interpretation murmur1_w: word_loop 4 "\<lambda>d. le32 d 0" murmur1_step murmur1_loop
  by unfold_locales
    (simp, subst murmur1_loop.simps, simp, simp add: le32_take, erule (2) le32_load,
      simp_all add: murmur1_step_iff)

interpretation murmur2_w: word_loop 4 "\<lambda>d. le32 d 0" murmur2_step murmur2_loop
  by unfold_locales
    (simp, subst murmur2_loop.simps, simp, simp add: le32_take, erule (2) le32_load,
      simp_all add: murmur2_step_iff)

text \<open>Up to three bytes, added as one number, are told apart by it.\<close>

lemma murmur_tail_value:
  fixes a b c :: u8
  shows "unat (push_bit 16 (ucast c) + (push_bit 8 (ucast b) + (ucast a :: u32)))
    = unat c * 65536 + unat b * 256 + unat a"
proof -
  have "unat (push_bit 16 (ucast c) :: u32) = unat c * 65536"
    and "unat (push_bit 8 (ucast b) :: u32) = unat b * 256"
    using unat_u8_less [of c] unat_u8_less [of b]
    by (simp_all add: push_bit_eq_mult unat_word_ariths)
  then show ?thesis using unat_u8_less [of c] unat_u8_less [of b] unat_u8_less [of a]
    by (simp add: unat_word_ariths)
qed

lemma murmur_tail_sum:
  "length d = 1 \<Longrightarrow> murmur_tail d h = h + (push_bit 16 (ucast (0 :: u8)) + (push_bit 8 (ucast (0 :: u8)) + ucast (d ! 0)))"
  "length d = 2 \<Longrightarrow> murmur_tail d h = h + (push_bit 16 (ucast (0 :: u8)) + (push_bit 8 (ucast (d ! 1)) + ucast (d ! 0)))"
  "length d = 3 \<Longrightarrow> murmur_tail d h = h + (push_bit 16 (ucast (d ! 2)) + (push_bit 8 (ucast (d ! 1)) + ucast (d ! 0)))"
  by (simp_all add: murmur_tail_def add.assoc)

lemma base256_digit:
  fixes p q m n :: nat
  assumes "p < 256" and "q < 256" and "m * 256 + p = n * 256 + q"
  shows "p = q \<and> m = n"
proof -
  have "(m * 256 + p) mod 256 = p" and "(n * 256 + q) mod 256 = q" using assms(1,2) by simp_all
  then have "p = q" using assms(3) by metis
  then show ?thesis using assms(3) by simp
qed

lemma murmur_digits:
  fixes a b c x y z :: u8
  assumes "push_bit 16 (ucast c) + (push_bit 8 (ucast b) + (ucast a :: u32))
    = push_bit 16 (ucast z) + (push_bit 8 (ucast y) + ucast x)"
  shows "a = x \<and> b = y \<and> c = z"
proof -
  have eq: "unat c * 65536 + unat b * 256 + unat a = unat z * 65536 + unat y * 256 + unat x"
    using assms by (metis murmur_tail_value)
  note bounds = unat_u8_less [of a] unat_u8_less [of b] unat_u8_less [of x] unat_u8_less [of y]
  have "unat a = unat x \<and> unat c * 256 + unat b = unat z * 256 + unat y"
    using eq bounds by (intro base256_digit) simp_all
  then have "unat a = unat x \<and> unat b = unat y \<and> unat c = unat z"
    using base256_digit [of "unat b" "unat y" "unat c" "unat z"] bounds by simp
  then show ?thesis by (simp add: word_unat_eq_iff)
qed

lemma murmur_tail_inject:
  assumes "length d = length e" and "length d < 4" and "murmur_tail d h = murmur_tail e h"
  shows "d = e \<or> d = []"
proof -
  consider "length d = 0" | "length d = 1" | "length d = 2" | "length d = 3" using assms(2) by linarith
  then show ?thesis
  proof cases
    case 2
    have "d ! 0 = e ! 0"
      by (rule murmur_digits [THEN conjunct1])
        (use assms 2 in \<open>simp only: murmur_tail_sum add_left_cancel\<close>)
    then show ?thesis using 2 assms(1) by (auto intro: nth_equalityI)
  next
    case 3
    have "d ! 0 = e ! 0 \<and> d ! 1 = e ! 1 \<and> (0 :: u8) = 0"
      by (rule murmur_digits) (use assms 3 in \<open>simp only: murmur_tail_sum add_left_cancel\<close>)
    then show ?thesis using 3 assms(1) by (auto intro!: nth_equalityI simp: less_2_cases_iff)
  next
    case 4
    have "d ! 0 = e ! 0 \<and> d ! 1 = e ! 1 \<and> d ! 2 = e ! 2"
      by (rule murmur_digits) (use assms 4 in \<open>simp only: murmur_tail_sum add_left_cancel\<close>)
    then show ?thesis using 4 assms(1) by (auto intro!: nth_equalityI simp: less_Suc_eq numeral_3_eq_3 numeral_2_eq_2)
  qed simp
qed

lemma murmur_tail_state: "murmur_tail d s = murmur_tail d t \<longleftrightarrow> s = t"
  by (simp add: murmur_tail_def Let_def)

lemma murmur1_32_detects_byte:
  assumes "x \<noteq> y"
  shows "murmur1_32 (as @ x # bs) seed \<noteq> murmur1_32 (as @ y # bs) seed"
proof -
  let ?s = "seed XOR of_nat (length (as @ x # bs)) * 0xc6a4a793"
  have same: "seed XOR of_nat (length (as @ y # bs)) * 0xc6a4a793 = ?s" by simp
  obtain h1 d1 h2 d2 where loops: "murmur1_loop (as @ x # bs) ?s = (h1, d1)"
    "murmur1_loop (as @ y # bs) ?s = (h2, d2)" by (metis surj_pair)
  define g :: "u8 list \<Rightarrow> u32 \<Rightarrow> u32" where "g d h = (if d = [] then h
    else (murmur_tail d h * 0xc6a4a793) XOR drop_bit 16 (murmur_tail d h * 0xc6a4a793))" for d h
  have "murmur1_32 (as @ x # bs) seed = murmur1_32 (as @ y # bs) seed \<longleftrightarrow> g d1 h1 = g d2 h2"
    by (simp only: murmur1_32_def same loops Let_def prod.case xor_drop_bit_iff murmur_mult_inject
        g_def zero_less_numeral)
  moreover consider "h1 \<noteq> h2" "d1 = d2"
    | cs where "h1 = h2" "d1 = cs @ x # bs" "d2 = cs @ y # bs" "length (cs @ x # bs) < 4"
    using murmur1_w.loop_detects [OF assms, of as bs ?s] loops by auto
  then have "g d1 h1 \<noteq> g d2 h2"
  proof cases
    case 1
    then show ?thesis by (simp add: g_def xor_drop_bit_iff murmur_mult_inject murmur_tail_state)
  next
    case 2
    then have "murmur_tail d1 h1 \<noteq> murmur_tail d2 h1"
      using murmur_tail_inject [of d1 d2 h1] assms by auto
    then show ?thesis using 2 by (simp add: g_def xor_drop_bit_iff murmur_mult_inject)
  qed
  ultimately show ?thesis by simp
qed

lemma murmur2_32_detects_byte:
  assumes "x \<noteq> y"
  shows "murmur2_32 (as @ x # bs) seed \<noteq> murmur2_32 (as @ y # bs) seed"
proof -
  let ?s = "seed XOR of_nat (length (as @ x # bs))"
  have same: "seed XOR of_nat (length (as @ y # bs)) = ?s" by simp
  obtain h1 d1 h2 d2 where loops: "murmur2_loop (as @ x # bs) ?s = (h1, d1)"
    "murmur2_loop (as @ y # bs) ?s = (h2, d2)" by (metis surj_pair)
  define g :: "u8 list \<Rightarrow> u32 \<Rightarrow> u32" where
    "g d h = (if d = [] then h else murmur_tail d h * 0x5bd1e995)" for d h
  have "murmur2_32 (as @ x # bs) seed = murmur2_32 (as @ y # bs) seed \<longleftrightarrow> g d1 h1 = g d2 h2"
    by (simp only: murmur2_32_def same loops Let_def prod.case xor_drop_bit_iff murmur_mult_inject
        g_def zero_less_numeral)
  moreover consider "h1 \<noteq> h2" "d1 = d2"
    | cs where "h1 = h2" "d1 = cs @ x # bs" "d2 = cs @ y # bs" "length (cs @ x # bs) < 4"
    using murmur2_w.loop_detects [OF assms, of as bs ?s] loops by auto
  then have "g d1 h1 \<noteq> g d2 h2"
  proof cases
    case 1
    then show ?thesis by (simp add: g_def murmur_mult_inject murmur_tail_state)
  next
    case 2
    then have "murmur_tail d1 h1 \<noteq> murmur_tail d2 h1"
      using murmur_tail_inject [of d1 d2 h1] assms by auto
    then show ?thesis using 2 by (simp add: g_def murmur_mult_inject)
  qed
  ultimately show ?thesis by simp
qed

end
