(* ===== verification/BlockHash.thy ===== *)
theory BlockHash
  imports StreamHash "HOL-Library.Monad_Syntax"
begin

text \<open>
  The buffering that md5.c, sha01.c, sha2xx.c, sha2-256.c, blake.c and blake2.c share: a block
  buffer, its fill level, a byte count, and an update function that completes and compresses
  blocks.  The six update functions are one function, \<open>block_update\<close>, of the block size and the
  round; memory is checked, so reading past the input or writing past the buffer is None.  The
  locale \<open>block_hash\<close> is the contract a round offers to the buffering.  Its lemmas say for which
  inputs an update is defined, that a defined update absorbs the input byte by byte, and what state
  a message leaves: the registers after its whole blocks, the tail in the buffer.
\<close>

section \<open>The buffer and its update\<close>

record 'w block_state =
  buffer :: "u8 list"
  bufflen :: nat
  total :: 'w

fun block_loop ::
  "nat \<Rightarrow> (('w, 'a) block_state_scheme \<Rightarrow> ('w, 'a) block_state_scheme) \<Rightarrow> u8 list \<Rightarrow> nat \<Rightarrow> nat
     \<Rightarrow> ('w, 'a) block_state_scheme \<Rightarrow> (nat \<times> nat \<times> ('w, 'a) block_state_scheme) option" where
  "block_loop bs rnd input total_add read hash =
     (if 0 < bs \<and> bs \<le> total_add then do {
        b \<leftarrow> c_memcpy (buffer hash) (bufflen hash) input read (bs - bufflen hash);
        block_loop bs rnd input (total_add - bs) (read + bs) (rnd (hash\<lparr>buffer := b, bufflen := 0\<rparr>))
      } else Some (total_add, read, hash))"

declare block_loop.simps [simp del]

definition block_update ::
  "nat \<Rightarrow> (('w::len word, 'a) block_state_scheme \<Rightarrow> ('w word, 'a) block_state_scheme) \<Rightarrow> u8 list
     \<Rightarrow> ('w word, 'a) block_state_scheme \<Rightarrow> ('w word, 'a) block_state_scheme option" where
  "block_update bs rnd input hash =
     (let len = length input;
          hash = hash\<lparr>total := total hash + of_nat len\<rparr>;
          total_add = len + bufflen hash
      in if total_add < bs then do {
           b \<leftarrow> c_memcpy (buffer hash) (bufflen hash) input 0 len;
           Some (hash\<lparr>buffer := b, bufflen := bufflen hash + len\<rparr>)
         } else do {
           (total_add, read, hash) \<leftarrow> block_loop bs rnd input total_add 0 hash;
           b \<leftarrow> c_memset (buffer hash) 0 0 bs;
           let hash = hash\<lparr>buffer := b\<rparr>;
           if total_add \<noteq> 0 then do {
             b \<leftarrow> c_memcpy (buffer hash) 0 input read total_add;
             Some (hash\<lparr>buffer := b, bufflen := total_add\<rparr>)
           } else Some hash
         })"

text \<open>The state between calls: the buffer is one block, never full, and zero behind its content.\<close>

definition block_wf :: "nat \<Rightarrow> ('w, 'a) block_state_scheme \<Rightarrow> bool" where
  "block_wf bs h \<longleftrightarrow> length (buffer h) = bs \<and> bufflen h < bs
     \<and> drop (bufflen h) (buffer h) = replicate (bs - bufflen h) 0"

text \<open>The reference behaviour: one byte at a time, without and with the byte count.\<close>

definition finish_block :: "nat \<Rightarrow> ('w, 'a) block_state_scheme \<Rightarrow> ('w, 'a) block_state_scheme" where
  "finish_block bs h = h\<lparr>buffer := replicate bs 0\<rparr>"

definition absorb_byte ::
  "nat \<Rightarrow> (('w, 'a) block_state_scheme \<Rightarrow> ('w, 'a) block_state_scheme) \<Rightarrow> u8
     \<Rightarrow> ('w, 'a) block_state_scheme \<Rightarrow> ('w, 'a) block_state_scheme" where
  "absorb_byte bs rnd x h =
     (let b = (buffer h)[bufflen h := x]
      in if bufflen h + 1 = bs then finish_block bs (rnd (h\<lparr>buffer := b, bufflen := 0\<rparr>))
         else h\<lparr>buffer := b, bufflen := bufflen h + 1\<rparr>)"

definition absorb ::
  "nat \<Rightarrow> (('w::len word, 'a) block_state_scheme \<Rightarrow> ('w word, 'a) block_state_scheme) \<Rightarrow> u8 list
     \<Rightarrow> ('w word, 'a) block_state_scheme \<Rightarrow> ('w word, 'a) block_state_scheme" where
  "absorb bs rnd xs h =
     fold (absorb_byte bs rnd) xs (h\<lparr>total := total h + of_nat (length xs)\<rparr>)"

text \<open>The whole blocks of a message, and what is left.\<close>

definition blocks :: "nat \<Rightarrow> 'a list \<Rightarrow> 'a list list" where
  "blocks bs xs = map (\<lambda>i. take bs (drop (i * bs) xs)) [0..<length xs div bs]"

definition tail :: "nat \<Rightarrow> 'a list \<Rightarrow> 'a list" where
  "tail bs xs = drop (length xs div bs * bs) xs"

lemma length_tail: "length (tail bs xs) = length xs mod bs"
  by (simp add: tail_def minus_div_mult_eq_mod)

lemma blocks_short: "length xs < bs \<Longrightarrow> blocks bs xs = []" "length xs < bs \<Longrightarrow> tail bs xs = xs"
  by (simp_all add: blocks_def tail_def)

lemma blocks_Cons:
  assumes "length b = bs" and "0 < bs"
  shows "blocks bs (b @ xs) = b # blocks bs xs" and "tail bs (b @ xs) = tail bs xs"
proof -
  have upt: "[0..<Suc (length xs div bs)] = 0 # map Suc [0..<length xs div bs]"
    by (simp add: map_Suc_upt upt_conv_Cons del: upt_Suc)
  have len: "length (b @ xs) div bs = Suc (length xs div bs)"
    using assms div_add_self1 [of bs "length xs"] by simp
  show "blocks bs (b @ xs) = b # blocks bs xs"
    unfolding blocks_def len upt using assms(1) by (simp add: comp_def)
  show "tail bs (b @ xs) = tail bs xs"
    unfolding tail_def len using assms(1) by simp
qed

lemma blocks_single: "length b = bs \<Longrightarrow> 0 < bs \<Longrightarrow> blocks bs b = [b]"
  using blocks_Cons(1) [of b bs "[]"] by (simp add: blocks_short)

lemma length_in_blocks:
  assumes "b \<in> set (blocks bs xs)"
  shows "length b = bs"
proof -
  from assms obtain i where i: "i < length xs div bs" "b = take bs (drop (i * bs) xs)"
    by (auto simp: blocks_def)
  then have "Suc i * bs \<le> length xs div bs * bs" by (intro mult_le_mono1) simp
  also have "\<dots> \<le> length xs" by simp
  finally show ?thesis using i by simp
qed

lemma blocks_induct [consumes 1, case_names short block]:
  assumes "0 < bs" and "\<And>xs. length xs < bs \<Longrightarrow> P xs"
    and "\<And>b xs. length b = bs \<Longrightarrow> P xs \<Longrightarrow> P (b @ xs)"
  shows "P (xs :: 'a list)"
proof (induction xs rule: length_induct)
  case (1 xs)
  show ?case
  proof (cases "length xs < bs")
    case False
    then have "P (take bs xs @ drop bs xs)" using 1 assms(1) by (intro assms(3)) simp_all
    then show ?thesis by simp
  qed (rule assms(2))
qed

lemma blocks_append_tail:
  assumes "0 < bs"
  shows "blocks bs (xs @ ys) = blocks bs xs @ blocks bs (tail bs xs @ ys)"
  using assms
proof (induction xs rule: blocks_induct)
  case (short xs)
  then show ?case by (simp add: blocks_short)
next
  case (block b xs)
  then show ?case using assms by (simp add: blocks_Cons)
qed

section \<open>Padding\<close>

text \<open>The padded message of the Merkle-Damgard construction: the message, the byte 0x80, zeros up to
  the length field of the last block, the length field.\<close>

definition md_pad :: "nat \<Rightarrow> u8 list \<Rightarrow> u8 list \<Rightarrow> u8 list" where
  "md_pad bs len m =
     m @ 0x80 # replicate ((2 * bs - 1 - length len - length m mod bs) mod bs) 0 @ len"

lemma blocks_md_pad:
  assumes "length m mod bs + length len < bs"
  shows "blocks bs (md_pad bs len m) = blocks bs m
    @ [tail bs m @ 0x80 # replicate (bs - 1 - length len - length m mod bs) 0 @ len]"
proof -
  have bs: "0 < bs" using assms by simp
  have "2 * bs - 1 - length len - length m mod bs = bs + (bs - 1 - length len - length m mod bs)"
    using assms by simp
  then have "(2 * bs - 1 - length len - length m mod bs) mod bs = bs - 1 - length len - length m mod bs"
    using bs by (simp only: mod_add_self1) simp
  then have "md_pad bs len m = m @ 0x80 # replicate (bs - 1 - length len - length m mod bs) 0 @ len"
    by (simp only: md_pad_def)
  moreover have "length (tail bs m @ 0x80 # replicate (bs - 1 - length len - length m mod bs) 0 @ len) = bs"
    using assms by (simp add: length_tail)
  ultimately show ?thesis
    by (simp only: blocks_append_tail [OF bs, where xs = m] blocks_single [OF _ bs])
qed

lemma store_mark:
  "length t < bs \<Longrightarrow> c_store (t @ replicate (bs - length t) 0) (length t) v
    = Some (t @ v # replicate (bs - 1 - length t) 0)"
  by (cases "bs - length t") (simp_all add: c_store_def list_update_append)

lemma memcpy_over:
  "length len \<le> length ys \<Longrightarrow> c_memcpy (xs @ ys) (length xs) len 0 (length len)
     = Some (xs @ len @ drop (length len) ys)"
  by (simp add: c_memcpy_def)

lemma zeros_split:
  assumes "length t + n < bs"
  shows "t @ v # replicate (bs - 1 - length t) z
    = (t @ v # replicate (bs - 1 - n - length t) z) @ replicate n z"
proof -
  have "bs - 1 - length t = (bs - 1 - n - length t) + n" using assms by simp
  then show ?thesis by (simp flip: replicate_add)
qed

text \<open>The big-endian length field the SHA finals store byte by byte at the end of the buffer.\<close>

definition store_be64 :: "nat \<Rightarrow> u64 \<Rightarrow> u8 list \<Rightarrow> u8 list option" where
  "store_be64 hi w buf = fold (\<lambda>i b. Option.bind b
     (\<lambda>b. c_store b (hi - i) (ucast (drop_bit (8 * i) w AND 0xFF)))) [0..<8] (Some buf)"

lemma and_ff_ucast: "(ucast (w AND 0xFF) :: u8) = ucast w" for w :: u64
proof (rule bit_word_eqI)
  fix n assume "n < LENGTH(8)"
  have ff: "(0xFF :: u64) = mask 8" by (simp add: mask_eq_exp_minus_1)
  show "bit (ucast (w AND 0xFF) :: u8) n = bit (ucast w :: u8) n"
    unfolding ff bit_ucast_iff bit_and_iff bit_mask_iff using \<open>n < LENGTH(8)\<close>
    by (auto simp: possible_bit_word)
qed

lemma list_of_8:
  assumes "length xs = 8"
  obtains a b c d e f g h where "xs = [a, b, c, d, e, f, g, h]"
proof -
  have "xs = map (\<lambda>i. xs ! i) [0..<8]" using assms by (metis map_nth)
  then have "xs = [xs ! 0, xs ! 1, xs ! 2, xs ! 3, xs ! 4, xs ! 5, xs ! 6, xs ! 7]"
    by (simp add: upt_conv_Cons eval_nat_numeral)
  then show thesis by (rule that)
qed

lemma store_be64_tail:
  assumes "length ys = 8"
  shows "store_be64 (length xs + 7) w (xs @ ys) = Some (xs @ be_bytes64 w)"
proof -
  obtain a b c d e f g h where "ys = [a, b, c, d, e, f, g, h]" using assms by (rule list_of_8)
  then show ?thesis
    by (simp add: store_be64_def and_ff_ucast c_store_def list_update_append upt_conv_Cons
        be_bytes64_def le_bytes64_def)
qed

section \<open>The contract of a round\<close>

locale block_hash =
  fixes bs :: nat
    and rnd :: "('w::len word, 'a) block_state_scheme \<Rightarrow> ('w word, 'a) block_state_scheme"
    and regs :: "('w word, 'a) block_state_scheme \<Rightarrow> 'r"
    and compress :: "u8 list \<Rightarrow> 'r \<Rightarrow> 'r"
  assumes bs_pos: "0 < bs"
    and rnd_bufflen: "bufflen (rnd h) = bufflen h"
    and rnd_length: "length (buffer (rnd h)) = length (buffer h)"
    and rnd_total: "rnd (h\<lparr>total := t\<rparr>) = (rnd h)\<lparr>total := t\<rparr>"
    and regs_rnd: "length (buffer h) = bs \<Longrightarrow> regs (rnd h) = compress (buffer h) (regs h)"
    and regs_buffer: "regs (h\<lparr>buffer := b\<rparr>) = regs h"
    and regs_bufflen: "regs (h\<lparr>bufflen := n\<rparr>) = regs h"
    and regs_total: "regs (h\<lparr>total := t\<rparr>) = regs h"
begin

lemma absorb_byte_total:
  "absorb_byte bs rnd x (h\<lparr>total := t\<rparr>) = (absorb_byte bs rnd x h)\<lparr>total := t\<rparr>"
proof -
  have "h\<lparr>total := t, buffer := b, bufflen := n\<rparr> = (h\<lparr>buffer := b, bufflen := n\<rparr>)\<lparr>total := t\<rparr>" for b n
    by simp
  then have "rnd (h\<lparr>total := t, buffer := b, bufflen := n\<rparr>) = (rnd (h\<lparr>buffer := b, bufflen := n\<rparr>))\<lparr>total := t\<rparr>"
    for b n by (simp only: rnd_total)
  then show ?thesis by (simp add: absorb_byte_def finish_block_def Let_def)
qed

lemma fold_absorb_total:
  "fold (absorb_byte bs rnd) xs (h\<lparr>total := t\<rparr>) = (fold (absorb_byte bs rnd) xs h)\<lparr>total := t\<rparr>"
  by (induction xs arbitrary: h) (simp_all add: absorb_byte_total)

lemma total_rnd: "total (rnd h) = total h"
proof -
  have "rnd h = (rnd h)\<lparr>total := total h\<rparr>" using rnd_total [where h = h and t = "total h"] by simp
  then have "total (rnd h) = total ((rnd h)\<lparr>total := total h\<rparr>)" by (rule arg_cong)
  then show ?thesis by simp
qed

lemma total_absorb_byte: "total (absorb_byte bs rnd x h) = total h"
  by (simp add: absorb_byte_def Let_def finish_block_def total_rnd)

lemma total_fold_absorb: "total (fold (absorb_byte bs rnd) xs h) = total h"
  by (induction xs arbitrary: h) (simp_all add: total_absorb_byte)

lemma absorb_append: "absorb bs rnd (xs @ ys) h = absorb bs rnd ys (absorb bs rnd xs h)"
proof -
  have "absorb bs rnd (xs @ ys) h = fold (absorb_byte bs rnd) ys
      ((fold (absorb_byte bs rnd) xs (h\<lparr>total := total h + of_nat (length xs)\<rparr>))
        \<lparr>total := total h + of_nat (length xs) + of_nat (length ys)\<rparr>)"
    by (simp add: absorb_def fold_absorb_total add.assoc)
  then show ?thesis by (simp add: absorb_def total_fold_absorb)
qed

lemma absorb_Nil: "absorb bs rnd [] h = h"
  by (simp add: absorb_def)

text \<open>Bytes that do not complete the block only fill it.\<close>

lemma fill:
  assumes "length (buffer h) = bs" and "bufflen h + length xs < bs"
  shows "fold (absorb_byte bs rnd) xs h =
    h\<lparr>buffer := take (bufflen h) (buffer h) @ xs @ drop (bufflen h + length xs) (buffer h),
      bufflen := bufflen h + length xs\<rparr>"
  using assms
proof (induction xs arbitrary: h)
  case Nil
  then show ?case by simp
next
  case (Cons x xs)
  let ?h = "h\<lparr>buffer := (buffer h)[bufflen h := x], bufflen := bufflen h + 1\<rparr>"
  have "absorb_byte bs rnd x h = ?h" using Cons.prems by (simp add: absorb_byte_def)
  then have "fold (absorb_byte bs rnd) (x # xs) h = fold (absorb_byte bs rnd) xs ?h" by simp
  also have "\<dots> = ?h\<lparr>buffer := take (bufflen h + 1) ((buffer h)[bufflen h := x]) @ xs
      @ drop (bufflen h + 1 + length xs) ((buffer h)[bufflen h := x]), bufflen := bufflen h + 1 + length xs\<rparr>"
    using Cons.IH [of ?h] Cons.prems by simp
  finally show ?case using Cons.prems by (simp add: take_Suc_conv_app_nth)
qed

text \<open>Bytes that complete it compress it.\<close>

lemma complete:
  assumes "length (buffer h) = bs" and "bufflen h + length xs = bs" and "xs \<noteq> []"
  shows "fold (absorb_byte bs rnd) xs h =
    finish_block bs (rnd (h\<lparr>buffer := take (bufflen h) (buffer h) @ xs, bufflen := 0\<rparr>))"
proof -
  obtain ys y where xs: "xs = ys @ [y]" using assms(3) by (metis rev_exhaust)
  let ?h = "h\<lparr>buffer := take (bufflen h) (buffer h) @ ys @ drop (bufflen h + length ys) (buffer h),
      bufflen := bufflen h + length ys\<rparr>"
  have "fold (absorb_byte bs rnd) ys h = ?h" using assms xs by (intro fill) simp_all
  then have "fold (absorb_byte bs rnd) xs h = absorb_byte bs rnd y ?h" by (simp add: xs)
  moreover have "(take (bufflen h) (buffer h) @ ys @ drop (bufflen h + length ys) (buffer h))
      [bufflen h + length ys := y] = take (bufflen h) (buffer h) @ xs"
  proof -
    have "drop (bufflen h + length ys) (buffer h) = [buffer h ! (bufflen h + length ys)]"
      using assms xs Cons_nth_drop_Suc [of "bufflen h + length ys" "buffer h"] by simp
    then show ?thesis using assms xs by (simp add: list_update_append)
  qed
  ultimately show ?thesis using assms xs by (simp add: absorb_byte_def Let_def)
qed

lemma length_finish: "length (buffer (finish_block bs h)) = bs"
  and bufflen_finish: "bufflen (finish_block bs h) = bufflen h"
  and finish_wf: "bufflen h = 0 \<Longrightarrow> block_wf bs (finish_block bs h)"
  by (simp_all add: finish_block_def block_wf_def bs_pos)

lemma complete_block:
  assumes "length xs = bs" and "bufflen h = 0"
  shows "fold (absorb_byte bs rnd) xs (finish_block bs h)
    = finish_block bs (rnd (h\<lparr>buffer := xs, bufflen := 0\<rparr>))"
proof -
  have "xs \<noteq> []" using assms(1) bs_pos by auto
  then show ?thesis using complete [of "finish_block bs h" xs] assms
    by (simp add: length_finish bufflen_finish) (simp add: finish_block_def)
qed

section \<open>The update\<close>

lemma loop_defined:
  assumes "length (buffer h) = bs" and "bufflen h = 0" and "read + total_add \<le> length input"
  shows "\<exists>ta rd h'. block_loop bs rnd input total_add read h = Some (ta, rd, h') \<and> ta < bs
    \<and> rd + ta = read + total_add \<and> length (buffer h') = bs \<and> bufflen h' = 0
    \<and> fold (absorb_byte bs rnd) (take total_add (drop read input)) (finish_block bs h)
      = fold (absorb_byte bs rnd) (take ta (drop rd input)) (finish_block bs h')"
  using assms
proof (induction total_add arbitrary: read h rule: less_induct)
  case (less n)
  show ?case
  proof (cases "bs \<le> n")
    case True
    let ?b = "take bs (drop read input)"
    let ?h = "rnd (h\<lparr>buffer := ?b, bufflen := 0\<rparr>)"
    have len: "length ?b = bs" using less.prems True by simp
    have "c_memcpy (buffer h) (bufflen h) input read (bs - bufflen h) = Some ?b"
      using less.prems True by (simp add: c_memcpy_all)
    then have step: "block_loop bs rnd input n read h = block_loop bs rnd input (n - bs) (read + bs) ?h"
      using True bs_pos by (subst block_loop.simps) simp
    have "take n (drop read input) = ?b @ take (n - bs) (drop (read + bs) input)"
      using True by (metis add.commute drop_drop le_add_diff_inverse take_add)
    then have "fold (absorb_byte bs rnd) (take n (drop read input)) (finish_block bs h)
        = fold (absorb_byte bs rnd) (take (n - bs) (drop (read + bs) input)) (finish_block bs ?h)"
      using complete_block [OF len less.prems(2)] by simp
    moreover have "n - bs < n" and "length (buffer ?h) = bs" and "bufflen ?h = 0"
      and "read + bs + (n - bs) \<le> length input"
      using True bs_pos less.prems len by (simp_all add: rnd_length rnd_bufflen)
    ultimately show ?thesis using less.IH [of "n - bs" ?h "read + bs"] step True by simp
  next
    case False
    then have "block_loop bs rnd input n read h = Some (n, read, h)"
      by (subst block_loop.simps) simp
    then show ?thesis using False less.prems by auto
  qed
qed

lemma loop_overread:
  assumes "length (buffer h) = bs" and "bufflen h = 0" and "length input < read + total_add"
    and "read \<le> length input" and "block_loop bs rnd input total_add read h = Some (ta, rd, h')"
  shows "0 < ta \<and> length input < rd + ta"
  using assms
proof (induction total_add arbitrary: read h rule: less_induct)
  case (less n)
  show ?case
  proof (cases "bs \<le> n")
    case True
    then obtain b where b: "c_memcpy (buffer h) (bufflen h) input read (bs - bufflen h) = Some b"
      and rec: "block_loop bs rnd input (n - bs) (read + bs) (rnd (h\<lparr>buffer := b, bufflen := 0\<rparr>))
        = Some (ta, rd, h')"
      using less.prems(5) bs_pos by (subst (asm) block_loop.simps) (auto split: Option.bind_splits)
    have len: "length b = bs" using c_memcpy_length [OF b] less.prems by simp
    have "read + bs \<le> length input" using b less.prems(2) by (simp add: c_memcpy_def split: if_splits)
    then show ?thesis using less.IH [OF _ _ _ _ _ rec] True bs_pos less.prems(3) len
      by (simp add: rnd_length rnd_bufflen)
  next
    case False
    then show ?thesis using less.prems by (subst (asm) block_loop.simps) auto
  qed
qed

lemma update_blocks:
  assumes "bs \<le> length input + bufflen h"
    and "block_loop bs rnd input (length input + bufflen h) 0
      (h\<lparr>total := total h + of_nat (length input)\<rparr>) = Some (ta, rd, h')"
    and "length (buffer h') = bs" and "ta < bs" and "ta = 0 \<or> rd + ta \<le> length input"
  shows "block_update bs rnd input h = Some (if ta = 0 then finish_block bs h'
    else h'\<lparr>buffer := take ta (drop rd input) @ replicate (bs - ta) 0, bufflen := ta\<rparr>)"
  using assms
  by (cases "ta = 0") (simp_all add: block_update_def Let_def c_mem finish_block_def)

lemma finish_wf_id: "block_wf bs h \<Longrightarrow> bufflen h = 0 \<Longrightarrow> finish_block bs h = h"
  by (simp add: block_wf_def finish_block_def)

lemma fill_finished:
  "length xs < bs \<Longrightarrow> bufflen h = 0 \<Longrightarrow> fold (absorb_byte bs rnd) xs (finish_block bs h)
    = h\<lparr>buffer := xs @ replicate (bs - length xs) 0, bufflen := length xs\<rparr>"
  using fill [of "finish_block bs h" xs]
  by (simp add: length_finish bufflen_finish) (simp add: finish_block_def)

lemma update_empty:
  assumes wf: "block_wf bs h" and b0: "bufflen h = 0" and n: "bs \<le> length input"
  shows "block_update bs rnd input h = Some (absorb bs rnd input h)"
proof -
  let ?h = "h\<lparr>total := total h + of_nat (length input)\<rparr>"
  have wf': "block_wf bs ?h" "length (buffer ?h) = bs" "bufflen ?h = 0"
    using wf b0 by (simp_all add: block_wf_def)
  obtain ta rd h' where loop: "block_loop bs rnd input (length input) 0 ?h = Some (ta, rd, h')"
    and ta: "ta < bs" "rd + ta = length input" "length (buffer h') = bs" "bufflen h' = 0"
    and fold: "fold (absorb_byte bs rnd) input (finish_block bs ?h)
      = fold (absorb_byte bs rnd) (take ta (drop rd input)) (finish_block bs h')"
    using loop_defined [of ?h 0 "length input" input] wf' by auto
  have len: "length (take ta (drop rd input)) = ta" using ta(2) by auto
  have "absorb bs rnd input h = fold (absorb_byte bs rnd) (take ta (drop rd input)) (finish_block bs h')"
    unfolding absorb_def using fold finish_wf_id [OF wf'(1,3)] by (simp only:)
  also have "\<dots> = h'\<lparr>buffer := take ta (drop rd input) @ replicate (bs - ta) 0, bufflen := ta\<rparr>"
    using fill_finished [of "take ta (drop rd input)" h'] ta(1,4) len by (simp only:)
  finally have absorbed: "absorb bs rnd input h = \<dots>" .
  have loop': "block_loop bs rnd input (length input + bufflen h) 0 ?h = Some (ta, rd, h')"
    using loop b0 by simp
  have up: "block_update bs rnd input h = Some (if ta = 0 then finish_block bs h'
    else h'\<lparr>buffer := take ta (drop rd input) @ replicate (bs - ta) 0, bufflen := ta\<rparr>)"
    by (rule update_blocks [OF _ loop' ta(3,1)]) (use n ta(2) in simp_all)
  show ?thesis
  proof (cases "ta = 0")
    case True
    then have "h'\<lparr>buffer := take ta (drop rd input) @ replicate (bs - ta) 0, bufflen := ta\<rparr> = finish_block bs h'"
      using ta(4) by (simp add: finish_block_def)
    then show ?thesis using up absorbed True by (simp only: if_True refl)
  next
    case False
    then show ?thesis using up absorbed by (simp only: if_False)
  qed
qed

lemma update_exact:
  assumes wf: "block_wf bs h" and n: "bufflen h + length input = bs"
  shows "block_update bs rnd input h = Some (absorb bs rnd input h)"
proof -
  let ?h = "h\<lparr>total := total h + of_nat (length input)\<rparr>"
  let ?b = "take (bufflen h) (buffer h) @ input"
  let ?h1 = "rnd (?h\<lparr>buffer := ?b, bufflen := 0\<rparr>)"
  have wf': "length (buffer h) = bs" "bufflen h < bs" using wf by (simp_all add: block_wf_def)
  have "c_memcpy (buffer ?h) (bufflen ?h) input 0 (bs - bufflen ?h) = Some ?b"
    using n wf' by (auto simp: c_memcpy_def)
  moreover have "block_loop bs rnd input 0 bs ?h1 = Some (0, bs, ?h1)"
    using bs_pos by (subst block_loop.simps) simp
  ultimately have loop: "block_loop bs rnd input (length input + bufflen h) 0 ?h = Some (0, bs, ?h1)"
    using n bs_pos by (subst block_loop.simps) (simp add: add.commute)
  have "length (buffer ?h1) = bs" using n wf' by (simp add: rnd_length)
  then have "block_update bs rnd input h = Some (finish_block bs ?h1)"
    using update_blocks [OF _ loop] n bs_pos by simp
  moreover have "absorb bs rnd input h = finish_block bs ?h1"
    unfolding absorb_def using complete [of ?h input] n wf' by fastforce
  ultimately show ?thesis by simp
qed

text \<open>An update never reads past its input only if the buffer was empty or the input does not go
  past the block it completes; it then absorbs the input.\<close>

lemma update_absorb:
  assumes wf: "block_wf bs h" and room: "bufflen h = 0 \<or> bufflen h + length input \<le> bs"
  shows "block_update bs rnd input h = Some (absorb bs rnd input h)"
proof (cases "length input + bufflen h < bs")
  case True
  then show ?thesis using wf
    by (simp add: block_update_def absorb_def block_wf_def c_memcpy_def fill add.commute Let_def)
next
  case False
  then have "bufflen h = 0 \<and> bs \<le> length input \<or> bufflen h + length input = bs" using room by auto
  then show ?thesis using update_empty [OF wf] update_exact [OF wf] by blast
qed

lemma update_overread:
  assumes wf: "block_wf bs h" and over: "bufflen h \<noteq> 0" "bs < bufflen h + length input"
  shows "block_update bs rnd input h = None"
proof -
  let ?h = "h\<lparr>total := total h + of_nat (length input)\<rparr>"
  let ?n = "length input + bufflen h"
  let ?b = "take (bufflen h) (buffer h) @ take (bs - bufflen h) input"
  let ?h1 = "rnd (?h\<lparr>buffer := ?b, bufflen := 0\<rparr>)"
  have wf': "length (buffer h) = bs" "bufflen h < bs" using wf by (simp_all add: block_wf_def)
  have len: "length ?b = bs" using over wf' by simp
  have "c_memcpy (buffer ?h) (bufflen ?h) input 0 (bs - bufflen ?h) = Some ?b"
    using over wf' by (simp add: c_memcpy_def)
  then have step: "block_loop bs rnd input ?n 0 ?h = block_loop bs rnd input (?n - bs) bs ?h1"
    using over bs_pos by (subst block_loop.simps) simp
  have bad: "0 < ta \<and> length input < rd + ta"
    if "block_loop bs rnd input (?n - bs) bs ?h1 = Some (ta, rd, h')" for ta rd h'
  proof (cases "bs \<le> length input")
    case True
    then show ?thesis using loop_overread [OF _ _ _ _ that] over len
      by (simp add: rnd_length rnd_bufflen)
  next
    case False
    then have "?n - bs < bs" using wf' by simp
    then have "ta = ?n - bs" and "rd = bs" using that by (subst (asm) block_loop.simps; simp)+
    then show ?thesis using False over by simp
  qed
  show ?thesis
    using over step bad
    by (auto simp: block_update_def Let_def c_memcpy_def split: Option.bind_splits)
qed

lemma update_defined_iff:
  "block_wf bs h \<Longrightarrow>
   block_update bs rnd input h \<noteq> None \<longleftrightarrow> bufflen h = 0 \<or> bufflen h + length input \<le> bs"
  using update_absorb update_overread by (metis not_le_imp_less option.distinct(1))

section \<open>Messages\<close>

lemma absorb_byte_wf: "block_wf bs h \<Longrightarrow> block_wf bs (absorb_byte bs rnd x h)"
proof -
  assume wf: "block_wf bs h"
  then have drop: "drop (bufflen h) (buffer h) = replicate (bs - bufflen h) 0"
    and len: "length (buffer h) = bs" "bufflen h < bs" by (simp_all add: block_wf_def)
  have "drop (Suc (bufflen h)) (buffer h) = tl (drop (bufflen h) (buffer h))" by (simp add: drop_Suc tl_drop)
  also have "\<dots> = replicate (bs - Suc (bufflen h)) 0"
    by (simp add: drop flip: drop_Suc)
  finally show ?thesis using len
    by (simp add: absorb_byte_def Let_def finish_wf rnd_bufflen) (simp add: block_wf_def)
qed

lemma absorb_wf: "block_wf bs h \<Longrightarrow> block_wf bs (absorb bs rnd xs h)"
  unfolding absorb_def
  by (rule fold_invariant, simp add: block_wf_def, rule absorb_byte_wf)

lemma update_wf: "block_wf bs h \<Longrightarrow> block_update bs rnd input h = Some h' \<Longrightarrow> block_wf bs h'"
  by (metis update_absorb update_overread absorb_wf not_le_imp_less option.distinct(1) option.inject)

text \<open>Fed byte by byte, the updates are defined and absorb the message.\<close>

lemma update_bytewise:
  "block_wf bs h \<Longrightarrow>
   fold (\<lambda>x s. Option.bind s (block_update bs rnd [x])) xs (Some h) = Some (absorb bs rnd xs h)"
proof (induction xs arbitrary: h)
  case Nil
  then show ?case by (simp add: absorb_Nil)
next
  case (Cons x xs)
  have "bufflen h + length [x] \<le> bs" using Cons.prems by (simp add: block_wf_def)
  then have "block_update bs rnd [x] h = Some (absorb bs rnd [x] h)"
    using Cons.prems by (intro update_absorb) auto
  then show ?case using Cons.IH [OF absorb_wf [OF Cons.prems, of "[x]"]]
      absorb_append [of "[x]" xs h] by simp
qed

text \<open>From an empty buffer, a message compresses its whole blocks into the registers and leaves
  its tail in the buffer.\<close>

lemma fold_absorb_message:
  assumes "block_wf bs h" and "bufflen h = 0"
  shows "regs (fold (absorb_byte bs rnd) m h) = fold compress (blocks bs m) (regs h)"
    and "buffer (fold (absorb_byte bs rnd) m h) = tail bs m @ replicate (bs - length m mod bs) 0"
    and "bufflen (fold (absorb_byte bs rnd) m h) = length m mod bs"
proof -
  have "regs (fold (absorb_byte bs rnd) m h) = fold compress (blocks bs m) (regs h)
    \<and> buffer (fold (absorb_byte bs rnd) m h) = tail bs m @ replicate (bs - length m mod bs) 0
    \<and> bufflen (fold (absorb_byte bs rnd) m h) = length m mod bs"
    using bs_pos assms
  proof (induction m arbitrary: h rule: blocks_induct)
    case (short m)
    then show ?case using fill [of h m]
      by (auto simp: block_wf_def blocks_short regs_buffer regs_bufflen)
  next
    case (block b m)
    let ?h = "finish_block bs (rnd (h\<lparr>buffer := b, bufflen := 0\<rparr>))"
    have "finish_block bs h = h" using block.prems by (simp add: block_wf_def finish_block_def)
    then have b: "fold (absorb_byte bs rnd) b h = ?h"
      using complete_block [OF block.hyps block.prems(2)] by simp
    have "regs ?h = compress b (regs h)"
      using block.hyps by (simp add: finish_block_def regs_buffer regs_rnd regs_bufflen)
    moreover have "block_wf bs ?h" and "bufflen ?h = 0"
      by (simp_all add: finish_wf bufflen_finish rnd_bufflen)
    ultimately show ?case
      using block.IH [of ?h] block.hyps bs_pos b by (simp add: blocks_Cons)
  qed
  then show "regs (fold (absorb_byte bs rnd) m h) = fold compress (blocks bs m) (regs h)"
    and "buffer (fold (absorb_byte bs rnd) m h) = tail bs m @ replicate (bs - length m mod bs) 0"
    and "bufflen (fold (absorb_byte bs rnd) m h) = length m mod bs" by simp_all
qed

lemma absorb_message:
  assumes "block_wf bs h" and "bufflen h = 0"
  shows "regs (absorb bs rnd m h) = fold compress (blocks bs m) (regs h)"
    and "buffer (absorb bs rnd m h) = tail bs m @ replicate (bs - length m mod bs) 0"
    and "bufflen (absorb bs rnd m h) = length m mod bs"
    and "total (absorb bs rnd m h) = total h + of_nat (length m)"
proof -
  have *: "block_wf bs (h\<lparr>total := t\<rparr>)" "bufflen (h\<lparr>total := t\<rparr>) = 0" for t
    using assms by (simp_all add: block_wf_def)
  show "regs (absorb bs rnd m h) = fold compress (blocks bs m) (regs h)"
    and "buffer (absorb bs rnd m h) = tail bs m @ replicate (bs - length m mod bs) 0"
    and "bufflen (absorb bs rnd m h) = length m mod bs"
    using fold_absorb_message [OF *] by (simp_all add: absorb_def regs_total)
  show "total (absorb bs rnd m h) = total h + of_nat (length m)"
    by (simp add: absorb_def total_fold_absorb)
qed

text \<open>The last block: the tail, the mark, zeros and the length field.\<close>

lemma regs_padded:
  assumes "block_wf bs h" and "bufflen h = 0" and "length m mod bs + length len < bs"
  shows "regs (rnd ((absorb bs rnd m h)\<lparr>buffer :=
      tail bs m @ 0x80 # replicate (bs - 1 - length len - length m mod bs) 0 @ len\<rparr>))
    = fold compress (blocks bs (md_pad bs len m)) (regs h)"
  using assms
  by (simp add: regs_rnd blocks_md_pad regs_buffer absorb_message(1) length_tail)

lemma buffer_padded:
  assumes "block_wf bs h" and "bufflen h = 0" and "length m mod bs + length len < bs"
  shows "c_store (buffer (absorb bs rnd m h)) (bufflen (absorb bs rnd m h)) 0x80
      = Some (tail bs m @ 0x80 # replicate (bs - 1 - length m mod bs) 0)"
  using store_mark [of "tail bs m" bs "0x80"] assms
  by (simp add: absorb_message length_tail)

end

end
