(* ===== verification/Md5.thy ===== *)
theory Md5
  imports BlockHash Rotate
begin

text \<open>
  \<open>src/src/hash/md5.c\<close>: the round, the buffered update, the final with its padding, the one-shot
  function and the Lua clone.  On messages whose tail leaves room for the mark and the length, and
  whose bit count fits the 32 bits the code stores, the result is the Merkle-Damgard hash with the
  padding of RFC 1321; on the other tails the final writes past its buffer.
\<close>

unbundle bit_operations_syntax

record md5_hash = "u64 block_state" +
  md5_a0 :: u32
  md5_b0 :: u32
  md5_c0 :: u32
  md5_d0 :: u32

definition md5_K :: "u32 list" where
  "md5_K =
    [0xd76aa478, 0xe8c7b756, 0x242070db, 0xc1bdceee, 0xf57c0faf, 0x4787c62a,
     0xa8304613, 0xfd469501, 0x698098d8, 0x8b44f7af, 0xffff5bb1, 0x895cd7be,
     0x6b901122, 0xfd987193, 0xa679438e, 0x49b40821, 0xf61e2562, 0xc040b340,
     0x265e5a51, 0xe9b6c7aa, 0xd62f105d, 0x02441453, 0xd8a1e681, 0xe7d3fbc8,
     0x21e1cde6, 0xc33707d6, 0xf4d50d87, 0x455a14ed, 0xa9e3e905, 0xfcefa3f8,
     0x676f02d9, 0x8d2a4c8a, 0xfffa3942, 0x8771f681, 0x6d9d6122, 0xfde5380c,
     0xa4beea44, 0x4bdecfa9, 0xf6bb4b60, 0xbebfbc70, 0x289b7ec6, 0xeaa127fa,
     0xd4ef3085, 0x04881d05, 0xd9d4d039, 0xe6db99e5, 0x1fa27cf8, 0xc4ac5665,
     0xf4292244, 0x432aff97, 0xab9423a7, 0xfc93a039, 0x655b59c3, 0x8f0ccc92,
     0xffeff47d, 0x85845dd1, 0x6fa87e4f, 0xfe2ce6e0, 0xa3014314, 0x4e0811a1,
     0xf7537e82, 0xbd3af235, 0x2ad7d2bb, 0xeb86d391]"

definition md5_s :: "u32 list" where
  "md5_s =
    [7, 12, 17, 22, 7, 12, 17, 22, 7, 12, 17, 22, 7, 12, 17, 22,
     5, 9, 14, 20, 5, 9, 14, 20, 5, 9, 14, 20, 5, 9, 14, 20,
     4, 11, 16, 23, 4, 11, 16, 23, 4, 11, 16, 23, 4, 11, 16, 23,
     6, 10, 15, 21, 6, 10, 15, 21, 6, 10, 15, 21, 6, 10, 15, 21]"

definition md5_init :: md5_hash where
  "md5_init = \<lparr>buffer = replicate 64 0, bufflen = 0, total = 0, md5_a0 = 0x67452301,
     md5_b0 = 0xefcdab89, md5_c0 = 0x98badcfe, md5_d0 = 0x10325476\<rparr>"

definition md5_step ::
  "u8 list \<Rightarrow> nat \<Rightarrow> u32 \<times> u32 \<times> u32 \<times> u32 \<Rightarrow> u32 \<times> u32 \<times> u32 \<times> u32" where
  "md5_step M i s = (case s of (A, B, C, D) \<Rightarrow>
     let (F, g) =
           (if i < 16 then ((B AND C) OR (NOT B AND D), i)
            else if i < 32 then ((D AND B) OR (NOT D AND C), (5 * i + 1) mod 16)
            else if i < 48 then (B XOR C XOR D, (3 * i + 5) mod 16)
            else (C XOR (B OR NOT D), (7 * i) mod 16));
         F = F + A + md5_K ! i + le32 M (4 * g)
     in (D, B + rotl32 F (md5_s ! i), B, C))"

definition md5_compress ::
  "u8 list \<Rightarrow> u32 \<times> u32 \<times> u32 \<times> u32 \<Rightarrow> u32 \<times> u32 \<times> u32 \<times> u32" where
  "md5_compress M s = (case s of (a, b, c, d) \<Rightarrow>
     case fold (md5_step M) [0..<64] (a, b, c, d) of (A, B, C, D) \<Rightarrow> (a + A, b + B, c + C, d + D))"

definition md5_regs :: "md5_hash \<Rightarrow> u32 \<times> u32 \<times> u32 \<times> u32" where
  "md5_regs h = (md5_a0 h, md5_b0 h, md5_c0 h, md5_d0 h)"

definition md5_round :: "md5_hash \<Rightarrow> md5_hash" where
  "md5_round hash = (case md5_compress (buffer hash) (md5_regs hash) of
     (a, b, c, d) \<Rightarrow> hash\<lparr>md5_a0 := a, md5_b0 := b, md5_c0 := c, md5_d0 := d\<rparr>)"

definition md5_update :: "u8 list \<Rightarrow> md5_hash \<Rightarrow> md5_hash option" where
  "md5_update input hash = block_update 64 md5_round input hash"

definition md5_text :: "u32 \<times> u32 \<times> u32 \<times> u32 \<Rightarrow> string" where
  "md5_text s = (case s of (a, b, c, d) \<Rightarrow> concat (map (\<lambda>x. fmt_0x 2 (unat x))
     (le_bytes32 a @ le_bytes32 b @ le_bytes32 c @ le_bytes32 d)))"

text \<open>The digest and the restored object.\<close>

definition md5_final :: "md5_hash \<Rightarrow> (string \<times> md5_hash) option" where
  "md5_final hash = do {
     let old_hash = hash;
     let old = buffer hash;
     b \<leftarrow> c_store (buffer hash) (bufflen hash) 0x80;
     let hash = hash\<lparr>buffer := b\<rparr>;
     hash \<leftarrow> (if bufflen hash > 55 then do {
         b \<leftarrow> c_memset (buffer hash) (bufflen hash + 1) 0 (64 - bufflen hash);
         let hash = md5_round (hash\<lparr>buffer := b\<rparr>);
         b \<leftarrow> c_memset (buffer hash) 0 0 64;
         Some (hash\<lparr>buffer := b\<rparr>)
       } else Some hash);
     let lhhh = (ucast (8 * total hash) :: u32);
     b \<leftarrow> c_memcpy (buffer hash) 56 (le_bytes32 lhhh) 0 4;
     let hash = md5_round (hash\<lparr>buffer := b\<rparr>);
     Some (md5_text (md5_regs hash), old_hash\<lparr>buffer := old\<rparr>)
   }"

definition md5 :: "u8 list \<Rightarrow> string option" where
  "md5 input = do {
     aa \<leftarrow> md5_update input md5_init;
     (out_stream, aa) \<leftarrow> md5_final aa;
     Some out_stream
   }"

definition md5_init_l :: "md5_hash option" where
  "md5_init_l = do {
     let a = md5_init;
     b \<leftarrow> c_memset (buffer a) 0 0 64;
     Some (a\<lparr>buffer := b\<rparr>)
   }"

definition l_md5_final :: "md5_hash \<Rightarrow> string option" where
  "l_md5_final a = map_option fst (md5_final a)"

definition l_md5 :: "u8 list list \<Rightarrow> md5_hash lua_hash option" where
  "l_md5 args = lua_hash_call md5_init_l md5 args"

text \<open>The assignment of the clone: every field of a, and b's own buffer filled from a's.\<close>

definition md5_copy :: "md5_hash \<Rightarrow> md5_hash \<Rightarrow> md5_hash" where
  "md5_copy a b = a\<lparr>buffer := take 64 (buffer a) @ drop 64 (buffer b)\<rparr>"

section \<open>The buffering contract\<close>

interpretation md5_b: block_hash 64 md5_round md5_regs md5_compress
  by unfold_locales (simp_all add: md5_round_def md5_regs_def split: prod.splits)

lemma md5_init_wf: "block_wf 64 md5_init" "bufflen md5_init = 0" "total md5_init = 0"
  by (simp_all add: md5_init_def block_wf_def)

lemma md5_init_l_eq: "md5_init_l = Some md5_init"
  by (simp add: md5_init_l_def md5_init_def c_mem)

text \<open>The hash the standard asks for.\<close>

definition md5_spec :: "u8 list \<Rightarrow> string" where
  "md5_spec m = md5_text (fold md5_compress
     (blocks 64 (md_pad 64 (le_bytes64 (of_nat (8 * length m))) m)) (md5_regs md5_init))"

lemma le_bytes64_small:
  assumes "n < 2 ^ 32"
  shows "le_bytes64 (of_nat n) = le_bytes32 (of_nat n) @ replicate 4 0"
proof -
  have n: "unat (of_nat n :: u64) = n" using assms by (simp add: unat_of_nat take_bit_nat_eq_self)
  have low: "(ucast (drop_bit k (of_nat n :: u64)) :: u8) = ucast (drop_bit k (of_nat n :: u32))" for k
  proof -
    have "unat (of_nat n :: u32) = n" using assms by (simp add: unat_of_nat take_bit_nat_eq_self)
    then show ?thesis
      by (simp add: word_unat_eq_iff unat_ucast8 unat_drop_bit_eq n)
  qed
  have high: "(ucast (drop_bit k (of_nat n :: u64)) :: u8) = 0" if "32 \<le> k" for k
  proof -
    have "n < 2 ^ k" using assms that by (meson le_trans less_le_trans one_le_numeral power_increasing)
    then have "n div 2 ^ k = 0" by simp
    then have "unat (drop_bit k (of_nat n :: u64)) = 0"
      by (simp only: unat_drop_bit_eq n) (simp only: drop_bit_eq_div)
    then show ?thesis by (simp add: word_unat_eq_iff unat_ucast8)
  qed
  show ?thesis
    by (simp add: le_bytes64_def le_bytes32_def upt_conv_Cons low high eval_nat_numeral)
qed

lemma md5_length_field:
  assumes "length m < 2 ^ 29"
  shows "le_bytes32 (ucast (8 * (of_nat (length m) :: u64)) :: u32) @ replicate 4 0
    = le_bytes64 (of_nat (8 * length m))"
proof -
  have "8 * length m < 2 ^ 32" using assms by simp
  then have "(ucast (8 * (of_nat (length m) :: u64)) :: u32) = of_nat (8 * length m)"
    by (simp add: word_unat_eq_iff unsigned_ucast_eq unat_of_nat unat_word_ariths
        take_bit_eq_mod mod_mod_cancel)
  then show ?thesis using le_bytes64_small [OF \<open>8 * length m < 2 ^ 32\<close>] by simp
qed

lemma md5_update_init: "md5_update m md5_init = Some (absorb 64 md5_round m md5_init)"
  unfolding md5_update_def by (rule md5_b.update_absorb) (simp_all add: md5_init_wf)

lemma md5_short_tail:
  assumes "length m mod 64 \<le> 55" and "length m < 2 ^ 29"
  shows "md5 m = Some (md5_spec m)"
proof -
  let ?s = "absorb 64 md5_round m md5_init"
  let ?len = "le_bytes64 (of_nat (8 * length m))"
  have fits: "length m mod 64 + length ?len < 64" using assms by simp
  note st = md5_b.absorb_message [OF md5_init_wf(1,2), of m]
  note store = md5_b.buffer_padded [OF md5_init_wf(1,2) fits]
  let ?xs = "tail 64 m @ 0x80 # replicate (64 - 1 - 8 - length m mod 64) 0"
  have split: "tail 64 m @ 0x80 # replicate (64 - 1 - length m mod 64) 0 = ?xs @ replicate 8 0"
    using zeros_split [of "tail 64 m" 8 64 "0x80" 0] assms by (simp add: length_tail)
  have "length ?xs = 56" using assms by (simp add: length_tail)
  then have "c_memcpy (tail 64 m @ 0x80 # replicate (64 - 1 - length m mod 64) 0) 56
      (le_bytes32 (ucast (8 * total ?s))) 0 4 = Some (?xs @ ?len)"
    unfolding split using memcpy_over [of "le_bytes32 (ucast (8 * total ?s))" "replicate 8 0" ?xs]
      md5_length_field [OF assms(2)]
    by (simp add: st(4) md5_init_wf)
  then show ?thesis
    using store st(3) assms md5_b.regs_padded [OF md5_init_wf(1,2) fits]
    by (simp add: md5_def md5_update_init md5_final_def md5_spec_def)
qed

lemma md5_final_overrun: "55 < bufflen h \<Longrightarrow> length (buffer h) = 64 \<Longrightarrow> md5_final h = None"
  by (auto simp: md5_final_def c_memset_def dest: c_store_length split: Option.bind_splits)

lemma md5_long_tail: "55 < length m mod 64 \<Longrightarrow> md5 m = None"
  using md5_final_overrun [of "absorb 64 md5_round m md5_init"]
    md5_b.absorb_wf [OF md5_init_wf(1), of m]
    md5_b.absorb_message(3) [OF md5_init_wf(1,2), of m]
  by (simp add: md5_def md5_update_init block_wf_def)

lemma md5_final_restores: "md5_final h = Some (d, h') \<Longrightarrow> h' = h"
  by (auto simp: md5_final_def Let_def split: Option.bind_splits)

lemma md5_bytewise:
  "fold (\<lambda>x s. Option.bind s (md5_update [x])) m (Some md5_init) = md5_update m md5_init"
  using md5_b.update_bytewise [OF md5_init_wf(1), of m] md5_update_init [of m]
  by (simp add: md5_update_def [abs_def])

lemma md5_copy_wf: "block_wf 64 a \<Longrightarrow> block_wf 64 b \<Longrightarrow> md5_copy a b = a"
  by (simp add: md5_copy_def block_wf_def)

end
