(* ===== verification/Sha1.thy ===== *)
theory Sha1
  imports BlockHash Rotate
begin

text \<open>
  \<open>src/src/hash/sha01.c\<close>: SHA-0 and SHA-1, one struct with a version that is also the rotation of the
  message schedule (0 for SHA-0, a count C leaves undefined, see \<open>sha0_schedule_undefined\<close>).  The
  lemmas mirror those of the MD5 theory.  The digest is printed with \<open>%02x\<close> per 32-bit word, so its
  length varies and two digests can print alike.
\<close>

unbundle bit_operations_syntax

record sha01_hash = "u64 block_state" +
  sha01_h0 :: u32
  sha01_h1 :: u32
  sha01_h2 :: u32
  sha01_h3 :: u32
  sha01_h4 :: u32
  sha01_version :: u8

type_synonym sha01_state = "u8 \<times> u32 \<times> u32 \<times> u32 \<times> u32 \<times> u32"

definition sha01_init :: "u8 \<Rightarrow> sha01_hash" where
  "sha01_init ver = \<lparr>buffer = replicate 64 0, bufflen = 0, total = 0,
     sha01_h0 = 0x67452301, sha01_h1 = 0xEFCDAB89, sha01_h2 = 0x98BADCFE, sha01_h3 = 0x10325476,
     sha01_h4 = 0xC3D2E1F0, sha01_version = ver\<rparr>"

text \<open>The first sixteen words add up the shifted bytes.\<close>

definition sha01_word :: "u8 list \<Rightarrow> nat \<Rightarrow> u32" where
  "sha01_word M i = push_bit 24 (ucast (M ! (4 * i))) + push_bit 16 (ucast (M ! (4 * i + 1)))
     + push_bit 8 (ucast (M ! (4 * i + 2))) + ucast (M ! (4 * i + 3))"

definition sha01_schedule :: "u8 \<Rightarrow> u8 list \<Rightarrow> u32 list" where
  "sha01_schedule ver M = fold (\<lambda>i W. W @
     [rotl32 (W ! (i - 3) XOR W ! (i - 8) XOR W ! (i - 14) XOR W ! (i - 16)) (ucast ver)])
     [16..<80] (map (sha01_word M) [0..<16])"

definition sha01_step ::
  "u32 list \<Rightarrow> nat \<Rightarrow> u32 \<times> u32 \<times> u32 \<times> u32 \<times> u32 \<Rightarrow> u32 \<times> u32 \<times> u32 \<times> u32 \<times> u32" where
  "sha01_step W i s = (case s of (a, b, c, d, e) \<Rightarrow>
     let (f, k) =
           (if i \<le> 19 then ((b AND c) OR (NOT b AND d), 0x5A827999)
            else if i \<le> 39 then (b XOR c XOR d, 0x6ED9EBA1)
            else if i \<le> 59 then ((b AND c) OR (b AND d) OR (c AND d), 0x8F1BBCDC)
            else (b XOR c XOR d, 0xCA62C1D6));
         temp = rotl32 a 5 + f + e + k + W ! i
     in (temp, a, rotl32 b 30, c, d))"

definition sha01_compress :: "u8 list \<Rightarrow> sha01_state \<Rightarrow> sha01_state" where
  "sha01_compress M s = (case s of (ver, h0, h1, h2, h3, h4) \<Rightarrow>
     case fold (sha01_step (sha01_schedule ver M)) [0..<80] (h0, h1, h2, h3, h4) of
       (a, b, c, d, e) \<Rightarrow> (ver, h0 + a, h1 + b, h2 + c, h3 + d, h4 + e))"

definition sha01_regs :: "sha01_hash \<Rightarrow> sha01_state" where
  "sha01_regs h =
     (sha01_version h, sha01_h0 h, sha01_h1 h, sha01_h2 h, sha01_h3 h, sha01_h4 h)"

definition sha01_round :: "sha01_hash \<Rightarrow> sha01_hash" where
  "sha01_round hash = (case sha01_compress (buffer hash) (sha01_regs hash) of
     (ver, a, b, c, d, e) \<Rightarrow> hash\<lparr>sha01_h0 := a, sha01_h1 := b, sha01_h2 := c, sha01_h3 := d,
       sha01_h4 := e, sha01_version := ver\<rparr>)"

definition sha01_update :: "u8 list \<Rightarrow> sha01_hash \<Rightarrow> sha01_hash option" where
  "sha01_update input hash = block_update 64 sha01_round input hash"

definition sha01_text :: "sha01_state \<Rightarrow> string" where
  "sha01_text s = (case s of (ver, a, b, c, d, e) \<Rightarrow>
     concat (map (\<lambda>w. fmt_0x 2 (unat w)) [a, b, c, d, e]))"

definition sha01_final :: "sha01_hash \<Rightarrow> (string \<times> sha01_hash) option" where
  "sha01_final hash = do {
     let old_hash = hash;
     let old = buffer hash;
     b \<leftarrow> c_store (buffer hash) (bufflen hash) 0x80;
     let hash = hash\<lparr>buffer := b\<rparr>;
     hash \<leftarrow> (if bufflen hash > 55 then do {
         b \<leftarrow> c_memset (buffer hash) (bufflen hash + 1) 0 (64 - bufflen hash);
         let hash = sha01_round (hash\<lparr>buffer := b\<rparr>);
         b \<leftarrow> c_memset (buffer hash) 0 0 64;
         Some (hash\<lparr>buffer := b\<rparr>)
       } else Some hash);
     let lhhh = 8 * total hash;
     b \<leftarrow> store_be64 63 lhhh (buffer hash);
     let hash = sha01_round (hash\<lparr>buffer := b\<rparr>);
     Some (sha01_text (sha01_regs hash), old_hash\<lparr>buffer := old\<rparr>)
   }"

definition sha0_init :: sha01_hash where
  "sha0_init = sha01_init 0"

definition sha1_init :: sha01_hash where
  "sha1_init = sha01_init 1"

definition sha0_update :: "u8 list \<Rightarrow> sha01_hash \<Rightarrow> sha01_hash option" where
  "sha0_update input hash = sha01_update input hash"

definition sha1_update :: "u8 list \<Rightarrow> sha01_hash \<Rightarrow> sha01_hash option" where
  "sha1_update input hash = sha01_update input hash"

definition sha0_final :: "sha01_hash \<Rightarrow> (string \<times> sha01_hash) option" where
  "sha0_final hash = sha01_final hash"

definition sha1_final :: "sha01_hash \<Rightarrow> (string \<times> sha01_hash) option" where
  "sha1_final hash = sha01_final hash"

definition sha0 :: "u8 list \<Rightarrow> string option" where
  "sha0 a = do { aa \<leftarrow> sha0_update a sha0_init; (out_stream, aa) \<leftarrow> sha0_final aa; Some out_stream }"

definition sha1 :: "u8 list \<Rightarrow> string option" where
  "sha1 a = do { aa \<leftarrow> sha1_update a sha1_init; (out_stream, aa) \<leftarrow> sha1_final aa; Some out_stream }"

definition sha01_init_l :: "u8 \<Rightarrow> sha01_hash option" where
  "sha01_init_l ver = do {
     let a = sha01_init ver;
     b \<leftarrow> c_memset (buffer a) 0 0 64;
     Some (a\<lparr>buffer := b\<rparr>)
   }"

definition l_sha1_final :: "sha01_hash \<Rightarrow> string option" where
  "l_sha1_final a = map_option fst (sha1_final a)"

definition l_sha1 :: "u8 list list \<Rightarrow> sha01_hash lua_hash option" where
  "l_sha1 args = lua_hash_call (sha01_init_l 1) sha1 args"

definition l_sha0_final :: "sha01_hash \<Rightarrow> string option" where
  "l_sha0_final a = l_sha1_final a"

definition l_sha0 :: "u8 list list \<Rightarrow> sha01_hash lua_hash option" where
  "l_sha0 args = lua_hash_call (sha01_init_l 0) sha0 args"

text \<open>The clone of both versions.\<close>

definition sha01_copy :: "sha01_hash \<Rightarrow> sha01_hash \<Rightarrow> sha01_hash" where
  "sha01_copy a b = a\<lparr>buffer := take 64 (buffer a) @ drop 64 (buffer b)\<rparr>"

lemma sha0_schedule_undefined: "\<not> rotl32_defined (ucast (sha01_version sha0_init))"
  and sha1_schedule_defined: "rotl32_defined (ucast (sha01_version sha1_init))"
  by (simp_all add: sha0_init_def sha1_init_def sha01_init_def rotl32_defined_def)

section \<open>The buffering contract\<close>

interpretation sha01_b: block_hash 64 sha01_round sha01_regs sha01_compress
  by unfold_locales
    (simp_all add: sha01_round_def sha01_regs_def sha01_compress_def split: prod.splits)

lemma sha01_init_wf: "block_wf 64 (sha01_init v)" "bufflen (sha01_init v) = 0" "total (sha01_init v) = 0"
  by (simp_all add: sha01_init_def block_wf_def)

lemma sha01_init_l_eq: "sha01_init_l v = Some (sha01_init v)"
  by (simp add: sha01_init_l_def sha01_init_def c_mem)

definition sha01_spec :: "u8 \<Rightarrow> u8 list \<Rightarrow> string" where
  "sha01_spec ver m = sha01_text (fold sha01_compress
     (blocks 64 (md_pad 64 (be_bytes64 (of_nat (8 * length m))) m)) (sha01_regs (sha01_init ver)))"

lemma sha01_update_init:
  "sha01_update m (sha01_init v) = Some (absorb 64 sha01_round m (sha01_init v))"
  unfolding sha01_update_def by (rule sha01_b.update_absorb) (simp_all add: sha01_init_wf)

lemma sha01_final_short:
  assumes "length m mod 64 \<le> 55"
  shows "sha01_final (absorb 64 sha01_round m (sha01_init v))
    = Some (sha01_spec v m, absorb 64 sha01_round m (sha01_init v))"
proof -
  let ?s = "absorb 64 sha01_round m (sha01_init v)"
  let ?len = "be_bytes64 (of_nat (8 * length m))"
  have fits: "length m mod 64 + length ?len < 64" using assms by simp
  note st = sha01_b.absorb_message [OF sha01_init_wf(1,2) [of v], of m]
  note store = sha01_b.buffer_padded [OF sha01_init_wf(1,2) [of v] fits]
  let ?xs = "tail 64 m @ 0x80 # replicate (64 - 1 - 8 - length m mod 64) 0"
  have split: "tail 64 m @ 0x80 # replicate (64 - 1 - length m mod 64) 0 = ?xs @ replicate 8 0"
    using zeros_split [of "tail 64 m" 8 64 "0x80" 0] assms by (simp add: length_tail)
  have "length ?xs = 56" using assms by (simp add: length_tail)
  then have "store_be64 63 (8 * total ?s) (tail 64 m @ 0x80 # replicate (64 - 1 - length m mod 64) 0)
      = Some (?xs @ ?len)"
    unfolding split using store_be64_tail [of "replicate 8 0" ?xs]
    by (simp add: st(4) sha01_init_wf)
  then show ?thesis
    using store st(3) assms sha01_b.regs_padded [OF sha01_init_wf(1,2) [of v] fits]
    by (simp add: sha01_final_def sha01_spec_def)
qed

lemma sha01_final_overrun:
  "55 < bufflen h \<Longrightarrow> length (buffer h) = 64 \<Longrightarrow> sha01_final h = None"
  by (auto simp: sha01_final_def c_memset_def dest: c_store_length split: Option.bind_splits)

lemma sha01_long_tail:
  "55 < length m mod 64 \<Longrightarrow> sha01_final (absorb 64 sha01_round m (sha01_init v)) = None"
  using sha01_final_overrun [of "absorb 64 sha01_round m (sha01_init v)"]
    sha01_b.absorb_wf [OF sha01_init_wf(1) [of v], of m]
    sha01_b.absorb_message(3) [OF sha01_init_wf(1,2) [of v], of m]
  by (simp add: block_wf_def)

lemma sha1_result:
  "sha1 m = (if length m mod 64 \<le> 55 then Some (sha01_spec 1 m) else None)"
  using sha01_long_tail [of m 1] sha01_final_short [of m 1]
  by (simp add: sha1_def sha1_update_def sha1_final_def sha1_init_def sha01_update_init)

lemma sha0_result:
  "sha0 m = (if length m mod 64 \<le> 55 then Some (sha01_spec 0 m) else None)"
  using sha01_long_tail [of m 0] sha01_final_short [of m 0]
  by (simp add: sha0_def sha0_update_def sha0_final_def sha0_init_def sha01_update_init)

lemma sha01_final_restores: "sha01_final h = Some (d, h') \<Longrightarrow> h' = h"
  by (auto simp: sha01_final_def Let_def split: Option.bind_splits)

lemma sha01_bytewise:
  "fold (\<lambda>x s. Option.bind s (sha01_update [x])) m (Some (sha01_init v)) = sha01_update m (sha01_init v)"
  using sha01_b.update_bytewise [OF sha01_init_wf(1) [of v], of m] sha01_update_init [of m v]
  by (simp add: sha01_update_def [abs_def])

lemma sha01_copy_wf: "block_wf 64 a \<Longrightarrow> block_wf 64 b \<Longrightarrow> sha01_copy a b = a"
  by (simp add: sha01_copy_def block_wf_def)

text \<open>The text of a digest does not determine its words.\<close>

lemma sha01_text_ambiguous:
  "sha01_text (1, 0x10, 0x101, 0, 0, 0) = sha01_text (1, 0x101, 0x01, 0, 0, 0)"
  by code_simp

end
