(* ===== verification/Sha256.thy ===== *)
theory Sha256
  imports BlockHash Rotate
begin

text \<open>
  \<open>src/src/hash/sha2xx.c\<close>: SHA-256 and SHA-224.  The final's threshold is 56, not 55: a tail of
  exactly 56 bytes loses its mark to the length field, a longer one writes past the buffer, a shorter
  one is padded as the standard asks.  The digest is printed with \<open>%x\<close> per word, without leading zeros.
\<close>

unbundle bit_operations_syntax

record sha256_hash = "u64 block_state" +
  sha256_h0 :: u32
  sha256_h1 :: u32
  sha256_h2 :: u32
  sha256_h3 :: u32
  sha256_h4 :: u32
  sha256_h5 :: u32
  sha256_h6 :: u32
  sha256_h7 :: u32

type_synonym sha256_state = "u32 \<times> u32 \<times> u32 \<times> u32 \<times> u32 \<times> u32 \<times> u32 \<times> u32"

definition sha256_k :: "u32 list" where
  "sha256_k = concat
    [[0x428a2f98, 0x71374491, 0xb5c0fbcf, 0xe9b5dba5, 0x3956c25b, 0x59f111f1, 0x923f82a4, 0xab1c5ed5],
     [0xd807aa98, 0x12835b01, 0x243185be, 0x550c7dc3, 0x72be5d74, 0x80deb1fe, 0x9bdc06a7, 0xc19bf174],
     [0xe49b69c1, 0xefbe4786, 0x0fc19dc6, 0x240ca1cc, 0x2de92c6f, 0x4a7484aa, 0x5cb0a9dc, 0x76f988da],
     [0x983e5152, 0xa831c66d, 0xb00327c8, 0xbf597fc7, 0xc6e00bf3, 0xd5a79147, 0x06ca6351, 0x14292967],
     [0x27b70a85, 0x2e1b2138, 0x4d2c6dfc, 0x53380d13, 0x650a7354, 0x766a0abb, 0x81c2c92e, 0x92722c85],
     [0xa2bfe8a1, 0xa81a664b, 0xc24b8b70, 0xc76c51a3, 0xd192e819, 0xd6990624, 0xf40e3585, 0x106aa070],
     [0x19a4c116, 0x1e376c08, 0x2748774c, 0x34b0bcb5, 0x391c0cb3, 0x4ed8aa4a, 0x5b9cca4f, 0x682e6ff3],
     [0x748f82ee, 0x78a5636f, 0x84c87814, 0x8cc70208, 0x90befffa, 0xa4506ceb, 0xbef9a3f7, 0xc67178f2]]"

definition sha256_init :: sha256_hash where
  "sha256_init = \<lparr>buffer = replicate 64 0, bufflen = 0, total = 0,
     sha256_h0 = 0x6a09e667, sha256_h1 = 0xbb67ae85, sha256_h2 = 0x3c6ef372, sha256_h3 = 0xa54ff53a,
     sha256_h4 = 0x510e527f, sha256_h5 = 0x9b05688c, sha256_h6 = 0x1f83d9ab, sha256_h7 = 0x5be0cd19\<rparr>"

definition sha224_init :: sha256_hash where
  "sha224_init = sha256_init\<lparr>sha256_h0 := 0xc1059ed8, sha256_h1 := 0x367cd507,
     sha256_h2 := 0x3070dd17, sha256_h3 := 0xf70e5939, sha256_h4 := 0xffc00b31,
     sha256_h5 := 0x68581511, sha256_h6 := 0x64f98fa7, sha256_h7 := 0xbefa4fa4\<rparr>"

definition sha256_extend :: "u32 list \<Rightarrow> nat \<Rightarrow> u32" where
  "sha256_extend W i =
     (let s0 = rotr32 (W ! (i - 15)) 7 XOR rotr32 (W ! (i - 15)) 18 XOR drop_bit 3 (W ! (i - 15));
          s1 = rotr32 (W ! (i - 2)) 17 XOR rotr32 (W ! (i - 2)) 19 XOR drop_bit 10 (W ! (i - 2))
      in W ! (i - 16) + s0 + W ! (i - 7) + s1)"

definition sha256_schedule :: "u8 list \<Rightarrow> u32 list" where
  "sha256_schedule M =
     fold (\<lambda>i W. W @ [sha256_extend W i]) [16..<64] (map (\<lambda>i. be32 M (4 * i)) [0..<16])"

definition sha256_step :: "u32 list \<Rightarrow> nat \<Rightarrow> sha256_state \<Rightarrow> sha256_state" where
  "sha256_step W i s = (case s of (a, b, c, d, e, f, g, h) \<Rightarrow>
     let S1 = rotr32 e 6 XOR rotr32 e 11 XOR rotr32 e 25;
         ch = (e AND f) XOR (NOT e AND g);
         temp1 = h + S1 + ch + sha256_k ! i + W ! i;
         S0 = rotr32 a 2 XOR rotr32 a 13 XOR rotr32 a 22;
         maj = (a AND b) XOR (a AND c) XOR (b AND c);
         temp2 = S0 + maj
     in (temp1 + temp2, a, b, c, d + temp1, e, f, g))"

definition sha256_compress :: "u8 list \<Rightarrow> sha256_state \<Rightarrow> sha256_state" where
  "sha256_compress M s = (case s of (h0, h1, h2, h3, h4, h5, h6, h7) \<Rightarrow>
     case fold (sha256_step (sha256_schedule M)) [0..<64] s of (a, b, c, d, e, f, g, h) \<Rightarrow>
       (h0 + a, h1 + b, h2 + c, h3 + d, h4 + e, h5 + f, h6 + g, h7 + h))"

definition sha256_regs :: "sha256_hash \<Rightarrow> sha256_state" where
  "sha256_regs h = (sha256_h0 h, sha256_h1 h, sha256_h2 h, sha256_h3 h,
     sha256_h4 h, sha256_h5 h, sha256_h6 h, sha256_h7 h)"

definition sha256_round :: "sha256_hash \<Rightarrow> sha256_hash" where
  "sha256_round hash = (case sha256_compress (buffer hash) (sha256_regs hash) of
     (a, b, c, d, e, f, g, h) \<Rightarrow> hash\<lparr>sha256_h0 := a, sha256_h1 := b, sha256_h2 := c,
       sha256_h3 := d, sha256_h4 := e, sha256_h5 := f, sha256_h6 := g, sha256_h7 := h\<rparr>)"

definition sha256_update :: "u8 list \<Rightarrow> sha256_hash \<Rightarrow> sha256_hash option" where
  "sha256_update input hash = block_update 64 sha256_round input hash"

definition sha256_pad_final :: "sha256_hash \<Rightarrow> sha256_hash option" where
  "sha256_pad_final hash = do {
     b \<leftarrow> c_store (buffer hash) (bufflen hash) 0x80;
     let hash = hash\<lparr>buffer := b\<rparr>;
     hash \<leftarrow> (if bufflen hash > 64 - 8 then do {
         b \<leftarrow> c_memset (buffer hash) (bufflen hash + 1) 0 (64 - bufflen hash);
         let hash = sha256_round (hash\<lparr>buffer := b\<rparr>);
         b \<leftarrow> c_memset (buffer hash) 0 0 64;
         Some (hash\<lparr>buffer := b\<rparr>)
       } else Some hash);
     let blen = 8 * total hash;
     b \<leftarrow> store_be64 63 blen (buffer hash);
     Some (sha256_round (hash\<lparr>buffer := b\<rparr>))
   }"

definition sha256_words :: "sha256_state \<Rightarrow> u32 list" where
  "sha256_words s = (case s of (a, b, c, d, e, f, g, h) \<Rightarrow> [a, b, c, d, e, f, g, h])"

definition sha2_text :: "u32 list \<Rightarrow> string" where
  "sha2_text ws = concat (map (\<lambda>w. fmt_x (unat w)) ws)"

definition sha256_final :: "sha256_hash \<Rightarrow> (string \<times> sha256_hash) option" where
  "sha256_final hash = do {
     let old_hash = hash;
     let old = buffer hash;
     hash \<leftarrow> sha256_pad_final hash;
     Some (sha2_text (sha256_words (sha256_regs hash)), old_hash\<lparr>buffer := old\<rparr>)
   }"

definition sha224_final :: "sha256_hash \<Rightarrow> (string \<times> sha256_hash) option" where
  "sha224_final hash = do {
     let old_hash = hash;
     let old = buffer hash;
     hash \<leftarrow> sha256_pad_final hash;
     Some (sha2_text (take 7 (sha256_words (sha256_regs hash))), old_hash\<lparr>buffer := old\<rparr>)
   }"

definition sha256 :: "u8 list \<Rightarrow> string option" where
  "sha256 inp = do {
     a \<leftarrow> sha256_update inp sha256_init; (out, a) \<leftarrow> sha256_final a; Some out }"

definition sha224 :: "u8 list \<Rightarrow> string option" where
  "sha224 inp = do {
     a \<leftarrow> sha256_update inp sha224_init; (out, a) \<leftarrow> sha224_final a; Some out }"

definition sha256_init_l :: "sha256_hash option" where
  "sha256_init_l = do {
     let a = sha256_init;
     b \<leftarrow> c_memset (buffer a) 0 0 64;
     Some (a\<lparr>buffer := b\<rparr>)
   }"

definition sha224_init_l :: "sha256_hash option" where
  "sha224_init_l = do {
     a \<leftarrow> sha256_init_l;
     Some (a\<lparr>sha256_h0 := 0xc1059ed8, sha256_h1 := 0x367cd507,
       sha256_h2 := 0x3070dd17, sha256_h3 := 0xf70e5939, sha256_h4 := 0xffc00b31,
       sha256_h5 := 0x68581511, sha256_h6 := 0x64f98fa7, sha256_h7 := 0xbefa4fa4\<rparr>)
   }"

definition l_sha256_final :: "sha256_hash \<Rightarrow> string option" where
  "l_sha256_final a = map_option fst (sha256_final a)"

definition l_sha256 :: "u8 list list \<Rightarrow> sha256_hash lua_hash option" where
  "l_sha256 args = lua_hash_call sha256_init_l sha256 args"

definition l_sha224_final :: "sha256_hash \<Rightarrow> string option" where
  "l_sha224_final a = map_option fst (sha224_final a)"

definition l_sha224 :: "u8 list list \<Rightarrow> sha256_hash lua_hash option" where
  "l_sha224 args = lua_hash_call sha224_init_l sha224 args"

definition sha256_copy :: "sha256_hash \<Rightarrow> sha256_hash \<Rightarrow> sha256_hash" where
  "sha256_copy a b = a\<lparr>buffer := take 64 (buffer a) @ drop 64 (buffer b)\<rparr>"

section \<open>The buffering contract\<close>

interpretation sha256_b: block_hash 64 sha256_round sha256_regs sha256_compress
  by unfold_locales (simp_all add: sha256_round_def sha256_regs_def split: prod.splits)

lemma sha256_init_wf: "block_wf 64 sha256_init" "bufflen sha256_init = 0" "total sha256_init = 0"
  and sha224_init_wf: "block_wf 64 sha224_init" "bufflen sha224_init = 0" "total sha224_init = 0"
  by (simp_all add: sha256_init_def sha224_init_def block_wf_def)

lemma sha256_update_absorb:
  "block_wf 64 h \<Longrightarrow> bufflen h = 0 \<Longrightarrow> sha256_update m h = Some (absorb 64 sha256_round m h)"
  unfolding sha256_update_def by (rule sha256_b.update_absorb) simp_all

lemma sha256_init_l_eq: "sha256_init_l = Some sha256_init" "sha224_init_l = Some sha224_init"
  by (simp_all add: sha224_init_l_def sha224_init_def sha256_init_l_def sha256_init_def c_mem)

text \<open>The last block the code builds: the standard's for a tail of at most 55 bytes, and for a tail
  of 56 bytes one without the mark.\<close>

definition sha256_spec :: "sha256_state \<Rightarrow> u8 list \<Rightarrow> sha256_state" where
  "sha256_spec iv m =
     fold sha256_compress (blocks 64 (md_pad 64 (be_bytes64 (of_nat (8 * length m))) m)) iv"

definition sha256_unmarked :: "sha256_state \<Rightarrow> u8 list \<Rightarrow> sha256_state" where
  "sha256_unmarked iv m = fold sha256_compress (blocks 64 (m @ be_bytes64 (of_nat (8 * length m)))) iv"

lemma sha256_pad_final_short:
  assumes h: "block_wf 64 h" "bufflen h = 0" "total h = 0" and m: "length m mod 64 \<le> 55"
  shows "\<exists>h'. sha256_pad_final (absorb 64 sha256_round m h) = Some h'
    \<and> sha256_regs h' = sha256_spec (sha256_regs h) m"
proof -
  let ?s = "absorb 64 sha256_round m h"
  let ?len = "be_bytes64 (of_nat (8 * length m))"
  have fits: "length m mod 64 + length ?len < 64" using m by simp
  note st = sha256_b.absorb_message [OF h(1,2), of m]
  note store = sha256_b.buffer_padded [OF h(1,2) fits]
  let ?xs = "tail 64 m @ 0x80 # replicate (64 - 1 - 8 - length m mod 64) 0"
  have split: "tail 64 m @ 0x80 # replicate (64 - 1 - length m mod 64) 0 = ?xs @ replicate 8 0"
    using zeros_split [of "tail 64 m" 8 64 "0x80" 0] m by (simp add: length_tail)
  have "length ?xs = 56" using m by (simp add: length_tail)
  then have "store_be64 63 (8 * total ?s) (tail 64 m @ 0x80 # replicate (64 - 1 - length m mod 64) 0)
      = Some (?xs @ ?len)"
    unfolding split using store_be64_tail [of "replicate 8 0" ?xs] by (simp add: st(4) h(3))
  then show ?thesis
    using store st(3) m sha256_b.regs_padded [OF h(1,2) fits]
    by (simp add: sha256_pad_final_def sha256_spec_def)
qed

lemma sha256_pad_final_56:
  assumes h: "block_wf 64 h" "bufflen h = 0" "total h = 0" and m: "length m mod 64 = 56"
  shows "\<exists>h'. sha256_pad_final (absorb 64 sha256_round m h) = Some h'
    \<and> sha256_regs h' = sha256_unmarked (sha256_regs h) m"
proof -
  let ?s = "absorb 64 sha256_round m h"
  let ?len = "be_bytes64 (of_nat (8 * length m))"
  note st = sha256_b.absorb_message [OF h(1,2), of m]
  have len: "length (tail 64 m) = 56" using m by (simp add: length_tail)
  have buf: "buffer ?s = tail 64 m @ replicate 8 0" using st(2) m by simp
  have store: "c_store (buffer ?s) (bufflen ?s) 0x80 = Some (tail 64 m @ 0x80 # replicate 7 0)"
    using store_mark [of "tail 64 m" 64 "0x80"] len m by (simp add: buf st(3))
  have be: "store_be64 63 (8 * total ?s) (tail 64 m @ 0x80 # replicate 7 0) = Some (tail 64 m @ ?len)"
    using store_be64_tail [of "0x80 # replicate 7 0" "tail 64 m"] len by (simp add: st(4) h(3))
  have bl: "blocks 64 (m @ ?len) = blocks 64 m @ [tail 64 m @ ?len]"
    using blocks_append_tail [of 64 m ?len] blocks_single [of "tail 64 m @ ?len" 64] len by simp
  have "sha256_regs (sha256_round (?s\<lparr>buffer := tail 64 m @ ?len\<rparr>))
      = sha256_compress (tail 64 m @ ?len) (sha256_regs ?s)"
    using sha256_b.regs_rnd [of "?s\<lparr>buffer := tail 64 m @ ?len\<rparr>"] len
    by (simp add: sha256_b.regs_buffer)
  then have "sha256_regs (sha256_round (?s\<lparr>buffer := tail 64 m @ ?len\<rparr>))
      = sha256_unmarked (sha256_regs h) m"
    by (simp only: sha256_unmarked_def bl fold_append fold_simps o_apply st(1))
  then show ?thesis using store be st(3) m by (simp add: sha256_pad_final_def)
qed

lemma sha256_pad_final_overrun:
  "56 < bufflen h \<Longrightarrow> length (buffer h) = 64 \<Longrightarrow> sha256_pad_final h = None"
  by (auto simp: sha256_pad_final_def c_memset_def dest: c_store_length split: Option.bind_splits)

lemma sha256_long_tail:
  assumes "block_wf 64 h" "bufflen h = 0" and "56 < length m mod 64"
  shows "sha256_pad_final (absorb 64 sha256_round m h) = None"
  using sha256_pad_final_overrun [of "absorb 64 sha256_round m h"]
    sha256_b.absorb_wf [OF assms(1), of m] sha256_b.absorb_message(3) [OF assms(1,2), of m] assms(3)
  by (simp add: block_wf_def)

lemma sha256_result:
  "sha256 m =
    (if length m mod 64 \<le> 55 then Some (sha2_text (sha256_words (sha256_spec (sha256_regs sha256_init) m)))
     else if length m mod 64 = 56
          then Some (sha2_text (sha256_words (sha256_unmarked (sha256_regs sha256_init) m)))
     else None)"
  using sha256_pad_final_short [OF sha256_init_wf, of m] sha256_pad_final_56 [OF sha256_init_wf, of m]
    sha256_long_tail [OF sha256_init_wf(1,2), of m]
  by (auto simp: sha256_def sha256_final_def sha256_update_absorb sha256_init_wf Let_def)

lemma sha224_result:
  "sha224 m =
    (if length m mod 64 \<le> 55
     then Some (sha2_text (take 7 (sha256_words (sha256_spec (sha256_regs sha224_init) m))))
     else if length m mod 64 = 56
          then Some (sha2_text (take 7 (sha256_words (sha256_unmarked (sha256_regs sha224_init) m))))
     else None)"
  using sha256_pad_final_short [OF sha224_init_wf, of m] sha256_pad_final_56 [OF sha224_init_wf, of m]
    sha256_long_tail [OF sha224_init_wf(1,2), of m]
  by (auto simp: sha224_def sha224_final_def sha256_update_absorb sha224_init_wf Let_def)

lemma sha256_final_restores: "sha256_final h = Some (d, h') \<Longrightarrow> h' = h"
  and sha224_final_restores: "sha224_final h = Some (d, h') \<Longrightarrow> h' = h"
  by (auto simp: sha256_final_def sha224_final_def Let_def split: Option.bind_splits)

lemma sha256_copy_wf: "block_wf 64 a \<Longrightarrow> block_wf 64 b \<Longrightarrow> sha256_copy a b = a"
  by (simp add: sha256_copy_def block_wf_def)

text \<open>Without padding, different digests print alike.\<close>

lemma sha2_text_ambiguous: "sha2_text [0x1, 0x11, 0, 0, 0, 0, 0, 0] = sha2_text [0x11, 0x1, 0, 0, 0, 0, 0, 0]"
  by code_simp

end
