(* ===== verification/Sha512.thy ===== *)
theory Sha512
  imports BlockHash Rotate
begin

text \<open>
  \<open>src/src/hash/sha2-256.c\<close>, which holds SHA-512, SHA-384 and SHA-512/t.  The round swaps the bytes
  of its block in place.  As in the SHA-256 theory a tail of exactly 112 bytes loses its mark and a
  longer one writes past the buffer.  SHA-512/t derives its initial value by hashing its own name in
  a buffer of 12 bytes.
\<close>

unbundle bit_operations_syntax

record sha512_hash = "u64 block_state" +
  sha512_h0 :: u64
  sha512_h1 :: u64
  sha512_h2 :: u64
  sha512_h3 :: u64
  sha512_h4 :: u64
  sha512_h5 :: u64
  sha512_h6 :: u64
  sha512_h7 :: u64
  sha512_tt :: u16

text \<open>The eight 64-bit registers, also the type of an initial value.\<close>

type_synonym iv = "u64 \<times> u64 \<times> u64 \<times> u64 \<times> u64 \<times> u64 \<times> u64 \<times> u64"

definition sha512_k :: "u64 list" where
  "sha512_k = concat
    [[0x428a2f98d728ae22, 0x7137449123ef65cd, 0xb5c0fbcfec4d3b2f, 0xe9b5dba58189dbbc,
      0x3956c25bf348b538, 0x59f111f1b605d019, 0x923f82a4af194f9b, 0xab1c5ed5da6d8118],
     [0xd807aa98a3030242, 0x12835b0145706fbe, 0x243185be4ee4b28c, 0x550c7dc3d5ffb4e2,
      0x72be5d74f27b896f, 0x80deb1fe3b1696b1, 0x9bdc06a725c71235, 0xc19bf174cf692694],
     [0xe49b69c19ef14ad2, 0xefbe4786384f25e3, 0x0fc19dc68b8cd5b5, 0x240ca1cc77ac9c65,
      0x2de92c6f592b0275, 0x4a7484aa6ea6e483, 0x5cb0a9dcbd41fbd4, 0x76f988da831153b5],
     [0x983e5152ee66dfab, 0xa831c66d2db43210, 0xb00327c898fb213f, 0xbf597fc7beef0ee4,
      0xc6e00bf33da88fc2, 0xd5a79147930aa725, 0x06ca6351e003826f, 0x142929670a0e6e70],
     [0x27b70a8546d22ffc, 0x2e1b21385c26c926, 0x4d2c6dfc5ac42aed, 0x53380d139d95b3df,
      0x650a73548baf63de, 0x766a0abb3c77b2a8, 0x81c2c92e47edaee6, 0x92722c851482353b],
     [0xa2bfe8a14cf10364, 0xa81a664bbc423001, 0xc24b8b70d0f89791, 0xc76c51a30654be30,
      0xd192e819d6ef5218, 0xd69906245565a910, 0xf40e35855771202a, 0x106aa07032bbd1b8],
     [0x19a4c116b8d2d0c8, 0x1e376c085141ab53, 0x2748774cdf8eeb99, 0x34b0bcb5e19b48a8,
      0x391c0cb3c5c95a63, 0x4ed8aa4ae3418acb, 0x5b9cca4f7763e373, 0x682e6ff3d6b2b8a3],
     [0x748f82ee5defb2fc, 0x78a5636f43172f60, 0x84c87814a1f0ab72, 0x8cc702081a6439ec,
      0x90befffa23631e28, 0xa4506cebde82bde9, 0xbef9a3f7b2c67915, 0xc67178f2e372532b],
     [0xca273eceea26619c, 0xd186b8c721c0c207, 0xeada7dd6cde0eb1e, 0xf57d4f7fee6ed178,
      0x06f067aa72176fba, 0x0a637dc5a2c898a6, 0x113f9804bef90dae, 0x1b710b35131c471b],
     [0x28db77f523047d84, 0x32caab7b40c72493, 0x3c9ebe0a15c9bebc, 0x431d67c49c100d4c,
      0x4cc5d4becb3e42b6, 0x597f299cfc657e2a, 0x5fcb6fab3ad6faec, 0x6c44198c4a475817]]"

definition sha512_iv :: iv where
  "sha512_iv = (0x6a09e667f3bcc908, 0xbb67ae8584caa73b, 0x3c6ef372fe94f82b, 0xa54ff53a5f1d36f1,
     0x510e527fade682d1, 0x9b05688c2b3e6c1f, 0x1f83d9abfb41bd6b, 0x5be0cd19137e2179)"

definition sha384_iv :: iv where
  "sha384_iv = (0xcbbb9d5dc1059ed8, 0x629a292a367cd507, 0x9159015a3070dd17, 0x152fecd8f70e5939,
     0x67332667ffc00b31, 0x8eb44a8768581511, 0xdb0c2e0d64f98fa7, 0x47b5481dbefa4fa4)"

section \<open>Byte swaps\<close>

text \<open>Both swaps walk inwards and exchange two bytes with three exclusive ors.\<close>

definition swap_pair :: "nat \<Rightarrow> nat \<Rightarrow> u8 list \<Rightarrow> u8 list" where
  "swap_pair low high y =
     (let y = y[low := y ! low XOR y ! high];
          y = y[high := y ! high XOR y ! low]
      in y[low := y ! low XOR y ! high])"

fun endian_swap_loop :: "nat \<Rightarrow> nat \<Rightarrow> u8 list \<Rightarrow> u8 list" where
  "endian_swap_loop low high y =
     (if high > low then endian_swap_loop (low + 1) (high - 1) (swap_pair low high y) else y)"

declare endian_swap_loop.simps [simp del]

definition endian_swap64 :: "u8 list \<Rightarrow> u8 list" where
  "endian_swap64 x = endian_swap_loop 0 (8 - 1) x"

definition endian_swap128 :: "u8 list \<Rightarrow> u8 list" where
  "endian_swap128 x = endian_swap_loop 0 (16 - 1) x"

lemma swap_pair_swaps:
  assumes "low < length y" and "high < length y" and "low \<noteq> high"
  shows "swap_pair low high y = y[low := y ! high, high := y ! low]"
proof -
  have "(a XOR b) XOR (b XOR (a XOR b)) = b" "b XOR (a XOR b) = a" for a b :: u8
    by (simp_all add: ac_simps xor_xor_cancel)
  moreover have "y[low := a, high := b, low := c] = y[low := c, high := b]" for a b c :: u8
    using assms(3) by (metis list_update_overwrite list_update_swap)
  ultimately show ?thesis using assms by (simp add: swap_pair_def Let_def)
qed

lemma endian_swap_loop_rev:
  "low + high + 1 = length y \<Longrightarrow> low \<le> high + 1 \<Longrightarrow> k < length y \<Longrightarrow>
   endian_swap_loop low high y ! k = (if low \<le> k \<and> k \<le> high then y ! (low + high - k) else y ! k)"
proof (induction low high y rule: endian_swap_loop.induct)
  case (1 low high y)
  show ?case
  proof (cases "high > low")
    case True
    have "endian_swap_loop (low + 1) (high - 1) (swap_pair low high y) ! k
        = (if low + 1 \<le> k \<and> k \<le> high - 1 then swap_pair low high y ! (low + 1 + (high - 1) - k)
           else swap_pair low high y ! k)"
      using 1 True by (simp add: swap_pair_def Let_def)
    also have "\<dots> = (if low \<le> k \<and> k \<le> high then y ! (low + high - k) else y ! k)"
      using 1(2-4) True by (auto simp: swap_pair_swaps nth_list_update)
    finally show ?thesis using True by (subst endian_swap_loop.simps) simp
  next
    case False
    then have "low + high - k = k" if "low \<le> k" "k \<le> high" using that by simp
    then show ?thesis using False 1(2-4) by (subst endian_swap_loop.simps) auto
  qed
qed

lemma length_endian_swap_loop [simp]: "length (endian_swap_loop low high y) = length y"
  by (induction low high y rule: endian_swap_loop.induct)
    (subst endian_swap_loop.simps, simp add: swap_pair_def Let_def)

lemma endian_swap64_rev: "length x = 8 \<Longrightarrow> endian_swap64 x = rev x"
  and endian_swap128_rev: "length x = 16 \<Longrightarrow> endian_swap128 x = rev x"
  by (rule nth_equalityI,
      auto simp: endian_swap64_def endian_swap128_def endian_swap_loop_rev rev_nth)+

lemma length_endian_swap64 [simp]: "length (endian_swap64 x) = length x"
  by (simp add: endian_swap64_def)

section \<open>The compression\<close>

definition sha512_swap_block :: "u8 list \<Rightarrow> u8 list" where
  "sha512_swap_block M =
     concat (map (\<lambda>i. endian_swap64 (take 8 (drop (8 * i) M))) [0..<16]) @ drop 128 M"

definition sha512_extend :: "u64 list \<Rightarrow> nat \<Rightarrow> u64" where
  "sha512_extend W i =
     (rotr64 (W ! (i - 2)) 19 XOR rotr64 (W ! (i - 2)) 61 XOR drop_bit 6 (W ! (i - 2)))
     + W ! (i - 7)
     + (rotr64 (W ! (i - 15)) 1 XOR rotr64 (W ! (i - 15)) 8 XOR drop_bit 7 (W ! (i - 15)))
     + W ! (i - 16)"

definition sha512_schedule :: "u8 list \<Rightarrow> u64 list" where
  "sha512_schedule B =
     fold (\<lambda>i W. W @ [sha512_extend W i]) [16..<80] (map (\<lambda>i. le64 B (8 * i)) [0..<16])"

definition sha512_step :: "u64 list \<Rightarrow> nat \<Rightarrow> iv \<Rightarrow> iv" where
  "sha512_step W i s = (case s of (a, b, c, d, e, f, g, h) \<Rightarrow>
     let S1 = rotr64 e 14 XOR rotr64 e 18 XOR rotr64 e 41;
         ch = (e AND f) XOR (NOT e AND g);
         temp1 = h + S1 + ch + sha512_k ! i + W ! i;
         S0 = rotr64 a 28 XOR rotr64 a 34 XOR rotr64 a 39;
         maj = (a AND b) XOR (a AND c) XOR (b AND c);
         temp2 = S0 + maj
     in (temp1 + temp2, a, b, c, d + temp1, e, f, g))"

definition sha512_compress :: "u8 list \<Rightarrow> iv \<Rightarrow> iv" where
  "sha512_compress M s = (case s of (h0, h1, h2, h3, h4, h5, h6, h7) \<Rightarrow>
     case fold (sha512_step (sha512_schedule (sha512_swap_block M))) [0..<80] s of
       (a, b, c, d, e, f, g, h) \<Rightarrow>
         (h0 + a, h1 + b, h2 + c, h3 + d, h4 + e, h5 + f, h6 + g, h7 + h))"

definition sha512_regs :: "sha512_hash \<Rightarrow> iv" where
  "sha512_regs h = (sha512_h0 h, sha512_h1 h, sha512_h2 h, sha512_h3 h,
     sha512_h4 h, sha512_h5 h, sha512_h6 h, sha512_h7 h)"

definition sha512_round :: "sha512_hash \<Rightarrow> sha512_hash" where
  "sha512_round hash = (case sha512_compress (buffer hash) (sha512_regs hash) of
     (a, b, c, d, e, f, g, h) \<Rightarrow> hash\<lparr>buffer := sha512_swap_block (buffer hash),
       sha512_h0 := a, sha512_h1 := b, sha512_h2 := c, sha512_h3 := d,
       sha512_h4 := e, sha512_h5 := f, sha512_h6 := g, sha512_h7 := h\<rparr>)"

definition sha512_t_init :: "iv \<Rightarrow> sha512_hash" where
  "sha512_t_init sha_iv = (case sha_iv of (h0, h1, h2, h3, h4, h5, h6, h7) \<Rightarrow>
     \<lparr>buffer = replicate 128 0, bufflen = 0, total = 0, sha512_h0 = h0, sha512_h1 = h1,
      sha512_h2 = h2, sha512_h3 = h3, sha512_h4 = h4, sha512_h5 = h5, sha512_h6 = h6,
      sha512_h7 = h7, sha512_tt = 0\<rparr>)"

definition sha512_init :: sha512_hash where
  "sha512_init = sha512_t_init sha512_iv"

definition sha384_init :: sha512_hash where
  "sha384_init = sha512_t_init sha384_iv"

definition sha512_update :: "u8 list \<Rightarrow> sha512_hash \<Rightarrow> sha512_hash option" where
  "sha512_update input hash = block_update 128 sha512_round input hash"

definition sha512_t_pad_final :: "sha512_hash \<Rightarrow> sha512_hash option" where
  "sha512_t_pad_final hash = do {
     b \<leftarrow> c_store (buffer hash) (bufflen hash) 0x80;
     let hash = hash\<lparr>buffer := b\<rparr>;
     hash \<leftarrow> (if bufflen hash > 128 - 16 then do {
         b \<leftarrow> c_memset (buffer hash) (bufflen hash + 1) 0 (128 - bufflen hash);
         let hash = sha512_round (hash\<lparr>buffer := b\<rparr>);
         b \<leftarrow> c_memset (buffer hash) 0 0 128;
         Some (hash\<lparr>buffer := b\<rparr>)
       } else Some hash);
     let bigL = endian_swap128 (le_bytes64 (total hash * 8) @ replicate 8 0);
     b \<leftarrow> c_memcpy (buffer hash) (128 - 16) bigL 0 16;
     Some (sha512_round (hash\<lparr>buffer := b\<rparr>))
   }"

definition sha512_words :: "iv \<Rightarrow> u64 list" where
  "sha512_words s = (case s of (a, b, c, d, e, f, g, h) \<Rightarrow> [a, b, c, d, e, f, g, h])"

definition sha512_text :: "u64 list \<Rightarrow> string" where
  "sha512_text ws = concat (map (\<lambda>w. fmt_0x 16 (unat w)) ws)"

definition sha512_final :: "sha512_hash \<Rightarrow> (string \<times> sha512_hash) option" where
  "sha512_final hash = do {
     let old_hash = hash;
     let old = buffer hash;
     hash \<leftarrow> sha512_t_pad_final hash;
     Some (sha512_text (sha512_words (sha512_regs hash)), old_hash\<lparr>buffer := old\<rparr>)
   }"

definition sha384_final :: "sha512_hash \<Rightarrow> (string \<times> sha512_hash) option" where
  "sha384_final hash = do {
     let old_hash = hash;
     let old = buffer hash;
     hash \<leftarrow> sha512_t_pad_final hash;
     Some (sha512_text (take 6 (sha512_words (sha512_regs hash))), old_hash\<lparr>buffer := old\<rparr>)
   }"

definition sha512 :: "u8 list \<Rightarrow> string option" where
  "sha512 inp = do {
     a \<leftarrow> sha512_update inp sha512_init; (out, a) \<leftarrow> sha512_final a; Some out }"

definition sha384 :: "u8 list \<Rightarrow> string option" where
  "sha384 inp = do {
     a \<leftarrow> sha512_update inp sha384_init; (out, a) \<leftarrow> sha384_final a; Some out }"

text \<open>The conversion \<open>%i\<close> of a signed argument, and the initial value of SHA-512/t: the name and its
  terminator must fit 12 bytes.\<close>

definition fmt_int :: "int \<Rightarrow> string" where
  "fmt_int i = (if i < 0 then CHR ''-'' # fmt_i (nat (- i)) else fmt_i (nat i))"

definition sha_iv_gen :: "int \<Rightarrow> iv option" where
  "sha_iv_gen i = (case sha512_iv of (h0, h1, h2, h3, h4, h5, h6, h7) \<Rightarrow> do {
     let x = 0xa5a5a5a5a5a5a5a5;
     let oh = (h0 XOR x, h1 XOR x, h2 XOR x, h3 XOR x, h4 XOR x, h5 XOR x, h6 XOR x, h7 XOR x);
     let inp = bytes (''SHA-512/'' @ fmt_int i);
     if length inp < 12 then do {
       a \<leftarrow> sha512_update inp (sha512_t_init oh);
       a \<leftarrow> sha512_t_pad_final a;
       Some (sha512_regs a)
     } else None
   })"

text \<open>The terminator written at t / 4 cuts the digest; a negative index leaves the buffer.\<close>

definition cut_digest :: "int \<Rightarrow> string \<Rightarrow> string option" where
  "cut_digest t out = (if -4 < t \<and> t < 2048 then Some (take (nat (t div 4)) out) else None)"

definition sha512_t :: "u8 list \<Rightarrow> int \<Rightarrow> string option" where
  "sha512_t inp t = do {
     sha_iv \<leftarrow> sha_iv_gen t;
     a \<leftarrow> sha512_update inp (sha512_t_init sha_iv);
     (out, a) \<leftarrow> sha512_final a;
     cut_digest t out
   }"

definition sha512_t_init_l :: "iv \<Rightarrow> sha512_hash option" where
  "sha512_t_init_l sha_iv = do {
     let a = sha512_t_init sha_iv;
     b \<leftarrow> c_memset (buffer a) 0 0 128;
     Some (a\<lparr>buffer := b\<rparr>)
   }"

definition l_sha512_final :: "sha512_hash \<Rightarrow> string option" where
  "l_sha512_final a = map_option fst (sha512_final a)"

definition l_sha512 :: "u8 list list \<Rightarrow> sha512_hash lua_hash option" where
  "l_sha512 args = lua_hash_call (sha512_t_init_l sha512_iv) sha512 args"

definition l_sha384_final :: "sha512_hash \<Rightarrow> string option" where
  "l_sha384_final a = map_option fst (sha384_final a)"

definition l_sha384 :: "u8 list list \<Rightarrow> sha512_hash lua_hash option" where
  "l_sha384 args = lua_hash_call (sha512_t_init_l sha384_iv) sha384 args"

definition l_sha512_t_init :: "int \<Rightarrow> sha512_hash option" where
  "l_sha512_t_init tt = do {
     sha_iv \<leftarrow> sha_iv_gen tt;
     a \<leftarrow> sha512_t_init_l sha_iv;
     Some (a\<lparr>sha512_tt := of_int tt\<rparr>)
   }"

definition l_sha512_t_final :: "sha512_hash \<Rightarrow> (string \<times> sha512_hash) option" where
  "l_sha512_t_final a = do {
     (digest, a) \<leftarrow> sha512_final a;
     out \<leftarrow> cut_digest (uint (sha512_tt a)) digest;
     Some (out, a)
   }"

text \<open>With one argument, the number t, it makes an object; with two it hashes the first.\<close>

definition l_sha512_t :: "u8 list option \<Rightarrow> int \<Rightarrow> sha512_hash lua_hash option" where
  "l_sha512_t a t = (case a of None \<Rightarrow> map_option HashObject (l_sha512_t_init t)
     | Some s \<Rightarrow> map_option Digest (sha512_t s t))"

definition sha512_copy :: "sha512_hash \<Rightarrow> sha512_hash \<Rightarrow> sha512_hash" where
  "sha512_copy a b = a\<lparr>buffer := take 128 (buffer a) @ drop 128 (buffer b)\<rparr>"

section \<open>The buffering contract\<close>

lemma length_sha512_swap_block [simp]:
  assumes "128 \<le> length M"
  shows "length (sha512_swap_block M) = length M"
  using assms by (simp add: sha512_swap_block_def upt_conv_Cons)

lemma sha512_swap_block_short:
  assumes "length M \<le> 128"
  shows "length (sha512_swap_block M) = length M"
proof -
  have "length (concat (map (\<lambda>i. endian_swap64 (take 8 (drop (8 * i) M))) [0..<n])) = min (8 * n) (length M)" for n
    by (induction n) auto
  then show ?thesis using assms by (simp add: sha512_swap_block_def)
qed

lemma length_swap_block: "length (sha512_swap_block M) = length M"
  by (cases "128 \<le> length M") (simp_all add: sha512_swap_block_short)

text \<open>The swapped block, read as native words, is the big-endian block.\<close>

lemma swap_block_nth:
  assumes "128 \<le> length M" and "i < 16" and "j < 8"
  shows "sha512_swap_block M ! (8 * i + j) = M ! (8 * i + (7 - j))"
proof -
  let ?f = "\<lambda>i. endian_swap64 (take 8 (drop (8 * i) M))"
  have len: "n \<le> 16 \<Longrightarrow> length (concat (map ?f [0..<n])) = 8 * n" for n
    using assms(1) by (induction n) auto
  have "i < n \<Longrightarrow> n \<le> 16 \<Longrightarrow> concat (map ?f [0..<n]) ! (8 * i + j) = M ! (8 * i + (7 - j))" for n
  proof (induction n)
    case 0
    then show ?case by simp
  next
    case (Suc n)
    show ?case
    proof (cases "i < n")
      case True
      have "8 * i + j < 8 * Suc i" using assms(3) by simp
      also have "\<dots> \<le> 8 * n" using True by (intro mult_le_mono2) simp
      finally show ?thesis using Suc True len [of n] by (simp add: nth_append)
    next
      case False
      then have "i = n" using Suc.prems by simp
      then show ?thesis using Suc.prems len [of n] assms
        by (simp add: nth_append endian_swap64_rev rev_nth)
    qed
  qed
  from this [of 16] have "concat (map ?f [0..<16]) ! (8 * i + j) = M ! (8 * i + (7 - j))"
    using assms(2) by simp
  moreover have "8 * i + j < 128" using assms(2,3) by simp
  ultimately show ?thesis using len [of 16] by (simp add: sha512_swap_block_def nth_append)
qed

lemma swap_block_words:
  assumes "128 \<le> length M" and "i < 16"
  shows "le64 (sha512_swap_block M) (8 * i) = be64 M (8 * i)"
proof -
  have idx: "5 + 8 * i = 8 * i + 5" "6 + 8 * i = 8 * i + 6" "7 + 8 * i = 8 * i + 7" by simp_all
  show ?thesis
    using swap_block_nth [OF assms, of 0] swap_block_nth [OF assms, of 1]
      swap_block_nth [OF assms, of 2] swap_block_nth [OF assms, of 3]
      swap_block_nth [OF assms, of 4] swap_block_nth [OF assms, of 5]
      swap_block_nth [OF assms, of 6] swap_block_nth [OF assms, of 7]
    by (simp add: le64_def be64_def le32_def be32_def idx or.commute or.left_commute or.assoc)
qed

interpretation sha512_b: block_hash 128 sha512_round sha512_regs sha512_compress
  by unfold_locales
    (simp_all add: sha512_round_def sha512_regs_def length_swap_block split: prod.splits)

lemma sha512_t_init_wf:
  "block_wf 128 (sha512_t_init v)" "bufflen (sha512_t_init v) = 0" "total (sha512_t_init v) = 0"
  and sha512_t_init_regs: "sha512_regs (sha512_t_init v) = v"
  by (simp_all add: sha512_t_init_def block_wf_def sha512_regs_def split: prod.splits)

lemma sha512_update_init:
  "sha512_update m (sha512_t_init v) = Some (absorb 128 sha512_round m (sha512_t_init v))"
  unfolding sha512_update_def
  by (rule sha512_b.update_absorb) (simp_all add: sha512_t_init_wf)

lemma sha512_t_init_l_eq: "sha512_t_init_l v = Some (sha512_t_init v)"
  by (simp add: sha512_t_init_l_def sha512_t_init_def c_mem split: prod.splits)

abbreviation sha512_length_field :: "u8 list \<Rightarrow> u8 list" where
  "sha512_length_field m \<equiv> replicate 8 0 @ be_bytes64 (of_nat (8 * length m))"

definition sha512_spec :: "iv \<Rightarrow> u8 list \<Rightarrow> iv" where
  "sha512_spec v m =
     fold sha512_compress (blocks 128 (md_pad 128 (sha512_length_field m) m)) v"

definition sha512_unmarked :: "iv \<Rightarrow> u8 list \<Rightarrow> iv" where
  "sha512_unmarked v m = fold sha512_compress (blocks 128 (m @ sha512_length_field m)) v"

lemma sha512_bigL:
  "endian_swap128 (le_bytes64 w @ replicate 8 0) = replicate 8 0 @ be_bytes64 w"
  by (simp add: endian_swap128_rev be_bytes64_def)

lemma sha512_pad_final_short:
  assumes m: "length m mod 128 \<le> 111"
  shows "\<exists>h'. sha512_t_pad_final (absorb 128 sha512_round m (sha512_t_init v)) = Some h'
    \<and> sha512_regs h' = sha512_spec v m"
proof -
  let ?s = "absorb 128 sha512_round m (sha512_t_init v)"
  have fits: "length m mod 128 + length (sha512_length_field m) < 128" using m by simp
  note wf = sha512_t_init_wf(1,2) [of v]
  note st = sha512_b.absorb_message [OF wf, of m]
  note store = sha512_b.buffer_padded [OF wf fits]
  let ?xs = "tail 128 m @ 0x80 # replicate (128 - 1 - 16 - length m mod 128) 0"
  have split: "tail 128 m @ 0x80 # replicate (128 - 1 - length m mod 128) 0 = ?xs @ replicate 16 0"
    using zeros_split [of "tail 128 m" 16 128 "0x80" 0] m by (simp add: length_tail)
  have "length ?xs = 112" using m by (simp add: length_tail)
  then have "c_memcpy (tail 128 m @ 0x80 # replicate (128 - 1 - length m mod 128) 0) 112
      (sha512_length_field m) 0 16 = Some (?xs @ sha512_length_field m)"
    unfolding split using memcpy_over [of "sha512_length_field m" "replicate 16 0" ?xs] by simp
  moreover have "endian_swap128 (le_bytes64 (total ?s * 8) @ replicate 8 0) = sha512_length_field m"
    by (simp add: sha512_bigL st(4) sha512_t_init_wf mult.commute)
  ultimately show ?thesis
    using store st(3) m sha512_b.regs_padded [OF wf fits]
    by (simp add: sha512_t_pad_final_def sha512_spec_def sha512_t_init_regs)
qed

lemma sha512_pad_final_112:
  assumes m: "length m mod 128 = 112"
  shows "\<exists>h'. sha512_t_pad_final (absorb 128 sha512_round m (sha512_t_init v)) = Some h'
    \<and> sha512_regs h' = sha512_unmarked v m"
proof -
  let ?s = "absorb 128 sha512_round m (sha512_t_init v)"
  let ?len = "sha512_length_field m"
  note wf = sha512_t_init_wf(1,2) [of v]
  note st = sha512_b.absorb_message [OF wf, of m]
  have len: "length (tail 128 m) = 112" using m by (simp add: length_tail)
  have buf: "buffer ?s = tail 128 m @ replicate 16 0" using st(2) m by simp
  have store: "c_store (buffer ?s) (bufflen ?s) 0x80 = Some (tail 128 m @ 0x80 # replicate 15 0)"
    using store_mark [of "tail 128 m" 128 "0x80"] len m by (simp add: buf st(3))
  have "endian_swap128 (le_bytes64 (total ?s * 8) @ replicate 8 0) = ?len"
    by (simp add: sha512_bigL st(4) sha512_t_init_wf mult.commute)
  then have be: "c_memcpy (tail 128 m @ 0x80 # replicate 15 0) 112
      (endian_swap128 (le_bytes64 (total ?s * 8) @ replicate 8 0)) 0 16 = Some (tail 128 m @ ?len)"
    using memcpy_over [of ?len "0x80 # replicate 15 0" "tail 128 m"] len by simp
  have bl: "blocks 128 (m @ ?len) = blocks 128 m @ [tail 128 m @ ?len]"
    using blocks_append_tail [of 128 m ?len] blocks_single [of "tail 128 m @ ?len" 128] len by simp
  have "sha512_regs (sha512_round (?s\<lparr>buffer := tail 128 m @ ?len\<rparr>))
      = sha512_compress (tail 128 m @ ?len) (sha512_regs ?s)"
    using sha512_b.regs_rnd [of "?s\<lparr>buffer := tail 128 m @ ?len\<rparr>"] len
    by (simp add: sha512_b.regs_buffer)
  then have "sha512_regs (sha512_round (?s\<lparr>buffer := tail 128 m @ ?len\<rparr>)) = sha512_unmarked v m"
    by (simp only: sha512_unmarked_def bl fold_append fold_simps o_apply st(1) sha512_t_init_regs)
  then show ?thesis using store be st(3) m by (simp add: sha512_t_pad_final_def)
qed

lemma sha512_pad_final_overrun:
  "112 < bufflen h \<Longrightarrow> length (buffer h) = 128 \<Longrightarrow> sha512_t_pad_final h = None"
  by (auto simp: sha512_t_pad_final_def c_memset_def dest: c_store_length split: Option.bind_splits)

lemma sha512_long_tail:
  assumes "112 < length m mod 128"
  shows "sha512_t_pad_final (absorb 128 sha512_round m (sha512_t_init v)) = None"
  using sha512_pad_final_overrun [of "absorb 128 sha512_round m (sha512_t_init v)"]
    sha512_b.absorb_wf [OF sha512_t_init_wf(1) [of v], of m]
    sha512_b.absorb_message(3) [OF sha512_t_init_wf(1,2) [of v], of m] assms
  by (simp add: block_wf_def)

text \<open>The registers all three digests print from.\<close>

definition sha512_result :: "iv \<Rightarrow> u8 list \<Rightarrow> iv option" where
  "sha512_result v m =
     (if length m mod 128 \<le> 111 then Some (sha512_spec v m)
      else if length m mod 128 = 112 then Some (sha512_unmarked v m) else None)"

lemma sha512_pad_final_result:
  "map_option sha512_regs (sha512_t_pad_final (absorb 128 sha512_round m (sha512_t_init v)))
    = sha512_result v m"
  using sha512_pad_final_short [of m v] sha512_pad_final_112 [of m v] sha512_long_tail [of m v]
  by (auto simp: sha512_result_def)

lemma sha512_digest:
  "sha512 m = map_option (\<lambda>s. sha512_text (sha512_words s)) (sha512_result sha512_iv m)"
  "sha384 m = map_option (\<lambda>s. sha512_text (take 6 (sha512_words s))) (sha512_result sha384_iv m)"
  unfolding sha512_pad_final_result [symmetric]
  by (simp_all add: sha512_def sha512_init_def sha512_final_def sha384_def sha384_init_def
      sha384_final_def sha512_update_init Let_def map_option_case split: option.split Option.bind_split)

lemma sha512_t_digest:
  "sha512_t m t = do {
     v \<leftarrow> sha_iv_gen t;
     s \<leftarrow> sha512_result v m;
     cut_digest t (sha512_text (sha512_words s))
   }"
  unfolding sha512_pad_final_result [symmetric]
  by (simp add: sha512_t_def sha512_final_def sha512_update_init Let_def map_option_case
      split: option.split Option.bind_split)

lemma sha512_copy_wf: "block_wf 128 a \<Longrightarrow> block_wf 128 b \<Longrightarrow> sha512_copy a b = a"
  by (simp add: sha512_copy_def block_wf_def)

lemma sha512_final_restores: "sha512_final h = Some (d, h') \<Longrightarrow> h' = h"
  and sha384_final_restores: "sha384_final h = Some (d, h') \<Longrightarrow> h' = h"
  by (auto simp: sha512_final_def sha384_final_def Let_def split: Option.bind_splits)

text \<open>The printed words have a fixed width, so the text determines the digest.\<close>

lemma length_sha512_text: "length (sha512_text ws) = 16 * length ws"
  by (induction ws) (simp_all add: sha512_text_def fmt_0x_length unsigned_less [where ?'a = nat, of "_ :: u64", simplified])

end
