(* ===== verification/Blake.thy ===== *)
theory Blake
  imports BlockHash Rotate
begin

text \<open>
  \<open>src/src/hash/blake.c\<close>: BLAKE-256/224 and BLAKE-512/384.  The compression is a function of the
  chained value, the block and a bit counter.  The finals set the last bit of the padding before the
  mark, so a tail of 55 (111) bytes, where both bits share a byte, keeps only the mark; a tail of 112
  bytes of BLAKE-512 has its last byte overwritten; longer tails write past the buffer.
\<close>

unbundle bit_operations_syntax

definition blake_sigma :: "nat list list" where
  "blake_sigma =
    [[0, 1, 2, 3, 4, 5, 6, 7, 8, 9, 10, 11, 12, 13, 14, 15],
     [14, 10, 4, 8, 9, 15, 13, 6, 1, 12, 0, 2, 11, 7, 5, 3],
     [11, 8, 12, 0, 5, 2, 15, 13, 10, 14, 3, 6, 7, 1, 9, 4],
     [7, 9, 3, 1, 13, 12, 11, 14, 2, 6, 5, 10, 4, 0, 15, 8],
     [9, 0, 5, 7, 2, 4, 10, 15, 14, 1, 11, 12, 6, 8, 3, 13],
     [2, 12, 6, 10, 0, 11, 8, 3, 4, 13, 7, 5, 15, 14, 1, 9],
     [12, 5, 1, 15, 14, 13, 4, 10, 0, 7, 6, 3, 9, 2, 8, 11],
     [13, 11, 7, 14, 12, 1, 3, 9, 5, 0, 15, 4, 8, 6, 2, 10],
     [6, 15, 14, 9, 11, 3, 0, 8, 12, 2, 13, 7, 1, 4, 10, 5],
     [10, 2, 8, 4, 7, 6, 1, 5, 15, 11, 9, 14, 3, 12, 13, 0],
     [0, 1, 2, 3, 4, 5, 6, 7, 8, 9, 10, 11, 12, 13, 14, 15],
     [14, 10, 4, 8, 9, 15, 13, 6, 1, 12, 0, 2, 11, 7, 5, 3],
     [11, 8, 12, 0, 5, 2, 15, 13, 10, 14, 3, 6, 7, 1, 9, 4],
     [7, 9, 3, 1, 13, 12, 11, 14, 2, 6, 5, 10, 4, 0, 15, 8],
     [9, 0, 5, 7, 2, 4, 10, 15, 14, 1, 11, 12, 6, 8, 3, 13],
     [2, 12, 6, 10, 0, 11, 8, 3, 4, 13, 7, 5, 15, 14, 1, 9]]"

definition blake_u256 :: "u32 list" where
  "blake_u256 =
    [0x243f6a88, 0x85a308d3, 0x13198a2e, 0x03707344, 0xa4093822, 0x299f31d0, 0x082efa98, 0xec4e6c89,
     0x452821e6, 0x38d01377, 0xbe5466cf, 0x34e90c6c, 0xc0ac29b7, 0xc97c50dd, 0x3f84d5b5, 0xb5470917]"

definition blake_u512 :: "u64 list" where
  "blake_u512 =
    [0x243f6a8885a308d3, 0x13198a2e03707344, 0xa4093822299f31d0, 0x082efa98ec4e6c89,
     0x452821e638d01377, 0xbe5466cf34e90c6c, 0xc0ac29b7c97c50dd, 0x3f84d5b5b5470917,
     0x9216d5d98979fb1b, 0xd1310ba698dfb5ac, 0x2ffd72dbd01adfb7, 0xb8e1afed6a267e96,
     0xba7c9045f12c7f99, 0x24a19947b3916cf7, 0x0801f2e2858efc16, 0x636920d871574e69]"

section \<open>BLAKE-256 and BLAKE-224\<close>

definition blake_round_256 ::
  "u32 list \<Rightarrow> nat \<Rightarrow> nat \<Rightarrow> nat \<Rightarrow> nat \<Rightarrow> nat \<Rightarrow> nat \<Rightarrow> u32 list \<Rightarrow> u32 list" where
  "blake_round_256 m i a b c d e v =
     (let s = blake_sigma ! i;
          v = v[a := v ! a + ((m ! (s ! e) XOR blake_u256 ! (s ! (e + 1))) + v ! b)];
          v = v[d := rotr32 (v ! d XOR v ! a) 16];
          v = v[c := v ! c + v ! d];
          v = v[b := rotr32 (v ! b XOR v ! c) 12];
          v = v[a := v ! a + ((m ! (s ! (e + 1)) XOR blake_u256 ! (s ! e)) + v ! b)];
          v = v[d := rotr32 (v ! d XOR v ! a) 8];
          v = v[c := v ! c + v ! d]
      in v[b := rotr32 (v ! b XOR v ! c) 7])"

definition blake_double_round_256 :: "u32 list \<Rightarrow> nat \<Rightarrow> u32 list \<Rightarrow> u32 list" where
  "blake_double_round_256 m i v =
     (let v = blake_round_256 m i 0 4 8 12 0 v;
          v = blake_round_256 m i 1 5 9 13 2 v;
          v = blake_round_256 m i 2 6 10 14 4 v;
          v = blake_round_256 m i 3 7 11 15 6 v;
          v = blake_round_256 m i 0 5 10 15 8 v;
          v = blake_round_256 m i 1 6 11 12 10 v;
          v = blake_round_256 m i 2 7 8 13 12 v
      in blake_round_256 m i 3 4 9 14 14 v)"

definition compress256 :: "u32 list \<Rightarrow> u8 list \<Rightarrow> u64 \<Rightarrow> u32 list" where
  "compress256 hash block compressed =
     (let m = map (\<lambda>i. be32 block (4 * i)) [0..<16];
          v = map (\<lambda>i. hash ! i) [0..<8] @ map (\<lambda>i. blake_u256 ! i) [0..<8];
          v = v[12 := v ! 12 XOR ucast compressed];
          v = v[13 := v ! 13 XOR ucast compressed];
          v = v[14 := v ! 14 XOR ucast (drop_bit 32 compressed)];
          v = v[15 := v ! 15 XOR ucast (drop_bit 32 compressed)];
          v = fold (blake_double_round_256 m) [0..<14] v
      in fold (\<lambda>i hash. hash[i mod 8 := hash ! (i mod 8) XOR v ! i]) [0..<16] hash)"

record blake256_hash = "u32 block_state" +
  b256_hash :: "u32 list"
  b256_compressed :: u64

definition blake256_start :: "u32 list \<Rightarrow> blake256_hash" where
  "blake256_start iv = \<lparr>buffer = replicate 64 0, bufflen = 0, total = 0,
     b256_hash = iv, b256_compressed = 0\<rparr>"

definition blake256_init :: blake256_hash where
  "blake256_init = blake256_start [0x6a09e667, 0xbb67ae85, 0x3c6ef372, 0xa54ff53a,
     0x510e527f, 0x9b05688c, 0x1f83d9ab, 0x5be0cd19]"

definition blake224_init :: blake256_hash where
  "blake224_init = blake256_start [0xc1059ed8, 0x367cd507, 0x3070dd17, 0xf70e5939,
     0xffc00b31, 0x68581511, 0x64f98fa7, 0xbefa4fa4]"

definition blake256_round :: "blake256_hash \<Rightarrow> blake256_hash" where
  "blake256_round hash = hash\<lparr>b256_hash :=
     compress256 (b256_hash hash) (buffer hash) (b256_compressed hash * 8)\<rparr>"

definition blake256_block :: "blake256_hash \<Rightarrow> blake256_hash" where
  "blake256_block hash = blake256_round (hash\<lparr>b256_compressed := b256_compressed hash + 64\<rparr>)"

definition blake256_update :: "u8 list \<Rightarrow> blake256_hash \<Rightarrow> blake256_hash option" where
  "blake256_update input hash = block_update 64 blake256_block input hash"

definition blake256_pad_final :: "blake256_hash \<Rightarrow> blake256_hash option" where
  "blake256_pad_final hash = do {
     let hash = hash\<lparr>b256_compressed := b256_compressed hash + of_nat (bufflen hash)\<rparr>;
     b \<leftarrow> c_store (buffer hash) (bufflen hash) 0x80;
     let hash = hash\<lparr>buffer := b\<rparr>;
     hash \<leftarrow> (if bufflen hash > 55 then do {
         b \<leftarrow> c_memset (buffer hash) (bufflen hash + 1) 0 (64 - bufflen hash);
         let hash = (blake256_round (hash\<lparr>buffer := b\<rparr>))\<lparr>b256_compressed := 0\<rparr>;
         b \<leftarrow> c_memset (buffer hash) 0 0 64;
         Some (hash\<lparr>buffer := b\<rparr>)
       } else Some hash);
     b \<leftarrow> c_memcpy (buffer hash) (64 - 8) (be_bytes32 0) 0 4;
     b \<leftarrow> c_memcpy b (64 - 4) (be_bytes32 (push_bit 3 (total hash))) 0 4;
     Some (blake256_round (hash\<lparr>buffer := b\<rparr>))
   }"

definition blake256_text :: "u32 list \<Rightarrow> string" where
  "blake256_text ws = concat (map (\<lambda>w. fmt_0x 8 (unat w)) ws)"

text \<open>The finals of both variants: the bit that ends the padding is 1 or 0.\<close>

definition blake256_final :: "blake256_hash \<Rightarrow> (string \<times> blake256_hash) option" where
  "blake256_final hash = do {
     let old_hash = hash;
     let old = buffer hash;
     let hhash = b256_hash hash;
     b \<leftarrow> (if bufflen hash = 55 then c_store (buffer hash) (bufflen hash) 0x81
           else c_store (buffer hash) (64 - 9) 0x01);
     hash \<leftarrow> blake256_pad_final (hash\<lparr>buffer := b\<rparr>);
     Some (blake256_text (take 8 (b256_hash hash)), old_hash\<lparr>buffer := old, b256_hash := hhash\<rparr>)
   }"

definition blake224_final :: "blake256_hash \<Rightarrow> (string \<times> blake256_hash) option" where
  "blake224_final hash = do {
     let old_hash = hash;
     let old = buffer hash;
     let hhash = b256_hash hash;
     b \<leftarrow> (if bufflen hash = 55 then c_store (buffer hash) (bufflen hash) 0x80
           else c_store (buffer hash) (64 - 9) 0x00);
     hash \<leftarrow> blake256_pad_final (hash\<lparr>buffer := b\<rparr>);
     Some (blake256_text (take 7 (b256_hash hash)), old_hash\<lparr>buffer := old, b256_hash := hhash\<rparr>)
   }"

definition blake256 :: "u8 list \<Rightarrow> string option" where
  "blake256 inp = do {
     a \<leftarrow> blake256_update inp blake256_init; (out, a) \<leftarrow> blake256_final a; Some out }"

definition blake224 :: "u8 list \<Rightarrow> string option" where
  "blake224 inp = do {
     a \<leftarrow> blake256_update inp blake224_init; (out, a) \<leftarrow> blake224_final a; Some out }"

definition blake256_init_l :: "blake256_hash option" where
  "blake256_init_l = do {
     let a = blake256_init;
     b \<leftarrow> c_memset (buffer a) 0 0 64;
     Some (a\<lparr>buffer := b\<rparr>)
   }"

definition blake224_init_l :: "blake256_hash option" where
  "blake224_init_l = do {
     let a = blake224_init;
     b \<leftarrow> c_memset (buffer a) 0 0 64;
     Some (a\<lparr>buffer := b\<rparr>)
   }"

definition l_blake256_final :: "blake256_hash \<Rightarrow> string option" where
  "l_blake256_final a = map_option fst (blake256_final a)"

definition l_blake256 :: "u8 list list \<Rightarrow> blake256_hash lua_hash option" where
  "l_blake256 args = lua_hash_call blake256_init_l blake256 args"

definition l_blake224_final :: "blake256_hash \<Rightarrow> string option" where
  "l_blake224_final a = map_option fst (blake224_final a)"

definition l_blake224 :: "u8 list list \<Rightarrow> blake256_hash lua_hash option" where
  "l_blake224 args = lua_hash_call blake224_init_l blake224 args"

definition blake256_copy :: "blake256_hash \<Rightarrow> blake256_hash \<Rightarrow> blake256_hash" where
  "blake256_copy a b = b\<lparr>b256_hash := take 8 (b256_hash a) @ drop 8 (b256_hash b),
     buffer := take 64 (buffer a) @ drop 64 (buffer b), total := total a, bufflen := bufflen a,
     b256_compressed := b256_compressed a\<rparr>"

section \<open>BLAKE-512 and BLAKE-384\<close>

definition blake_round_512 ::
  "u64 list \<Rightarrow> nat \<Rightarrow> nat \<Rightarrow> nat \<Rightarrow> nat \<Rightarrow> nat \<Rightarrow> nat \<Rightarrow> u64 list \<Rightarrow> u64 list" where
  "blake_round_512 m i a b c d e v =
     (let s = blake_sigma ! i;
          v = v[a := v ! a + ((m ! (s ! e) XOR blake_u512 ! (s ! (e + 1))) + v ! b)];
          v = v[d := rotr64 (v ! d XOR v ! a) 32];
          v = v[c := v ! c + v ! d];
          v = v[b := rotr64 (v ! b XOR v ! c) 25];
          v = v[a := v ! a + ((m ! (s ! (e + 1)) XOR blake_u512 ! (s ! e)) + v ! b)];
          v = v[d := rotr64 (v ! d XOR v ! a) 16];
          v = v[c := v ! c + v ! d]
      in v[b := rotr64 (v ! b XOR v ! c) 11])"

definition blake_double_round_512 :: "u64 list \<Rightarrow> nat \<Rightarrow> u64 list \<Rightarrow> u64 list" where
  "blake_double_round_512 m i v =
     (let v = blake_round_512 m i 0 4 8 12 0 v;
          v = blake_round_512 m i 1 5 9 13 2 v;
          v = blake_round_512 m i 2 6 10 14 4 v;
          v = blake_round_512 m i 3 7 11 15 6 v;
          v = blake_round_512 m i 0 5 10 15 8 v;
          v = blake_round_512 m i 1 6 11 12 10 v;
          v = blake_round_512 m i 2 7 8 13 12 v
      in blake_round_512 m i 3 4 9 14 14 v)"

definition compress512 :: "u64 list \<Rightarrow> u8 list \<Rightarrow> u64 \<Rightarrow> u64 list" where
  "compress512 hash block compressed =
     (let m = map (\<lambda>i. be64 block (8 * i)) [0..<16];
          v = map (\<lambda>i. hash ! i) [0..<8] @ map (\<lambda>i. blake_u512 ! i) [0..<8];
          v = v[12 := v ! 12 XOR compressed];
          v = v[13 := v ! 13 XOR compressed];
          v = v[14 := v ! 14 XOR 0];
          v = v[15 := v ! 15 XOR 0];
          v = fold (blake_double_round_512 m) [0..<16] v
      in fold (\<lambda>i hash. hash[i mod 8 := hash ! (i mod 8) XOR v ! i]) [0..<16] hash)"

record blake512_hash = "u64 block_state" +
  b512_hash :: "u64 list"
  b512_compressed :: u64

definition blake512_start :: "u64 list \<Rightarrow> blake512_hash" where
  "blake512_start iv = \<lparr>buffer = replicate 128 0, bufflen = 0, total = 0,
     b512_hash = iv, b512_compressed = 0\<rparr>"

definition blake512_init :: blake512_hash where
  "blake512_init = blake512_start [0x6a09e667f3bcc908, 0xbb67ae8584caa73b, 0x3c6ef372fe94f82b,
     0xa54ff53a5f1d36f1, 0x510e527fade682d1, 0x9b05688c2b3e6c1f, 0x1f83d9abfb41bd6b,
     0x5be0cd19137e2179]"

definition blake384_init :: blake512_hash where
  "blake384_init = blake512_start [0xcbbb9d5dc1059ed8, 0x629a292a367cd507, 0x9159015a3070dd17,
     0x152fecd8f70e5939, 0x67332667ffc00b31, 0x8eb44a8768581511, 0xdb0c2e0d64f98fa7,
     0x47b5481dbefa4fa4]"

definition blake512_round :: "blake512_hash \<Rightarrow> blake512_hash" where
  "blake512_round hash = hash\<lparr>b512_hash :=
     compress512 (b512_hash hash) (buffer hash) (b512_compressed hash * 8)\<rparr>"

definition blake512_block :: "blake512_hash \<Rightarrow> blake512_hash" where
  "blake512_block hash = blake512_round (hash\<lparr>b512_compressed := b512_compressed hash + 128\<rparr>)"

definition blake512_update :: "u8 list \<Rightarrow> blake512_hash \<Rightarrow> blake512_hash option" where
  "blake512_update input hash = block_update 128 blake512_block input hash"

text \<open>The size passed to the first memset is 64 - bufflen in size_t.\<close>

definition blake512_pad_final :: "blake512_hash \<Rightarrow> blake512_hash option" where
  "blake512_pad_final hash = do {
     let hash = hash\<lparr>b512_compressed := b512_compressed hash + of_nat (bufflen hash)\<rparr>;
     b \<leftarrow> c_store (buffer hash) (bufflen hash) 0x80;
     let hash = hash\<lparr>buffer := b\<rparr>;
     hash \<leftarrow> (if bufflen hash > 128 - 16 then do {
         b \<leftarrow> c_memset (buffer hash) (bufflen hash + 1) 0 (unat (64 - of_nat (bufflen hash) :: u64));
         let hash = (blake512_round (hash\<lparr>buffer := b\<rparr>))\<lparr>b512_compressed := 0\<rparr>;
         b \<leftarrow> c_memset (buffer hash) 0 0 64;
         Some (hash\<lparr>buffer := b\<rparr>)
       } else Some hash);
     b \<leftarrow> c_memcpy (buffer hash) (128 - 8) (be_bytes64 (push_bit 3 (total hash))) 0 8;
     Some (blake512_round (hash\<lparr>buffer := b\<rparr>))
   }"

definition blake512_text :: "u64 list \<Rightarrow> string" where
  "blake512_text ws = concat (map (\<lambda>w. fmt_0x 16 (unat w)) ws)"

definition blake512_final :: "blake512_hash \<Rightarrow> (string \<times> blake512_hash) option" where
  "blake512_final hash = do {
     let old_hash = hash;
     let old = buffer hash;
     let hhash = b512_hash hash;
     b \<leftarrow> (if bufflen hash = 111 then c_store (buffer hash) (bufflen hash) 0x81
           else c_store (buffer hash) (128 - 17) 0x01);
     hash \<leftarrow> blake512_pad_final (hash\<lparr>buffer := b\<rparr>);
     Some (blake512_text (take 8 (b512_hash hash)), old_hash\<lparr>buffer := old, b512_hash := hhash\<rparr>)
   }"

definition blake384_final :: "blake512_hash \<Rightarrow> (string \<times> blake512_hash) option" where
  "blake384_final hash = do {
     let old_hash = hash;
     let old = buffer hash;
     let hhash = b512_hash hash;
     b \<leftarrow> (if bufflen hash = 111 then c_store (buffer hash) (bufflen hash) 0x80
           else c_store (buffer hash) (128 - 17) 0x00);
     hash \<leftarrow> blake512_pad_final (hash\<lparr>buffer := b\<rparr>);
     Some (blake512_text (take 6 (b512_hash hash)), old_hash\<lparr>buffer := old, b512_hash := hhash\<rparr>)
   }"

definition blake512 :: "u8 list \<Rightarrow> string option" where
  "blake512 inp = do {
     a \<leftarrow> blake512_update inp blake512_init; (out, a) \<leftarrow> blake512_final a; Some out }"

definition blake384 :: "u8 list \<Rightarrow> string option" where
  "blake384 inp = do {
     a \<leftarrow> blake512_update inp blake384_init; (out, a) \<leftarrow> blake384_final a; Some out }"

definition blake512_init_l :: "blake512_hash option" where
  "blake512_init_l = do {
     let a = blake512_init;
     b \<leftarrow> c_memset (buffer a) 0 0 128;
     Some (a\<lparr>buffer := b\<rparr>)
   }"

definition blake384_init_l :: "blake512_hash option" where
  "blake384_init_l = do {
     let a = blake384_init;
     b \<leftarrow> c_memset (buffer a) 0 0 128;
     Some (a\<lparr>buffer := b\<rparr>)
   }"

definition l_blake512_final :: "blake512_hash \<Rightarrow> string option" where
  "l_blake512_final a = map_option fst (blake512_final a)"

definition l_blake512 :: "u8 list list \<Rightarrow> blake512_hash lua_hash option" where
  "l_blake512 args = lua_hash_call blake512_init_l blake512 args"

definition l_blake384_final :: "blake512_hash \<Rightarrow> string option" where
  "l_blake384_final a = map_option fst (blake384_final a)"

definition l_blake384 :: "u8 list list \<Rightarrow> blake512_hash lua_hash option" where
  "l_blake384 args = lua_hash_call blake384_init_l blake384 args"

definition blake512_copy :: "blake512_hash \<Rightarrow> blake512_hash \<Rightarrow> blake512_hash" where
  "blake512_copy a b = b\<lparr>b512_hash := take 8 (b512_hash a) @ drop 8 (b512_hash b),
     buffer := take 128 (buffer a) @ drop 128 (buffer b), total := total a, bufflen := bufflen a,
     b512_compressed := b512_compressed a\<rparr>"

section \<open>The buffering contracts\<close>

definition blake256_regs :: "blake256_hash \<Rightarrow> u32 list \<times> u64" where
  "blake256_regs h = (b256_hash h, b256_compressed h)"

definition blake256_compress :: "u8 list \<Rightarrow> u32 list \<times> u64 \<Rightarrow> u32 list \<times> u64" where
  "blake256_compress M s =
     (case s of (hash, t) \<Rightarrow> (compress256 hash M ((t + 64) * 8), t + 64))"

definition blake512_regs :: "blake512_hash \<Rightarrow> u64 list \<times> u64" where
  "blake512_regs h = (b512_hash h, b512_compressed h)"

definition blake512_compress :: "u8 list \<Rightarrow> u64 list \<times> u64 \<Rightarrow> u64 list \<times> u64" where
  "blake512_compress M s =
     (case s of (hash, t) \<Rightarrow> (compress512 hash M ((t + 128) * 8), t + 128))"

interpretation blake256_b: block_hash 64 blake256_block blake256_regs blake256_compress
  by unfold_locales
    (simp_all add: blake256_block_def blake256_round_def blake256_regs_def blake256_compress_def)

interpretation blake512_b: block_hash 128 blake512_block blake512_regs blake512_compress
  by unfold_locales
    (simp_all add: blake512_block_def blake512_round_def blake512_regs_def blake512_compress_def)

lemma blake256_start_wf: "block_wf 64 (blake256_start v)" "bufflen (blake256_start v) = 0"
  "total (blake256_start v) = 0" and blake256_start_regs: "blake256_regs (blake256_start v) = (v, 0)"
  and blake512_start_wf: "block_wf 128 (blake512_start w)" "bufflen (blake512_start w) = 0"
  "total (blake512_start w) = 0" and blake512_start_regs: "blake512_regs (blake512_start w) = (w, 0)"
  by (simp_all add: blake256_start_def blake512_start_def block_wf_def blake256_regs_def
      blake512_regs_def)

lemma blake256_update_start:
  "blake256_update m (blake256_start v) = Some (absorb 64 blake256_block m (blake256_start v))"
  unfolding blake256_update_def
  by (rule blake256_b.update_absorb) (simp_all add: blake256_start_wf)

lemma blake512_update_start:
  "blake512_update m (blake512_start v) = Some (absorb 128 blake512_block m (blake512_start v))"
  unfolding blake512_update_def
  by (rule blake512_b.update_absorb) (simp_all add: blake512_start_wf)

lemma blake_init_l_eq: "blake256_init_l = Some blake256_init" "blake224_init_l = Some blake224_init"
  "blake512_init_l = Some blake512_init" "blake384_init_l = Some blake384_init"
  by (simp_all add: blake256_init_l_def blake224_init_l_def blake512_init_l_def blake384_init_l_def
      blake256_init_def blake224_init_def blake512_init_def blake384_init_def blake256_start_def
      blake512_start_def c_mem)

section \<open>The finals\<close>

text \<open>What the code compresses last, for a tail of up to 54 (110) bytes: tail, mark, zeros, the bit
  that ends the padding, length.\<close>

definition blake256_last :: "u8 \<Rightarrow> u8 list \<Rightarrow> u8 list" where
  "blake256_last e m = tail 64 m @ 0x80 # replicate (54 - length m mod 64) 0
     @ e # be_bytes32 0 @ be_bytes32 (of_nat (8 * length m))"

text \<open>For a tail of 55 bytes mark and end share a byte, and the code leaves the mark alone in it.\<close>

definition blake256_last_55 :: "u8 list \<Rightarrow> u8 list" where
  "blake256_last_55 m = tail 64 m @ 0x80 # be_bytes32 0 @ be_bytes32 (of_nat (8 * length m))"

definition blake256_spec :: "u32 list \<Rightarrow> u8 list \<Rightarrow> u8 list \<Rightarrow> u32 list" where
  "blake256_spec iv m last_block = (case fold blake256_compress (blocks 64 m) (iv, 0) of
     (hash, t) \<Rightarrow> compress256 hash last_block ((t + of_nat (length m mod 64)) * 8))"

lemma blake256_pad_final_eval:
  assumes "buffer h = t @ x # rest @ w" and "length t + length rest = 55" and "length w = 8"
    and "bufflen h = length t"
  shows "blake256_pad_final h = Some (blake256_round (h\<lparr>
      b256_compressed := b256_compressed h + of_nat (length t),
      buffer := t @ 0x80 # rest @ be_bytes32 0 @ be_bytes32 (push_bit 3 (total h))\<rparr>))"
proof -
  let ?p = "t @ 0x80 # rest"
  have store: "c_store (buffer h) (bufflen h) 0x80 = Some (?p @ w)"
    using assms by (simp add: c_store_def list_update_append)
  have p: "length ?p = 56" using assms(2) by simp
  have "c_memcpy (?p @ w) 56 (be_bytes32 0) 0 4 = Some (?p @ be_bytes32 0 @ drop 4 w)"
    using memcpy_over [of "be_bytes32 0" w ?p] p assms(3) by simp
  moreover have "c_memcpy ((?p @ be_bytes32 0) @ drop 4 w) 60 b 0 4 = Some ((?p @ be_bytes32 0) @ b)"
    if "length b = 4" for b
  proof -
    have q: "length (?p @ be_bytes32 0) = 60" using p by simp
    show ?thesis
      using memcpy_over [of b "drop 4 w" "?p @ be_bytes32 0", unfolded q that] assms(3) that
      by simp
  qed
  ultimately show ?thesis using store assms by (simp add: blake256_pad_final_def)
qed

lemma blake256_pad_final_overrun:
  "55 < bufflen h \<Longrightarrow> length (buffer h) = 64 \<Longrightarrow> blake256_pad_final h = None"
  by (auto simp: blake256_pad_final_def c_memset_def Let_def dest: c_store_length split: Option.bind_splits)

lemma blake256_buffer:
  assumes "length m mod 64 \<le> 54"
  shows "buffer (absorb 64 blake256_block m (blake256_start v))
    = tail 64 m @ 0 # replicate (54 - length m mod 64) 0 @ 0 # replicate 8 0"
proof -
  have "64 - length m mod 64 = Suc ((54 - length m mod 64) + Suc 8)" using assms by simp
  then have "replicate (64 - length m mod 64) 0
      = 0 # replicate (54 - length m mod 64) 0 @ 0 # replicate 8 (0 :: u8)"
    by (simp only: replicate_Suc replicate_add)
  then show ?thesis
    using blake256_b.absorb_message(2) [OF blake256_start_wf(1,2) [of v], of m] by simp
qed

lemma blake256_final_eval:
  assumes "length m mod 64 \<le> 54"
    and b: "c_store (buffer (absorb 64 blake256_block m (blake256_start v))) 55 e = Some b"
  shows "map_option b256_hash (blake256_pad_final ((absorb 64 blake256_block m (blake256_start v))\<lparr>buffer := b\<rparr>))
    = Some (blake256_spec v m (blake256_last e m))"
proof -
  let ?s = "absorb 64 blake256_block m (blake256_start v)"
  note st = blake256_b.absorb_message [OF blake256_start_wf(1,2) [of v], of m]
  let ?rest = "replicate (54 - length m mod 64) 0"
  have len: "length (tail 64 m @ 0 # ?rest) = 55" using assms(1) by (simp add: length_tail)
  have "c_store ((tail 64 m @ 0 # ?rest) @ 0 # replicate 8 0) 55 e
      = Some ((tail 64 m @ 0 # ?rest) @ e # replicate 8 0)"
    unfolding c_store_def list_update_append len using assms(1) by (simp add: length_tail)
  then have "b = tail 64 m @ 0 # (?rest @ [e]) @ replicate 8 0"
    using b blake256_buffer [OF assms(1), of v] by simp
  then have "blake256_pad_final (?s\<lparr>buffer := b\<rparr>) = Some (blake256_round ((?s\<lparr>buffer := b\<rparr>)\<lparr>
      b256_compressed := b256_compressed (?s\<lparr>buffer := b\<rparr>) + of_nat (length (tail 64 m)),
      buffer := tail 64 m @ 0x80 # (?rest @ [e]) @ be_bytes32 0
        @ be_bytes32 (push_bit 3 (total (?s\<lparr>buffer := b\<rparr>)))\<rparr>))"
    using assms(1) by (intro blake256_pad_final_eval [where x = 0 and w = "replicate 8 0"])
      (simp_all add: st(3) length_tail)
  moreover obtain hs c where f: "fold blake256_compress (blocks 64 m) (v, 0) = (hs, c)"
    by (cases "fold blake256_compress (blocks 64 m) (v, 0)")
  moreover have "b256_hash ?s = hs" "b256_compressed ?s = c"
    using st(1) f by (simp_all add: blake256_start_regs) (simp_all add: blake256_regs_def)
  ultimately show ?thesis
    by (simp add: blake256_round_def blake256_spec_def blake256_last_def
        st(4) blake256_start_wf length_tail push_bit_eq_mult mult.commute)
qed

lemma blake256_final_eval_55:
  assumes "length m mod 64 = 55"
    and b: "c_store (buffer (absorb 64 blake256_block m (blake256_start v))) 55 e = Some b"
  shows "map_option b256_hash (blake256_pad_final ((absorb 64 blake256_block m (blake256_start v))\<lparr>buffer := b\<rparr>))
    = Some (blake256_spec v m (blake256_last_55 m))"
proof -
  let ?s = "absorb 64 blake256_block m (blake256_start v)"
  note st = blake256_b.absorb_message [OF blake256_start_wf(1,2) [of v], of m]
  have len: "length (tail 64 m) = 55" using assms(1) by (simp add: length_tail)
  have "replicate (64 - length m mod 64) (0 :: u8) = 0 # replicate 8 0"
    using assms(1) by (simp flip: replicate_Suc)
  then have "b = tail 64 m @ e # [] @ replicate 8 0"
    using b len st(2) by (simp add: c_store_def list_update_append)
  then have "blake256_pad_final (?s\<lparr>buffer := b\<rparr>) = Some (blake256_round ((?s\<lparr>buffer := b\<rparr>)\<lparr>
      b256_compressed := b256_compressed (?s\<lparr>buffer := b\<rparr>) + of_nat (length (tail 64 m)),
      buffer := tail 64 m @ 0x80 # [] @ be_bytes32 0
        @ be_bytes32 (push_bit 3 (total (?s\<lparr>buffer := b\<rparr>)))\<rparr>))"
    using assms(1) len by (intro blake256_pad_final_eval [where x = e and w = "replicate 8 0"])
      (simp_all add: st(3))
  moreover obtain hs c where f: "fold blake256_compress (blocks 64 m) (v, 0) = (hs, c)"
    by (cases "fold blake256_compress (blocks 64 m) (v, 0)")
  moreover have "b256_hash ?s = hs" "b256_compressed ?s = c"
    using st(1) f by (simp_all add: blake256_start_regs) (simp_all add: blake256_regs_def)
  ultimately show ?thesis
    by (simp add: blake256_round_def blake256_spec_def blake256_last_55_def
        st(4) blake256_start_wf length_tail push_bit_eq_mult mult.commute)
qed

definition blake256_result :: "u8 \<Rightarrow> u32 list \<Rightarrow> u8 list \<Rightarrow> u32 list option" where
  "blake256_result e v m =
     (if length m mod 64 \<le> 54 then Some (blake256_spec v m (blake256_last e m))
      else if length m mod 64 = 55 then Some (blake256_spec v m (blake256_last_55 m))
      else None)"

lemma blake256_pad_final_result:
  assumes "c_store (buffer (absorb 64 blake256_block m (blake256_start v))) 55 e = Some b"
  shows "map_option b256_hash (blake256_pad_final ((absorb 64 blake256_block m (blake256_start v))\<lparr>buffer := b\<rparr>))
    = blake256_result e v m"
proof -
  let ?s = "absorb 64 blake256_block m (blake256_start v)"
  consider "length m mod 64 \<le> 54" | "length m mod 64 = 55" | "55 < length m mod 64" by linarith
  then show ?thesis
  proof cases
    case 3
    have "length b = 64"
      using c_store_length [OF assms] blake256_b.absorb_wf [OF blake256_start_wf(1) [of v], of m]
      by (simp add: block_wf_def)
    then have "blake256_pad_final (?s\<lparr>buffer := b\<rparr>) = None"
      using 3 blake256_b.absorb_message(3) [OF blake256_start_wf(1,2) [of v], of m]
      by (intro blake256_pad_final_overrun) simp_all
    then show ?thesis using 3 by (simp add: blake256_result_def)
  qed (use blake256_final_eval [OF _ assms] blake256_final_eval_55 [OF _ assms]
       in \<open>simp_all add: blake256_result_def\<close>)
qed

lemma blake256_buffer_store:
  "\<exists>b. c_store (buffer (absorb 64 blake256_block m (blake256_start v))) 55 e = Some b"
  using blake256_b.absorb_wf [OF blake256_start_wf(1) [of v], of m]
  by (simp add: c_store_def block_wf_def)

lemma bind_blake256_text:
  "Option.bind x (\<lambda>h. Some (blake256_text (take n (b256_hash h))))
    = map_option (\<lambda>h. blake256_text (take n h)) (map_option b256_hash x)"
  by (cases x) simp_all

lemma blake256_digest:
  "blake256 m = map_option (\<lambda>h. blake256_text (take 8 h))
     (blake256_result 0x01 (b256_hash blake256_init) m)"
proof -
  obtain b1 b2 where
    b: "c_store (buffer (absorb 64 blake256_block m blake256_init)) 55 0x01 = Some b1"
       "c_store (buffer (absorb 64 blake256_block m blake256_init)) 55 0x81 = Some b2"
    using blake256_buffer_store unfolding blake256_init_def by metis
  have r: "map_option b256_hash (blake256_pad_final ((absorb 64 blake256_block m blake256_init)\<lparr>buffer := b1\<rparr>))
      = blake256_result 0x01 (b256_hash blake256_init) m"
    "map_option b256_hash (blake256_pad_final ((absorb 64 blake256_block m blake256_init)\<lparr>buffer := b2\<rparr>))
      = blake256_result 0x81 (b256_hash blake256_init) m"
    using blake256_pad_final_result [of m "b256_hash blake256_init"] b
    by (simp_all add: blake256_init_def) (simp_all add: blake256_start_def)
  have "length m mod 64 = 55 \<Longrightarrow> blake256_result 0x81 v m = blake256_result 0x01 v m" for v
    by (simp add: blake256_result_def)
  moreover have "bufflen (absorb 64 blake256_block m blake256_init) = length m mod 64"
    and "blake256_update m blake256_init = Some (absorb 64 blake256_block m blake256_init)"
    unfolding blake256_init_def
    by (rule blake256_b.absorb_message(3) [OF blake256_start_wf(1,2)], rule blake256_update_start)
  ultimately show ?thesis using r b
    by (cases "length m mod 64 = 55")
      (simp_all add: blake256_def blake256_final_def Let_def bind_blake256_text)
qed

lemma blake224_digest:
  "blake224 m = map_option (\<lambda>h. blake256_text (take 7 h))
     (blake256_result 0 (b256_hash blake224_init) m)"
proof -
  obtain b1 b2 where
    b: "c_store (buffer (absorb 64 blake256_block m blake224_init)) 55 0 = Some b1"
       "c_store (buffer (absorb 64 blake256_block m blake224_init)) 55 0x80 = Some b2"
    using blake256_buffer_store unfolding blake224_init_def by metis
  have r: "map_option b256_hash (blake256_pad_final ((absorb 64 blake256_block m blake224_init)\<lparr>buffer := b1\<rparr>))
      = blake256_result 0 (b256_hash blake224_init) m"
    "map_option b256_hash (blake256_pad_final ((absorb 64 blake256_block m blake224_init)\<lparr>buffer := b2\<rparr>))
      = blake256_result 0x80 (b256_hash blake224_init) m"
    using blake256_pad_final_result [of m "b256_hash blake224_init"] b
    by (simp_all add: blake224_init_def) (simp_all add: blake256_start_def)
  have "length m mod 64 = 55 \<Longrightarrow> blake256_result 0x80 v m = blake256_result 0 v m" for v
    by (simp add: blake256_result_def)
  moreover have "bufflen (absorb 64 blake256_block m blake224_init) = length m mod 64"
    and "blake256_update m blake224_init = Some (absorb 64 blake256_block m blake224_init)"
    unfolding blake224_init_def
    by (rule blake256_b.absorb_message(3) [OF blake256_start_wf(1,2)], rule blake256_update_start)
  ultimately show ?thesis using r b
    by (cases "length m mod 64 = 55")
      (simp_all add: blake224_def blake224_final_def Let_def bind_blake256_text)
qed

text \<open>BLAKE-512 and BLAKE-384: the same three cases, and a tail of 112 bytes, whose last byte is
  replaced by the end bit.\<close>

definition blake512_last :: "u8 \<Rightarrow> u8 list \<Rightarrow> u8 list" where
  "blake512_last e m = tail 128 m @ 0x80 # replicate (110 - length m mod 128) 0
     @ e # replicate 8 0 @ be_bytes64 (of_nat (8 * length m))"

definition blake512_last_111 :: "u8 list \<Rightarrow> u8 list" where
  "blake512_last_111 m = tail 128 m @ 0x80 # replicate 8 0 @ be_bytes64 (of_nat (8 * length m))"

definition blake512_last_112 :: "u8 \<Rightarrow> u8 list \<Rightarrow> u8 list" where
  "blake512_last_112 e m =
     (tail 128 m)[111 := e] @ 0x80 # replicate 7 0 @ be_bytes64 (of_nat (8 * length m))"

definition blake512_spec :: "u64 list \<Rightarrow> u8 list \<Rightarrow> u8 list \<Rightarrow> u64 list" where
  "blake512_spec iv m last_block = (case fold blake512_compress (blocks 128 m) (iv, 0) of
     (hash, t) \<Rightarrow> compress512 hash last_block ((t + of_nat (length m mod 128)) * 8))"

lemma blake512_pad_final_eval:
  assumes "buffer h = t @ x # rest @ w" and "length t + length rest = 119" and "length w = 8"
    and "bufflen h = length t" and "length t \<le> 112"
  shows "blake512_pad_final h = Some (blake512_round (h\<lparr>
      b512_compressed := b512_compressed h + of_nat (length t),
      buffer := t @ 0x80 # rest @ be_bytes64 (push_bit 3 (total h))\<rparr>))"
proof -
  let ?p = "t @ 0x80 # rest"
  have store: "c_store (buffer h) (bufflen h) 0x80 = Some (?p @ w)"
    using assms by (simp add: c_store_def list_update_append)
  have p: "length ?p = 120" using assms(2) by simp
  have "c_memcpy (?p @ w) 120 b 0 8 = Some (?p @ b)" if "length b = 8" for b
    using memcpy_over [of b w ?p, unfolded p that] assms(3) that by simp
  then show ?thesis using store assms by (simp add: blake512_pad_final_def)
qed

lemma blake512_pad_final_overrun:
  assumes "112 < bufflen h" and "bufflen h < 128" and "length (buffer h) = 128"
  shows "blake512_pad_final h = None"
proof -
  have u: "unat (of_nat (bufflen h) :: u64) = bufflen h"
    using assms(2) by (simp add: unat_of_nat take_bit_nat_eq_self)
  have "unat (64 - of_nat (bufflen h) :: u64) = 2 ^ 64 - (bufflen h - 64)"
    using assms by (simp add: unat_sub_if_size word_size word_le_nat_alt u)
  then have "128 < unat (64 - of_nat (bufflen h) :: u64)" using assms by simp
  then show ?thesis using assms
    by (auto simp: blake512_pad_final_def c_memset_def Let_def dest: c_store_length
        split: Option.bind_splits)
qed

lemma blake512_final_finish:
  assumes "blake512_pad_final ((absorb 128 blake512_block m (blake512_start v))\<lparr>buffer := b\<rparr>)
      = Some (blake512_round (((absorb 128 blake512_block m (blake512_start v))\<lparr>buffer := b\<rparr>)\<lparr>
          b512_compressed := b512_compressed ((absorb 128 blake512_block m (blake512_start v))\<lparr>buffer := b\<rparr>)
            + of_nat r, buffer := l\<rparr>))" and "r = length m mod 128"
  shows "map_option b512_hash (blake512_pad_final ((absorb 128 blake512_block m (blake512_start v))\<lparr>buffer := b\<rparr>))
    = Some (blake512_spec v m l)"
proof -
  let ?s = "absorb 128 blake512_block m (blake512_start v)"
  note st = blake512_b.absorb_message [OF blake512_start_wf(1,2) [of v], of m]
  obtain hs c where f: "fold blake512_compress (blocks 128 m) (v, 0) = (hs, c)"
    by (cases "fold blake512_compress (blocks 128 m) (v, 0)")
  moreover have "b512_hash ?s = hs" "b512_compressed ?s = c"
    using st(1) f by (simp_all add: blake512_start_regs) (simp_all add: blake512_regs_def)
  ultimately show ?thesis using assms by (simp add: blake512_round_def blake512_spec_def)
qed

lemma blake512_length_bits:
  "push_bit 3 (total (absorb 128 blake512_block m (blake512_start v))) = of_nat (8 * length m)"
  using blake512_b.absorb_message(4) [OF blake512_start_wf(1,2) [of v], of m]
  by (simp add: blake512_start_wf push_bit_eq_mult mult.commute)

lemma blake512_final_eval:
  assumes r: "length m mod 128 \<le> 110"
    and b: "c_store (buffer (absorb 128 blake512_block m (blake512_start v))) 111 e = Some b"
  shows "map_option b512_hash (blake512_pad_final ((absorb 128 blake512_block m (blake512_start v))\<lparr>buffer := b\<rparr>))
    = Some (blake512_spec v m (blake512_last e m))"
proof -
  note st = blake512_b.absorb_message [OF blake512_start_wf(1,2) [of v], of m]
  let ?rest = "replicate (110 - length m mod 128) 0"
  have "128 - length m mod 128 = Suc ((110 - length m mod 128) + Suc 16)" using r by simp
  then have "replicate (128 - length m mod 128) 0 = 0 # ?rest @ 0 # replicate 16 (0 :: u8)"
    by (simp only: replicate_Suc replicate_add)
  then have buf: "buffer (absorb 128 blake512_block m (blake512_start v))
      = (tail 128 m @ 0 # ?rest) @ 0 # replicate 16 0" using st(2) by simp
  have len: "length (tail 128 m @ 0 # ?rest) = 111" using r by (simp add: length_tail)
  have "replicate 16 (0 :: u8) = replicate 8 0 @ replicate 8 0" by (simp flip: replicate_add)
  moreover have "b = (tail 128 m @ 0 # ?rest) @ e # replicate 16 0"
    using b r unfolding buf c_store_def list_update_append len by (simp add: length_tail)
  ultimately have "b = tail 128 m @ 0 # (?rest @ e # replicate 8 0) @ replicate 8 0" by simp
  then show ?thesis unfolding blake512_last_def using r
    by (intro blake512_final_finish [OF _ refl])
      (subst blake512_pad_final_eval [where x = 0 and w = "replicate 8 0" and t = "tail 128 m"
          and rest = "?rest @ e # replicate 8 0"],
        simp_all add: st(3) length_tail blake512_length_bits)
qed

lemma blake512_final_eval_111:
  assumes r: "length m mod 128 = 111"
    and b: "c_store (buffer (absorb 128 blake512_block m (blake512_start v))) 111 e = Some b"
  shows "map_option b512_hash (blake512_pad_final ((absorb 128 blake512_block m (blake512_start v))\<lparr>buffer := b\<rparr>))
    = Some (blake512_spec v m (blake512_last_111 m))"
proof -
  note st = blake512_b.absorb_message [OF blake512_start_wf(1,2) [of v], of m]
  have "replicate (128 - length m mod 128) (0 :: u8) = 0 # replicate 8 0 @ replicate 8 0"
    using r by (simp flip: replicate_Suc replicate_add)
  then have "b = tail 128 m @ e # replicate 8 0 @ replicate 8 0"
    using b r st(2) by (simp add: c_store_def list_update_append length_tail)
  then show ?thesis unfolding blake512_last_111_def using r
    by (intro blake512_final_finish [where r = 111])
      (subst blake512_pad_final_eval [where x = e and w = "replicate 8 0" and t = "tail 128 m"
          and rest = "replicate 8 0"],
        simp_all add: st(3) length_tail blake512_length_bits)
qed

lemma blake512_final_eval_112:
  assumes r: "length m mod 128 = 112"
    and b: "c_store (buffer (absorb 128 blake512_block m (blake512_start v))) 111 e = Some b"
  shows "map_option b512_hash (blake512_pad_final ((absorb 128 blake512_block m (blake512_start v))\<lparr>buffer := b\<rparr>))
    = Some (blake512_spec v m (blake512_last_112 e m))"
proof -
  note st = blake512_b.absorb_message [OF blake512_start_wf(1,2) [of v], of m]
  have "replicate (128 - length m mod 128) (0 :: u8) = 0 # replicate 7 0 @ replicate 8 0"
    using r by (simp flip: replicate_Suc replicate_add)
  then have "b = (tail 128 m)[111 := e] @ 0 # replicate 7 0 @ replicate 8 0"
    using b r st(2) by (simp add: c_store_def list_update_append length_tail)
  then show ?thesis unfolding blake512_last_112_def using r
    by (intro blake512_final_finish [where r = 112])
      (subst blake512_pad_final_eval [where x = 0 and w = "replicate 8 0"
          and t = "(tail 128 m)[111 := e]" and rest = "replicate 7 0"],
        simp_all add: st(3) length_tail blake512_length_bits)
qed

definition blake512_result :: "u8 \<Rightarrow> u64 list \<Rightarrow> u8 list \<Rightarrow> u64 list option" where
  "blake512_result e v m =
     (if length m mod 128 \<le> 110 then Some (blake512_spec v m (blake512_last e m))
      else if length m mod 128 = 111 then Some (blake512_spec v m (blake512_last_111 m))
      else if length m mod 128 = 112 then Some (blake512_spec v m (blake512_last_112 e m))
      else None)"

lemma blake512_pad_final_result:
  assumes "c_store (buffer (absorb 128 blake512_block m (blake512_start v))) 111 e = Some b"
  shows "map_option b512_hash (blake512_pad_final ((absorb 128 blake512_block m (blake512_start v))\<lparr>buffer := b\<rparr>))
    = blake512_result e v m"
proof -
  let ?s = "absorb 128 blake512_block m (blake512_start v)"
  consider "length m mod 128 \<le> 110" | "length m mod 128 = 111" | "length m mod 128 = 112"
    | "112 < length m mod 128" by linarith
  then show ?thesis
  proof cases
    case 4
    have "length b = 128"
      using c_store_length [OF assms] blake512_b.absorb_wf [OF blake512_start_wf(1) [of v], of m]
      by (simp add: block_wf_def)
    then have "blake512_pad_final (?s\<lparr>buffer := b\<rparr>) = None"
      using 4 blake512_b.absorb_message(3) [OF blake512_start_wf(1,2) [of v], of m]
      by (intro blake512_pad_final_overrun) simp_all
    then show ?thesis using 4 by (simp add: blake512_result_def)
  qed (use blake512_final_eval [OF _ assms] blake512_final_eval_111 [OF _ assms]
         blake512_final_eval_112 [OF _ assms] in \<open>simp_all add: blake512_result_def\<close>)
qed

lemma blake512_buffer_store:
  "\<exists>b. c_store (buffer (absorb 128 blake512_block m (blake512_start v))) 111 e = Some b"
  using blake512_b.absorb_wf [OF blake512_start_wf(1) [of v], of m]
  by (simp add: c_store_def block_wf_def)

lemma bind_blake512_text:
  "Option.bind x (\<lambda>h. Some (blake512_text (take n (b512_hash h))))
    = map_option (\<lambda>h. blake512_text (take n h)) (map_option b512_hash x)"
  by (cases x) simp_all

lemma blake512_digest:
  "blake512 m = map_option (\<lambda>h. blake512_text (take 8 h))
     (blake512_result 0x01 (b512_hash blake512_init) m)"
proof -
  obtain b1 b2 where
    b: "c_store (buffer (absorb 128 blake512_block m blake512_init)) 111 0x01 = Some b1"
       "c_store (buffer (absorb 128 blake512_block m blake512_init)) 111 0x81 = Some b2"
    using blake512_buffer_store unfolding blake512_init_def by metis
  have r: "map_option b512_hash (blake512_pad_final ((absorb 128 blake512_block m blake512_init)\<lparr>buffer := b1\<rparr>))
      = blake512_result 0x01 (b512_hash blake512_init) m"
    "map_option b512_hash (blake512_pad_final ((absorb 128 blake512_block m blake512_init)\<lparr>buffer := b2\<rparr>))
      = blake512_result 0x81 (b512_hash blake512_init) m"
    using blake512_pad_final_result [of m "b512_hash blake512_init"] b
    by (simp_all add: blake512_init_def) (simp_all add: blake512_start_def)
  have "length m mod 128 = 111 \<Longrightarrow> blake512_result 0x81 v m = blake512_result 0x01 v m" for v
    by (simp add: blake512_result_def)
  moreover have "bufflen (absorb 128 blake512_block m blake512_init) = length m mod 128"
    and "blake512_update m blake512_init = Some (absorb 128 blake512_block m blake512_init)"
    unfolding blake512_init_def
    by (rule blake512_b.absorb_message(3) [OF blake512_start_wf(1,2)], rule blake512_update_start)
  ultimately show ?thesis using r b
    by (cases "length m mod 128 = 111")
      (simp_all add: blake512_def blake512_final_def Let_def bind_blake512_text)
qed

lemma blake384_digest:
  "blake384 m = map_option (\<lambda>h. blake512_text (take 6 h))
     (blake512_result 0 (b512_hash blake384_init) m)"
proof -
  obtain b1 b2 where
    b: "c_store (buffer (absorb 128 blake512_block m blake384_init)) 111 0 = Some b1"
       "c_store (buffer (absorb 128 blake512_block m blake384_init)) 111 0x80 = Some b2"
    using blake512_buffer_store unfolding blake384_init_def by metis
  have r: "map_option b512_hash (blake512_pad_final ((absorb 128 blake512_block m blake384_init)\<lparr>buffer := b1\<rparr>))
      = blake512_result 0 (b512_hash blake384_init) m"
    "map_option b512_hash (blake512_pad_final ((absorb 128 blake512_block m blake384_init)\<lparr>buffer := b2\<rparr>))
      = blake512_result 0x80 (b512_hash blake384_init) m"
    using blake512_pad_final_result [of m "b512_hash blake384_init"] b
    by (simp_all add: blake384_init_def) (simp_all add: blake512_start_def)
  have "length m mod 128 = 111 \<Longrightarrow> blake512_result 0x80 v m = blake512_result 0 v m" for v
    by (simp add: blake512_result_def)
  moreover have "bufflen (absorb 128 blake512_block m blake384_init) = length m mod 128"
    and "blake512_update m blake384_init = Some (absorb 128 blake512_block m blake384_init)"
    unfolding blake384_init_def
    by (rule blake512_b.absorb_message(3) [OF blake512_start_wf(1,2)], rule blake512_update_start)
  ultimately show ?thesis using r b
    by (cases "length m mod 128 = 111")
      (simp_all add: blake384_def blake384_final_def Let_def bind_blake512_text)
qed

section \<open>Objects\<close>

lemma blake256_final_restores: "blake256_final h = Some (d, h') \<Longrightarrow> h' = h"
  and blake224_final_restores: "blake224_final h = Some (d, h') \<Longrightarrow> h' = h"
  and blake512_final_restores: "blake512_final k = Some (d, k') \<Longrightarrow> k' = k"
  and blake384_final_restores: "blake384_final k = Some (d, k') \<Longrightarrow> k' = k"
  by (auto simp: blake256_final_def blake224_final_def blake512_final_def blake384_final_def Let_def
      split: Option.bind_splits)

lemma blake256_copy_wf:
  "block_wf 64 a \<Longrightarrow> block_wf 64 b \<Longrightarrow> length (b256_hash a) = 8 \<Longrightarrow> length (b256_hash b) = 8 \<Longrightarrow>
   blake256_copy a b = a"
  by (simp add: blake256_copy_def block_wf_def)

lemma blake512_copy_wf:
  "block_wf 128 a \<Longrightarrow> block_wf 128 b \<Longrightarrow> length (b512_hash a) = 8 \<Longrightarrow> length (b512_hash b) = 8 \<Longrightarrow>
   blake512_copy a b = a"
  by (simp add: blake512_copy_def block_wf_def)

text \<open>A compression keeps eight words.\<close>

lemma length_compress256: "length hash = 8 \<Longrightarrow> length (compress256 hash block t) = 8"
  unfolding compress256_def Let_def by (rule fold_invariant) simp_all

lemma length_compress512: "length hash = 8 \<Longrightarrow> length (compress512 hash block t) = 8"
  unfolding compress512_def Let_def by (rule fold_invariant) simp_all

end
