(* ===== verification/Blake2.thy ===== *)
theory Blake2
  imports BlockHash Rotate
begin

text \<open>
  \<open>src/src/hash/blake2.c\<close>: BLAKE2b and BLAKE2s with keys and digest lengths.  A key longer than a block
  and a digest longer than the chained value leave their buffers and are None.  The lemmas say which
  blocks and counters the code compresses: a message shorter than a block as the standard asks; on
  longer messages BLAKE2b counts 64 bytes per block of 128, and a message that fills its last block
  is followed by an empty one.  The clone of BLAKE2b copies half of the buffer.
\<close>

unbundle bit_operations_syntax

definition blake2b_sigma :: "nat list list" where
  "blake2b_sigma =
    [[0, 1, 2, 3, 4, 5, 6, 7, 8, 9, 10, 11, 12, 13, 14, 15],
     [14, 10, 4, 8, 9, 15, 13, 6, 1, 12, 0, 2, 11, 7, 5, 3],
     [11, 8, 12, 0, 5, 2, 15, 13, 10, 14, 3, 6, 7, 1, 9, 4],
     [7, 9, 3, 1, 13, 12, 11, 14, 2, 6, 5, 10, 4, 0, 15, 8],
     [9, 0, 5, 7, 2, 4, 10, 15, 14, 1, 11, 12, 6, 8, 3, 13],
     [2, 12, 6, 10, 0, 11, 8, 3, 4, 13, 7, 5, 15, 14, 1, 9],
     [12, 5, 1, 15, 14, 13, 4, 10, 0, 7, 6, 3, 9, 2, 8, 11],
     [13, 11, 7, 14, 12, 1, 3, 9, 5, 0, 15, 4, 8, 6, 2, 10],
     [6, 15, 14, 9, 11, 3, 0, 8, 12, 2, 13, 7, 1, 4, 10, 5],
     [10, 2, 8, 4, 7, 6, 1, 5, 15, 11, 9, 14, 3, 12, 13, 0]]"

text \<open>The initial value is sha512_iv of sha2-256.h.\<close>

definition blake2_iv :: "u64 list" where
  "blake2_iv = [0x6a09e667f3bcc908, 0xbb67ae8584caa73b, 0x3c6ef372fe94f82b, 0xa54ff53a5f1d36f1,
     0x510e527fade682d1, 0x9b05688c2b3e6c1f, 0x1f83d9abfb41bd6b, 0x5be0cd19137e2179]"

section \<open>The compressions\<close>

definition mix2b :: "nat \<Rightarrow> nat \<Rightarrow> nat \<Rightarrow> nat \<Rightarrow> u64 \<Rightarrow> u64 \<Rightarrow> u64 list \<Rightarrow> u64 list" where
  "mix2b a b c d x y v =
     (let v = v[a := v ! a + v ! b + x];
          v = v[d := rotr64 (v ! d XOR v ! a) 32];
          v = v[c := v ! c + v ! d];
          v = v[b := rotr64 (v ! b XOR v ! c) 24];
          v = v[a := v ! a + (v ! b + y)];
          v = v[d := rotr64 (v ! d XOR v ! a) 16];
          v = v[c := v ! c + v ! d]
      in v[b := rotr64 (v ! b XOR v ! c) 63])"

definition mix2s :: "nat \<Rightarrow> nat \<Rightarrow> nat \<Rightarrow> nat \<Rightarrow> u32 \<Rightarrow> u32 \<Rightarrow> u32 list \<Rightarrow> u32 list" where
  "mix2s a b c d x y v =
     (let v = v[a := v ! a + v ! b + x];
          v = v[d := rotr32 (v ! d XOR v ! a) 16];
          v = v[c := v ! c + v ! d];
          v = v[b := rotr32 (v ! b XOR v ! c) 12];
          v = v[a := v ! a + (v ! b + y)];
          v = v[d := rotr32 (v ! d XOR v ! a) 8];
          v = v[c := v ! c + v ! d]
      in v[b := rotr32 (v ! b XOR v ! c) 7])"

definition baking ::
  "(nat \<Rightarrow> nat \<Rightarrow> nat \<Rightarrow> nat \<Rightarrow> 'w \<Rightarrow> 'w \<Rightarrow> 'w list \<Rightarrow> 'w list) \<Rightarrow> 'w list \<Rightarrow> nat list \<Rightarrow> 'w list \<Rightarrow> 'w list"
  where
  "baking mix m s v =
     (let v = mix 0 4 8 12 (m ! (s ! 0)) (m ! (s ! 1)) v;
          v = mix 1 5 9 13 (m ! (s ! 2)) (m ! (s ! 3)) v;
          v = mix 2 6 10 14 (m ! (s ! 4)) (m ! (s ! 5)) v;
          v = mix 3 7 11 15 (m ! (s ! 6)) (m ! (s ! 7)) v;
          v = mix 0 5 10 15 (m ! (s ! 8)) (m ! (s ! 9)) v;
          v = mix 1 6 11 12 (m ! (s ! 10)) (m ! (s ! 11)) v;
          v = mix 2 7 8 13 (m ! (s ! 12)) (m ! (s ! 13)) v
      in mix 3 4 9 14 (m ! (s ! 14)) (m ! (s ! 15)) v)"

definition compress2b :: "u64 list \<Rightarrow> u8 list \<Rightarrow> u64 \<Rightarrow> bool \<Rightarrow> u64 list" where
  "compress2b hash inp compressed final =
     (let m = map (\<lambda>i. le64 inp (8 * i)) [0..<16];
          v = map (\<lambda>i. hash ! i) [0..<8] @ blake2_iv;
          v = v[12 := v ! 12 XOR compressed];
          v = v[13 := v ! 13 XOR 0];
          v = (if final then v[14 := v ! 14 XOR 0xFFFFFFFFFFFFFFFF] else v);
          v = fold (\<lambda>i. baking mix2b m (blake2b_sigma ! (i mod 10))) [0..<12] v
      in map (\<lambda>i. hash ! i XOR v ! i XOR v ! (i + 8)) [0..<8])"

definition compress2s :: "u32 list \<Rightarrow> u8 list \<Rightarrow> u32 \<Rightarrow> bool \<Rightarrow> u32 list" where
  "compress2s hash inp compressed final =
     (let m = map (\<lambda>i. le32 inp (4 * i)) [0..<16];
          v = map (\<lambda>i. hash ! i) [0..<8] @ map (\<lambda>h. ucast (drop_bit 32 h)) blake2_iv;
          v = v[12 := v ! 12 XOR compressed];
          v = v[13 := v ! 13 XOR 0];
          v = (if final then v[14 := v ! 14 XOR 0xFFFFFFFF] else v);
          v = fold (\<lambda>i. baking mix2s m (blake2b_sigma ! i)) [0..<10] v
      in map (\<lambda>i. hash ! i XOR v ! i XOR v ! (i + 8)) [0..<8])"

section \<open>BLAKE2b\<close>

record blake2b_hash = "u64 block_state" +
  b2b_key :: "u8 list"
  b2b_hash :: "u64 list"
  b2b_compressed :: u64
  b2b_digest_len :: nat

definition blake2b_round :: "blake2b_hash \<Rightarrow> bool \<Rightarrow> blake2b_hash" where
  "blake2b_round hash final =
     hash\<lparr>b2b_hash := compress2b (b2b_hash hash) (buffer hash) (b2b_compressed hash) final\<rparr>"

definition blake2b_iv :: "nat \<Rightarrow> nat \<Rightarrow> u64 list" where
  "blake2b_iv key_len digest_len =
     blake2_iv[0 := blake2_iv ! 0 XOR of_nat digest_len XOR push_bit 8 (of_nat key_len) XOR 0x01010000]"

definition blake2b_init :: "u8 list \<Rightarrow> nat \<Rightarrow> blake2b_hash option" where
  "blake2b_init key digest_len = do {
     b \<leftarrow> c_memcpy (replicate 128 0) 0 key 0 (length key);
     let a = \<lparr>buffer = b, bufflen = length key, total = 0, b2b_key = key,
       b2b_hash = blake2b_iv (length key) digest_len, b2b_compressed = 0, b2b_digest_len = digest_len\<rparr>;
     if length key \<noteq> 0 then do {
       let a = blake2b_round (a\<lparr>b2b_compressed := 128\<rparr>) False;
       b \<leftarrow> c_memset (buffer a) 0 0 128;
       Some (a\<lparr>buffer := b, bufflen := 0\<rparr>)
     } else Some a
   }"

definition blake2b_init_l :: "u8 list \<Rightarrow> nat \<Rightarrow> blake2b_hash option" where
  "blake2b_init_l key digest_len = do {
     z \<leftarrow> c_memset (replicate 128 0) 0 0 128;
     b \<leftarrow> c_memcpy z 0 key 0 (length key);
     let a = \<lparr>buffer = b, bufflen = length key, total = 0, b2b_key = key,
       b2b_hash = blake2b_iv (length key) digest_len, b2b_compressed = 0, b2b_digest_len = digest_len\<rparr>;
     if length key \<noteq> 0 then do {
       let a = blake2b_round (a\<lparr>b2b_compressed := 128\<rparr>) False;
       b \<leftarrow> c_memset (buffer a) 0 0 128;
       Some (a\<lparr>buffer := b, bufflen := 0\<rparr>)
     } else Some a
   }"

lemma blake2b_init_l_eq: "blake2b_init_l = blake2b_init"
  by (simp add: fun_eq_iff blake2b_init_l_def blake2b_init_def c_mem)

definition blake2b_block :: "blake2b_hash \<Rightarrow> blake2b_hash" where
  "blake2b_block hash = blake2b_round (hash\<lparr>b2b_compressed := b2b_compressed hash + 64\<rparr>) False"

definition blake2b_update :: "u8 list \<Rightarrow> blake2b_hash \<Rightarrow> blake2b_hash option" where
  "blake2b_update input hash = block_update 128 blake2b_block input hash"

text \<open>The digest: one \<open>%02x\<close> per byte of the chained value, as many as asked for.\<close>

definition blake2_digest :: "nat \<Rightarrow> u8 list \<Rightarrow> string option" where
  "blake2_digest n bs =
     (if n \<le> length bs then Some (concat (map (\<lambda>x. fmt_0x 2 (unat x)) (take n bs))) else None)"

definition blake2b_final :: "blake2b_hash \<Rightarrow> (string \<times> blake2b_hash) option" where
  "blake2b_final hash = do {
     let old_hash = hash;
     let old = buffer hash;
     let hashh = b2b_hash hash;
     let hash = hash\<lparr>b2b_compressed := b2b_compressed hash + of_nat (bufflen hash)\<rparr>;
     let hash = blake2b_round hash True;
     out_stream \<leftarrow> blake2_digest (b2b_digest_len hash) (concat (map le_bytes64 (b2b_hash hash)));
     Some (out_stream, old_hash\<lparr>buffer := old, b2b_hash := hashh\<rparr>)
   }"

definition blake2b :: "u8 list \<Rightarrow> u8 list \<Rightarrow> nat \<Rightarrow> string option" where
  "blake2b inp key dig_len = do {
     aa \<leftarrow> blake2b_init key dig_len;
     aa \<leftarrow> blake2b_update inp aa;
     (out, aa) \<leftarrow> blake2b_final aa;
     Some out
   }"

text \<open>The entry points: digest length 64 and no key unless given.\<close>

definition l_blake2b_init :: "nat option \<Rightarrow> u8 list option \<Rightarrow> blake2b_hash option" where
  "l_blake2b_init outlen key =
     blake2b_init_l (case key of None \<Rightarrow> [] | Some k \<Rightarrow> k) (case outlen of None \<Rightarrow> 64 | Some n \<Rightarrow> n)"

definition l_blake2b_final :: "blake2b_hash \<Rightarrow> string option" where
  "l_blake2b_final a = map_option fst (blake2b_final a)"

definition l_blake2b ::
  "u8 list option \<Rightarrow> nat option \<Rightarrow> u8 list option \<Rightarrow> blake2b_hash lua_hash option" where
  "l_blake2b a out_len key = (case a of
       None \<Rightarrow> map_option HashObject (l_blake2b_init out_len key)
     | Some s \<Rightarrow> map_option Digest (blake2b s (case key of None \<Rightarrow> [] | Some k \<Rightarrow> k)
         (case out_len of None \<Rightarrow> 64 | Some n \<Rightarrow> n)))"

text \<open>The clone: a new object with the same key and length, then the chained value, 64 bytes of the
  buffer and the counters.\<close>

definition l_blake2b_clone :: "blake2b_hash \<Rightarrow> blake2b_hash option" where
  "l_blake2b_clone a = do {
     b \<leftarrow> l_blake2b_init (Some (b2b_digest_len a)) (Some (b2b_key a));
     buf \<leftarrow> c_memcpy (buffer b) 0 (buffer a) 0 64;
     Some (b\<lparr>b2b_hash := take 8 (b2b_hash a), buffer := buf, b2b_digest_len := b2b_digest_len a,
       total := total a, bufflen := bufflen a, b2b_compressed := b2b_compressed a\<rparr>)
   }"

section \<open>BLAKE2s\<close>

record blake2s_hash = "u32 block_state" +
  b2s_key :: "u8 list"
  b2s_hash :: "u32 list"
  b2s_compressed :: u64
  b2s_digest_len :: nat

definition blake2s_round :: "blake2s_hash \<Rightarrow> bool \<Rightarrow> blake2s_hash" where
  "blake2s_round hash final =
     hash\<lparr>b2s_hash := compress2s (b2s_hash hash) (buffer hash) (ucast (b2s_compressed hash)) final\<rparr>"

definition blake2s_iv :: "nat \<Rightarrow> nat \<Rightarrow> u32 list" where
  "blake2s_iv key_len digest_len =
     (let iv = map (\<lambda>h. ucast (drop_bit 32 h)) blake2_iv
      in iv[0 := iv ! 0 XOR of_nat digest_len XOR push_bit 8 (of_nat key_len) XOR 0x01010000])"

definition blake2s_init :: "u8 list \<Rightarrow> nat \<Rightarrow> blake2s_hash option" where
  "blake2s_init key digest_len = do {
     b \<leftarrow> c_memcpy (replicate 64 0) 0 key 0 (length key);
     let a = \<lparr>buffer = b, bufflen = length key, total = 0, b2s_key = key,
       b2s_hash = blake2s_iv (length key) digest_len, b2s_compressed = 0, b2s_digest_len = digest_len\<rparr>;
     if length key \<noteq> 0 then do {
       let a = blake2s_round (a\<lparr>b2s_compressed := 64\<rparr>) False;
       b \<leftarrow> c_memset (buffer a) 0 0 64;
       Some (a\<lparr>buffer := b, bufflen := 0\<rparr>)
     } else Some a
   }"

definition blake2s_init_l :: "u8 list \<Rightarrow> nat \<Rightarrow> blake2s_hash option" where
  "blake2s_init_l key digest_len = do {
     z \<leftarrow> c_memset (replicate 64 0) 0 0 64;
     b \<leftarrow> c_memcpy z 0 key 0 (length key);
     let a = \<lparr>buffer = b, bufflen = length key, total = 0, b2s_key = key,
       b2s_hash = blake2s_iv (length key) digest_len, b2s_compressed = 0, b2s_digest_len = digest_len\<rparr>;
     if length key \<noteq> 0 then do {
       let a = blake2s_round (a\<lparr>b2s_compressed := 64\<rparr>) False;
       b \<leftarrow> c_memset (buffer a) 0 0 64;
       Some (a\<lparr>buffer := b, bufflen := 0\<rparr>)
     } else Some a
   }"

lemma blake2s_init_l_eq: "blake2s_init_l = blake2s_init"
  by (simp add: fun_eq_iff blake2s_init_l_def blake2s_init_def c_mem)

definition blake2s_block :: "blake2s_hash \<Rightarrow> blake2s_hash" where
  "blake2s_block hash = blake2s_round (hash\<lparr>b2s_compressed := b2s_compressed hash + 64\<rparr>) False"

definition blake2s_update :: "u8 list \<Rightarrow> blake2s_hash \<Rightarrow> blake2s_hash option" where
  "blake2s_update input hash = block_update 64 blake2s_block input hash"

definition blake2s_final :: "blake2s_hash \<Rightarrow> (string \<times> blake2s_hash) option" where
  "blake2s_final hash = do {
     let old_hash = hash;
     let old = buffer hash;
     let hashh = b2s_hash hash;
     let hash = hash\<lparr>b2s_compressed := b2s_compressed hash + of_nat (bufflen hash)\<rparr>;
     hash \<leftarrow> (if bufflen hash > 55 then do {
         b \<leftarrow> c_memset (buffer hash) (bufflen hash + 1) 0 (64 - bufflen hash);
         let hash = (blake2s_round (hash\<lparr>buffer := b\<rparr>) False)\<lparr>b2s_compressed := 0\<rparr>;
         b \<leftarrow> c_memset (buffer hash) 0 0 64;
         Some (hash\<lparr>buffer := b\<rparr>)
       } else Some hash);
     let hash = blake2s_round hash True;
     out_stream \<leftarrow> blake2_digest (b2s_digest_len hash) (concat (map le_bytes32 (b2s_hash hash)));
     Some (out_stream, old_hash\<lparr>buffer := old, b2s_hash := hashh\<rparr>)
   }"

definition blake2s :: "u8 list \<Rightarrow> u8 list \<Rightarrow> nat \<Rightarrow> string option" where
  "blake2s inp key dig_len = do {
     aa \<leftarrow> blake2s_init key dig_len;
     aa \<leftarrow> blake2s_update inp aa;
     (out, aa) \<leftarrow> blake2s_final aa;
     Some out
   }"

text \<open>The entry points: digest length 32 and no key unless given.\<close>

definition l_blake2s_init :: "nat option \<Rightarrow> u8 list option \<Rightarrow> blake2s_hash option" where
  "l_blake2s_init outlen key =
     blake2s_init_l (case key of None \<Rightarrow> [] | Some k \<Rightarrow> k) (case outlen of None \<Rightarrow> 32 | Some n \<Rightarrow> n)"

definition l_blake2s_final :: "blake2s_hash \<Rightarrow> string option" where
  "l_blake2s_final a = map_option fst (blake2s_final a)"

definition l_blake2s ::
  "u8 list option \<Rightarrow> nat option \<Rightarrow> u8 list option \<Rightarrow> blake2s_hash lua_hash option" where
  "l_blake2s a out_len key = (case a of
       None \<Rightarrow> map_option HashObject (l_blake2s_init out_len key)
     | Some s \<Rightarrow> map_option Digest (blake2s s (case key of None \<Rightarrow> [] | Some k \<Rightarrow> k)
         (case out_len of None \<Rightarrow> 32 | Some n \<Rightarrow> n)))"

definition l_blake2s_clone :: "blake2s_hash \<Rightarrow> blake2s_hash option" where
  "l_blake2s_clone a = do {
     b \<leftarrow> l_blake2s_init (Some (b2s_digest_len a)) (Some (b2s_key a));
     buf \<leftarrow> c_memcpy (buffer b) 0 (buffer a) 0 64;
     Some (b\<lparr>b2s_hash := take 8 (b2s_hash a), buffer := buf, b2s_digest_len := b2s_digest_len a,
       total := total a, bufflen := bufflen a, b2s_compressed := b2s_compressed a\<rparr>)
   }"

section \<open>The buffering contracts\<close>

definition blake2b_regs :: "blake2b_hash \<Rightarrow> u64 list \<times> u64" where
  "blake2b_regs h = (b2b_hash h, b2b_compressed h)"

definition blake2b_compress :: "u8 list \<Rightarrow> u64 list \<times> u64 \<Rightarrow> u64 list \<times> u64" where
  "blake2b_compress M s = (case s of (hash, t) \<Rightarrow> (compress2b hash M (t + 64) False, t + 64))"

definition blake2s_regs :: "blake2s_hash \<Rightarrow> u32 list \<times> u64" where
  "blake2s_regs h = (b2s_hash h, b2s_compressed h)"

definition blake2s_compress :: "u8 list \<Rightarrow> u32 list \<times> u64 \<Rightarrow> u32 list \<times> u64" where
  "blake2s_compress M s = (case s of (hash, t) \<Rightarrow> (compress2s hash M (ucast (t + 64)) False, t + 64))"

interpretation blake2b_b: block_hash 128 blake2b_block blake2b_regs blake2b_compress
  by unfold_locales
    (simp_all add: blake2b_block_def blake2b_round_def blake2b_regs_def blake2b_compress_def)

interpretation blake2s_b: block_hash 64 blake2s_block blake2s_regs blake2s_compress
  by unfold_locales
    (simp_all add: blake2s_block_def blake2s_round_def blake2s_regs_def blake2s_compress_def)

text \<open>The objects the two init functions return.\<close>

definition blake2b_start :: "u8 list \<Rightarrow> nat \<Rightarrow> u64 list \<times> u64" where
  "blake2b_start key n = (if key = [] then (blake2b_iv 0 n, 0)
     else (compress2b (blake2b_iv (length key) n) (key @ replicate (128 - length key) 0) 128 False, 128))"

definition blake2s_start :: "u8 list \<Rightarrow> nat \<Rightarrow> u32 list \<times> u64" where
  "blake2s_start key n = (if key = [] then (blake2s_iv 0 n, 0)
     else (compress2s (blake2s_iv (length key) n) (key @ replicate (64 - length key) 0) 64 False, 64))"

lemma blake2b_init_result:
  "blake2b_init key n = (if length key \<le> 128 then Some \<lparr>buffer = replicate 128 0, bufflen = 0,
     total = 0, b2b_key = key, b2b_hash = fst (blake2b_start key n),
     b2b_compressed = snd (blake2b_start key n), b2b_digest_len = n\<rparr> else None)"
  by (simp add: blake2b_init_def blake2b_start_def c_memcpy_def c_memset_def blake2b_round_def)

lemma blake2s_init_result:
  "blake2s_init key n = (if length key \<le> 64 then Some \<lparr>buffer = replicate 64 0, bufflen = 0,
     total = 0, b2s_key = key, b2s_hash = fst (blake2s_start key n),
     b2s_compressed = snd (blake2s_start key n), b2s_digest_len = n\<rparr> else None)"
  by (simp add: blake2s_init_def blake2s_start_def c_memcpy_def c_memset_def blake2s_round_def)

lemma blake2b_update_init:
  "block_wf 128 h \<Longrightarrow> bufflen h = 0 \<Longrightarrow> blake2b_update m h = Some (absorb 128 blake2b_block m h)"
  unfolding blake2b_update_def by (rule blake2b_b.update_absorb) simp_all

lemma blake2s_update_init:
  "block_wf 64 h \<Longrightarrow> bufflen h = 0 \<Longrightarrow> blake2s_update m h = Some (absorb 64 blake2s_block m h)"
  unfolding blake2s_update_def by (rule blake2s_b.update_absorb) simp_all

lemma blake2b_digest_len_block: "b2b_digest_len (blake2b_block h) = b2b_digest_len h"
  and blake2s_digest_len_block: "b2s_digest_len (blake2s_block g) = b2s_digest_len g"
  by (simp_all add: blake2b_block_def blake2b_round_def blake2s_block_def blake2s_round_def)

lemma blake2b_digest_len_absorb: "b2b_digest_len (absorb 128 blake2b_block m h) = b2b_digest_len h"
  unfolding absorb_def
  by (rule fold_invariant)
    (simp_all add: absorb_byte_def finish_block_def blake2b_digest_len_block Let_def)

lemma blake2s_digest_len_absorb: "b2s_digest_len (absorb 64 blake2s_block m h) = b2s_digest_len h"
  unfolding absorb_def
  by (rule fold_invariant)
    (simp_all add: absorb_byte_def finish_block_def blake2s_digest_len_block Let_def)

section \<open>Digests\<close>

text \<open>The chained value after the last block: the tail filled up with zeros, and the counter.\<close>

definition blake2b_spec :: "u8 list \<Rightarrow> nat \<Rightarrow> u8 list \<Rightarrow> u64 list" where
  "blake2b_spec key n m = (case fold blake2b_compress (blocks 128 m) (blake2b_start key n) of
     (hash, t) \<Rightarrow> compress2b hash (tail 128 m @ replicate (128 - length m mod 128) 0)
       (t + of_nat (length m mod 128)) True)"

definition blake2s_spec :: "u8 list \<Rightarrow> nat \<Rightarrow> u8 list \<Rightarrow> u32 list" where
  "blake2s_spec key n m = (case fold blake2s_compress (blocks 64 m) (blake2s_start key n) of
     (hash, t) \<Rightarrow> compress2s hash (tail 64 m @ replicate (64 - length m mod 64) 0)
       (ucast (t + of_nat (length m mod 64))) True)"

lemma blake2b_digest:
  "blake2b m key n = (if length key \<le> 128
     then blake2_digest n (concat (map le_bytes64 (blake2b_spec key n m))) else None)"
proof (cases "length key \<le> 128")
  case True
  let ?h = "\<lparr>buffer = replicate 128 0, bufflen = 0, total = 0, b2b_key = key,
    b2b_hash = fst (blake2b_start key n), b2b_compressed = snd (blake2b_start key n),
    b2b_digest_len = n\<rparr> :: blake2b_hash"
  have wf: "block_wf 128 ?h" "bufflen ?h = 0" by (simp_all add: block_wf_def)
  note st = blake2b_b.absorb_message [OF wf, of m]
  obtain hs c where f: "fold blake2b_compress (blocks 128 m) (blake2b_start key n) = (hs, c)"
    by (cases "fold blake2b_compress (blocks 128 m) (blake2b_start key n)")
  have "b2b_hash (absorb 128 blake2b_block m ?h) = hs" "b2b_compressed (absorb 128 blake2b_block m ?h) = c"
    using st(1) f by (simp_all add: blake2b_regs_def)
  then show ?thesis
    using True f
    by (simp add: blake2b_def blake2b_init_result blake2b_update_init wf blake2b_final_def
        blake2b_spec_def blake2b_round_def st blake2b_digest_len_absorb)
qed (simp add: blake2b_def blake2b_init_result)

lemma blake2s_final_overrun:
  "55 < bufflen h \<Longrightarrow> length (buffer h) = 64 \<Longrightarrow> blake2s_final h = None"
  by (auto simp: blake2s_final_def c_memset_def Let_def)

lemma blake2s_digest:
  "blake2s m key n = (if length key \<le> 64 \<and> length m mod 64 \<le> 55
     then blake2_digest n (concat (map le_bytes32 (blake2s_spec key n m))) else None)"
proof (cases "length key \<le> 64")
  case True
  let ?h = "\<lparr>buffer = replicate 64 0, bufflen = 0, total = 0, b2s_key = key,
    b2s_hash = fst (blake2s_start key n), b2s_compressed = snd (blake2s_start key n),
    b2s_digest_len = n\<rparr> :: blake2s_hash"
  have wf: "block_wf 64 ?h" "bufflen ?h = 0" by (simp_all add: block_wf_def)
  note st = blake2s_b.absorb_message [OF wf, of m]
  show ?thesis
  proof (cases "length m mod 64 \<le> 55")
    case short: True
    obtain hs c where f: "fold blake2s_compress (blocks 64 m) (blake2s_start key n) = (hs, c)"
      by (cases "fold blake2s_compress (blocks 64 m) (blake2s_start key n)")
    have "b2s_hash (absorb 64 blake2s_block m ?h) = hs" "b2s_compressed (absorb 64 blake2s_block m ?h) = c"
      using st(1) f by (simp_all add: blake2s_regs_def)
    then show ?thesis
      using True f short
      by (simp add: blake2s_def blake2s_init_result blake2s_update_init wf blake2s_final_def
          blake2s_spec_def blake2s_round_def st blake2s_digest_len_absorb)
  next
    case False
    have "length (buffer (absorb 64 blake2s_block m ?h)) = 64"
      using blake2s_b.absorb_wf [OF wf(1), of m] by (simp add: block_wf_def)
    then have "blake2s_final (absorb 64 blake2s_block m ?h) = None"
      using False st(3) by (intro blake2s_final_overrun) simp_all
    then show ?thesis using True False
      by (simp add: blake2s_def blake2s_init_result blake2s_update_init wf)
  qed
qed (simp add: blake2s_def blake2s_init_result)

text \<open>The byte counter of BLAKE2b: 64 per block of 128.\<close>

lemma blake2b_counter: "snd (fold blake2b_compress bs (h, t)) = t + 64 * of_nat (length bs)"
  by (induction bs arbitrary: h t) (simp_all add: blake2b_compress_def algebra_simps)

lemma length_blocks: "length (blocks n m) = length m div n"
  by (simp add: blocks_def)

lemma blake2b_counter_message:
  "snd (fold blake2b_compress (blocks 128 m) (blake2b_start [] n)) = 64 * of_nat (length m div 128)"
  by (simp add: blake2b_start_def blake2b_counter length_blocks)

section \<open>Clones\<close>

lemma l_blake2b_clone_result:
  assumes "block_wf 128 a" and "length (b2b_hash a) = 8" and "length (b2b_key a) \<le> 128"
  shows "l_blake2b_clone a = Some (a\<lparr>buffer := take 64 (buffer a) @ replicate 64 0\<rparr>)"
  using assms by (simp add: l_blake2b_clone_def l_blake2b_init_def blake2b_init_l_eq blake2b_init_result c_memcpy_def block_wf_def)

lemma l_blake2s_clone_result:
  assumes "block_wf 64 a" and "length (b2s_hash a) = 8" and "length (b2s_key a) \<le> 64"
  shows "l_blake2s_clone a = Some a"
  using assms by (simp add: l_blake2s_clone_def l_blake2s_init_def blake2s_init_l_eq blake2s_init_result c_memcpy_def block_wf_def)

lemma blake2b_final_restores: "blake2b_final h = Some (d, h') \<Longrightarrow> h' = h"
  and blake2s_final_restores: "blake2s_final k = Some (d, k') \<Longrightarrow> k' = k"
  by (auto simp: blake2b_final_def blake2s_final_def Let_def split: Option.bind_splits)

end
