(* ===== verification/Doubles.thy ===== *)
theory Doubles
  imports Prelude
begin

text \<open>
  The numbers of Lua (lua_Number is the C type double) and the arrays of them the sorting and table
  functions work on.  A double is its 64-bit pattern: the comparisons are those of IEEE 754, false
  on NaN and blind to the sign of zero.  On numbers the pattern has a signed magnitude \<open>dkey\<close> that
  orders them; the locale \<open>keyed_order\<close> is this contract, and its lemmas are what the sorting
  proofs need.  The errors of a table function, and the loop that reads a table into a C array, are
  here too.
\<close>

unbundle bit_operations_syntax

section \<open>Doubles\<close>

datatype double = Double u64

definition dmag :: "double \<Rightarrow> int" where
  "dmag d = (case d of Double w \<Rightarrow> uint (take_bit 63 w))"

definition is_nan :: "double \<Rightarrow> bool" where
  "is_nan d \<longleftrightarrow> dmag d > 0x7FF0000000000000"

definition dkey :: "double \<Rightarrow> int" where
  "dkey d = (case d of Double w \<Rightarrow> if bit w 63 then - dmag d else dmag d)"

instantiation double :: ord
begin

definition less_double :: "double \<Rightarrow> double \<Rightarrow> bool" where
  "less_double x y \<longleftrightarrow> \<not> is_nan x \<and> \<not> is_nan y \<and> dkey x < dkey y"

definition less_eq_double :: "double \<Rightarrow> double \<Rightarrow> bool" where
  "less_eq_double x y \<longleftrightarrow> \<not> is_nan x \<and> \<not> is_nan y \<and> dkey x \<le> dkey y"

instance ..

end

text \<open>C's == on doubles.\<close>

definition deq :: "double \<Rightarrow> double \<Rightarrow> bool" where
  "deq x y \<longleftrightarrow> \<not> is_nan x \<and> \<not> is_nan y \<and> dkey x = dkey y"

text \<open>The integer a finite double truncates to: the significand, scaled by the exponent.\<close>

definition dtrunc :: "double \<Rightarrow> int option" where
  "dtrunc d =
     (let e = dmag d div 2 ^ 52; f = dmag d mod 2 ^ 52;
          m = (if e = 0 then 0
               else if e \<ge> 1075 then (2 ^ 52 + f) * 2 ^ nat (e - 1075)
               else (2 ^ 52 + f) div 2 ^ nat (1075 - e))
      in if e = 0x7FF then None else Some (if dkey d < 0 then - m else m))"

text \<open>The conversion of a double to a C int or an unsigned 64-bit integer, undefined outside its
  range.\<close>

definition c_int :: "int \<Rightarrow> int option" where
  "c_int i = (if - (2 ^ 31) \<le> i \<and> i < 2 ^ 31 then Some i else None)"

definition double_to_int :: "double \<Rightarrow> int option" where
  "double_to_int d = Option.bind (dtrunc d) c_int"

definition double_to_uint64 :: "double \<Rightarrow> u64 option" where
  "double_to_uint64 d = Option.bind (dtrunc d)
     (\<lambda>i. if 0 \<le> i \<and> i < 2 ^ 64 then Some (of_int i) else None)"

lemma less_number: "\<not> is_nan x \<Longrightarrow> \<not> is_nan y \<Longrightarrow> x < y \<longleftrightarrow> dkey x < dkey y"
  by (simp add: less_double_def)

lemma less_eq_number: "\<not> is_nan x \<Longrightarrow> \<not> is_nan y \<Longrightarrow> x \<le> y \<longleftrightarrow> dkey x \<le> dkey y"
  by (simp add: less_eq_double_def)

lemma c_int_Some: "- 2147483648 \<le> i \<Longrightarrow> i < 2147483648 \<Longrightarrow> c_int i = Some i"
  by (simp add: c_int_def)

section \<open>Orders with a key\<close>

text \<open>A comparison that is, on the values that count as numbers, the order of an integer key: what
  the sorting functions rely on.\<close>

locale keyed_order =
  fixes number :: "'a::ord \<Rightarrow> bool" and key :: "'a \<Rightarrow> int"
  assumes less_key: "number x \<Longrightarrow> number y \<Longrightarrow> x < y \<longleftrightarrow> key x < key y"
    and less_eq_key: "number x \<Longrightarrow> number y \<Longrightarrow> x \<le> y \<longleftrightarrow> key x \<le> key y"
begin

lemma not_less_key: "number x \<Longrightarrow> number y \<Longrightarrow> \<not> x < y \<longleftrightarrow> y \<le> x"
  by (simp add: less_key less_eq_key not_less)

lemma sorted_wrt_keys:
  "\<forall>x\<in>set xs. number x \<Longrightarrow> sorted_wrt (\<le>) xs \<longleftrightarrow> sorted (map key xs)"
  by (induction xs) (auto simp: less_eq_key)

lemma sorted_wrt_keys_down:
  "\<forall>x\<in>set xs. number x \<Longrightarrow> sorted_wrt (\<ge>) xs \<longleftrightarrow> sorted (rev (map key xs))"
  by (induction xs) (auto simp: less_eq_key sorted_append)

text \<open>Sorted permutations have the same keys: the result of a sort is unique up to the sign of
  zero.\<close>

lemma sorted_unique:
  assumes "\<forall>x\<in>set xs. number x" and "mset xs = mset ys" and "sorted_wrt (\<ge>) xs" and "sorted_wrt (\<ge>) ys"
  shows "map key xs = map key ys"
proof -
  have "\<forall>x\<in>set ys. number x" using assms(1,2) by (metis mset_eq_setD)
  then have "sorted (rev (map key xs))" and "sorted (rev (map key ys))"
    using assms by (simp_all add: sorted_wrt_keys_down)
  moreover have "mset (rev (map key xs)) = mset (rev (map key ys))" using assms(2) by simp
  ultimately have "rev (map key xs) = rev (map key ys)" by (metis properties_for_sort)
  then show ?thesis by simp
qed

end

interpretation double_order: keyed_order "\<lambda>x. \<not> is_nan x" dkey
  by unfold_locales (simp_all add: less_number less_eq_number)

lemma double_le_trans: "x \<le> y \<Longrightarrow> y \<le> z \<Longrightarrow> x \<le> (z :: double)"
  by (simp add: less_eq_double_def)

lemma double_less_asym: "x < y \<Longrightarrow> \<not> y < (x :: double)"
  by (simp add: less_double_def)

lemma double_less_irrefl [simp]: "\<not> x < (x :: double)"
  by (simp add: less_double_def)

end
