(* ===== verification/IntArrays.thy ===== *)
theory IntArrays
  imports Doubles "HOL-Library.Signed_Division"
begin

text \<open>
  C arrays indexed by a signed int, as sort.c and table.c use them: checked loads, stores and the
  i_swap macro, an array permuted inside a range of indices, arrays sorted on a range.  Then what
  every function of the two files starts with: the loop that reads a Lua table of numbers into a C
  array, with its errors.
\<close>

text \<open>C's division truncates; on what the sorts divide it is the halving of a number that is not
  negative.\<close>

lemma sdiv2: "0 \<le> a \<Longrightarrow> a sdiv 2 = (a :: int) div 2"
  by (cases "a = 0") (simp_all add: signed_divide_int_def)

section \<open>Checked accesses\<close>

definition a_load :: "'a list \<Rightarrow> int \<Rightarrow> 'a option" where
  "a_load xs i = (if 0 \<le> i \<and> i < int (length xs) then Some (xs ! nat i) else None)"

definition a_store :: "'a list \<Rightarrow> int \<Rightarrow> 'a \<Rightarrow> 'a list option" where
  "a_store xs i v = (if 0 \<le> i \<and> i < int (length xs) then Some (xs[nat i := v]) else None)"

definition i_swap :: "'a list \<Rightarrow> int \<Rightarrow> int \<Rightarrow> 'a list option" where
  "i_swap xs i j = (case (a_load xs i, a_load xs j) of
     (Some x, Some y) \<Rightarrow> Option.bind (a_store xs i y) (\<lambda>xs. a_store xs j x)
   | _ \<Rightarrow> None)"

named_theorems c_arr \<open>accesses to an array by a signed index\<close>

lemma a_load_Some [c_arr]: "0 \<le> i \<Longrightarrow> i < int (length xs) \<Longrightarrow> a_load xs i = Some (xs ! nat i)"
  by (simp add: a_load_def)

lemma a_store_Some [c_arr]: "0 \<le> i \<Longrightarrow> i < int (length xs) \<Longrightarrow> a_store xs i v = Some (xs[nat i := v])"
  by (simp add: a_store_def)

lemma i_swap_Some [c_arr]:
  "0 \<le> i \<Longrightarrow> i < int (length xs) \<Longrightarrow> 0 \<le> j \<Longrightarrow> j < int (length xs) \<Longrightarrow>
   i_swap xs i j = Some (xs[nat i := xs ! nat j, nat j := xs ! nat i])"
  by (simp add: i_swap_def a_load_def a_store_def)

lemma swap_nth:
  assumes "0 \<le> i" "i < int (length xs)" "0 \<le> j" "j < int (length xs)" "0 \<le> k"
  shows "xs[nat i := xs ! nat j, nat j := xs ! nat i] ! nat k
    = (if k = i then xs ! nat j else if k = j then xs ! nat i else xs ! nat k)"
  using assms by (auto simp: nth_list_update nat_eq_iff)

lemma a_load_range: "a_load xs i = Some x \<Longrightarrow> 0 \<le> i \<and> i < int (length xs) \<and> x = xs ! nat i"
  by (simp add: a_load_def split: if_splits)

lemma a_store_length: "a_store xs i v = Some ys \<Longrightarrow> length ys = length xs"
  by (auto simp: a_store_def split: if_splits)

lemma i_swap_length: "i_swap xs i j = Some ys \<Longrightarrow> length ys = length xs"
  by (auto simp: i_swap_def split: option.splits Option.bind_splits dest!: a_store_length)

section \<open>Permuted inside a range\<close>

definition perm_within :: "int \<Rightarrow> int \<Rightarrow> 'a list \<Rightarrow> 'a list \<Rightarrow> bool" where
  "perm_within lo hi xs ys \<longleftrightarrow> length ys = length xs \<and> mset ys = mset xs
     \<and> (\<forall>k < length xs. int k < lo \<or> hi < int k \<longrightarrow> ys ! k = xs ! k)"

lemma perm_within_refl [simp]: "perm_within lo hi xs xs"
  by (simp add: perm_within_def)

lemma perm_within_trans:
  "perm_within lo hi xs ys \<Longrightarrow> perm_within lo hi ys zs \<Longrightarrow> perm_within lo hi xs zs"
  by (simp add: perm_within_def)

lemma perm_within_mono:
  "perm_within lo hi xs ys \<Longrightarrow> lo' \<le> lo \<Longrightarrow> hi \<le> hi' \<Longrightarrow> perm_within lo' hi' xs ys"
  by (auto simp: perm_within_def)

lemma perm_within_swap:
  assumes "lo \<le> i" "i \<le> hi" "lo \<le> j" "j \<le> hi" "0 \<le> i" "0 \<le> j"
    and "i < int (length xs)" "j < int (length xs)"
  shows "perm_within lo hi xs (xs[nat i := xs ! nat j, nat j := xs ! nat i])"
  using assms by (auto simp: perm_within_def list_update_swap_mset nth_list_update)

lemma perm_within_length: "perm_within lo hi xs ys \<Longrightarrow> length ys = length xs"
  by (simp add: perm_within_def)

lemma perm_within_outside:
  "perm_within lo hi xs ys \<Longrightarrow> 0 \<le> k \<Longrightarrow> k < lo \<or> hi < k \<Longrightarrow> k < int (length xs) \<Longrightarrow>
   ys ! nat k = xs ! nat k"
  by (simp add: perm_within_def) (metis int_nat_eq nat_less_iff)

text \<open>What holds of every element of the range keeps holding.\<close>

lemma perm_within_all:
  assumes perm: "perm_within lo hi xs ys" and "0 \<le> lo" and "hi < int (length xs)"
    and all: "\<And>k. lo \<le> k \<Longrightarrow> k \<le> hi \<Longrightarrow> P (xs ! nat k)" and k: "lo \<le> k" "k \<le> hi"
  shows "P (ys ! nat k)"
proof -
  let ?a = "nat lo" and ?b = "nat (hi + 1)"
  have len: "length ys = length xs" and mset: "mset ys = mset xs" using perm by (simp_all add: perm_within_def)
  have split: "zs = take ?a zs @ drop ?a (take ?b zs) @ drop ?b zs" if "length zs = length xs" for zs :: "'a list"
  proof -
    have "take ?a (take ?b zs) = take ?a zs" using k by (simp add: min_def)
    then show ?thesis by (metis append_assoc append_take_drop_id)
  qed
  have "take ?a ys = take ?a xs"
    using perm len by (intro nth_equalityI) (auto simp: perm_within_def)
  moreover have "drop ?b ys = drop ?b xs"
    using perm len assms(3) by (intro nth_equalityI) (auto simp: perm_within_def)
  ultimately have "mset (drop ?a (take ?b ys)) = mset (drop ?a (take ?b xs))"
    using mset split [of ys] split [of xs] len
    by (metis add_left_cancel add_right_cancel mset_append)
  then have set: "set (drop ?a (take ?b ys)) = set (drop ?a (take ?b xs))" by (rule mset_eq_setD)
  have "drop ?a (take ?b ys) ! (nat k - ?a) = ys ! nat k"
    using k assms(2,3) len by (simp add: nth_drop)
  moreover have "nat k - ?a < length (drop ?a (take ?b ys))" using k assms(2,3) len by simp
  ultimately have "ys ! nat k \<in> set (drop ?a (take ?b xs))" unfolding set [symmetric] by (metis nth_mem)
  then obtain m where m: "m < length (drop ?a (take ?b xs))" "ys ! nat k = drop ?a (take ?b xs) ! m"
    by (metis in_set_conv_nth)
  then have "ys ! nat k = xs ! nat (lo + int m)" using assms(2,3) k
    by (simp add: nth_drop nat_add_distrib)
  moreover have "lo + int m \<le> hi" using m(1) k assms(2,3) by simp
  ultimately show ?thesis using all [of "lo + int m"] by simp
qed

section \<open>Sorted on a range\<close>

definition desc_on :: "int \<Rightarrow> int \<Rightarrow> double list \<Rightarrow> bool" where
  "desc_on lo hi xs \<longleftrightarrow> (\<forall>i j. lo \<le> i \<and> i < j \<and> j \<le> hi \<longrightarrow> dkey (xs ! nat j) \<le> dkey (xs ! nat i))"

definition asc_on :: "int \<Rightarrow> int \<Rightarrow> double list \<Rightarrow> bool" where
  "asc_on lo hi xs \<longleftrightarrow> (\<forall>i j. lo \<le> i \<and> i < j \<and> j \<le> hi \<longrightarrow> dkey (xs ! nat i) \<le> dkey (xs ! nat j))"

definition numeric :: "double list \<Rightarrow> bool" where
  "numeric xs \<longleftrightarrow> (\<forall>x\<in>set xs. \<not> is_nan x)"

lemma numeric_nth: "numeric xs \<Longrightarrow> 0 \<le> i \<Longrightarrow> i < int (length xs) \<Longrightarrow> \<not> is_nan (xs ! nat i)"
  by (simp add: numeric_def)

lemma numeric_mset: "mset xs = mset ys \<Longrightarrow> numeric xs \<longleftrightarrow> numeric ys"
  by (simp add: numeric_def) (metis mset_eq_setD)

lemma numeric_perm: "perm_within lo hi xs ys \<Longrightarrow> numeric ys \<longleftrightarrow> numeric xs"
  by (rule numeric_mset) (simp add: perm_within_def)

lemma desc_on_sorted:
  assumes "desc_on 0 (int (length xs) - 1) xs" and "numeric xs"
  shows "sorted_wrt (\<ge>) xs"
  unfolding sorted_wrt_iff_nth_less
proof (intro allI impI)
  fix i j assume ij: "i < j" "j < length xs"
  then have "dkey (xs ! j) \<le> dkey (xs ! i)"
    using assms(1) [unfolded desc_on_def, rule_format, of "int i" "int j"] by simp
  then show "xs ! i \<ge> xs ! j" using ij assms(2) by (simp add: less_eq_double_def numeric_def)
qed

lemma asc_on_sorted:
  assumes "asc_on 0 (int (length xs) - 1) xs" and "numeric xs"
  shows "sorted_wrt (\<le>) xs"
  unfolding sorted_wrt_iff_nth_less
proof (intro allI impI)
  fix i j assume ij: "i < j" "j < length xs"
  then have "dkey (xs ! i) \<le> dkey (xs ! j)"
    using assms(1) [unfolded asc_on_def, rule_format, of "int i" "int j"] by simp
  then show "xs ! i \<le> xs ! j" using ij assms(2) by (simp add: less_eq_double_def numeric_def)
qed

lemma desc_on_perm:
  assumes "perm_within lo' hi' xs ys" and "hi < lo' \<or> hi' < lo" and "desc_on lo hi xs" and "0 \<le> lo"
    and "hi < int (length xs)"
  shows "desc_on lo hi ys"
  using assms perm_within_outside [OF assms(1)] by (auto simp: desc_on_def)

text \<open>The whole array: what a sort of the range 0 to length - 1 gives.\<close>

lemma perm_within_sorted:
  assumes "perm_within lo hi xs ys"
  shows "mset ys = mset xs"
    and "numeric xs \<Longrightarrow> desc_on 0 (int (length xs) - 1) ys \<Longrightarrow> sorted_wrt (\<ge>) ys"
    and "numeric xs \<Longrightarrow> asc_on 0 (int (length xs) - 1) ys \<Longrightarrow> sorted_wrt (\<le>) ys"
  using assms desc_on_sorted [of ys] asc_on_sorted [of ys] numeric_perm [OF assms]
    perm_within_length [OF assms] by (simp_all add: perm_within_def)

text \<open>A range is sorted when its two parts are and every element of the first is at least every
  element of the second.\<close>

lemma desc_on_join:
  assumes "desc_on lo m xs" and "desc_on (m + 1) hi xs"
    and "\<And>i j. lo \<le> i \<Longrightarrow> i \<le> m \<Longrightarrow> m < j \<Longrightarrow> j \<le> hi \<Longrightarrow> dkey (xs ! nat j) \<le> dkey (xs ! nat i)"
  shows "desc_on lo hi xs"
  unfolding desc_on_def
proof (intro allI impI, elim conjE)
  fix i j assume ij: "lo \<le> i" "i < j" "j \<le> hi"
  show "dkey (xs ! nat j) \<le> dkey (xs ! nat i)"
    using assms ij by (cases "j \<le> m"; cases "i \<le> m") (auto simp: desc_on_def)
qed

section \<open>Lua tables of numbers\<close>

text \<open>A table passed to sort.c and table.c, as the code sees it: the entries 1 to objlen, each the
  number luaL_checknumber accepts there, or None where it raises an argument error.  The reading loop
  runs from 0 to len - 1 in size_t, so for an empty table it reads the entry 1 and raises too.\<close>

datatype lua_error = ArgumentError | Fatal string | Undefined

type_synonym lua_array = "double option list"

definition lua_gettable :: "lua_array \<Rightarrow> nat \<Rightarrow> double option" where
  "lua_gettable t i = (if 1 \<le> i \<and> i \<le> length t then t ! (i - 1) else None)"

text \<open>Every function on a table of numbers starts with the same loop: it reads entry i + 1 for i from
  0 to len - 1, and hands the number to a step that may fail.\<close>

definition size_dec :: "nat \<Rightarrow> nat" where
  "size_dec n = (if n = 0 then 2 ^ 64 - 1 else n - 1)"

function table_loop ::
  "(double \<Rightarrow> 's \<Rightarrow> lua_error + 's) \<Rightarrow> lua_array \<Rightarrow> nat \<Rightarrow> nat \<Rightarrow> 's \<Rightarrow> lua_error + 's" where
  "table_loop f t stop i s =
     (if i \<le> stop then
        (case lua_gettable t (i + 1) of
           None \<Rightarrow> Inl ArgumentError
         | Some x \<Rightarrow> (case f x s of Inl e \<Rightarrow> Inl e | Inr s' \<Rightarrow> table_loop f t stop (i + 1) s'))
      else Inr s)"
  by pat_completeness auto
termination
  by (relation "measure (\<lambda>(f, t, stop, i, s). length t - i)")
    (auto simp: lua_gettable_def split: if_splits)

declare table_loop.simps [simp del]

definition over_table :: "(double \<Rightarrow> 's \<Rightarrow> lua_error + 's) \<Rightarrow> lua_array \<Rightarrow> 's \<Rightarrow> lua_error + 's" where
  "over_table f t s = table_loop f t (size_dec (length t)) 0 s"

definition read_step :: "double \<Rightarrow> double list \<Rightarrow> lua_error + double list" where
  "read_step x nums = Inr (nums @ [x])"

definition read_table :: "lua_array \<Rightarrow> lua_error + double list" where
  "read_table t = over_table read_step t []"

text \<open>The reference: the steps over a list of numbers.\<close>

fun steps :: "(double \<Rightarrow> 's \<Rightarrow> lua_error + 's) \<Rightarrow> double list \<Rightarrow> 's \<Rightarrow> lua_error + 's" where
  "steps f [] s = Inr s"
| "steps f (x # xs) s = (case f x s of Inl e \<Rightarrow> Inl e | Inr s' \<Rightarrow> steps f xs s')"

lemma size_dec_le: "i < n \<Longrightarrow> i \<le> size_dec n"
  by (simp add: size_dec_def)

lemma table_loop_steps:
  assumes "i + length xs = length t" and "drop i t = map Some xs" and "t \<noteq> []"
  shows "table_loop f t (size_dec (length t)) i s = steps f xs s"
  using assms
proof (induction xs arbitrary: i s)
  case Nil
  then show ?case by (subst table_loop.simps) (cases t; simp add: size_dec_def)
next
  case (Cons x xs)
  have i: "i < length t" using Cons.prems(1) by simp
  have x: "lua_gettable t (i + 1) = Some x" and rest: "drop (i + 1) t = map Some xs"
    using Cons.prems(2) i by (simp_all add: Cons_nth_drop_Suc [symmetric] lua_gettable_def)
  have ih: "table_loop f t (size_dec (length t)) (i + 1) s' = steps f xs s'" for s'
    using Cons.prems rest by (intro Cons.IH) simp_all
  show ?case
    by (subst table_loop.simps) (simp add: size_dec_le [OF i] x [simplified] ih ih [simplified] split: sum.split)
qed

lemma over_table_numbers: "xs \<noteq> [] \<Longrightarrow> over_table f (map Some xs) s = steps f xs s"
  unfolding over_table_def by (rule table_loop_steps) simp_all

lemma over_table_empty: "over_table f [] s = Inl ArgumentError"
  by (simp add: over_table_def table_loop.simps lua_gettable_def)

text \<open>A step that never fails leaves the argument error of the first entry that is no number.\<close>

lemma table_loop_error:
  assumes "None \<in> set (drop i t)" and "\<And>x s. \<exists>s'. f x s = Inr s'"
  shows "table_loop f t (size_dec (length t)) i s = Inl ArgumentError"
  using assms(1)
proof (induction "length t - i" arbitrary: i s rule: less_induct)
  case less
  have i: "i < length t" using less.prems by (metis drop_all not_le empty_iff list.set(1))
  show ?case
  proof (cases "t ! i")
    case None
    then show ?thesis using i by (subst table_loop.simps) (simp add: size_dec_le lua_gettable_def)
  next
    case (Some x)
    obtain s' where s': "f x s = Inr s'" using assms(2) by blast
    have "None \<in> set (drop (i + 1) t)" using less.prems i Some
      by (auto simp: Cons_nth_drop_Suc [symmetric])
    then have "table_loop f t (size_dec (length t)) (i + 1) s' = Inl ArgumentError"
      using i by (intro less.hyps) simp_all
    then show ?thesis using i Some s'
      by (subst table_loop.simps) (simp add: size_dec_le lua_gettable_def)
  qed
qed

lemma over_table_error:
  "None \<in> set t \<Longrightarrow> (\<And>x s. \<exists>s'. f x s = Inr s') \<Longrightarrow> over_table f t s = Inl ArgumentError"
  unfolding over_table_def by (rule table_loop_error) simp_all

lemma steps_read: "steps read_step xs nums = Inr (nums @ xs)"
  by (induction xs arbitrary: nums) (simp_all add: read_step_def)

lemma read_table_numbers: "xs \<noteq> [] \<Longrightarrow> read_table (map Some xs) = Inr xs"
  by (simp add: read_table_def over_table_numbers steps_read)

lemma read_table_empty: "read_table [] = Inl ArgumentError"
  by (simp add: read_table_def over_table_empty)

lemma read_table_error: "None \<in> set t \<Longrightarrow> read_table t = Inl ArgumentError"
  unfolding read_table_def by (rule over_table_error) (simp_all add: read_step_def)

lemma all_Some: "None \<notin> set t \<Longrightarrow> \<exists>xs. t = map Some xs"
proof (induction t)
  case (Cons a t)
  then obtain x xs where "a = Some x" "t = map Some xs" by (cases a) auto
  then have "a # t = map Some (x # xs)" by simp
  then show ?case by (rule exI)
qed simp

text \<open>Every table is either read completely or raises the argument error.\<close>

lemma read_table_cases:
  obtains (numbers) xs where "t = map Some xs" and "xs \<noteq> []" and "read_table t = Inr xs"
  | (error) "t = [] \<or> None \<in> set t" and "read_table t = Inl ArgumentError"
proof (cases "t = [] \<or> None \<in> set t")
  case True
  then show ?thesis using read_table_empty read_table_error error by blast
next
  case False
  then show ?thesis using all_Some [of t] numbers read_table_numbers by auto
qed

text \<open>A sort as a Lua function: read, sort in place, push.\<close>

definition on_table :: "(double list \<Rightarrow> 'a list option) \<Rightarrow> lua_array \<Rightarrow> lua_error + 'a list" where
  "on_table f t = (case read_table t of
     Inl e \<Rightarrow> Inl e
   | Inr nums \<Rightarrow> (case f nums of None \<Rightarrow> Inl Undefined | Some out \<Rightarrow> Inr out))"

lemma on_table_error: "t = [] \<or> None \<in> set t \<Longrightarrow> on_table f t = Inl ArgumentError"
  using read_table_empty read_table_error by (auto simp: on_table_def)

lemma on_table_numbers:
  "xs \<noteq> [] \<Longrightarrow> f xs = Some ys \<Longrightarrow> on_table f (map Some xs) = Inr ys"
  by (simp add: on_table_def read_table_numbers)

section \<open>The contract of a sort\<close>

text \<open>What the table functions promise: on every array that fits, NaN included, the sort returns a
  permutation, and on numbers it is sorted from the greatest to the least.\<close>

locale lua_sort =
  fixes srt :: "double list \<Rightarrow> double list option" and fits :: "nat \<Rightarrow> bool"
  assumes runs: "fits (length xs) \<Longrightarrow>
    \<exists>ys. srt xs = Some ys \<and> mset ys = mset xs \<and> (numeric xs \<longrightarrow> sorted_wrt (\<ge>) ys)"
begin

lemma keys:
  assumes "fits (length xs)" and "numeric xs" and "srt xs = Some ys"
  shows "map dkey ys = rev (sort (map dkey xs))"
proof -
  have ys: "mset ys = mset xs" "sorted_wrt (\<ge>) ys" using runs [OF assms(1)] assms(2,3) by auto
  then have "numeric ys" using assms(2) numeric_mset by blast
  then have "sorted (rev (map dkey ys))"
    using ys(2) double_order.sorted_wrt_keys_down [of ys] by (simp add: numeric_def)
  moreover have "mset (rev (map dkey ys)) = mset (map dkey xs)" using ys(1) by simp
  ultimately have "sort (map dkey xs) = rev (map dkey ys)" by (rule properties_for_sort [rotated])
  then show ?thesis by simp
qed

lemma on_numbers:
  assumes "fits (length xs)" and "xs \<noteq> []"
  shows "\<exists>ys. on_table srt (map Some xs) = Inr ys \<and> mset ys = mset xs
    \<and> (numeric xs \<longrightarrow> map dkey ys = rev (sort (map dkey xs)))"
  using runs [OF assms(1)] keys [OF assms(1)] on_table_numbers [OF assms(2), of srt] by blast

lemma on_error: "t = [] \<or> None \<in> set t \<Longrightarrow> on_table srt t = Inl ArgumentError"
  by (rule on_table_error)

text \<open>Two sorts that keep the contract agree up to the sign of zero.\<close>

lemma agrees:
  assumes "lua_sort srt' fits" and "fits (length xs)" and "numeric xs"
  shows "map_option (map dkey) (srt' xs) = map_option (map dkey) (srt xs)"
  using lua_sort.runs [OF assms(1,2)] runs [OF assms(2)]
    lua_sort.keys [OF assms(1,2,3)] keys [OF assms(2,3)] by fastforce

end

definition int_sized :: "nat \<Rightarrow> bool" where
  "int_sized n \<longleftrightarrow> n < 2 ^ 30"

end
