(* ===== verification/Quicksort.thy ===== *)
theory Quicksort
  imports IntArrays
begin

text \<open>
  \<open>i_hoarepartition\<close>, \<open>i_quicksort\<close> and \<open>l_quicksort\<close> of \<open>src/src/sort.c\<close>.  The scans stop inside
  the range for every content, NaN included, because the pivot or a swapped element stops them; the
  index returned splits the range properly, so the recursion ends.  On numbers the parts are
  separated by the pivot, and the result is sorted from the greatest to the least.
\<close>

section \<open>The partition\<close>

function scan_up :: "double list \<Rightarrow> double \<Rightarrow> int \<Rightarrow> int option" where
  "scan_up arr pivot i = (case a_load arr i of
     None \<Rightarrow> None
   | Some x \<Rightarrow> if x > pivot then scan_up arr pivot (i + 1) else Some i)"
  by pat_completeness auto
termination
  by (relation "measure (\<lambda>(arr, pivot, i). nat (int (length arr) - i))")
    (auto dest: a_load_range)

function scan_down :: "double list \<Rightarrow> double \<Rightarrow> int \<Rightarrow> int option" where
  "scan_down arr pivot j = (case a_load arr j of
     None \<Rightarrow> None
   | Some x \<Rightarrow> if x < pivot then scan_down arr pivot (j - 1) else Some j)"
  by pat_completeness auto
termination
  by (relation "measure (\<lambda>(arr, pivot, j). nat (j + 1))") (auto dest: a_load_range)

declare scan_up.simps [simp del] scan_down.simps [simp del]

lemma scan_up_Some:
  "scan_up arr pivot i = Some k \<Longrightarrow> i \<le> k \<and> 0 \<le> i \<and> k < int (length arr) \<and> \<not> arr ! nat k > pivot
     \<and> (\<forall>m. i \<le> m \<and> m < k \<longrightarrow> arr ! nat m > pivot)"
proof (induction arr pivot i rule: scan_up.induct)
  case (1 arr pivot i)
  obtain x where x: "a_load arr i = Some x"
    using "1.prems" by (subst (asm) scan_up.simps) (auto split: option.splits)
  note r = a_load_range [OF x]
  show ?case
  proof (cases "x > pivot")
    case True
    then have "scan_up arr pivot (i + 1) = Some k"
      using "1.prems" x by (subst (asm) scan_up.simps) simp
    with "1.IH" [OF x True] have ih: "i + 1 \<le> k" "k < int (length arr)" "\<not> arr ! nat k > pivot"
      "\<And>m. i + 1 \<le> m \<Longrightarrow> m < k \<Longrightarrow> arr ! nat m > pivot" by auto
    have "arr ! nat m > pivot" if "i \<le> m" "m < k" for m
      using that ih(4) [of m] True r by (cases "m = i") auto
    then show ?thesis using ih r by simp
  next
    case False
    then have "k = i" using "1.prems" x by (subst (asm) scan_up.simps) simp
    then show ?thesis using False r by auto
  qed
qed

lemma scan_down_Some:
  "scan_down arr pivot j = Some k \<Longrightarrow> k \<le> j \<and> 0 \<le> k \<and> j < int (length arr) \<and> \<not> arr ! nat k < pivot
     \<and> (\<forall>m. k < m \<and> m \<le> j \<longrightarrow> arr ! nat m < pivot)"
proof (induction arr pivot j rule: scan_down.induct)
  case (1 arr pivot j)
  obtain x where x: "a_load arr j = Some x"
    using "1.prems" by (subst (asm) scan_down.simps) (auto split: option.splits)
  note r = a_load_range [OF x]
  show ?case
  proof (cases "x < pivot")
    case True
    then have "scan_down arr pivot (j - 1) = Some k"
      using "1.prems" x by (subst (asm) scan_down.simps) simp
    with "1.IH" [OF x True] have ih: "k \<le> j - 1" "0 \<le> k" "\<not> arr ! nat k < pivot"
      "\<And>m. k < m \<Longrightarrow> m \<le> j - 1 \<Longrightarrow> arr ! nat m < pivot" by auto
    have "arr ! nat m < pivot" if "k < m" "m \<le> j" for m
      using that ih(4) [of m] True r by (cases "m = j") auto
    then show ?thesis using ih r by simp
  next
    case False
    then have "k = j" using "1.prems" x by (subst (asm) scan_down.simps) simp
    then show ?thesis using False r by auto
  qed
qed

text \<open>A scan that has an element to stop it stays inside the array.\<close>

lemma scan_up_stops:
  assumes "0 \<le> i" and "i \<le> k" and "k < int (length arr)" and "\<not> arr ! nat k > pivot"
  obtains m where "scan_up arr pivot i = Some m" and "m \<le> k"
proof -
  have "\<exists>m. scan_up arr pivot i = Some m \<and> m \<le> k"
    using assms
  proof (induction "nat (k - i)" arbitrary: i)
    case 0
    then have "i = k" by simp
    then show ?case using 0 by (subst scan_up.simps) (simp add: c_arr)
  next
    case (Suc n)
    show ?case
    proof (cases "arr ! nat i > pivot")
      case True
      then have "\<exists>m. scan_up arr pivot (i + 1) = Some m \<and> m \<le> k"
        using Suc.hyps(2) Suc.prems by (intro Suc.hyps(1)) simp_all
      then show ?thesis using True Suc.prems by (subst scan_up.simps) (simp add: c_arr)
    next
      case False
      then show ?thesis using Suc.prems by (subst scan_up.simps) (simp add: c_arr)
    qed
  qed
  then show ?thesis using that by blast
qed

lemma scan_down_stops:
  assumes "j < int (length arr)" and "0 \<le> k" and "k \<le> j" and "\<not> arr ! nat k < pivot"
  obtains m where "scan_down arr pivot j = Some m" and "k \<le> m"
proof -
  have "\<exists>m. scan_down arr pivot j = Some m \<and> k \<le> m"
    using assms
  proof (induction "nat (j - k)" arbitrary: j)
    case 0
    then have "j = k" by simp
    then show ?case using 0 by (subst scan_down.simps) (simp add: c_arr)
  next
    case (Suc n)
    show ?case
    proof (cases "arr ! nat j < pivot")
      case True
      then have "\<exists>m. scan_down arr pivot (j - 1) = Some m \<and> k \<le> m"
        using Suc.hyps(2) Suc.prems by (intro Suc.hyps(1)) simp_all
      then show ?thesis using True Suc.prems by (subst scan_down.simps) (simp add: c_arr)
    next
      case False
      then show ?thesis using Suc.prems by (subst scan_down.simps) (simp add: c_arr)
    qed
  qed
  then show ?thesis using that by blast
qed

function hoare_loop :: "double list \<Rightarrow> double \<Rightarrow> int \<Rightarrow> int \<Rightarrow> (int \<times> double list) option" where
  "hoare_loop arr pivot i j = (case scan_up arr pivot (i + 1) of
     None \<Rightarrow> None
   | Some i' \<Rightarrow> (case scan_down arr pivot (j - 1) of
       None \<Rightarrow> None
     | Some j' \<Rightarrow> if i' \<ge> j' then Some (j', arr)
         else (case i_swap arr i' j' of None \<Rightarrow> None | Some arr' \<Rightarrow> hoare_loop arr' pivot i' j')))"
  by pat_completeness auto
termination
  by (relation "measure (\<lambda>(arr, pivot, i, j). nat (int (length arr) - i))")
    (auto dest!: scan_up_Some dest: i_swap_length)

declare hoare_loop.simps [simp del]

definition i_hoarepartition :: "double list \<Rightarrow> int \<Rightarrow> int \<Rightarrow> (int \<times> double list) option" where
  "i_hoarepartition arr low high = (case a_load arr ((high - low) sdiv 2 + low) of
     None \<Rightarrow> None
   | Some pivot \<Rightarrow> hoare_loop arr pivot (low - 1) (high + 1))"

text \<open>The loop keeps: a stopper ahead of each index, and the elements passed are on their side of the
  pivot.\<close>

lemma hoare_loop_correct:
  assumes "0 \<le> low" "high < int (length arr)" "low - 1 \<le> i" "i < j" "j \<le> high + 1"
    and up: "\<exists>k. i < k \<and> k \<le> high \<and> \<not> arr ! nat k > pivot \<and> (j \<le> high \<or> k < high)"
    and down: "\<exists>k. low \<le> k \<and> k < j \<and> \<not> arr ! nat k < pivot"
    and left: "\<And>k. low \<le> k \<Longrightarrow> k \<le> i \<Longrightarrow> \<not> arr ! nat k < pivot"
    and right: "\<And>k. j \<le> k \<Longrightarrow> k \<le> high \<Longrightarrow> \<not> arr ! nat k > pivot"
  shows "\<exists>p arr'. hoare_loop arr pivot i j = Some (p, arr') \<and> low \<le> p \<and> p < high
    \<and> perm_within low high arr arr'
    \<and> (\<forall>k. low \<le> k \<and> k \<le> p \<longrightarrow> \<not> arr' ! nat k < pivot)
    \<and> (\<forall>k. p < k \<and> k \<le> high \<longrightarrow> \<not> arr' ! nat k > pivot)"
  using assms
proof (induction "nat (int (length arr) - i)" arbitrary: arr i j rule: less_induct)
  case less
  obtain ku where ku: "i < ku" "ku \<le> high" "\<not> arr ! nat ku > pivot" "j \<le> high \<or> ku < high"
    using less.prems(6) by blast
  obtain kd where kd: "low \<le> kd" "kd < j" "\<not> arr ! nat kd < pivot" using less.prems(7) by blast
  obtain i' where i': "scan_up arr pivot (i + 1) = Some i'" "i' \<le> ku"
    by (rule scan_up_stops [of "i + 1" ku arr pivot]) (use ku less.prems in simp_all)
  obtain j' where j': "scan_down arr pivot (j - 1) = Some j'" "kd \<le> j'"
    by (rule scan_down_stops [of "j - 1" arr kd pivot]) (use kd less.prems in simp_all)
  note up = scan_up_Some [OF i'(1)] and down = scan_down_Some [OF j'(1)]
  have passed_left: "\<not> arr ! nat k < pivot" if "low \<le> k" "k < i'" for k
    using that less.prems(8) [of k] up double_less_asym by (cases "k \<le> i") auto
  have passed_right: "\<not> arr ! nat k > pivot" if "j' < k" "k \<le> high" for k
    using that less.prems(9) [of k] down double_less_asym by (cases "j \<le> k") auto
  show ?case
  proof (cases "i' \<ge> j'")
    case True
    have "j' < high" using ku(4) i'(2) True down less.prems(5) by auto
    moreover have "\<not> arr ! nat k < pivot" if "low \<le> k" "k \<le> j'" for k
      using that True down passed_left [of k] by (cases "k = j'") auto
    ultimately show ?thesis
      using True i' j' kd(1) passed_right
      by (intro exI [of _ j'] exI [of _ arr]) (simp add: hoare_loop.simps [of arr pivot i j])
  next
    case False
    let ?arr = "arr[nat i' := arr ! nat j', nat j' := arr ! nat i']"
    have ij: "low \<le> i'" "i' < j'" "j' \<le> high" "0 \<le> i'" "j' < int (length arr)"
      using up down False less.prems by auto
    have at: "?arr ! nat i' = arr ! nat j'" "?arr ! nat j' = arr ! nat i'"
      "\<And>k. 0 \<le> k \<Longrightarrow> k \<noteq> i' \<Longrightarrow> k \<noteq> j' \<Longrightarrow> ?arr ! nat k = arr ! nat k"
      using ij by (auto simp: nth_list_update)
    have step: "\<exists>p arr'. hoare_loop ?arr pivot i' j' = Some (p, arr') \<and> low \<le> p \<and> p < high
        \<and> perm_within low high ?arr arr'
        \<and> (\<forall>k. low \<le> k \<and> k \<le> p \<longrightarrow> \<not> arr' ! nat k < pivot)
        \<and> (\<forall>k. p < k \<and> k \<le> high \<longrightarrow> \<not> arr' ! nat k > pivot)"
    proof (rule less.hyps)
      show "nat (int (length ?arr) - i') < nat (int (length arr) - i)" using up ij by simp
      show "\<exists>k>i'. k \<le> high \<and> \<not> pivot < ?arr ! nat k \<and> (j' \<le> high \<or> k < high)"
        using ij at up by (intro exI [of _ j']) simp
      show "\<exists>k\<ge>low. k < j' \<and> \<not> ?arr ! nat k < pivot"
        using ij at down by (intro exI [of _ i']) simp
      show "\<not> ?arr ! nat k < pivot" if "low \<le> k" "k \<le> i'" for k
        using that ij at down passed_left [of k] less.prems(1) by (cases "k = i'") auto
      show "\<not> pivot < ?arr ! nat k" if "j' \<le> k" "k \<le> high" for k
        using that ij at up passed_right [of k] less.prems(1) by (cases "k = j'") auto
    qed (use ij less.prems in simp_all)
    have swap: "perm_within low high arr ?arr" using ij less.prems by (intro perm_within_swap) simp_all
    have "i_swap arr i' j' = Some ?arr" using ij by (intro i_swap_Some) simp_all
    then have "hoare_loop arr pivot i j = hoare_loop ?arr pivot i' j'"
      using False i'(1) j'(1) by (subst hoare_loop.simps) simp
    then show ?thesis using step perm_within_trans [OF swap] by metis
  qed
qed

lemma i_hoarepartition_correct:
  assumes "0 \<le> low" "low < high" "high < int (length arr)"
  obtains p arr' pivot where "i_hoarepartition arr low high = Some (p, arr')" "low \<le> p" "p < high"
    "perm_within low high arr arr'"
    "\<And>k. low \<le> k \<Longrightarrow> k \<le> p \<Longrightarrow> \<not> arr' ! nat k < pivot"
    "\<And>k. p < k \<Longrightarrow> k \<le> high \<Longrightarrow> \<not> arr' ! nat k > pivot"
    "pivot = arr ! nat ((high - low) div 2 + low)"
proof -
  let ?m = "(high - low) div 2 + low"
  let ?pivot = "arr ! nat ?m"
  have m: "low \<le> ?m" "?m < high" using assms by simp_all
  have sdiv: "(high - low) sdiv 2 + low = ?m" using assms by (simp add: signed_divide_int_def)
  have "\<exists>p arr'. hoare_loop arr ?pivot (low - 1) (high + 1) = Some (p, arr') \<and> low \<le> p \<and> p < high
      \<and> perm_within low high arr arr'
      \<and> (\<forall>k. low \<le> k \<and> k \<le> p \<longrightarrow> \<not> arr' ! nat k < ?pivot)
      \<and> (\<forall>k. p < k \<and> k \<le> high \<longrightarrow> \<not> arr' ! nat k > ?pivot)"
  proof (rule hoare_loop_correct)
    show "\<exists>k>low - 1. k \<le> high \<and> \<not> ?pivot < arr ! nat k \<and> (high + 1 \<le> high \<or> k < high)"
      using m by (intro exI [of _ ?m]) simp
    show "\<exists>k\<ge>low. k < high + 1 \<and> \<not> arr ! nat k < ?pivot"
      using m by (intro exI [of _ ?m]) simp
  qed (use assms in simp_all)
  then obtain p arr' where "hoare_loop arr ?pivot (low - 1) (high + 1) = Some (p, arr')"
    and p: "low \<le> p" "p < high" "perm_within low high arr arr'"
      "\<And>k. low \<le> k \<Longrightarrow> k \<le> p \<Longrightarrow> \<not> arr' ! nat k < ?pivot"
      "\<And>k. p < k \<Longrightarrow> k \<le> high \<Longrightarrow> \<not> arr' ! nat k > ?pivot" by blast
  moreover have "a_load arr ((high - low) sdiv 2 + low) = Some ?pivot"
    unfolding sdiv using m assms by (intro a_load_Some) linarith+
  ultimately have "i_hoarepartition arr low high = Some (p, arr')" by (simp add: i_hoarepartition_def)
  then show ?thesis by (rule that [OF _ p refl])
qed

section \<open>The sort\<close>

partial_function (option) i_quicksort :: "double list \<Rightarrow> int \<Rightarrow> int \<Rightarrow> double list option" where
  "i_quicksort arr low high =
     (if low \<ge> 0 \<and> high \<ge> 0 \<and> low < high then
        Option.bind (i_hoarepartition arr low high) (\<lambda>(p, arr).
        Option.bind (i_quicksort arr low p) (\<lambda>arr.
        i_quicksort arr (p + 1) high))
      else Some arr)"

definition l_quicksort :: "lua_array \<Rightarrow> lua_error + double list" where
  "l_quicksort t = on_table (\<lambda>nums. i_quicksort nums 0 (int (length nums) - 1)) t"

text \<open>Two sorted parts separated by a pivot make a sorted range.\<close>

lemma perm_within_parts:
  assumes "perm_within low high a0 a1" "perm_within low p a1 a2" "perm_within (p + 1) high a2 a3"
    and "low \<le> p" "p < high"
  shows "perm_within low high a0 a3"
proof -
  have "perm_within low high a1 a2" using assms(2,5) by (elim perm_within_mono) simp_all
  moreover have "perm_within low high a2 a3" using assms(3,4) by (elim perm_within_mono) simp_all
  ultimately show ?thesis using assms(1) perm_within_trans by metis
qed

lemma pivot_parts:
  assumes perm2: "perm_within low p a1 a2" and perm3: "perm_within (p + 1) high a2 a3"
    and range: "0 \<le> low" "low \<le> p" "p < high" "high < int (length a1)"
    and left: "\<And>k. low \<le> k \<Longrightarrow> k \<le> p \<Longrightarrow> \<not> a1 ! nat k < (pivot :: double)"
    and right: "\<And>k. p < k \<Longrightarrow> k \<le> high \<Longrightarrow> \<not> a1 ! nat k > pivot"
  shows "low \<le> k \<Longrightarrow> k \<le> p \<Longrightarrow> \<not> a3 ! nat k < pivot"
    and "p < k \<Longrightarrow> k \<le> high \<Longrightarrow> \<not> a3 ! nat k > pivot"
proof -
  note len2 = perm_within_length [OF perm2]
  assume k: "low \<le> k" "k \<le> p"
  have "\<not> a2 ! nat k < pivot"
    by (rule perm_within_all [OF perm2, where P = "\<lambda>x. \<not> x < pivot"]) (use range left k in simp_all)
  moreover have "a3 ! nat k = a2 ! nat k"
    by (rule perm_within_outside [OF perm3]) (use range k len2 in simp_all)
  ultimately show "\<not> a3 ! nat k < pivot" by simp
next
  note len2 = perm_within_length [OF perm2]
  assume k: "p < k" "k \<le> high"
  have "\<not> a2 ! nat m > pivot" if "p < m" "m \<le> high" for m
  proof -
    have "a2 ! nat m = a1 ! nat m"
      by (rule perm_within_outside [OF perm2]) (use range that in simp_all)
    then show ?thesis using right [OF that] by simp
  qed
  then show "\<not> a3 ! nat k > pivot"
    by (intro perm_within_all [OF perm3, where P = "\<lambda>x. \<not> x > pivot"]) (use range k len2 in simp_all)
qed

lemma pivot_desc:
  assumes "numeric a3" and "\<not> is_nan pivot" and "0 \<le> low" "high < int (length a3)"
    and "desc_on low p a3" "desc_on (p + 1) high a3"
    and left: "\<And>k. low \<le> k \<Longrightarrow> k \<le> p \<Longrightarrow> \<not> a3 ! nat k < pivot"
    and right: "\<And>k. p < k \<Longrightarrow> k \<le> high \<Longrightarrow> \<not> a3 ! nat k > pivot"
  shows "desc_on low high a3"
proof (rule desc_on_join [OF assms(5,6)])
  fix i j assume ij: "low \<le> i" "i \<le> p" "p < j" "j \<le> high"
  have "\<not> is_nan (a3 ! nat i)" "\<not> is_nan (a3 ! nat j)"
    by (rule numeric_nth; use assms ij in simp)+
  then show "dkey (a3 ! nat j) \<le> dkey (a3 ! nat i)"
    using left [OF ij(1,2)] right [OF ij(3,4)] assms(2) by (simp add: less_number)
qed

text \<open>For every content the recursion ends, stays inside the array and permutes the range.\<close>

lemma i_quicksort_perm:
  assumes "0 \<le> low" and "high < int (length arr)"
  shows "\<exists>arr'. i_quicksort arr low high = Some arr' \<and> perm_within low high arr arr'
    \<and> (numeric arr \<longrightarrow> desc_on low high arr')"
  using assms
proof (induction "nat (high - low)" arbitrary: arr low high rule: less_induct)
  case less
  show ?case
  proof (cases "low < high")
    case False
    then show ?thesis by (subst i_quicksort.simps) (simp add: desc_on_def)
  next
    case True
    obtain p a1 pivot where p: "i_hoarepartition arr low high = Some (p, a1)" "low \<le> p" "p < high"
      and perm1: "perm_within low high arr a1"
      and left: "\<And>k. low \<le> k \<Longrightarrow> k \<le> p \<Longrightarrow> \<not> a1 ! nat k < pivot"
      and right: "\<And>k. p < k \<Longrightarrow> k \<le> high \<Longrightarrow> \<not> a1 ! nat k > pivot"
      and pivot: "pivot = arr ! nat ((high - low) div 2 + low)"
      using i_hoarepartition_correct [OF less.prems(1) True less.prems(2)] by blast
    have high: "high < int (length a1)" using perm_within_length [OF perm1] less.prems(2) by simp
    obtain a2 where a2: "i_quicksort a1 low p = Some a2" "perm_within low p a1 a2"
      "numeric a1 \<longrightarrow> desc_on low p a2"
      using less.hyps [of p low a1] less.prems(1) p high by auto
    obtain a3 where a3: "i_quicksort a2 (p + 1) high = Some a3" "perm_within (p + 1) high a2 a3"
      "numeric a2 \<longrightarrow> desc_on (p + 1) high a3"
      using less.hyps [of high "p + 1" a2] less.prems(1) p high perm_within_length [OF a2(2)] by auto
    have run: "i_quicksort arr low high = Some a3"
      using True less.prems(1) p(1) a2(1) a3(1) by (subst i_quicksort.simps) simp
    have perm: "perm_within low high arr a3"
      using perm1 a2(2) a3(2) p(2,3) by (rule perm_within_parts)
    have "desc_on low high a3" if num: "numeric arr"
    proof (rule pivot_desc)
      have nums: "numeric a1" "numeric a2" "numeric a3"
        using num numeric_perm [OF perm1] numeric_perm [OF a2(2)] numeric_perm [OF a3(2)] by blast+
      then show "numeric a3" "desc_on (p + 1) high a3" using a3(3) by blast+
      show "\<not> is_nan pivot" unfolding pivot
        by (rule numeric_nth [OF num]) (use True less.prems in simp_all)
      show "desc_on low p a3"
        by (rule desc_on_perm [OF a3(2)])
          (use a2(3) nums less.prems(1) p high perm_within_length [OF a2(2)] in simp_all)
      show "high < int (length a3)"
        using high perm_within_length [OF a2(2)] perm_within_length [OF a3(2)] by simp
    qed (use less.prems(1) pivot_parts [OF a2(2) a3(2) less.prems(1) p(2,3) high left right] in blast)+
    then show ?thesis using run perm by blast
  qed
qed

lemma quicksort_runs:
  "\<exists>ys. i_quicksort xs 0 (int (length xs) - 1) = Some ys \<and> mset ys = mset xs
    \<and> (numeric xs \<longrightarrow> sorted_wrt (\<ge>) ys)"
  using i_quicksort_perm [of 0 "int (length xs) - 1" xs] perm_within_sorted by auto

interpretation quick_s: lua_sort "\<lambda>nums. i_quicksort nums 0 (int (length nums) - 1)" int_sized
  by unfold_locales (simp add: quicksort_runs int_sized_def)

end
