(* ===== verification/Mergesort.thy ===== *)
theory Mergesort
  imports IntArrays "HOL-Library.Monad_Syntax"
begin

text \<open>
  \<open>i_merge\<close>, \<open>i_mergesort\<close> and \<open>l_mergesort\<close> of \<open>src/src/sort.c\<close>.  The three copying loops of
  the merge are shown to write the merge of the two copied runs (the reference \<open>merge_desc\<close>) over
  the range; the recursion then permutes its range for every content and sorts numbers from the
  greatest to the least.  The midpoint (b + e) / 2 is computed in int, so the sort is defined for
  arrays of at most 2^30 elements.
\<close>

section \<open>The merge\<close>

fun copy_range :: "double list \<Rightarrow> int \<Rightarrow> nat \<Rightarrow> double list option" where
  "copy_range arr b 0 = Some []"
| "copy_range arr b (Suc n) = do {
     x \<leftarrow> a_load arr b;
     xs \<leftarrow> copy_range arr (b + 1) n;
     Some (x # xs)
   }"

function merge_both ::
  "double list \<Rightarrow> double list \<Rightarrow> double list \<Rightarrow> nat \<Rightarrow> nat \<Rightarrow> int \<Rightarrow> (double list \<times> nat \<times> nat \<times> int) option" where
  "merge_both arr left right l r k =
     (if l < length left \<and> r < length right then
        (if left ! l \<ge> right ! r
         then Option.bind (a_store arr k (left ! l)) (\<lambda>arr. merge_both arr left right (l + 1) r (k + 1))
         else Option.bind (a_store arr k (right ! r)) (\<lambda>arr. merge_both arr left right l (r + 1) (k + 1)))
      else Some (arr, l, r, k))"
  by pat_completeness auto
termination
  by (relation "measure (\<lambda>(arr, left, right, l, r, k). length left + length right - l - r)") auto

function merge_rest :: "double list \<Rightarrow> double list \<Rightarrow> nat \<Rightarrow> int \<Rightarrow> (double list \<times> int) option" where
  "merge_rest arr src i k =
     (if i < length src
      then Option.bind (a_store arr k (src ! i)) (\<lambda>arr. merge_rest arr src (i + 1) (k + 1))
      else Some (arr, k))"
  by pat_completeness auto
termination
  by (relation "measure (\<lambda>(arr, src, i, k). length src - i)") auto

declare merge_both.simps [simp del] merge_rest.simps [simp del]

definition i_merge :: "double list \<Rightarrow> int \<Rightarrow> int \<Rightarrow> int \<Rightarrow> double list option" where
  "i_merge arr b m e = do {
     left \<leftarrow> copy_range arr b (nat (m - b + 1));
     right \<leftarrow> copy_range arr (m + 1) (nat (e - m));
     (arr, l, r, k) \<leftarrow> merge_both arr left right 0 0 b;
     (arr, k) \<leftarrow> merge_rest arr left l k;
     (arr, k) \<leftarrow> merge_rest arr right r k;
     Some arr
   }"

partial_function (option) i_mergesort :: "double list \<Rightarrow> int \<Rightarrow> int \<Rightarrow> double list option" where
  "i_mergesort arr b e =
     (if b < e then
        Option.bind (c_int (b + e)) (\<lambda>s.
        let mid = s sdiv 2 in
        Option.bind (i_mergesort arr b mid) (\<lambda>arr.
        Option.bind (i_mergesort arr (mid + 1) e) (\<lambda>arr.
        i_merge arr b mid e)))
      else Some arr)"

definition l_mergesort :: "lua_array \<Rightarrow> lua_error + double list" where
  "l_mergesort t = on_table (\<lambda>nums. i_mergesort nums 0 (int (length nums) - 1)) t"

text \<open>The reference merge.\<close>

fun merge_desc :: "double list \<Rightarrow> double list \<Rightarrow> double list" where
  "merge_desc (x # xs) (y # ys) =
     (if x \<ge> y then x # merge_desc xs (y # ys) else y # merge_desc (x # xs) ys)"
| "merge_desc xs [] = xs"
| "merge_desc [] ys = ys"

lemma merge_desc_Nil [simp]: "merge_desc [] ys = ys"
  by (cases ys) simp_all

lemma mset_merge_desc: "mset (merge_desc xs ys) = mset xs + mset ys"
  by (induction xs ys rule: merge_desc.induct) simp_all

lemma length_merge_desc: "length (merge_desc xs ys) = length xs + length ys"
  by (metis mset_merge_desc size_mset size_union)

lemma set_merge_desc: "set (merge_desc xs ys) = set xs \<union> set ys"
  by (metis mset_merge_desc set_mset_mset set_mset_union)

lemma sorted_merge_desc:
  assumes "sorted_wrt (\<lambda>x y. dkey y \<le> dkey x) xs" and "sorted_wrt (\<lambda>x y. dkey y \<le> dkey x) ys"
    and "numeric xs" and "numeric ys"
  shows "sorted_wrt (\<lambda>x y. dkey y \<le> dkey x) (merge_desc xs ys)"
  using assms
  by (induction xs ys rule: merge_desc.induct)
    (fastforce simp: set_merge_desc numeric_def less_eq_double_def)+

text \<open>Writing a list into an array from an index on.\<close>

definition write_at :: "double list \<Rightarrow> int \<Rightarrow> double list \<Rightarrow> double list" where
  "write_at arr k ys = take (nat k) arr @ ys @ drop (nat k + length ys) arr"

lemma write_at_Nil [simp]: "write_at arr k [] = arr"
  by (simp add: write_at_def)

lemma write_at_Cons:
  assumes "0 \<le> k" and "nat k + length ys < length arr"
  shows "write_at (arr[nat k := y]) (k + 1) ys = write_at arr k (y # ys)"
proof -
  have "nat (k + 1) = Suc (nat k)" using assms(1) by simp
  then show ?thesis using assms by (simp add: write_at_def take_Suc_conv_app_nth)
qed

lemma merge_rest_write:
  "0 \<le> k \<Longrightarrow> nat k + (length src - i) \<le> length arr \<Longrightarrow>
   merge_rest arr src i k = Some (write_at arr k (drop i src), k + int (length src - i))"
proof (induction arr src i k rule: merge_rest.induct)
  case (1 arr src i k)
  show ?case
  proof (cases "i < length src")
    case True
    then have k: "k < int (length arr)" using "1.prems" by simp
    have "merge_rest arr src i k = merge_rest (arr[nat k := src ! i]) src (i + 1) (k + 1)"
      using True k "1.prems"(1) by (subst merge_rest.simps) (simp add: c_arr)
    also have "\<dots> = Some (write_at (arr[nat k := src ! i]) (k + 1) (drop (i + 1) src), k + 1 + int (length src - (i + 1)))"
      using True k "1.prems" by (intro "1.IH") (simp_all add: c_arr nat_add_distrib)
    also have "write_at (arr[nat k := src ! i]) (k + 1) (drop (i + 1) src) = write_at arr k (src ! i # drop (i + 1) src)"
      using True "1.prems" by (intro write_at_Cons) simp_all
    finally show ?thesis using True by (simp add: Cons_nth_drop_Suc)
  next
    case False
    then show ?thesis by (subst merge_rest.simps) simp
  qed
qed

lemma merge_loops_write:
  assumes "0 \<le> k" and "nat k + (length left - l) + (length right - r) \<le> length arr"
  shows "do { (arr, l, r, k) \<leftarrow> merge_both arr left right l r k;
       (arr, k) \<leftarrow> merge_rest arr left l k; (arr, k) \<leftarrow> merge_rest arr right r k; Some arr }
     = Some (write_at arr k (merge_desc (drop l left) (drop r right)))"
  using assms
proof (induction arr left right l r k rule: merge_both.induct)
  case (1 arr left right l r k)
  let ?run = "\<lambda>arr l r k. do { (arr, l, r, k) \<leftarrow> merge_both arr left right l r k;
       (arr, k) \<leftarrow> merge_rest arr left l k; (arr, k) \<leftarrow> merge_rest arr right r k; Some arr }"
  show ?case
  proof (cases "l < length left \<and> r < length right")
    case both: True
    then have "0 < length left - l" by simp
    then have k: "k < int (length arr)" using "1.prems" by linarith
    have dl: "drop l left = left ! l # drop (l + 1) left" and dr: "drop r right = right ! r # drop (r + 1) right"
      using both by (simp_all add: Cons_nth_drop_Suc)
    show ?thesis
    proof (cases "left ! l \<ge> right ! r")
      case True
      have "?run arr l r k = ?run (arr[nat k := left ! l]) (l + 1) r (k + 1)"
        using both True k "1.prems"(1) by (subst merge_both.simps) (simp add: c_arr)
      also have "\<dots> = Some (write_at (arr[nat k := left ! l]) (k + 1) (merge_desc (drop (l + 1) left) (drop r right)))"
        using both True k "1.prems" by (intro "1.IH"(1)) (simp_all add: c_arr nat_add_distrib)
      also have "\<dots> = Some (write_at arr k (left ! l # merge_desc (drop (l + 1) left) (drop r right)))"
        by (subst write_at_Cons [OF "1.prems"(1)])
          (use both "1.prems"(2) in \<open>simp only: length_merge_desc length_drop; linarith\<close>, rule refl)
      finally show ?thesis unfolding dl dr using True by simp
    next
      case False
      have "?run arr l r k = ?run (arr[nat k := right ! r]) l (r + 1) (k + 1)"
        using both False k "1.prems"(1) by (subst merge_both.simps) (simp add: c_arr)
      also have "\<dots> = Some (write_at (arr[nat k := right ! r]) (k + 1) (merge_desc (drop l left) (drop (r + 1) right)))"
        using both False k "1.prems" by (intro "1.IH"(2)) (simp_all add: c_arr nat_add_distrib)
      also have "\<dots> = Some (write_at arr k (right ! r # merge_desc (drop l left) (drop (r + 1) right)))"
        by (subst write_at_Cons [OF "1.prems"(1)])
          (use both "1.prems"(2) in \<open>simp only: length_merge_desc length_drop; linarith\<close>, rule refl)
      finally show ?thesis unfolding dl dr using False by simp
    qed
  next
    case False
    then consider "drop l left = []" | "drop r right = []" by (metis drop_all not_less)
    then show ?thesis
      using "1.prems" False merge_rest_write [of k left l arr] merge_rest_write [of k right r arr]
      by cases (subst merge_both.simps, simp add: merge_rest.simps [of _ left] merge_rest.simps [of _ right])+
  qed
qed

lemma copy_range_Some:
  "0 \<le> b \<Longrightarrow> nat b + n \<le> length arr \<Longrightarrow> copy_range arr b n = Some (take n (drop (nat b) arr))"
proof (induction n arbitrary: b)
  case (Suc n)
  have b: "nat b < length arr" using Suc.prems by simp
  have "copy_range arr (b + 1) n = Some (take n (drop (nat (b + 1)) arr))"
    using Suc.prems by (intro Suc.IH) simp_all
  moreover have "drop (nat b) arr = arr ! nat b # drop (nat (b + 1)) arr"
    using b Suc.prems(1) by (simp add: Cons_nth_drop_Suc nat_add_distrib)
  ultimately show ?case using b Suc.prems(1) by (simp add: c_arr)
qed simp

text \<open>The merge is the reference merge of the two runs, written over them.\<close>

definition slice :: "double list \<Rightarrow> int \<Rightarrow> int \<Rightarrow> double list" where
  "slice arr lo hi = take (nat (hi - lo + 1)) (drop (nat lo) arr)"

lemma length_slice:
  "0 \<le> lo \<Longrightarrow> lo \<le> hi + 1 \<Longrightarrow> hi < int (length arr) \<Longrightarrow> length (slice arr lo hi) = nat (hi - lo + 1)"
  by (simp add: slice_def)

lemma nth_slice:
  assumes "0 \<le> lo" "lo \<le> k" "k \<le> hi" "hi < int (length arr)"
  shows "slice arr lo hi ! (nat (k - lo)) = arr ! nat k"
proof -
  have "nat lo + nat (k - lo) = nat k" using assms by simp
  then show ?thesis using assms by (simp add: slice_def)
qed

lemma slice_split:
  assumes "0 \<le> lo" "lo \<le> m" "m \<le> hi"
  shows "slice arr lo hi = slice arr lo m @ slice arr (m + 1) hi"
proof -
  have "nat (hi - lo + 1) = nat (m - lo + 1) + nat (hi - (m + 1) + 1)" using assms by simp
  moreover have "nat (m - lo + 1) + nat lo = nat (m + 1)" using assms by simp
  ultimately show ?thesis by (simp only: slice_def take_add drop_drop)
qed

lemma desc_on_slice:
  assumes "0 \<le> lo" "hi < int (length arr)"
  shows "desc_on lo hi arr \<longleftrightarrow> sorted_wrt (\<lambda>x y. dkey y \<le> dkey x) (slice arr lo hi)"
proof (cases "lo \<le> hi")
  case True
  have len: "length (slice arr lo hi) = nat (hi - lo + 1)" using assms True by (simp add: length_slice)
  show ?thesis
  proof
    assume desc: "desc_on lo hi arr"
    show "sorted_wrt (\<lambda>x y. dkey y \<le> dkey x) (slice arr lo hi)"
      unfolding sorted_wrt_iff_nth_less
    proof (intro allI impI)
      fix i j assume ij: "i < j" "j < length (slice arr lo hi)"
      have "slice arr lo hi ! i = arr ! nat (lo + int i)" "slice arr lo hi ! j = arr ! nat (lo + int j)"
        using nth_slice [of lo "lo + int i" hi arr] nth_slice [of lo "lo + int j" hi arr] ij len assms True
        by simp_all
      then show "dkey (slice arr lo hi ! j) \<le> dkey (slice arr lo hi ! i)"
        using desc ij len True by (simp add: desc_on_def)
    qed
  next
    assume s: "sorted_wrt (\<lambda>x y. dkey y \<le> dkey x) (slice arr lo hi)"
    show "desc_on lo hi arr"
      unfolding desc_on_def
    proof (intro allI impI, elim conjE)
      fix i j assume ij: "lo \<le> i" "i < j" "j \<le> hi"
      have "dkey (slice arr lo hi ! nat (j - lo)) \<le> dkey (slice arr lo hi ! nat (i - lo))"
        using ij len by (intro sorted_wrt_nth_less [OF s]) simp_all
      then show "dkey (arr ! nat j) \<le> dkey (arr ! nat i)" using ij assms by (simp add: nth_slice)
    qed
  qed
qed (auto simp: desc_on_def slice_def)

lemma i_merge_reference:
  assumes "0 \<le> b" "b \<le> m" "m < e" "e < int (length arr)"
  shows "i_merge arr b m e = Some (write_at arr b (merge_desc (slice arr b m) (slice arr (m + 1) e)))"
proof -
  have "copy_range arr b (nat (m - b + 1)) = Some (slice arr b m)"
    unfolding slice_def using assms by (intro copy_range_Some) simp_all
  moreover have "copy_range arr (m + 1) (nat (e - m)) = Some (slice arr (m + 1) e)"
    unfolding slice_def using assms by (simp add: copy_range_Some)
  ultimately show ?thesis
    using merge_loops_write [of b "slice arr b m" 0 "slice arr (m + 1) e" 0 arr] assms
    by (simp add: i_merge_def length_slice)
qed

lemma write_at_perm:
  assumes "0 \<le> b" "b \<le> e" "e < int (length arr)" and mset: "mset ys = mset (slice arr b e)"
  shows "perm_within b e arr (write_at arr b ys)" and "slice (write_at arr b ys) b e = ys"
proof -
  have len: "length ys = nat (e - b + 1)" using mset length_slice [of b e arr] assms by (metis size_mset add_increasing2 zero_le_one)
  have lens: "nat b + length ys \<le> length arr" using len assms by simp
  have arr: "arr = take (nat b) arr @ slice arr b e @ drop (nat b + length ys) arr"
    using len assms by (simp add: slice_def) (metis add.commute append_take_drop_id drop_drop)
  have "mset (write_at arr b ys) = mset (take (nat b) arr @ slice arr b e @ drop (nat b + length ys) arr)"
    by (simp add: write_at_def mset)
  then have "mset (write_at arr b ys) = mset arr" using arr by simp
  moreover have "write_at arr b ys ! k = arr ! k" if "k < length arr" "int k < b \<or> e < int k" for k
    using that lens len assms by (auto simp: write_at_def nth_append)
  ultimately show "perm_within b e arr (write_at arr b ys)"
    using lens by (simp add: perm_within_def write_at_def)
  show "slice (write_at arr b ys) b e = ys" using lens len by (simp add: slice_def write_at_def)
qed

lemma i_merge_correct:
  assumes "0 \<le> b" "b \<le> m" "m < e" "e < int (length arr)"
  obtains arr' where "i_merge arr b m e = Some arr'" and "perm_within b e arr arr'"
    and "numeric arr \<Longrightarrow> desc_on b m arr \<Longrightarrow> desc_on (m + 1) e arr \<Longrightarrow> desc_on b e arr'"
proof -
  let ?ys = "merge_desc (slice arr b m) (slice arr (m + 1) e)"
  have "mset ?ys = mset (slice arr b e)"
    using assms slice_split [of b m e arr] by (simp add: mset_merge_desc)
  with assms have perm: "perm_within b e arr (write_at arr b ?ys)"
    and sl: "slice (write_at arr b ?ys) b e = ?ys" by (intro write_at_perm; simp)+
  have "desc_on b e (write_at arr b ?ys)"
    if "numeric arr" "desc_on b m arr" "desc_on (m + 1) e arr"
  proof -
    have "numeric (slice arr lo hi)" for lo hi
      using that(1) by (auto simp: numeric_def slice_def dest: in_set_takeD in_set_dropD)
    then have "sorted_wrt (\<lambda>x y. dkey y \<le> dkey x) ?ys"
      using that assms by (intro sorted_merge_desc) (simp_all add: desc_on_slice [symmetric])
    then show ?thesis using assms perm_within_length [OF perm] by (simp add: desc_on_slice sl)
  qed
  then show ?thesis using that i_merge_reference [OF assms] perm by blast
qed

section \<open>The sort\<close>

lemma i_mergesort_correct:
  assumes "0 \<le> b" "e < int (length arr)" "length arr \<le> 2 ^ 30"
  shows "\<exists>arr'. i_mergesort arr b e = Some arr' \<and> perm_within b e arr arr'
    \<and> (numeric arr \<longrightarrow> desc_on b e arr')"
  using assms
proof (induction "nat (e - b)" arbitrary: arr b e rule: less_induct)
  case less
  show ?case
  proof (cases "b < e")
    case False
    then show ?thesis by (subst i_mergesort.simps) (simp add: desc_on_def)
  next
    case True
    let ?m = "(b + e) div 2"
    have m: "b \<le> ?m" "?m < e" using True by simp_all
    have int: "c_int (b + e) = Some (b + e)" using True less.prems by (intro c_int_Some) simp_all
    have sdiv: "(b + e) sdiv 2 = ?m" using True less.prems by (simp add: signed_divide_int_def)
    obtain a1 where a1: "i_mergesort arr b ?m = Some a1" "perm_within b ?m arr a1"
      "numeric arr \<longrightarrow> desc_on b ?m a1"
      using less.hyps [of ?m b arr] less.prems m by auto
    note len1 = perm_within_length [OF a1(2)]
    obtain a2 where a2: "i_mergesort a1 (?m + 1) e = Some a2" "perm_within (?m + 1) e a1 a2"
      "numeric a1 \<longrightarrow> desc_on (?m + 1) e a2"
      using less.hyps [of e "?m + 1" a1] less.prems m len1 by auto
    note len2 = perm_within_length [OF a2(2)]
    obtain a3 where a3: "i_merge a2 b ?m e = Some a3" "perm_within b e a2 a3"
      "numeric a2 \<Longrightarrow> desc_on b ?m a2 \<Longrightarrow> desc_on (?m + 1) e a2 \<Longrightarrow> desc_on b e a3"
      by (rule i_merge_correct [of b ?m e a2]) (use less.prems m len1 len2 in simp_all)
    have "i_mergesort arr b e = Some a3"
      using True int sdiv a1(1) a2(1) a3(1) by (subst i_mergesort.simps) simp
    moreover have "perm_within b e arr a3"
    proof -
      have "perm_within b e arr a1" by (rule perm_within_mono [OF a1(2)]) (use m in simp_all)
      moreover have "perm_within b e a1 a2" by (rule perm_within_mono [OF a2(2)]) (use m in simp_all)
      ultimately show ?thesis using a3(2) perm_within_trans by metis
    qed
    moreover have "desc_on b e a3" if num: "numeric arr"
    proof -
      have "numeric a1" "numeric a2" using num numeric_perm [OF a1(2)] numeric_perm [OF a2(2)] by blast+
      moreover have "desc_on b ?m a2"
        by (rule desc_on_perm [OF a2(2)]) (use a1(3) num less.prems m len1 in simp_all)
      ultimately show ?thesis using a2(3) a3(3) by blast
    qed
    ultimately show ?thesis by blast
  qed
qed

lemma mergesort_runs:
  assumes "length xs \<le> 2 ^ 30"
  shows "\<exists>ys. i_mergesort xs 0 (int (length xs) - 1) = Some ys \<and> mset ys = mset xs
    \<and> (numeric xs \<longrightarrow> sorted_wrt (\<ge>) ys)"
  using i_mergesort_correct [of 0 "int (length xs) - 1" xs] perm_within_sorted assms by auto

interpretation merge_s: lua_sort "\<lambda>nums. i_mergesort nums 0 (int (length nums) - 1)" int_sized
  by unfold_locales (simp add: mergesort_runs int_sized_def)

end
