(* ===== verification/Heapsort.thy ===== *)
theory Heapsort
  imports IntArrays "HOL-Library.Monad_Syntax"
begin

text \<open>
  \<open>i_heapify\<close> and \<open>l_heapsort\<close> of \<open>src/src/sort.c\<close>.  The sift-down picks the smallest of a node
  and its children, so it builds a heap with the least element at the root (\<open>heap_on\<close>), whatever
  the range above the node; taking the root to the end again and again sorts from the greatest to
  the least.  The child indices are computed in int.
\<close>

definition heap_pick :: "double list \<Rightarrow> int \<Rightarrow> int \<Rightarrow> int \<Rightarrow> int option" where
  "heap_pick arr n largest child =
     (if child < n then do {
        x \<leftarrow> a_load arr child;
        y \<leftarrow> a_load arr largest;
        Some (if x < y then child else largest)
      } else Some largest)"

lemma heap_pick_cases:
  assumes "heap_pick arr n l c = Some l'"
  shows "l' = l \<or> l' = c \<and> c < n \<and> 0 \<le> c \<and> 0 \<le> l"
  using assms by (auto simp: heap_pick_def a_load_def split: if_splits Option.bind_splits)

function i_heapify :: "double list \<Rightarrow> int \<Rightarrow> int \<Rightarrow> double list option" where
  "i_heapify arr n i = do {
     left \<leftarrow> c_int (2 * i + 1);
     right \<leftarrow> c_int (2 * i + 2);
     largest \<leftarrow> heap_pick arr n i left;
     largest \<leftarrow> heap_pick arr n largest right;
     if largest \<noteq> i then do {
       arr \<leftarrow> i_swap arr i largest;
       i_heapify arr n largest
     } else Some arr
   }"
  by pat_completeness auto
termination
proof (relation "measure (\<lambda>(arr, n, i). nat (n - i))", simp, goal_cases)
  case (1 arr n i left right l1 l2 arr')
  have "left = 2 * i + 1" "right = 2 * i + 2" using 1 by (auto simp: c_int_def split: if_splits)
  then show ?case
    using heap_pick_cases [of arr n i left l1] heap_pick_cases [of arr n l1 right l2] 1 by auto
qed

declare i_heapify.simps [simp del]

function heap_build :: "double list \<Rightarrow> int \<Rightarrow> int \<Rightarrow> double list option" where
  "heap_build nums len i =
     (if i \<ge> 0 then do { nums \<leftarrow> i_heapify nums len i; heap_build nums len (i - 1) } else Some nums)"
  by pat_completeness auto
termination by (relation "measure (\<lambda>(nums, len, i). nat (i + 1))") auto

function heap_extract :: "double list \<Rightarrow> int \<Rightarrow> double list option" where
  "heap_extract nums i =
     (if i \<ge> 0 then do {
        nums \<leftarrow> i_swap nums i 0;
        nums \<leftarrow> i_heapify nums i 0;
        heap_extract nums (i - 1)
      } else Some nums)"
  by pat_completeness auto
termination by (relation "measure (\<lambda>(nums, i). nat (i + 1))") auto

declare heap_build.simps [simp del] heap_extract.simps [simp del]

definition heapsort :: "double list \<Rightarrow> double list option" where
  "heapsort nums = do {
     nums \<leftarrow> heap_build nums (int (length nums)) (int (length nums div 2) - 1);
     heap_extract nums (int (length nums) - 1)
   }"

definition l_heapsort :: "lua_array \<Rightarrow> lua_error + double list" where
  "l_heapsort t = on_table heapsort t"

section \<open>Heaps on a range\<close>

definition child :: "int \<Rightarrow> int \<Rightarrow> bool" where
  "child k c \<longleftrightarrow> c = 2 * k + 1 \<or> c = 2 * k + 2"

definition heap_except :: "int \<Rightarrow> int \<Rightarrow> int \<Rightarrow> double list \<Rightarrow> bool" where
  "heap_except lo n i arr \<longleftrightarrow> (\<forall>k c. lo \<le> k \<and> k \<noteq> i \<and> child k c \<and> c < n \<longrightarrow>
     dkey (arr ! nat k) \<le> dkey (arr ! nat c))"

definition heap_on :: "int \<Rightarrow> int \<Rightarrow> double list \<Rightarrow> bool" where
  "heap_on lo n arr \<longleftrightarrow> (\<forall>k c. lo \<le> k \<and> child k c \<and> c < n \<longrightarrow>
     dkey (arr ! nat k) \<le> dkey (arr ! nat c))"

definition bridge :: "int \<Rightarrow> int \<Rightarrow> int \<Rightarrow> double list \<Rightarrow> bool" where
  "bridge lo n i arr \<longleftrightarrow> (\<forall>p c. lo \<le> p \<and> child p i \<and> child i c \<and> c < n \<longrightarrow>
     dkey (arr ! nat p) \<le> dkey (arr ! nat c))"

lemma child_unique: "child p c \<Longrightarrow> child q c \<Longrightarrow> p = q"
  by (auto simp: child_def)

lemma no_parent_root: "0 \<le> p \<Longrightarrow> \<not> child p 0"
  by (auto simp: child_def)

lemma heap_pick_Some:
  assumes "n \<le> int (length arr)" "0 \<le> c" "0 \<le> l" "l < int (length arr)"
  shows "\<exists>l'. heap_pick arr n l c = Some l' \<and> (l' = l \<or> l' = c \<and> c < n)
    \<and> (numeric arr \<longrightarrow> dkey (arr ! nat l') \<le> dkey (arr ! nat l)
        \<and> (c < n \<longrightarrow> dkey (arr ! nat l') \<le> dkey (arr ! nat c))
        \<and> (l' \<noteq> l \<longrightarrow> dkey (arr ! nat l') < dkey (arr ! nat l)))"
proof (cases "c < n")
  case True
  then have "numeric arr \<Longrightarrow> arr ! nat c < arr ! nat l \<longleftrightarrow> dkey (arr ! nat c) < dkey (arr ! nat l)"
    using assms by (intro less_number numeric_nth) simp_all
  then show ?thesis using True assms by (auto simp: heap_pick_def c_arr)
qed (simp add: heap_pick_def)

text \<open>The choice of the sift-down: the node or its smallest child.\<close>

lemma heapify_choice:
  assumes "0 \<le> i" "i < n" "n \<le> int (length arr)" "length arr < 2 ^ 30"
  obtains l where "do { left \<leftarrow> c_int (2 * i + 1); right \<leftarrow> c_int (2 * i + 2);
      l \<leftarrow> heap_pick arr n i left; heap_pick arr n l right } = Some l"
    and "l = i \<or> child i l \<and> l < n"
    and "numeric arr \<Longrightarrow> dkey (arr ! nat l) \<le> dkey (arr ! nat i)"
    and "\<And>c. numeric arr \<Longrightarrow> child i c \<Longrightarrow> c < n \<Longrightarrow> dkey (arr ! nat l) \<le> dkey (arr ! nat c)"
proof -
  have ints: "c_int (2 * i + 1) = Some (2 * i + 1)" "c_int (2 * i + 2) = Some (2 * i + 2)"
    using assms by (intro c_int_Some; simp)+
  obtain l1 where l1: "heap_pick arr n i (2 * i + 1) = Some l1" "l1 = i \<or> l1 = 2 * i + 1 \<and> 2 * i + 1 < n"
    "numeric arr \<longrightarrow> dkey (arr ! nat l1) \<le> dkey (arr ! nat i)
      \<and> (2 * i + 1 < n \<longrightarrow> dkey (arr ! nat l1) \<le> dkey (arr ! nat (2 * i + 1)))"
    using heap_pick_Some [of n arr "2 * i + 1" i] assms by auto
  have "0 \<le> l1" "l1 < int (length arr)" using l1(2) assms by auto
  then obtain l where l: "heap_pick arr n l1 (2 * i + 2) = Some l" "l = l1 \<or> l = 2 * i + 2 \<and> 2 * i + 2 < n"
    "numeric arr \<longrightarrow> dkey (arr ! nat l) \<le> dkey (arr ! nat l1)
      \<and> (2 * i + 2 < n \<longrightarrow> dkey (arr ! nat l) \<le> dkey (arr ! nat (2 * i + 2)))"
    using heap_pick_Some [of n arr "2 * i + 2" l1] assms by auto
  show thesis
  proof (rule that [of l])
    show "do { left \<leftarrow> c_int (2 * i + 1); right \<leftarrow> c_int (2 * i + 2);
      l \<leftarrow> heap_pick arr n i left; heap_pick arr n l right } = Some l"
      by (simp add: ints l1(1) l(1))
  qed (use l1(2,3) l(2,3) in \<open>auto simp: child_def\<close>)
qed

text \<open>Exchanging the hole with its smallest child moves the hole down.\<close>

lemma heap_except_swap:
  assumes "0 \<le> lo" "lo \<le> i" "i < n" "n \<le> int (length arr)" and l: "child i l" "l < n"
    and least: "dkey (arr ! nat l) \<le> dkey (arr ! nat i)"
      "\<And>c. child i c \<Longrightarrow> c < n \<Longrightarrow> dkey (arr ! nat l) \<le> dkey (arr ! nat c)"
    and heap: "heap_except lo n i arr" and bridge: "bridge lo n i arr"
  defines "arr' \<equiv> arr[nat i := arr ! nat l, nat l := arr ! nat i]"
  shows "heap_except lo n l arr'" and "bridge lo n l arr'"
proof -
  have il: "i < l" using l(1) assms(1,2) by (auto simp: child_def)
  have at: "arr' ! nat k = (if k = i then arr ! nat l else if k = l then arr ! nat i else arr ! nat k)"
    if "0 \<le> k" for k
    unfolding arr'_def using that il assms by (intro swap_nth) simp_all
  have pos: "0 \<le> k" "k < c" if "lo \<le> k" "child k c" for k c
    using that assms(1) by (auto simp: child_def)
  show "heap_except lo n l arr'"
    unfolding heap_except_def
  proof (intro allI impI, elim conjE)
    fix k c assume k: "lo \<le> k" "k \<noteq> l" "child k c" "c < n"
    note kc = pos [OF k(1,3)]
    show "dkey (arr' ! nat k) \<le> dkey (arr' ! nat c)"
    proof (cases "k = i")
      case True
      then show ?thesis using k kc least il at [of k] at [of c] by auto
    next
      case False
      have "c \<noteq> l" using child_unique [OF k(3)] l(1) False by blast
      then show ?thesis using False k kc heap bridge l at [of k] at [of c]
        by (auto simp: heap_except_def bridge_def)
    qed
  qed
  show "bridge lo n l arr'"
    unfolding bridge_def
  proof (intro allI impI, elim conjE)
    fix p c assume p: "lo \<le> p" "child p l" "child l c" "c < n"
    have "p = i" using child_unique [OF p(2) l(1)] .
    moreover have "0 \<le> l" "l < c" "lo \<le> l" using il assms(1,2) p(3) by (auto simp: child_def)
    ultimately show "dkey (arr' ! nat p) \<le> dkey (arr' ! nat c)"
      using p heap il assms(1,2) at [of p] at [of c] by (auto simp: heap_except_def)
  qed
qed

lemma i_heapify_correct:
  assumes "0 \<le> lo" "lo \<le> i" "n \<le> int (length arr)" "length arr < 2 ^ 30" "i < n"
  shows "\<exists>arr'. i_heapify arr n i = Some arr' \<and> perm_within i (n - 1) arr arr'
    \<and> (numeric arr \<and> heap_except lo n i arr \<and> bridge lo n i arr \<longrightarrow> heap_on lo n arr')"
  using assms
proof (induction "nat (n - i)" arbitrary: arr i rule: less_induct)
  case less
  obtain l where l: "do { left \<leftarrow> c_int (2 * i + 1); right \<leftarrow> c_int (2 * i + 2);
      l \<leftarrow> heap_pick arr n i left; heap_pick arr n l right } = Some l"
    and range: "l = i \<or> child i l \<and> l < n"
    and least: "numeric arr \<Longrightarrow> dkey (arr ! nat l) \<le> dkey (arr ! nat i)"
      "\<And>c. numeric arr \<Longrightarrow> child i c \<Longrightarrow> c < n \<Longrightarrow> dkey (arr ! nat l) \<le> dkey (arr ! nat c)"
    by (rule heapify_choice [of i n arr]) (use less.prems in simp_all)
  have run: "i_heapify arr n i =
      (if l \<noteq> i then Option.bind (i_swap arr i l) (\<lambda>arr. i_heapify arr n l) else Some arr)"
    using l by (subst i_heapify.simps) (auto simp: bind_eq_Some_conv)
  show ?case
  proof (cases "l = i")
    case True
    have "heap_on lo n arr" if "numeric arr" "heap_except lo n i arr"
      using that True least(2) by (auto simp: heap_on_def heap_except_def)
    then show ?thesis using run True by simp
  next
    case False
    then have l: "child i l" "l < n" "i < l" using range less.prems by (auto simp: child_def)
    let ?arr = "arr[nat i := arr ! nat l, nat l := arr ! nat i]"
    have swap: "i_swap arr i l = Some ?arr" using l less.prems by (intro i_swap_Some) simp_all
    have perm: "perm_within i (n - 1) arr ?arr" using l less.prems by (intro perm_within_swap) simp_all
    obtain arr' where arr': "i_heapify ?arr n l = Some arr'" "perm_within l (n - 1) ?arr arr'"
      "numeric ?arr \<and> heap_except lo n l ?arr \<and> bridge lo n l ?arr \<longrightarrow> heap_on lo n arr'"
      using less.hyps [of l ?arr] less.prems l by auto
    have "perm_within i (n - 1) ?arr arr'" by (rule perm_within_mono [OF arr'(2)]) (use l in simp_all)
    then have "perm_within i (n - 1) arr arr'" using perm perm_within_trans by blast
    moreover have "heap_on lo n arr'" if "numeric arr" "heap_except lo n i arr" "bridge lo n i arr"
      using arr'(3) heap_except_swap [of lo i n arr l] that least l less.prems numeric_perm [OF perm] by blast
    ultimately show ?thesis using run False swap arr'(1) by simp
  qed
qed

lemma i_heapify_empty: "n \<le> i \<Longrightarrow> 0 \<le> i \<Longrightarrow> i < 2 ^ 30 - 1 \<Longrightarrow> i_heapify arr n i = Some arr"
  by (subst i_heapify.simps) (simp add: heap_pick_def c_int_Some)

lemma heap_on_perm:
  assumes "perm_within m (n - 1) arr arr'" "heap_on lo n arr" "0 \<le> lo" "n \<le> int (length arr)" "n \<le> m"
  shows "heap_on lo n arr'"
  unfolding heap_on_def
proof (intro allI impI, elim conjE)
  fix k c assume k: "lo \<le> k" "child k c" "c < n"
  then have "k < c" using assms(3) by (auto simp: child_def)
  then show "dkey (arr' ! nat k) \<le> dkey (arr' ! nat c)"
    using assms k perm_within_outside [OF assms(1), of k] perm_within_outside [OF assms(1), of c]
    by (auto simp: heap_on_def)
qed

lemma heap_root:
  assumes "heap_on 0 n arr" "0 \<le> k" "k < n"
  shows "dkey (arr ! 0) \<le> dkey (arr ! nat k)"
  using assms(2,3)
proof (induction "nat k" arbitrary: k rule: less_induct)
  case less
  show ?case
  proof (cases "k = 0")
    case False
    let ?p = "(k - 1) div 2"
    have p: "0 \<le> ?p" "?p < k" "child ?p k" using False less.prems by (auto simp: child_def)
    then have "dkey (arr ! 0) \<le> dkey (arr ! nat ?p)" using less by simp
    also have "\<dots> \<le> dkey (arr ! nat k)" using assms(1) p less.prems by (auto simp: heap_on_def)
    finally show ?thesis .
  qed simp
qed

section \<open>The sort\<close>

lemma heap_build_correct:
  assumes "i < int (length arr)" "length arr < 2 ^ 30" "- 1 \<le> i" "n = int (length arr)"
  shows "\<exists>arr'. heap_build arr n i = Some arr' \<and> perm_within 0 (n - 1) arr arr'
    \<and> (numeric arr \<and> heap_on (i + 1) n arr \<longrightarrow> heap_on 0 n arr')"
  using assms
proof (induction "nat (i + 1)" arbitrary: arr i)
  case 0
  then have "i = -1" by simp
  then show ?case by (subst heap_build.simps) simp
next
  case (Suc k)
  then have i: "0 \<le> i" and k: "k = nat (i - 1 + 1)" by simp_all
  obtain a1 where a1: "i_heapify arr n i = Some a1" "perm_within i (n - 1) arr a1"
    "numeric arr \<and> heap_except i n i arr \<and> bridge i n i arr \<longrightarrow> heap_on i n a1"
    using i_heapify_correct [of i i n arr] Suc.prems i by auto
  note len = perm_within_length [OF a1(2)]
  obtain a2 where a2: "heap_build a1 n (i - 1) = Some a2" "perm_within 0 (n - 1) a1 a2"
    "numeric a1 \<and> heap_on i n a1 \<longrightarrow> heap_on 0 n a2"
    using Suc.hyps(1) [of "i - 1" a1] k Suc.prems i len by auto
  have "heap_on 0 n a2" if "numeric arr" "heap_on (i + 1) n arr"
  proof -
    have "heap_except i n i arr" using that(2) by (auto simp: heap_on_def heap_except_def)
    moreover have "bridge i n i arr" using i by (auto simp: bridge_def child_def)
    ultimately show ?thesis using that a1(3) a2(3) numeric_perm [OF a1(2)] by blast
  qed
  moreover have "perm_within 0 (n - 1) arr a2"
    using perm_within_mono [OF a1(2), of 0 "n - 1"] a2(2) i perm_within_trans by auto
  moreover have "heap_build arr n i = Some a2" using i a1(1) a2(1) by (subst heap_build.simps) simp
  ultimately show ?case by blast
qed

text \<open>The state of the second loop: a heap up to i, behind it the sorted rest, which nothing in the
  heap is below.\<close>

definition extract_inv :: "int \<Rightarrow> double list \<Rightarrow> bool" where
  "extract_inv i arr \<longleftrightarrow> heap_on 0 (i + 1) arr \<and> desc_on (i + 1) (int (length arr) - 1) arr
     \<and> (\<forall>k m. 0 \<le> k \<and> k \<le> i \<and> i < m \<and> m < int (length arr) \<longrightarrow> dkey (arr ! nat m) \<le> dkey (arr ! nat k))"

lemma extract_step:
  assumes "0 \<le> i" "i < int (length arr)" "length arr < 2 ^ 30"
  shows "\<exists>arr'. Option.bind (i_swap arr i 0) (\<lambda>arr. i_heapify arr i 0) = Some arr'
    \<and> perm_within 0 i arr arr' \<and> (numeric arr \<and> extract_inv i arr \<longrightarrow> extract_inv (i - 1) arr')"
proof -
  let ?a = "arr[nat i := arr ! nat 0, nat 0 := arr ! nat i]"
  have swap: "i_swap arr i 0 = Some ?a" using assms by (intro i_swap_Some) linarith+
  have at: "?a ! nat k = (if k = i then arr ! nat 0 else if k = 0 then arr ! nat i else arr ! nat k)"
    if "0 \<le> k" for k
    using that assms by (intro swap_nth) linarith+
  have perm1: "perm_within 0 i arr ?a" using assms by (intro perm_within_swap) linarith+
  have heap1: "heap_except 0 i 0 ?a" if "heap_on 0 (i + 1) arr"
    unfolding heap_except_def
  proof (intro allI impI, elim conjE)
    fix k c assume k: "0 \<le> k" "k \<noteq> 0" "child k c" "c < i"
    then have "k < c" by (auto simp: child_def)
    then show "dkey (?a ! nat k) \<le> dkey (?a ! nat c)"
      using that k at [of k] at [of c] by (auto simp: heap_on_def)
  qed
  have bridge1: "bridge 0 i 0 ?a" using no_parent_root by (auto simp: bridge_def)
  obtain arr' where arr': "i_heapify ?a i 0 = Some arr'" "perm_within 0 (i - 1) ?a arr'"
    "numeric arr \<and> heap_on 0 (i + 1) arr \<longrightarrow> heap_on 0 i arr'"
  proof (cases "i = 0")
    case True
    have "i_heapify ?a i 0 = Some ?a" using True by (intro i_heapify_empty) simp_all
    then show ?thesis using True by (intro that) (auto simp: heap_on_def child_def)
  next
    case False
    then show ?thesis
      using i_heapify_correct [of 0 0 i ?a] assms heap1 bridge1 numeric_perm [OF perm1] that by auto
  qed
  have len: "length arr' = length arr" using perm_within_length [OF arr'(2)] by simp
  have above: "arr' ! nat m = (if m = i then arr ! 0 else arr ! nat m)" if "i \<le> m" "m < int (length arr)" for m
    using that assms at [of m] perm_within_outside [OF arr'(2), of m] by auto
  have "extract_inv (i - 1) arr'" if num: "numeric arr" and inv: "extract_inv i arr"
    unfolding extract_inv_def
  proof (intro conjI allI impI)
    show "heap_on 0 (i - 1 + 1) arr'" using arr'(3) num inv by (simp add: extract_inv_def)
    have root: "dkey (arr ! nat m) \<le> dkey (arr ! 0)" if "i < m" "m < int (length arr)" for m
      using inv that assms(1) unfolding extract_inv_def by (metis nat_0 order.refl)
    show "desc_on (i - 1 + 1) (int (length arr') - 1) arr'"
      unfolding desc_on_def
    proof (intro allI impI, elim conjE)
      fix p q assume pq: "i - 1 + 1 \<le> p" "p < q" "q \<le> int (length arr') - 1"
      then have pq': "i \<le> p" "q < int (length arr)" using len by simp_all
      show "dkey (arr' ! nat q) \<le> dkey (arr' ! nat p)"
      proof (cases "p = i")
        case True
        then show ?thesis using root [of q] above [of p] above [of q] pq pq' by simp
      next
        case False
        then have "dkey (arr ! nat q) \<le> dkey (arr ! nat p)"
          using inv pq pq' by (simp add: extract_inv_def desc_on_def)
        then show ?thesis using False above [of p] above [of q] pq pq' by simp
      qed
    qed
    fix k m assume km: "0 \<le> k \<and> k \<le> i - 1 \<and> i - 1 < m \<and> m < int (length arr')"
    have "dkey (arr' ! nat m) \<le> dkey (?a ! nat j)" if "0 \<le> j" "j \<le> i - 1" for j
    proof (cases "m = i")
      case True
      have "dkey (arr ! 0) \<le> dkey (?a ! nat j)"
        using heap_root [of "i + 1" arr] inv that assms(1) at [of j]
        by (auto simp: extract_inv_def)
      then show ?thesis using True above [of m] km len by simp
    next
      case False
      have m: "i < m" "m < int (length arr)" using False km len by simp_all
      obtain j' where j': "?a ! nat j = arr ! nat j'" "0 \<le> j'" "j' \<le> i"
      proof (cases "j = 0")
        case True
        then show ?thesis using that [of i] at [of 0] assms(1) by (cases "i = 0") simp_all
      next
        case False
        then show ?thesis using that [of j] at [of j] \<open>0 \<le> j\<close> \<open>j \<le> i - 1\<close> by simp
      qed
      have "dkey (arr ! nat m) \<le> dkey (arr ! nat j')" using inv j' m by (simp add: extract_inv_def)
      then show ?thesis using j'(1) above [of m] m by simp
    qed
    then show "dkey (arr' ! nat m) \<le> dkey (arr' ! nat k)"
      using km assms(2) by (intro perm_within_all [OF arr'(2), where P = "\<lambda>x. dkey (arr' ! nat m) \<le> dkey x"]) simp_all
  qed
  moreover have "perm_within 0 i arr arr'"
    using perm1 perm_within_mono [OF arr'(2), of 0 i] perm_within_trans by auto
  ultimately show ?thesis using swap arr'(1) by simp
qed

lemma heap_extract_correct:
  assumes "- 1 \<le> i" "i < int (length arr)" "length arr < 2 ^ 30"
  shows "\<exists>arr'. heap_extract arr i = Some arr' \<and> perm_within 0 i arr arr'
    \<and> (numeric arr \<and> extract_inv i arr \<longrightarrow> desc_on 0 (int (length arr) - 1) arr')"
  using assms
proof (induction "nat (i + 1)" arbitrary: arr i)
  case 0
  then have "i = -1" by simp
  then show ?case by (subst heap_extract.simps) (simp add: extract_inv_def)
next
  case (Suc k)
  then have i: "0 \<le> i" and k: "k = nat (i - 1 + 1)" by simp_all
  obtain a1 where a1: "Option.bind (i_swap arr i 0) (\<lambda>arr. i_heapify arr i 0) = Some a1"
    "perm_within 0 i arr a1" "numeric arr \<and> extract_inv i arr \<longrightarrow> extract_inv (i - 1) a1"
    using extract_step [of i arr] i Suc.prems by blast
  note len = perm_within_length [OF a1(2)]
  obtain a2 where a2: "heap_extract a1 (i - 1) = Some a2" "perm_within 0 (i - 1) a1 a2"
    "numeric a1 \<and> extract_inv (i - 1) a1 \<longrightarrow> desc_on 0 (int (length a1) - 1) a2"
    using Suc.hyps(1) [of "i - 1" a1] k Suc.prems i len by auto
  have "heap_extract arr i = Some a2"
    using i a1(1) a2(1) by (subst heap_extract.simps) (auto simp: bind_eq_Some_conv)
  moreover have "perm_within 0 i arr a2"
    using a1(2) perm_within_mono [OF a2(2), of 0 i] perm_within_trans by auto
  ultimately show ?case using a1(3) a2(3) numeric_perm [OF a1(2)] len by auto
qed

lemma heapsort_runs:
  assumes "length xs < 2 ^ 30"
  shows "\<exists>ys. heapsort xs = Some ys \<and> mset ys = mset xs \<and> (numeric xs \<longrightarrow> sorted_wrt (\<ge>) ys)"
proof -
  let ?n = "int (length xs)"
  have half: "int (length xs div 2) - 1 < ?n" by linarith
  obtain a1 where a1: "heap_build xs ?n (int (length xs div 2) - 1) = Some a1" "perm_within 0 (?n - 1) xs a1"
    "numeric xs \<and> heap_on (int (length xs div 2) - 1 + 1) ?n xs \<longrightarrow> heap_on 0 ?n a1"
    using heap_build_correct [of "int (length xs div 2) - 1" xs ?n] assms half by auto
  note len = perm_within_length [OF a1(2)]
  obtain a2 where a2: "heap_extract a1 (?n - 1) = Some a2" "perm_within 0 (?n - 1) a1 a2"
    "numeric a1 \<and> extract_inv (?n - 1) a1 \<longrightarrow> desc_on 0 (?n - 1) a2"
    using heap_extract_correct [of "?n - 1" a1] assms len by auto
  have "heap_on (int (length xs div 2)) ?n xs" by (auto simp: heap_on_def child_def)
  then have "extract_inv (?n - 1) a1" if "numeric xs"
    using a1(3) that len by (simp add: extract_inv_def desc_on_def)
  then have "numeric xs \<longrightarrow> desc_on 0 (?n - 1) a2" using a2(3) numeric_perm [OF a1(2)] by blast
  moreover have "perm_within 0 (?n - 1) xs a2" using a1(2) a2(2) by (rule perm_within_trans)
  ultimately show ?thesis
    using a1(1) a2(1) len perm_within_sorted [of 0 "?n - 1" xs a2] by (auto simp: heapsort_def)
qed

interpretation heap_s: lua_sort heapsort int_sized
  by unfold_locales (simp add: heapsort_runs int_sized_def)

end
