(* ===== verification/Shellsort.thy ===== *)
theory Shellsort
  imports IntArrays "HOL-Library.Monad_Syntax"
begin

text \<open>
  \<open>l_shellsort\<close> of \<open>src/src/sort.c\<close>: insertion passes with the gaps len / 2, len / 4, ..., 1.
  A pass with gap h leaves every element at most the one h places before it (\<open>gap_sorted\<close>); the
  last pass has gap 1, so numbers end up sorted from the greatest to the least.
\<close>

partial_function (option) shift_loop ::
  "double list \<Rightarrow> int \<Rightarrow> double \<Rightarrow> int \<Rightarrow> (double list \<times> int) option" where
  "shift_loop nums interval temp j =
     (if j \<ge> interval then
        Option.bind (a_load nums (j - interval)) (\<lambda>x.
        if x < temp
        then Option.bind (a_store nums j x) (\<lambda>nums. shift_loop nums interval temp (j - interval))
        else Some (nums, j))
      else Some (nums, j))"

function gap_pass :: "double list \<Rightarrow> int \<Rightarrow> int \<Rightarrow> double list option" where
  "gap_pass nums interval i =
     (if i < int (length nums) then do {
        temp \<leftarrow> a_load nums i;
        (arr, j) \<leftarrow> shift_loop nums interval temp i;
        arr \<leftarrow> a_store arr j temp;
        if length arr = length nums then gap_pass arr interval (i + 1) else None
      } else Some nums)"
  by pat_completeness auto
termination by (relation "measure (\<lambda>(nums, interval, i). nat (int (length nums) - i))") auto

declare gap_pass.simps [simp del]

function shell_loop :: "double list \<Rightarrow> int \<Rightarrow> double list option" where
  "shell_loop nums interval =
     (if interval > 0 then do {
        nums \<leftarrow> gap_pass nums interval interval;
        shell_loop nums (interval div 2)
      } else Some nums)"
  by pat_completeness auto
termination by (relation "measure (\<lambda>(nums, interval). nat interval)") auto

declare shell_loop.simps [simp del]

definition shellsort :: "double list \<Rightarrow> double list option" where
  "shellsort nums = shell_loop nums (int (length nums div 2))"

definition l_shellsort :: "lua_array \<Rightarrow> lua_error + double list" where
  "l_shellsort t = on_table shellsort t"

section \<open>A pass\<close>

definition gap_sorted :: "int \<Rightarrow> int \<Rightarrow> double list \<Rightarrow> bool" where
  "gap_sorted h i arr \<longleftrightarrow> (\<forall>k. h \<le> k \<and> k < i \<longrightarrow> dkey (arr ! nat k) \<le> dkey (arr ! nat (k - h)))"

text \<open>The shifting loop: the array with temp in the hole at j is a permutation of the start; around
  the hole the gap order holds.\<close>

definition hole_inv :: "int \<Rightarrow> int \<Rightarrow> int \<Rightarrow> double \<Rightarrow> double list \<Rightarrow> bool" where
  "hole_inv h i j temp nums \<longleftrightarrow>
     (\<forall>k. h \<le> k \<and> k \<le> i \<and> k \<noteq> j \<and> k - h \<noteq> j \<longrightarrow> dkey (nums ! nat k) \<le> dkey (nums ! nat (k - h)))
     \<and> (j + h \<le> i \<longrightarrow> dkey (nums ! nat (j + h)) \<le> dkey temp
         \<and> (h \<le> j \<longrightarrow> dkey (nums ! nat (j + h)) \<le> dkey (nums ! nat (j - h))))"

lemma hole_step:
  assumes "0 < h" "h \<le> j" "j \<le> i" "i < int (length nums)"
    and less: "dkey (nums ! nat (j - h)) \<le> dkey temp" and inv: "hole_inv h i j temp nums"
  shows "hole_inv h i (j - h) temp (nums[nat j := nums ! nat (j - h)])"
proof -
  have at: "nums[nat j := nums ! nat (j - h)] ! nat k = (if k = j then nums ! nat (j - h) else nums ! nat k)"
    if "0 \<le> k" for k
    using that assms by (auto simp: nth_list_update nat_eq_iff)
  have ord: "dkey (nums ! nat k) \<le> dkey (nums ! nat (k - h))"
    if "h \<le> k" "k \<le> i" "k \<noteq> j" "k - h \<noteq> j" for k
    using inv that by (simp add: hole_inv_def)
  show ?thesis
    unfolding hole_inv_def
  proof (intro conjI allI impI)
    fix k assume k: "h \<le> k \<and> k \<le> i \<and> k \<noteq> j - h \<and> k - h \<noteq> j - h"
    show "dkey (nums[nat j := nums ! nat (j - h)] ! nat k) \<le> dkey (nums[nat j := nums ! nat (j - h)] ! nat (k - h))"
    proof (cases "k = j + h")
      case True
      then show ?thesis using k inv assms at [of "j + h"] at [of j] by (simp add: hole_inv_def)
    next
      case False
      then show ?thesis using k ord [of k] assms at [of k] at [of "k - h"] by auto
    qed
  next
    show "dkey (nums[nat j := nums ! nat (j - h)] ! nat (j - h + h)) \<le> dkey temp"
      using less at [of j] assms by simp
  next
    assume "h \<le> j - h"
    then show "dkey (nums[nat j := nums ! nat (j - h)] ! nat (j - h + h))
        \<le> dkey (nums[nat j := nums ! nat (j - h)] ! nat (j - h - h))"
      using ord [of "j - h"] at [of j] at [of "j - h - h"] assms by simp
  qed
qed

lemma hole_fill:
  assumes "0 < h" "0 \<le> j" "j \<le> i" "i < int (length nums)" and inv: "hole_inv h i j temp nums"
    and stop: "h \<le> j \<Longrightarrow> dkey temp \<le> dkey (nums ! nat (j - h))"
  shows "gap_sorted h (i + 1) (nums[nat j := temp])"
  unfolding gap_sorted_def
proof (intro allI impI, elim conjE)
  fix k assume k: "h \<le> k" "k < i + 1"
  have at: "nums[nat j := temp] ! nat m = (if m = j then temp else nums ! nat m)" if "0 \<le> m" for m
    using that assms by (auto simp: nth_list_update nat_eq_iff)
  consider "k = j" | "k = j + h" | "k \<noteq> j" "k - h \<noteq> j" by linarith
  then show "dkey (nums[nat j := temp] ! nat k) \<le> dkey (nums[nat j := temp] ! nat (k - h))"
  proof cases
    case 1
    then show ?thesis using k stop assms at [of k] at [of "k - h"] by simp
  next
    case 2
    then show ?thesis using k inv assms at [of "j + h"] at [of j] by (simp add: hole_inv_def)
  next
    case 3
    then show ?thesis using k inv assms at [of k] at [of "k - h"] by (simp add: hole_inv_def)
  qed
qed

lemma shift_loop_correct:
  assumes "0 < h" "0 \<le> j" "j \<le> i" "i < int (length nums)"
  shows "\<exists>arr m. shift_loop nums h temp j = Some (arr, m) \<and> 0 \<le> m \<and> m \<le> i
    \<and> perm_within 0 i (nums[nat j := temp]) (arr[nat m := temp])
    \<and> (numeric nums \<and> \<not> is_nan temp \<and> hole_inv h i j temp nums \<longrightarrow> gap_sorted h (i + 1) (arr[nat m := temp]))"
  using assms
proof (induction "nat j" arbitrary: nums j rule: less_induct)
  case less
  show ?case
  proof (cases "j \<ge> h \<and> nums ! nat (j - h) < temp")
    case True
    let ?nums = "nums[nat j := nums ! nat (j - h)]"
    have run: "shift_loop nums h temp j = shift_loop ?nums h temp (j - h)"
      using True less.prems by (subst shift_loop.simps) (simp add: c_arr)
    obtain arr m where ih: "shift_loop ?nums h temp (j - h) = Some (arr, m)" "0 \<le> m" "m \<le> i"
      "perm_within 0 i (?nums[nat (j - h) := temp]) (arr[nat m := temp])"
      "numeric ?nums \<and> \<not> is_nan temp \<and> hole_inv h i (j - h) temp ?nums \<longrightarrow> gap_sorted h (i + 1) (arr[nat m := temp])"
      using less.hyps [of "j - h" ?nums] less.prems True by auto
    have lt: "nat j < length nums" using less.prems by linarith
    have "?nums[nat (j - h) := temp] = (nums[nat j := temp])[nat j := nums[nat j := temp] ! nat (j - h),
        nat (j - h) := nums[nat j := temp] ! nat j]"
      using True less.prems lt by (simp add: nth_list_update nat_eq_iff)
    moreover have "perm_within 0 i (nums[nat j := temp]) ((nums[nat j := temp])[nat j := nums[nat j := temp] ! nat (j - h),
        nat (j - h) := nums[nat j := temp] ! nat j])"
      using True less.prems by (intro perm_within_swap) simp_all
    ultimately have "perm_within 0 i (nums[nat j := temp]) (arr[nat m := temp])"
      using ih(4) perm_within_trans by metis
    moreover have "gap_sorted h (i + 1) (arr[nat m := temp])"
      if num: "numeric nums" "\<not> is_nan temp" and inv: "hole_inv h i j temp nums"
    proof -
      have nan: "\<not> is_nan (nums ! nat (j - h))" using num True less.prems by (intro numeric_nth) simp_all
      then have "numeric ?nums" using num
        by (auto simp: numeric_def dest!: set_update_subset_insert [THEN subsetD])
      moreover have "hole_inv h i (j - h) temp ?nums"
        using True less.prems inv nan num by (intro hole_step) (simp_all add: less_number)
      ultimately show ?thesis using ih(5) num by blast
    qed
    ultimately show ?thesis using run ih(1-3) by auto
  next
    case False
    then have "shift_loop nums h temp j = Some (nums, j)"
      using less.prems by (subst shift_loop.simps) (auto simp: c_arr)
    moreover have "gap_sorted h (i + 1) (nums[nat j := temp])"
      if num: "numeric nums" "\<not> is_nan temp" and inv: "hole_inv h i j temp nums"
    proof (rule hole_fill [OF less.prems inv])
      assume j: "h \<le> j"
      then have "\<not> is_nan (nums ! nat (j - h))" using num less.prems by (intro numeric_nth) simp_all
      then show "dkey temp \<le> dkey (nums ! nat (j - h))" using j False num by (simp add: less_number)
    qed
    ultimately show ?thesis using less.prems by auto
  qed
qed

lemma gap_sorted_hole: "gap_sorted h i nums \<Longrightarrow> 0 < h \<Longrightarrow> hole_inv h i i temp nums"
  by (auto simp: gap_sorted_def hole_inv_def)

lemma gap_pass_correct:
  assumes "0 < h" "h \<le> i"
  shows "\<exists>arr. gap_pass nums h i = Some arr \<and> perm_within 0 (int (length nums) - 1) nums arr
    \<and> (numeric nums \<and> gap_sorted h i nums \<longrightarrow> gap_sorted h (int (length nums)) arr)"
  using assms
proof (induction "nat (int (length nums) - i)" arbitrary: nums i rule: less_induct)
  case less
  let ?n = "int (length nums)"
  show ?case
  proof (cases "i < ?n")
    case True
    let ?temp = "nums ! nat i"
    obtain a1 m where a1: "shift_loop nums h ?temp i = Some (a1, m)" "0 \<le> m" "m \<le> i"
      "perm_within 0 i (nums[nat i := ?temp]) (a1[nat m := ?temp])"
      "numeric nums \<and> \<not> is_nan ?temp \<and> hole_inv h i i ?temp nums \<longrightarrow> gap_sorted h (i + 1) (a1[nat m := ?temp])"
      using shift_loop_correct [of h i i nums ?temp] less.prems True by auto
    let ?a = "a1[nat m := ?temp]"
    have perm: "perm_within 0 i nums ?a" using a1(4) by simp
    have len: "length a1 = length nums" using perm_within_length [OF perm] by simp
    obtain a2 where a2: "gap_pass ?a h (i + 1) = Some a2" "perm_within 0 (?n - 1) ?a a2"
      "numeric ?a \<and> gap_sorted h (i + 1) ?a \<longrightarrow> gap_sorted h ?n a2"
      using less.hyps [of ?a "i + 1"] less.prems True len by auto
    have "gap_pass nums h i = Some a2"
      using True less.prems a1(1-3) a2(1) len by (subst gap_pass.simps) (simp add: c_arr)
    moreover have "perm_within 0 (?n - 1) nums a2"
      using perm_within_mono [OF perm, of 0 "?n - 1"] a2(2) True perm_within_trans by auto
    moreover have "gap_sorted h ?n a2" if "numeric nums" "gap_sorted h i nums"
      using that a1(5) a2(3) numeric_perm [OF perm] gap_sorted_hole less.prems True by (simp add: numeric_nth)
    ultimately show ?thesis by blast
  next
    case False
    then show ?thesis using less.prems by (subst gap_pass.simps) (auto simp: gap_sorted_def)
  qed
qed

text \<open>A pass of gap h from its start sorts each of the h interleaved arrays.\<close>

lemma gap_pass_sorts:
  assumes "0 < h"
  obtains arr where "gap_pass nums h h = Some arr" and "perm_within 0 (int (length nums) - 1) nums arr"
    and "numeric nums \<Longrightarrow> gap_sorted h (int (length nums)) arr"
  using gap_pass_correct [OF assms order.refl, of nums] by (auto simp: gap_sorted_def)

section \<open>The sort\<close>

lemma gap_sorted_1:
  assumes "gap_sorted 1 (int (length arr)) arr"
  shows "desc_on 0 (int (length arr) - 1) arr"
  unfolding desc_on_def
proof (intro allI impI, elim conjE)
  fix i j :: int assume ij: "0 \<le> i" "i < j" "j \<le> int (length arr) - 1"
  then show "dkey (arr ! nat j) \<le> dkey (arr ! nat i)"
  proof (induction "nat (j - i)" arbitrary: j)
    case (Suc d)
    have step: "dkey (arr ! nat j) \<le> dkey (arr ! nat (j - 1))"
      using assms Suc.prems by (simp add: gap_sorted_def)
    show ?case
    proof (cases "i = j - 1")
      case False
      then have "dkey (arr ! nat (j - 1)) \<le> dkey (arr ! nat i)" using Suc.hyps(2) Suc.prems by (intro Suc.hyps(1)) simp_all
      then show ?thesis using step by simp
    qed (use step in simp)
  qed simp
qed

lemma shell_loop_correct:
  "\<exists>arr. shell_loop nums h = Some arr \<and> perm_within 0 (int (length nums) - 1) nums arr
    \<and> (numeric nums \<and> 0 < h \<longrightarrow> desc_on 0 (int (length nums) - 1) arr)"
proof (induction "nat h" arbitrary: nums h rule: less_induct)
  case less
  show ?case
  proof (cases "0 < h")
    case False
    then show ?thesis by (subst shell_loop.simps) simp
  next
    case True
    obtain a1 where a1: "gap_pass nums h h = Some a1" "perm_within 0 (int (length nums) - 1) nums a1"
      "numeric nums \<Longrightarrow> gap_sorted h (int (length nums)) a1"
      using gap_pass_sorts [OF True, of nums] by blast
    note len = perm_within_length [OF a1(2)]
    have half: "nat (h div 2) < nat h" using True by simp
    obtain a2 where a2: "shell_loop a1 (h div 2) = Some a2" "perm_within 0 (int (length a1) - 1) a1 a2"
      "numeric a1 \<and> 0 < h div 2 \<longrightarrow> desc_on 0 (int (length a1) - 1) a2"
      using less.hyps [of "h div 2" a1, OF half] by blast
    have "shell_loop nums h = Some a2" using True a1(1) a2(1) by (subst shell_loop.simps) simp
    moreover have "perm_within 0 (int (length nums) - 1) nums a2" using a1(2) a2(2) len perm_within_trans by metis
    moreover have "desc_on 0 (int (length nums) - 1) a2" if num: "numeric nums"
    proof (cases "h = 1")
      case True
      then have "shell_loop a1 (h div 2) = Some a1" by (subst shell_loop.simps) simp
      then show ?thesis using a1(3) [OF num] gap_sorted_1 [of a1] a2(1) True len by simp
    next
      case False
      then show ?thesis using a2(3) num numeric_perm [OF a1(2)] True len by auto
    qed
    ultimately show ?thesis by blast
  qed
qed

lemma shellsort_runs:
  "\<exists>ys. shellsort xs = Some ys \<and> mset ys = mset xs \<and> (numeric xs \<longrightarrow> sorted_wrt (\<ge>) ys)"
proof -
  obtain ys where ys: "shellsort xs = Some ys" "perm_within 0 (int (length xs) - 1) xs ys"
    "numeric xs \<and> 0 < int (length xs div 2) \<longrightarrow> desc_on 0 (int (length xs) - 1) ys"
    using shell_loop_correct [of xs "int (length xs div 2)"] by (auto simp: shellsort_def)
  have "desc_on 0 (int (length xs) - 1) ys" if "length xs div 2 = 0"
    using that by (auto simp: desc_on_def div_eq_0_iff)
  then have "numeric xs \<longrightarrow> desc_on 0 (int (length xs) - 1) ys" using ys(3) by fastforce
  then show ?thesis using ys(1) perm_within_sorted [OF ys(2)] by blast
qed

interpretation shell_s: lua_sort shellsort int_sized
  by unfold_locales (simp add: shellsort_runs int_sized_def)

end
