(* ===== verification/Bubblesort.thy ===== *)
theory Bubblesort
  imports IntArrays "HOL-Library.Monad_Syntax"
begin

text \<open>
  \<open>l_bubblesort\<close> of \<open>src/src/sort.c\<close>: passes up to the place of the last exchange.  After a pass
  no element from that place on is above an earlier one, so the next pass can stop there, and when
  a pass exchanges nothing the array is sorted from the greatest to the least.
\<close>

function bubble_pass :: "double list \<Rightarrow> int \<Rightarrow> int \<Rightarrow> int \<Rightarrow> (double list \<times> int) option" where
  "bubble_pass nums n i new =
     (if i \<noteq> n - 1 then do {
        x \<leftarrow> a_load nums (i + 1);
        y \<leftarrow> a_load nums i;
        if x > y then do {
          arr \<leftarrow> a_store nums i x;
          arr \<leftarrow> a_store arr (i + 1) y;
          bubble_pass arr n (i + 1) (i + 1)
        } else bubble_pass nums n (i + 1) new
      } else Some (nums, new))"
  by pat_completeness auto
termination
  by (relation "measure (\<lambda>(nums, n, i, new). nat (int (length nums) - i))")
    (auto dest!: a_load_range a_store_length)

declare bubble_pass.simps [simp del]

partial_function (option) bubble_loop :: "double list \<Rightarrow> int \<Rightarrow> double list option" where
  "bubble_loop nums n =
     (if n > 0 then Option.bind (bubble_pass nums n 0 0) (\<lambda>(nums, new). bubble_loop nums new)
      else Some nums)"

definition bubblesort :: "double list \<Rightarrow> double list option" where
  "bubblesort nums = bubble_loop nums (int (length nums))"

definition l_bubblesort :: "lua_array \<Rightarrow> lua_error + double list" where
  "l_bubblesort t = on_table bubblesort t"

section \<open>A pass\<close>

text \<open>No element at an index from m to i is above an earlier one.\<close>

definition settled :: "int \<Rightarrow> int \<Rightarrow> double list \<Rightarrow> bool" where
  "settled m i arr \<longleftrightarrow> (\<forall>p q. 0 \<le> p \<and> p < q \<and> m \<le> q \<and> q \<le> i \<longrightarrow> dkey (arr ! nat q) \<le> dkey (arr ! nat p))"

lemma settled_keep:
  assumes "settled m i arr" "m \<le> i" "0 \<le> i" "dkey (arr ! nat (i + 1)) \<le> dkey (arr ! nat i)"
  shows "settled m (i + 1) arr"
  unfolding settled_def
proof (intro allI impI, elim conjE)
  fix p q assume pq: "0 \<le> p" "p < q" "m \<le> q" "q \<le> i + 1"
  show "dkey (arr ! nat q) \<le> dkey (arr ! nat p)"
  proof (cases "q = i + 1 \<and> p < i")
    case True
    have "dkey (arr ! nat i) \<le> dkey (arr ! nat p)" using assms(1,2) True pq by (simp add: settled_def)
    then show ?thesis using assms(4) True by simp
  next
    case False
    then consider "q = i + 1" "p = i" | "q \<le> i" using pq by linarith
    then show ?thesis using assms(1,4) pq by cases (simp_all add: settled_def)
  qed
qed

lemma settled_swap:
  assumes "settled m i arr" "m \<le> i" "0 \<le> i" "i + 1 < int (length arr)"
    and "dkey (arr ! nat i) \<le> dkey (arr ! nat (i + 1))"
  shows "settled (i + 1) (i + 1) (arr[nat i := arr ! nat (i + 1), nat (i + 1) := arr ! nat i])"
  unfolding settled_def
proof (intro allI impI, elim conjE)
  let ?a = "arr[nat i := arr ! nat (i + 1), nat (i + 1) := arr ! nat i]"
  fix p q assume pq: "0 \<le> p" "p < q" "i + 1 \<le> q" "q \<le> i + 1"
  have at: "?a ! nat k = (if k = i then arr ! nat (i + 1) else if k = i + 1 then arr ! nat i else arr ! nat k)"
    if "0 \<le> k" for k
    using that assms by (intro swap_nth) simp_all
  have "dkey (arr ! nat i) \<le> dkey (arr ! nat p)" if "p < i"
    using assms(1,2) that pq(1) by (simp add: settled_def)
  then show "dkey (?a ! nat q) \<le> dkey (?a ! nat p)"
    using pq assms(3,5) at [of p] at [of q] by auto
qed

lemma bubble_pass_correct:
  assumes "0 \<le> i" "i \<le> n - 1" "n \<le> int (length nums)" "0 \<le> new" "new \<le> i"
  shows "\<exists>arr m. bubble_pass nums n i new = Some (arr, m) \<and> 0 \<le> m \<and> m \<le> n - 1
    \<and> perm_within 0 (n - 1) nums arr
    \<and> (numeric nums \<and> settled new i nums \<longrightarrow> settled m (n - 1) arr)"
  using assms
proof (induction "nat (n - 1 - i)" arbitrary: nums i new)
  case 0
  then show ?case by (subst bubble_pass.simps) auto
next
  case (Suc d)
  let ?x = "nums ! nat (i + 1)" and ?y = "nums ! nat i"
  let ?a = "nums[nat i := ?x, nat (i + 1) := ?y]"
  have i: "i < n - 1" "d = nat (n - 1 - (i + 1))" using Suc.hyps(2) by simp_all
  have ih: "\<exists>arr m. bubble_pass nums' n (i + 1) new' = Some (arr, m) \<and> 0 \<le> m \<and> m \<le> n - 1
      \<and> perm_within 0 (n - 1) nums' arr
      \<and> (numeric nums' \<and> settled new' (i + 1) nums' \<longrightarrow> settled m (n - 1) arr)"
    if "length nums' = length nums" "0 \<le> new'" "new' \<le> i + 1" for nums' new'
    using that i Suc.prems by (intro Suc.hyps(1)) simp_all
  have ord: "?x > ?y \<longleftrightarrow> dkey ?y < dkey ?x" if "numeric nums"
    using that i Suc.prems by (intro less_number numeric_nth) simp_all
  show ?case
  proof (cases "?x > ?y")
    case True
    have run: "bubble_pass nums n i new = bubble_pass ?a n (i + 1) (i + 1)"
      using True i Suc.prems by (subst bubble_pass.simps) (simp add: c_arr)
    have perm: "perm_within 0 (n - 1) nums ?a" using i Suc.prems by (intro perm_within_swap) simp_all
    obtain arr m where arr: "bubble_pass ?a n (i + 1) (i + 1) = Some (arr, m)" "0 \<le> m" "m \<le> n - 1"
      "perm_within 0 (n - 1) ?a arr"
      "numeric ?a \<and> settled (i + 1) (i + 1) ?a \<longrightarrow> settled m (n - 1) arr"
      using ih [of ?a "i + 1"] Suc.prems by auto
    have "settled m (n - 1) arr" if num: "numeric nums" and "settled new i nums"
      using arr(5) settled_swap [of new i nums] that ord [OF num] True i Suc.prems numeric_perm [OF perm]
      by auto
    then show ?thesis using run arr(1-4) perm perm_within_trans by metis
  next
    case False
    have run: "bubble_pass nums n i new = bubble_pass nums n (i + 1) new"
      using False i Suc.prems by (subst bubble_pass.simps) (simp add: c_arr)
    have "settled new (i + 1) nums" if num: "numeric nums" and "settled new i nums"
      using that ord [OF num] False Suc.prems by (intro settled_keep) simp_all
    then show ?thesis using run ih [of nums new] Suc.prems by auto
  qed
qed

section \<open>The sort\<close>

lemma settled_join:
  assumes perm: "perm_within 0 (n - 1) nums arr" and n: "0 \<le> n" "n \<le> int (length nums)"
    and before: "settled n (int (length nums) - 1) nums" and pass: "settled m (n - 1) arr"
  shows "settled m (int (length nums) - 1) arr"
  unfolding settled_def
proof (intro allI impI, elim conjE)
  fix p q assume pq: "0 \<le> p" "p < q" "m \<le> q" "q \<le> int (length nums) - 1"
  show "dkey (arr ! nat q) \<le> dkey (arr ! nat p)"
  proof (cases "q \<le> n - 1")
    case True
    then show ?thesis using pass pq by (simp add: settled_def)
  next
    case False
    have q: "arr ! nat q = nums ! nat q" by (rule perm_within_outside [OF perm]) (use False pq in simp_all)
    show ?thesis
    proof (cases "p \<le> n - 1")
      case True
      have "dkey (nums ! nat q) \<le> dkey (nums ! nat k)" if "0 \<le> k" "k \<le> n - 1" for k
        using before that False pq by (simp add: settled_def)
      then have "dkey (nums ! nat q) \<le> dkey (arr ! nat p)"
        by (intro perm_within_all [OF perm, where P = "\<lambda>x. dkey (nums ! nat q) \<le> dkey x"])
          (use True pq n in simp_all)
      then show ?thesis using q by simp
    next
      case False
      have "arr ! nat p = nums ! nat p" by (rule perm_within_outside [OF perm]) (use False pq in simp_all)
      then show ?thesis using q before pq False by (simp add: settled_def)
    qed
  qed
qed

lemma bubble_loop_correct:
  assumes "0 \<le> n" "n \<le> int (length nums)"
  shows "\<exists>arr. bubble_loop nums n = Some arr \<and> perm_within 0 (int (length nums) - 1) nums arr
    \<and> (numeric nums \<and> settled n (int (length nums) - 1) nums \<longrightarrow> desc_on 0 (int (length nums) - 1) arr)"
  using assms
proof (induction "nat n" arbitrary: nums n rule: less_induct)
  case less
  let ?e = "int (length nums) - 1"
  show ?case
  proof (cases "0 < n")
    case False
    then have "n = 0" using less.prems by simp
    then show ?thesis by (subst bubble_loop.simps) (auto simp: settled_def desc_on_def)
  next
    case True
    obtain a1 m where a1: "bubble_pass nums n 0 0 = Some (a1, m)" "0 \<le> m" "m \<le> n - 1"
      "perm_within 0 (n - 1) nums a1" "numeric nums \<and> settled 0 0 nums \<longrightarrow> settled m (n - 1) a1"
      using bubble_pass_correct [of 0 n nums 0] True less.prems by auto
    note len = perm_within_length [OF a1(4)]
    obtain a2 where a2: "bubble_loop a1 m = Some a2" "perm_within 0 (int (length a1) - 1) a1 a2"
      "numeric a1 \<and> settled m (int (length a1) - 1) a1 \<longrightarrow> desc_on 0 (int (length a1) - 1) a2"
      using less.hyps [of m a1] a1(2,3) less.prems len True by auto
    have "bubble_loop nums n = Some a2" using True a1(1) a2(1) by (subst bubble_loop.simps) simp
    moreover have "perm_within 0 ?e nums a1" by (rule perm_within_mono [OF a1(4)]) (use less.prems in simp_all)
    then have "perm_within 0 ?e nums a2" using a2(2) len perm_within_trans by metis
    moreover have "desc_on 0 ?e a2" if num: "numeric nums" and settled: "settled n ?e nums"
    proof -
      have "settled 0 0 nums" by (simp add: settled_def)
      then have "settled m ?e a1"
        using a1(5) num by (intro settled_join [OF a1(4) less.prems settled]) simp
      then show ?thesis using a2(3) num numeric_perm [OF a1(4)] len by simp
    qed
    ultimately show ?thesis by blast
  qed
qed

lemma bubblesort_runs:
  "\<exists>ys. bubblesort xs = Some ys \<and> mset ys = mset xs \<and> (numeric xs \<longrightarrow> sorted_wrt (\<ge>) ys)"
proof -
  have "settled (int (length xs)) (int (length xs) - 1) xs" by (simp add: settled_def)
  then show ?thesis
    using bubble_loop_correct [of "int (length xs)" xs] perm_within_sorted
    unfolding bubblesort_def by auto
qed

interpretation bubble_s: lua_sort bubblesort int_sized
  by unfold_locales (simp add: bubblesort_runs int_sized_def)

end
