(* ===== verification/Countingsort.thy ===== *)
theory Countingsort
  imports IntArrays "HOL-Library.Monad_Syntax"
begin

text \<open>
  \<open>l_countingsort\<close> of \<open>src/src/sort.c\<close>.  The numbers are converted to int (undefined outside its
  range), a negative one is fatal, and the size max + 1 of the counter array is computed in int.
  Counting, summing up and placing backwards then sorts from the least to the greatest.
\<close>

fun counting_step :: "double \<Rightarrow> int list \<times> int \<Rightarrow> lua_error + int list \<times> int" where
  "counting_step d (nums, mx) = (case double_to_int d of
     None \<Rightarrow> Inl Undefined
   | Some x \<Rightarrow> (if x < 0 then Inl (Fatal ''array.countingsort(<table>) requires all indices to be >= 0'')
       else Inr (nums @ [x], if mx < x then x else mx)))"

fun count_loop :: "int list \<Rightarrow> int list \<Rightarrow> int list option" where
  "count_loop [] cnt = Some cnt"
| "count_loop (x # nums) cnt = do {
     c \<leftarrow> a_load cnt x;
     cnt \<leftarrow> a_store cnt x (c + 1);
     count_loop nums cnt
   }"

function sum_loop :: "int list \<Rightarrow> int \<Rightarrow> int \<Rightarrow> int list option" where
  "sum_loop cnt mx i =
     (if i \<le> mx then do {
        x \<leftarrow> a_load cnt i;
        y \<leftarrow> a_load cnt (i - 1);
        cnt \<leftarrow> a_store cnt i (x + y);
        sum_loop cnt mx (i + 1)
      } else Some cnt)"
  by pat_completeness auto
termination by (relation "measure (\<lambda>(cnt, mx, i). nat (mx + 1 - i))") auto

declare sum_loop.simps [simp del]

text \<open>The placing loop runs from the last number to the first.\<close>

fun place_loop :: "int list \<Rightarrow> int list \<Rightarrow> int list \<Rightarrow> int list option" where
  "place_loop [] out cnt = Some out"
| "place_loop (x # nums_rev) out cnt = do {
     c \<leftarrow> a_load cnt x;
     out \<leftarrow> a_store out (c - 1) x;
     cnt \<leftarrow> a_store cnt x (c - 1);
     place_loop nums_rev out cnt
   }"

definition counting_out :: "int list \<Rightarrow> int \<Rightarrow> int list option" where
  "counting_out nums mx = do {
     size \<leftarrow> c_int (mx + 1);
     cnt \<leftarrow> count_loop nums (replicate (nat size) 0);
     cnt \<leftarrow> sum_loop cnt mx 1;
     place_loop (rev nums) (replicate (length nums) 0) cnt
   }"

definition l_countingsort :: "lua_array \<Rightarrow> lua_error + int list" where
  "l_countingsort t = (case over_table counting_step t ([], 0) of
     Inl e \<Rightarrow> Inl e
   | Inr (nums, mx) \<Rightarrow> (case counting_out nums mx of None \<Rightarrow> Inl Undefined | Some out \<Rightarrow> Inr out))"

section \<open>Reading\<close>

lemma steps_counting:
  "map double_to_int ds = map Some xs \<Longrightarrow> \<forall>x\<in>set xs. 0 \<le> x \<Longrightarrow>
   steps counting_step ds (nums, mx) = Inr (nums @ xs, fold max xs mx)"
proof (induction ds arbitrary: xs nums mx)
  case (Cons d ds)
  then obtain x xs' where "xs = x # xs'" "double_to_int d = Some x" "map double_to_int ds = map Some xs'"
    by (cases xs) auto
  then show ?case using Cons.IH [of xs' "nums @ [x]" "max x mx"] Cons.prems
    by (cases "mx < x") (simp_all add: max_def not_less)
qed simp

lemma steps_counting_negative:
  "map double_to_int ds = map Some xs \<Longrightarrow> x \<in> set xs \<Longrightarrow> x < 0 \<Longrightarrow>
   \<exists>m. steps counting_step ds s = Inl (Fatal m)"
proof (induction ds arbitrary: xs s)
  case (Cons d ds)
  then obtain y xs' where "xs = y # xs'" "double_to_int d = Some y" "map double_to_int ds = map Some xs'"
    by (cases xs) auto
  then show ?case using Cons.IH [of xs'] Cons.prems by (cases s) auto
qed simp

section \<open>Counting\<close>

abbreviation below :: "int list \<Rightarrow> int \<Rightarrow> nat" where
  "below nums v \<equiv> length (filter (\<lambda>x. x < v) nums)"

lemma count_loop_correct:
  assumes "\<forall>x\<in>set nums. 0 \<le> x \<and> x < int (length cnt)"
  shows "\<exists>cnt'. count_loop nums cnt = Some cnt' \<and> length cnt' = length cnt
    \<and> (\<forall>v < length cnt. cnt' ! v = cnt ! v + int (count_list nums (int v)))"
  using assms
proof (induction nums arbitrary: cnt)
  case (Cons x nums)
  let ?c = "cnt[nat x := cnt ! nat x + 1]"
  obtain cnt' where "count_loop nums ?c = Some cnt'" "length cnt' = length cnt"
    "\<forall>v < length cnt. cnt' ! v = ?c ! v + int (count_list nums (int v))"
    using Cons.IH [of ?c] Cons.prems by auto
  then show ?case using Cons.prems by (auto simp: c_arr nth_list_update)
qed simp

lemma below_Suc: "below nums (v + 1) = below nums v + count_list nums v"
  by (induction nums) auto

lemma sum_loop_correct:
  assumes "1 \<le> i" "i \<le> mx + 1" "length cnt = nat (mx + 1)"
    and "\<forall>v. 0 \<le> v \<and> v < i \<longrightarrow> cnt ! nat v = int (below nums (v + 1))"
    and "\<forall>v. i \<le> v \<and> v \<le> mx \<longrightarrow> cnt ! nat v = int (count_list nums v)"
  shows "\<exists>cnt'. sum_loop cnt mx i = Some cnt' \<and> length cnt' = nat (mx + 1)
    \<and> (\<forall>v. 0 \<le> v \<and> v \<le> mx \<longrightarrow> cnt' ! nat v = int (below nums (v + 1)))"
  using assms
proof (induction "nat (mx + 1 - i)" arbitrary: cnt i)
  case 0
  then show ?case by (subst sum_loop.simps) auto
next
  case (Suc d)
  let ?c = "cnt[nat i := cnt ! nat i + cnt ! nat (i - 1)]"
  have i: "i \<le> mx" using Suc.hyps(2) by simp
  have at: "?c ! nat v = (if v = i then cnt ! nat i + cnt ! nat (i - 1) else cnt ! nat v)"
    if "0 \<le> v" for v
    using that Suc.prems(1,3) i by (auto simp: nth_list_update nat_eq_iff)
  have new: "cnt ! nat i + cnt ! nat (i - 1) = int (below nums (i + 1))"
    using Suc.prems(1,4,5) i below_Suc [of i nums] by simp
  have "sum_loop cnt mx i = sum_loop ?c mx (i + 1)"
    using i Suc.prems(1,3) by (subst sum_loop.simps) (simp add: c_arr)
  moreover have "\<exists>cnt'. sum_loop ?c mx (i + 1) = Some cnt' \<and> length cnt' = nat (mx + 1)
      \<and> (\<forall>v. 0 \<le> v \<and> v \<le> mx \<longrightarrow> cnt' ! nat v = int (below nums (v + 1)))"
  proof (rule Suc.hyps(1))
    show "\<forall>v. 0 \<le> v \<and> v < i + 1 \<longrightarrow> ?c ! nat v = int (below nums (v + 1))"
      using at new Suc.prems(4) by auto
    show "\<forall>v. i + 1 \<le> v \<and> v \<le> mx \<longrightarrow> ?c ! nat v = int (count_list nums v)"
      using at Suc.prems(1,5) by auto
  qed (use Suc.hyps(2) Suc.prems i in simp_all)
  ultimately show ?case by simp
qed

section \<open>Placing\<close>

text \<open>While the numbers of ns are still to be placed, count v points behind the slots they need; the
  slots of v above are filled.\<close>

definition place_inv :: "int list \<Rightarrow> int list \<Rightarrow> int list \<Rightarrow> int list \<Rightarrow> bool" where
  "place_inv nums ns out cnt \<longleftrightarrow> length out = length nums
     \<and> (\<forall>v. 0 \<le> v \<and> v < int (length cnt) \<longrightarrow> cnt ! nat v = int (below nums v + count_list ns v))
     \<and> (\<forall>v r. count_list ns v \<le> r \<and> r < count_list nums v \<longrightarrow> out ! (below nums v + r) = v)"

lemma below_count_le: "below nums v + count_list nums v \<le> length nums"
  by (induction nums) auto

lemma slots_disjoint:
  assumes "r < count_list nums v" "s < count_list nums w" "v \<noteq> w"
  shows "below nums v + r \<noteq> below nums w + s"
proof -
  have "below nums a + count_list nums a \<le> below nums b" if "a < b" for a b :: int
    using that by (induction nums) auto
  from this [of v w] this [of w v] show ?thesis using assms by (cases "v < w") auto
qed

lemma place_step:
  assumes inv: "place_inv nums (x # ns) out cnt" and x: "0 \<le> x" "x < int (length cnt)"
    and sub: "\<And>v. count_list (x # ns) v \<le> count_list nums v"
  defines "c \<equiv> cnt ! nat x"
  shows "0 \<le> c - 1" "c - 1 < int (length out)" "place_inv nums ns (out[nat (c - 1) := x]) (cnt[nat x := c - 1])"
proof -
  have c: "c = int (below nums x + count_list ns x + 1)"
    using inv x by (simp add: place_inv_def c_def)
  then have nat: "nat (c - 1) = below nums x + count_list ns x" by simp
  have lt: "count_list ns x < count_list nums x" using sub [of x] by simp
  show "0 \<le> c - 1" using c by simp
  show "c - 1 < int (length out)"
    using c lt inv below_count_le [where nums = nums and v = x] by (simp add: place_inv_def)
  then have "nat (c - 1) < length out" using \<open>0 \<le> c - 1\<close> by (simp add: nat_less_iff)
  then have slot: "below nums x + count_list ns x < length out" by (simp only: nat)
  show "place_inv nums ns (out[nat (c - 1) := x]) (cnt[nat x := c - 1])"
    unfolding place_inv_def
  proof (intro conjI allI impI)
    show "length (out[nat (c - 1) := x]) = length nums" using inv by (simp add: place_inv_def)
    fix v assume v: "0 \<le> v \<and> v < int (length (cnt[nat x := c - 1]))"
    show "cnt[nat x := c - 1] ! nat v = int (below nums v + count_list ns v)"
      using v inv x c by (cases "v = x") (auto simp: place_inv_def nth_list_update nat_eq_iff)
  next
    fix v r assume r: "count_list ns v \<le> r \<and> r < count_list nums v"
    show "out[nat (c - 1) := x] ! (below nums v + r) = v"
    proof (cases "v = x \<and> r = count_list ns x")
      case True
      then show ?thesis using slot by (simp add: nat)
    next
      case False
      then have "below nums v + r \<noteq> below nums x + count_list ns x"
        using slots_disjoint [of r nums v "count_list ns x" x] r lt by (cases "v = x") auto
      moreover have "count_list (x # ns) v \<le> r" using r False by (cases "v = x") auto
      then have "out ! (below nums v + r) = v"
        using inv r unfolding place_inv_def by blast
      ultimately show ?thesis by (simp add: nat)
    qed
  qed
qed

lemma place_loop_correct:
  assumes "place_inv nums ns out cnt" and "\<forall>x\<in>set ns. 0 \<le> x \<and> x < int (length cnt)"
    and "\<And>v. count_list ns v \<le> count_list nums v"
  shows "\<exists>out' cnt'. place_loop ns out cnt = Some out' \<and> place_inv nums [] out' cnt'"
  using assms
proof (induction ns arbitrary: out cnt)
  case Nil
  then show ?case by auto
next
  case (Cons x ns)
  let ?c = "cnt ! nat x"
  have x: "0 \<le> x" "x < int (length cnt)" using Cons.prems(2) by simp_all
  note step = place_step [OF Cons.prems(1) x Cons.prems(3)]
  have sub: "count_list ns v \<le> count_list nums v" for v
    using Cons.prems(3) [of v] by (auto split: if_splits)
  have "\<exists>out' cnt'. place_loop ns (out[nat (?c - 1) := x]) (cnt[nat x := ?c - 1]) = Some out'
      \<and> place_inv nums [] out' cnt'"
    using step Cons.prems(2) sub by (intro Cons.IH) auto
  then show ?case using x step by (simp add: c_arr)
qed

lemma sorted_slot:
  assumes "sorted s" "p < length s"
  shows "below s (s ! p) \<le> p" "p < below s (s ! p) + count_list s (s ! p)"
proof -
  have "{k. k < length s \<and> s ! k < s ! p} \<subseteq> {..<p}"
    using assms by (auto simp: not_less [symmetric] dest: sorted_nth_mono [of s p])
  then have "card {k. k < length s \<and> s ! k < s ! p} \<le> card {..<p}" by (intro card_mono) simp_all
  then show "below s (s ! p) \<le> p" by (simp add: length_filter_conv_card)
  have "{..p} \<subseteq> {k. k < length s \<and> s ! k < s ! p + 1}"
    using assms sorted_nth_mono [of s _ p] by fastforce
  then have "card {..p} \<le> card {k. k < length s \<and> s ! k < s ! p + 1}" by (intro card_mono) simp_all
  then have "p < below s (s ! p + 1)" unfolding length_filter_conv_card by simp
  then show "p < below s (s ! p) + count_list s (s ! p)" by (simp only: below_Suc)
qed

lemma place_inv_sorted:
  assumes "place_inv nums [] out cnt"
  shows "out = sort nums"
proof (rule nth_equalityI)
  show "length out = length (sort nums)" using assms by (simp add: place_inv_def)
next
  fix p assume "p < length out"
  then have p: "p < length (sort nums)" using assms by (simp add: place_inv_def)
  let ?v = "sort nums ! p"
  have eq: "below (sort nums) ?v = below nums ?v" "count_list (sort nums) ?v = count_list nums ?v"
    by (metis mset_filter mset_sort size_mset, metis count_mset mset_sort)
  obtain r where r: "p = below nums ?v + r" "r < count_list nums ?v"
    using sorted_slot [OF sorted_sort p] unfolding eq by (metis add_less_cancel_left le_iff_add)
  have "out ! (below nums ?v + r) = ?v" using assms r(2) by (simp add: place_inv_def)
  then show "out ! p = sort nums ! p" using r(1) by simp
qed

section \<open>The sort\<close>

lemma counting_out_sorts:
  assumes range: "\<forall>x\<in>set nums. 0 \<le> x \<and> x \<le> mx" and mx: "0 \<le> mx" "mx < 2 ^ 31 - 1"
  shows "counting_out nums mx = Some (sort nums)"
proof -
  have int: "c_int (mx + 1) = Some (mx + 1)" using mx by (intro c_int_Some) simp_all
  let ?zero = "replicate (nat (mx + 1)) (0 :: int)"
  obtain c1 where c1: "count_loop nums ?zero = Some c1" "length c1 = nat (mx + 1)"
    "\<forall>v < nat (mx + 1). c1 ! v = int (count_list nums (int v))"
    using count_loop_correct [of nums ?zero] range mx by fastforce
  have none: "below nums 0 = 0" using range by (auto simp: filter_empty_conv)
  have "c1 ! 0 = int (below nums (0 + 1))"
    using c1(3) mx none below_Suc [of 0 nums] by simp
  then have first: "c1 ! nat v = int (below nums (v + 1))" if "0 \<le> v" "v < 1" for v
    using that by (cases "v = 0") simp_all
  have rest: "c1 ! nat v = int (count_list nums v)" if "1 \<le> v" "v \<le> mx" for v
    using c1(3) that by simp
  have sum_start: "\<exists>c2. sum_loop c1 mx 1 = Some c2 \<and> length c2 = nat (mx + 1)
      \<and> (\<forall>v. 0 \<le> v \<and> v \<le> mx \<longrightarrow> c2 ! nat v = int (below nums (v + 1)))"
    using mx(1) c1(2) first rest by (intro sum_loop_correct) simp_all
  then obtain c2 where c2: "sum_loop c1 mx 1 = Some c2" "length c2 = nat (mx + 1)"
    "\<forall>v. 0 \<le> v \<and> v \<le> mx \<longrightarrow> c2 ! nat v = int (below nums (v + 1))"
    using sum_start mx(1) c1(2) by auto
  have cnt: "count_list (rev nums) v = count_list nums v" for v by (metis count_mset mset_rev)
  have "c2 ! nat v = int (below nums v + count_list nums v)" if "0 \<le> v" "v \<le> mx" for v
    using c2(3) that by (simp only: below_Suc)
  then have "place_inv nums (rev nums) (replicate (length nums) 0) c2"
    using c2(2) by (simp add: place_inv_def cnt)
  then obtain out c3 where "place_loop (rev nums) (replicate (length nums) 0) c2 = Some out"
    "place_inv nums [] out c3"
    using place_loop_correct [of nums "rev nums" "replicate (length nums) 0" c2] range c2(2) mx(1)
    by (auto simp: cnt)
  then show ?thesis using int c1(1) c2(1) place_inv_sorted by (simp add: counting_out_def)
qed

lemma fold_max_bounds: "\<forall>x\<in>set xs. x \<le> fold max xs (m :: int)" "m \<le> fold max xs m"
proof (induction xs arbitrary: m)
  case (Cons x xs)
  { case 1 show ?case using Cons.IH(1) [of "max x m"] Cons.IH(2) [of "max x m"] by simp }
  { case 2 show ?case using Cons.IH(2) [of "max x m"] by simp }
qed simp_all

lemma fold_max_less: "m < b \<Longrightarrow> \<forall>x\<in>set xs. x < b \<Longrightarrow> fold max xs (m :: int) < b"
  by (induction xs arbitrary: m) auto

lemma l_countingsort_sorts:
  assumes "ds \<noteq> []" "map double_to_int ds = map Some xs" "\<forall>x\<in>set xs. 0 \<le> x \<and> x < 2 ^ 31 - 1"
  shows "l_countingsort (map Some ds) = Inr (sort xs)"
proof -
  have "over_table counting_step (map Some ds) ([], 0) = Inr ([] @ xs, fold max xs 0)"
    using assms by (simp add: over_table_numbers steps_counting)
  moreover have "counting_out xs (fold max xs 0) = Some (sort xs)"
    using assms(3) fold_max_bounds(1) [of xs 0] fold_max_bounds(2) [of 0 xs]
      fold_max_less [of 0 "2 ^ 31 - 1" xs]
    by (intro counting_out_sorts) simp_all
  ultimately show ?thesis by (simp add: l_countingsort_def)
qed

lemma l_countingsort_negative:
  assumes "map double_to_int ds = map Some xs" "x \<in> set xs" "x < 0"
  shows "\<exists>m. l_countingsort (map Some ds) = Inl (Fatal m)"
proof -
  have "ds \<noteq> []" using assms by auto
  moreover obtain m where "steps counting_step ds ([], 0) = Inl (Fatal m)"
    using steps_counting_negative [OF assms] by blast
  ultimately show ?thesis by (simp add: l_countingsort_def over_table_numbers)
qed

end
