(* ===== verification/EsotericSorts.thy ===== *)
theory EsotericSorts
  imports IntArrays "HOL-Library.Monad_Syntax" "HOL-Library.Sublist"
begin

text \<open>
  The esoteric sorts of \<open>src/src/sort.c\<close>, which all order from the least to the greatest: slowsort,
  stalinsort, miraclesort and bogosort, with \<open>i_sorted\<close>, and \<open>i_shuffle\<close> and \<open>l_shuffle\<close> of
  \<open>src/src/table.c\<close>.  A loop that may run for ever is a partial function, so not returning is None.
  The results of rand() are a stream of numbers, a parameter.
\<close>

section \<open>Slowsort\<close>

partial_function (option) i_slowsort :: "double list \<Rightarrow> int \<Rightarrow> int \<Rightarrow> double list option" where
  "i_slowsort arr i j =
     (if i \<ge> j then Some arr
      else Option.bind (c_int (i + j)) (\<lambda>s.
        let m = s sdiv 2 in
        Option.bind (i_slowsort arr i m) (\<lambda>arr.
        Option.bind (i_slowsort arr (m + 1) j) (\<lambda>arr.
        Option.bind (a_load arr j) (\<lambda>x.
        Option.bind (a_load arr m) (\<lambda>y.
        Option.bind (if x < y then i_swap arr j m else Some arr) (\<lambda>arr.
        i_slowsort arr i (j - 1))))))))"

definition l_slowsort :: "lua_array \<Rightarrow> lua_error + double list" where
  "l_slowsort t = on_table (\<lambda>nums. i_slowsort nums 0 (int (length nums) - 1)) t"

lemma asc_on_perm:
  assumes "perm_within lo' hi' xs ys" and "hi < lo' \<or> hi' < lo" and "asc_on lo hi xs" and "0 \<le> lo"
    and "hi < int (length xs)"
  shows "asc_on lo hi ys"
  using assms perm_within_outside [OF assms(1)] by (auto simp: asc_on_def)

text \<open>After both halves are sorted, the exchange puts the greatest element of the range last.\<close>

lemma slow_greatest:
  assumes "asc_on i m arr" "asc_on (m + 1) j arr" "i \<le> m" "m < j" "0 \<le> i" "j < int (length arr)"
    and arr': "arr' = (if dkey (arr ! nat j) < dkey (arr ! nat m)
      then arr[nat j := arr ! nat m, nat m := arr ! nat j] else arr)"
    and k: "i \<le> k" "k \<le> j"
  shows "dkey (arr' ! nat k) \<le> dkey (arr' ! nat j)"
proof -
  have at: "arr[nat j := arr ! nat m, nat m := arr ! nat j] ! nat k
      = (if k = j then arr ! nat m else if k = m then arr ! nat j else arr ! nat k)" if "0 \<le> k" for k
    using that assms by (intro swap_nth) simp_all
  have "dkey (arr ! nat k) \<le> dkey (arr ! nat m)" if "i \<le> k" "k \<le> m" for k
    using assms(1) that by (cases "k = m") (simp_all add: asc_on_def)
  moreover have "dkey (arr ! nat k) \<le> dkey (arr ! nat j)" if "m < k" "k \<le> j" for k
    using assms(2) that by (cases "k = j") (simp_all add: asc_on_def)
  ultimately have "dkey (arr ! nat k) \<le> max (dkey (arr ! nat m)) (dkey (arr ! nat j))"
    using k by (cases "k \<le> m") (simp_all add: le_max_iff_disj)
  then show ?thesis using arr' k assms(3-5) at [of k] at [of j] by auto
qed

lemma i_slowsort_correct:
  assumes "0 \<le> i" "j < int (length arr)" "length arr \<le> 2 ^ 30"
  shows "\<exists>arr'. i_slowsort arr i j = Some arr' \<and> perm_within i j arr arr'
    \<and> (numeric arr \<longrightarrow> asc_on i j arr')"
  using assms
proof (induction "nat (j - i)" arbitrary: arr i j rule: less_induct)
  case less
  show ?case
  proof (cases "i < j")
    case False
    then show ?thesis by (subst i_slowsort.simps) (simp add: asc_on_def)
  next
    case True
    let ?m = "(i + j) div 2"
    have m: "i \<le> ?m" "?m < j" "0 \<le> ?m" using True less.prems(1) by simp_all
    have int: "c_int (i + j) = Some (i + j)" using True less.prems by (intro c_int_Some) simp_all
    have sdiv: "(i + j) sdiv 2 = ?m" using True less.prems by (simp add: signed_divide_int_def)
    obtain a1 where a1: "i_slowsort arr i ?m = Some a1" "perm_within i ?m arr a1" "numeric arr \<longrightarrow> asc_on i ?m a1"
      using less.hyps [of ?m i arr] less.prems m by auto
    note len1 = perm_within_length [OF a1(2)]
    obtain a2 where a2: "i_slowsort a1 (?m + 1) j = Some a2" "perm_within (?m + 1) j a1 a2"
      "numeric a1 \<longrightarrow> asc_on (?m + 1) j a2"
      using less.hyps [of j "?m + 1" a1] less.prems m len1 by auto
    note len2 = perm_within_length [OF a2(2)]
    let ?swap = "a2 ! nat j < a2 ! nat ?m"
    define a3 where "a3 = (if ?swap then a2[nat j := a2 ! nat ?m, nat ?m := a2 ! nat j] else a2)"
    have a3: "(if ?swap then i_swap a2 j ?m else Some a2) = Some a3" "perm_within i j a2 a3"
      using m True less.prems len1 len2 unfolding a3_def
      by (simp_all add: i_swap_Some perm_within_swap)
    note len3 = perm_within_length [OF a3(2)]
    obtain a4 where a4: "i_slowsort a3 i (j - 1) = Some a4" "perm_within i (j - 1) a3 a4"
      "numeric a3 \<longrightarrow> asc_on i (j - 1) a4"
      using less.hyps [of "j - 1" i a3] less.prems True len1 len2 len3 by auto
    have "a_load a2 j = Some (a2 ! nat j)" "a_load a2 ?m = Some (a2 ! nat ?m)"
      by (rule a_load_Some; use m True less.prems len1 len2 in linarith)+
    then have run: "i_slowsort arr i j = Some a4"
      using True int sdiv a1(1) a2(1) a3(1) a4(1) by (subst i_slowsort.simps) simp
    have "perm_within i j arr a1" by (rule perm_within_mono [OF a1(2)]) (use m in simp_all)
    moreover have "perm_within i j a1 a2" by (rule perm_within_mono [OF a2(2)]) (use m in simp_all)
    moreover have "perm_within i j a3 a4" by (rule perm_within_mono [OF a4(2)]) simp_all
    ultimately have perm: "perm_within i j arr a4" using a3(2) perm_within_trans by metis
    have "asc_on i j a4" if num: "numeric arr"
      unfolding asc_on_def
    proof (intro allI impI, elim conjE)
      fix p q assume pq: "i \<le> p" "p < q" "q \<le> j"
      have nums: "numeric a1" "numeric a2" "numeric a3"
        using num numeric_perm [OF a1(2)] numeric_perm [OF a2(2)] numeric_perm [OF a3(2)] by blast+
      have less: "?swap \<longleftrightarrow> dkey (a2 ! nat j) < dkey (a2 ! nat ?m)"
        using nums(2) m True less.prems len1 len2 by (intro less_number numeric_nth) simp_all
      have "asc_on i ?m a2"
        by (rule asc_on_perm [OF a2(2)]) (use a1(3) num less.prems m len1 in simp_all)
      then have top: "dkey (a3 ! nat k) \<le> dkey (a3 ! nat j)" if "i \<le> k" "k \<le> j" for k
        using a2(3) nums(1) m less.prems len1 len2 that a3_def [unfolded less]
        by (intro slow_greatest [of i ?m a2 j]) simp_all
      show "dkey (a4 ! nat p) \<le> dkey (a4 ! nat q)"
      proof (cases "q = j")
        case True
        have last: "a4 ! nat j = a3 ! nat j"
          by (rule perm_within_outside [OF a4(2)]) (use pq less.prems len1 len2 len3 in simp_all)
        have "dkey (a4 ! nat p) \<le> dkey (a3 ! nat j)"
          by (rule perm_within_all [OF a4(2), where P = "\<lambda>x. dkey x \<le> dkey (a3 ! nat j)"])
            (use pq True less.prems len1 len2 len3 top in simp_all)
        then show ?thesis using True last by simp
      next
        case False
        then show ?thesis using a4(3) nums(3) pq by (simp add: asc_on_def)
      qed
    qed
    then show ?thesis using run perm by blast
  qed
qed

lemma slowsort_runs:
  assumes "length xs \<le> 2 ^ 30"
  shows "\<exists>ys. i_slowsort xs 0 (int (length xs) - 1) = Some ys \<and> mset ys = mset xs
    \<and> (numeric xs \<longrightarrow> sorted_wrt (\<le>) ys)"
  using i_slowsort_correct [of 0 "int (length xs) - 1" xs] perm_within_sorted assms by auto

section \<open>Stalinsort\<close>

text \<open>The loop reads the table and keeps a number only when it is not below the last one kept.\<close>

definition stalin_step :: "double \<Rightarrow> double list \<Rightarrow> lua_error + double list" where
  "stalin_step n nums =
     Inr (if length nums = 0 \<or> nums ! (length nums - 1) \<le> n then nums @ [n] else nums)"

definition l_stalinsort :: "lua_array \<Rightarrow> lua_error + double list" where
  "l_stalinsort t = over_table stalin_step t []"

text \<open>The reference: what survives behind the element kept last.\<close>

fun survivors :: "double \<Rightarrow> double list \<Rightarrow> double list" where
  "survivors a [] = []"
| "survivors a (x # xs) = (if a \<le> x then x # survivors x xs else survivors a xs)"

lemma steps_stalin: "nums \<noteq> [] \<Longrightarrow> steps stalin_step xs nums = Inr (nums @ survivors (last nums) xs)"
  by (induction xs arbitrary: nums) (simp_all add: stalin_step_def last_conv_nth)

lemma l_stalinsort_survivors: "l_stalinsort (map Some (x # xs)) = Inr (x # survivors x xs)"
  using steps_stalin [of "[x]" xs] over_table_numbers [of "x # xs" stalin_step "[]"]
  by (simp add: l_stalinsort_def stalin_step_def)

lemma survivors_subseq: "subseq (survivors a xs) xs"
  by (induction a xs rule: survivors.induct) auto

lemma survivors_above: "\<forall>y\<in>set (survivors a xs). a \<le> y"
proof (induction a xs rule: survivors.induct)
  case (2 a x xs)
  show ?case
  proof (cases "a \<le> x")
    case True
    then show ?thesis using 2(1) double_le_trans [OF True] by simp
  qed (use 2(2) in simp)
qed simp

lemma survivors_sorted: "sorted_wrt (\<le>) (a # survivors a xs)"
proof (induction a xs rule: survivors.induct)
  case (2 a x xs)
  have above: "\<forall>y\<in>set (survivors a (x # xs)). a \<le> y" by (rule survivors_above)
  show ?case
  proof (cases "a \<le> x")
    case True
    then have "sorted_wrt (\<le>) (survivors a (x # xs))"
      using 2(1) [OF True] by (simp only: survivors.simps if_True)
    then show ?thesis using above by (simp only: sorted_wrt.simps simp_thms)
  next
    case False
    then show ?thesis using 2(2) [OF False] by (simp only: survivors.simps if_False)
  qed
qed simp

lemma survivors_nan: "is_nan a \<Longrightarrow> survivors a xs = []"
  by (induction xs) (simp_all add: less_eq_double_def)

lemma survivors_id: "sorted_wrt (\<le>) (a # xs) \<Longrightarrow> survivors a xs = xs"
  by (induction xs arbitrary: a) auto

section \<open>Miraclesort and bogosort\<close>

function i_sorted_from :: "double list \<Rightarrow> nat \<Rightarrow> nat \<Rightarrow> bool option" where
  "i_sorted_from arr stop i =
     (if i \<noteq> stop then do {
        x \<leftarrow> c_load arr i;
        y \<leftarrow> c_load arr (i + 1);
        if x > y then Some False else i_sorted_from arr stop (i + 1)
      } else Some True)"
  by pat_completeness auto
termination
  by (relation "measure (\<lambda>(arr, stop, i). length arr - i)") (auto simp: c_load_def split: if_splits)

declare i_sorted_from.simps [simp del]

definition i_sorted :: "double list \<Rightarrow> nat \<Rightarrow> bool option" where
  "i_sorted arr len = i_sorted_from arr (size_dec len) 0"

partial_function (option) miracle_loop :: "double list \<Rightarrow> double list option" where
  "miracle_loop nums = Option.bind (i_sorted nums (length nums))
     (\<lambda>b. if b then Some nums else miracle_loop nums)"

definition l_miraclesort :: "lua_array \<Rightarrow> lua_error + double list" where
  "l_miraclesort t = on_table miracle_loop t"

text \<open>rand() is the stream r, of which n numbers have been used.\<close>

fun shuffle_loop :: "(nat \<Rightarrow> nat) \<Rightarrow> nat \<Rightarrow> nat \<Rightarrow> double list \<Rightarrow> double list option" where
  "shuffle_loop r n 0 arr = Some arr"
| "shuffle_loop r n (Suc k) arr =
     (let i2 = r n mod length arr; d = r (n + 1) mod length arr
      in Option.bind (i_swap arr (int i2) (int d)) (shuffle_loop r (n + 2) k))"

definition i_shuffle :: "(nat \<Rightarrow> nat) \<Rightarrow> nat \<Rightarrow> double list \<Rightarrow> double list option" where
  "i_shuffle r n arr = shuffle_loop r n (length arr) arr"

definition l_shuffle :: "(nat \<Rightarrow> nat) \<Rightarrow> nat \<Rightarrow> lua_array \<Rightarrow> lua_error + double list" where
  "l_shuffle r n t = on_table (i_shuffle r n) t"

partial_function (option) bogo_loop :: "(nat \<Rightarrow> nat) \<Rightarrow> nat \<Rightarrow> double list \<Rightarrow> double list option" where
  "bogo_loop r n nums = Option.bind (i_sorted nums (length nums))
     (\<lambda>b. if b then Some nums
       else Option.bind (i_shuffle r n nums) (bogo_loop r (n + 2 * length nums)))"

definition l_bogosort :: "(nat \<Rightarrow> nat) \<Rightarrow> nat \<Rightarrow> lua_array \<Rightarrow> lua_error + double list" where
  "l_bogosort r n t = on_table (bogo_loop r n) t"

definition adjacent :: "double list \<Rightarrow> bool" where
  "adjacent xs \<longleftrightarrow> (\<forall>k. k + 1 < length xs \<longrightarrow> \<not> xs ! k > xs ! (k + 1))"

lemma i_sorted_from_eq:
  assumes "i < length arr" and "\<forall>k < i. \<not> arr ! k > arr ! (k + 1)"
  shows "i_sorted_from arr (length arr - 1) i = Some (adjacent arr)"
  using assms
proof (induction "length arr - i" arbitrary: i)
  case (Suc d)
  show ?case
  proof (cases "i = length arr - 1")
    case True
    then have "adjacent arr" using Suc.prems by (auto simp: adjacent_def)
    then show ?thesis using True by (subst i_sorted_from.simps) simp
  next
    case False
    then have i: "i + 1 < length arr" using Suc.prems(1) by simp
    show ?thesis
    proof (cases "arr ! i > arr ! (i + 1)")
      case True
      then have "\<not> adjacent arr" using i unfolding adjacent_def by blast
      then show ?thesis using True False i by (subst i_sorted_from.simps) (simp add: c_mem)
    next
      case c: False
      have "i_sorted_from arr (length arr - 1) (i + 1) = Some (adjacent arr)"
        using Suc.hyps(2) Suc.prems(2) i c by (intro Suc.hyps(1)) (auto simp: less_Suc_eq)
      then show ?thesis using False c i by (subst i_sorted_from.simps) (simp add: c_mem)
    qed
  qed
qed simp

lemma i_sorted_eq: "arr \<noteq> [] \<Longrightarrow> i_sorted arr (length arr) = Some (adjacent arr)"
  using i_sorted_from_eq [of 0 arr] by (simp add: i_sorted_def size_dec_def)

lemma adjacent_sorted:
  assumes "numeric xs"
  shows "adjacent xs \<longleftrightarrow> sorted_wrt (\<le>) xs"
proof -
  have num: "\<not> is_nan (xs ! k)" if "k < length xs" for k using assms that by (simp add: numeric_def)
  have "adjacent xs \<longleftrightarrow> sorted (map dkey xs)"
    unfolding adjacent_def sorted_iff_nth_Suc using num by (auto simp: less_number not_less)
  then show ?thesis using double_order.sorted_wrt_keys [of xs] assms by (simp add: numeric_def)
qed

text \<open>The miracle does not happen: an array that is not sorted is never returned.\<close>

lemma miracle_returns: "miracle_loop nums = Some ys \<Longrightarrow> nums \<noteq> [] \<longrightarrow> ys = nums \<and> adjacent nums"
proof (rule miracle_loop.raw_induct [where P = "\<lambda>nums ys. nums \<noteq> [] \<longrightarrow> ys = nums \<and> adjacent nums"])
  fix miracle nums ys
  assume "\<And>nums ys. miracle nums = Some ys \<Longrightarrow> nums \<noteq> [] \<longrightarrow> ys = nums \<and> adjacent nums"
    and "Option.bind (i_sorted nums (length nums)) (\<lambda>b. if b then Some nums else miracle nums) = Some ys"
  then show "nums \<noteq> [] \<longrightarrow> ys = nums \<and> adjacent nums"
    by (cases "nums = []"; cases "adjacent nums") (simp_all add: i_sorted_eq)
qed

lemma miracle_loop_eq: "nums \<noteq> [] \<Longrightarrow> miracle_loop nums = (if adjacent nums then Some nums else None)"
  using miracle_returns [of nums] i_sorted_eq [of nums]
  by (subst miracle_loop.simps) (cases "miracle_loop nums"; auto)

lemma shuffle_loop_perm:
  "arr \<noteq> [] \<Longrightarrow> \<exists>arr'. shuffle_loop r n k arr = Some arr' \<and> mset arr' = mset arr"
proof (induction k arbitrary: n arr)
  case (Suc k)
  let ?i = "r n mod length arr" and ?d = "r (n + 1) mod length arr"
  let ?a = "arr[nat (int ?i) := arr ! nat (int ?d), nat (int ?d) := arr ! nat (int ?i)]"
  have lt: "?i < length arr" "?d < length arr" using Suc.prems by simp_all
  then have "i_swap arr (int ?i) (int ?d) = Some ?a" by (intro i_swap_Some) simp_all
  moreover have "mset ?a = mset arr" using lt by (simp add: mset_swap)
  moreover have "?a \<noteq> []" using Suc.prems by simp
  ultimately show ?case using Suc.IH [of ?a "n + 2"] by (auto simp: Let_def)
qed simp

lemma i_shuffle_perm: "arr \<noteq> [] \<Longrightarrow> \<exists>arr'. i_shuffle r n arr = Some arr' \<and> mset arr' = mset arr"
  by (simp add: i_shuffle_def shuffle_loop_perm)

text \<open>The array after k shuffles.\<close>

fun shuffled :: "(nat \<Rightarrow> nat) \<Rightarrow> nat \<Rightarrow> nat \<Rightarrow> double list \<Rightarrow> double list" where
  "shuffled r n 0 nums = nums"
| "shuffled r n (Suc k) nums = shuffled r (n + 2 * length nums) k (the (i_shuffle r n nums))"

lemma shuffled_mset: "nums \<noteq> [] \<Longrightarrow> mset (shuffled r n k nums) = mset nums"
proof (induction k arbitrary: n nums)
  case (Suc k)
  obtain a where a: "i_shuffle r n nums = Some a" "mset a = mset nums"
    using i_shuffle_perm [OF Suc.prems] by blast
  then have "a \<noteq> []" using Suc.prems by auto
  then show ?case using Suc.IH [of a] a by simp
qed simp

lemma bogo_unfold:
  assumes "nums \<noteq> []"
  shows "bogo_loop r n nums = (if adjacent nums then Some nums
    else bogo_loop r (n + 2 * length nums) (the (i_shuffle r n nums)))"
proof -
  obtain a where "i_shuffle r n nums = Some a" using i_shuffle_perm [OF assms] by blast
  then show ?thesis by (subst bogo_loop.simps) (simp add: i_sorted_eq [OF assms])
qed

lemma bogo_returns:
  "bogo_loop r n nums = Some ys \<Longrightarrow> nums \<noteq> [] \<longrightarrow> (\<exists>k. ys = shuffled r n k nums \<and> adjacent ys)"
proof (rule bogo_loop.raw_induct [where P = "\<lambda>r n nums ys. nums \<noteq> [] \<longrightarrow>
    (\<exists>k. ys = shuffled r n k nums \<and> adjacent ys)"])
  fix bogo r n nums ys
  assume ih: "\<And>r n nums ys. bogo r n nums = Some ys \<Longrightarrow> nums \<noteq> [] \<longrightarrow>
      (\<exists>k. ys = shuffled r n k nums \<and> adjacent ys)"
    and step: "Option.bind (i_sorted nums (length nums)) (\<lambda>b. if b then Some nums
      else Option.bind (i_shuffle r n nums) (bogo r (n + 2 * length nums))) = Some ys"
  show "nums \<noteq> [] \<longrightarrow> (\<exists>k. ys = shuffled r n k nums \<and> adjacent ys)"
  proof
    assume ne: "nums \<noteq> []"
    obtain a where a: "i_shuffle r n nums = Some a" "mset a = mset nums"
      using i_shuffle_perm [OF ne] by blast
    then have "a \<noteq> []" using ne by auto
    show "\<exists>k. ys = shuffled r n k nums \<and> adjacent ys"
    proof (cases "adjacent nums")
      case True
      then have "ys = shuffled r n 0 nums" using step by (simp add: i_sorted_eq [OF ne])
      then show ?thesis using True by (intro exI [of _ 0]) simp
    next
      case False
      then have "bogo r (n + 2 * length nums) a = Some ys" using step a by (simp add: i_sorted_eq [OF ne])
      then obtain k where "ys = shuffled r (n + 2 * length nums) k a" "adjacent ys"
        using ih \<open>a \<noteq> []\<close> by blast
      then have "ys = shuffled r n (Suc k) nums" "adjacent ys" using a by simp_all
      then show ?thesis by blast
    qed
  qed
qed

lemma bogo_stops:
  "nums \<noteq> [] \<Longrightarrow> adjacent (shuffled r n k nums) \<Longrightarrow> bogo_loop r n nums \<noteq> None"
proof (induction k arbitrary: n nums)
  case 0
  then show ?case by (simp add: bogo_unfold)
next
  case (Suc k)
  obtain a where a: "i_shuffle r n nums = Some a" "mset a = mset nums"
    using i_shuffle_perm [OF Suc.prems(1)] by blast
  then have "a \<noteq> []" using Suc.prems by auto
  then show ?case using Suc a by (subst bogo_unfold) auto
qed

end
