(* ===== verification/Sorts.thy ===== *)
theory Sorts
  imports Quicksort Mergesort Heapsort Shellsort Bubblesort Countingsort EsotericSorts
begin

text \<open>
  The module sort.c as a whole: what its ten functions return, when they return, and which errors
  they raise.
\<close>

section \<open>What the sorts return\<close>

text \<open>C21: Quicksort, mergesort, heapsort, shellsort and bubblesort of sort.c, on every table of at
  most 2^30 - 1 numbers, NaN included, return a permutation, without leaving the array and without
  overflow of an int; without NaN the result is sorted from the greatest to the least.\<close>
theorem comparison_sorts:
  assumes "xs \<noteq> []" and "length xs < 2 ^ 30"
    and "f \<in> {l_quicksort, l_mergesort, l_heapsort, l_shellsort, l_bubblesort}"
  shows "\<exists>ys. f (map Some xs) = Inr ys \<and> mset ys = mset xs
    \<and> (numeric xs \<longrightarrow> map dkey ys = rev (sort (map dkey xs)))"
proof -
  have fits: "int_sized (length xs)" using assms(2) by (simp add: int_sized_def)
  show ?thesis
    using assms(3) quick_s.on_numbers [OF fits assms(1)] merge_s.on_numbers [OF fits assms(1)]
      heap_s.on_numbers [OF fits assms(1)] shell_s.on_numbers [OF fits assms(1)]
      bubble_s.on_numbers [OF fits assms(1)]
    by (auto simp: l_quicksort_def l_mergesort_def l_heapsort_def l_shellsort_def l_bubblesort_def)
qed

text \<open>The doubles 1.0, 2.0 and 3.0.\<close>

lemma comparison_sorts_witness:
  "\<exists>ys. l_mergesort [Some (Double 0x3FF0000000000000), Some (Double 0x4008000000000000), Some (Double 0x4000000000000000)]
     = Inr ys \<and> map dkey ys = [0x4008000000000000, 0x4000000000000000, 0x3FF0000000000000]"
proof -
  let ?xs = "[Double 0x3FF0000000000000, Double 0x4008000000000000, Double 0x4000000000000000]"
  have num: "numeric ?xs" by code_simp
  have key: "rev (sort (map dkey ?xs)) = [0x4008000000000000, 0x4000000000000000, 0x3FF0000000000000]" by code_simp
  show ?thesis using comparison_sorts [of ?xs l_mergesort] num unfolding key by auto
qed

text \<open>C22: The other sorts order from the least to the greatest: slowsort sorts every table of at
  most 2^30 numbers; countingsort sorts the integer parts of numbers from 0 to 2^31 - 2; stalinsort
  returns a sorted subsequence that starts with the first number and is all of a sorted table.\<close>
theorem ascending_sorts:
  "(length xs < 2 ^ 30 \<longrightarrow>
     (\<exists>ys. l_slowsort (map Some (x # xs)) = Inr ys \<and> mset ys = mset (x # xs)
       \<and> (numeric (x # xs) \<longrightarrow> sorted_wrt (\<le>) ys)))
   \<and> (map double_to_int (x # xs) = map Some ns \<and> (\<forall>i\<in>set ns. 0 \<le> i \<and> i < 2 ^ 31 - 1) \<longrightarrow>
       l_countingsort (map Some (x # xs)) = Inr (sort ns))
   \<and> (\<exists>ys. l_stalinsort (map Some (x # xs)) = Inr (x # ys) \<and> subseq ys xs \<and> sorted_wrt (\<le>) (x # ys)
       \<and> (sorted_wrt (\<le>) (x # xs) \<longrightarrow> ys = xs))"
proof (intro conjI impI)
  assume "length xs < 2 ^ 30"
  then obtain ys where "i_slowsort (x # xs) 0 (int (length (x # xs)) - 1) = Some ys" "mset ys = mset (x # xs)"
    "numeric (x # xs) \<longrightarrow> sorted_wrt (\<le>) ys"
    using slowsort_runs [of "x # xs"] by auto
  moreover from this have "l_slowsort (map Some (x # xs)) = Inr ys"
    unfolding l_slowsort_def by (intro on_table_numbers) simp_all
  ultimately show "\<exists>ys. l_slowsort (map Some (x # xs)) = Inr ys \<and> mset ys = mset (x # xs)
      \<and> (numeric (x # xs) \<longrightarrow> sorted_wrt (\<le>) ys)" by blast
next
  assume "map double_to_int (x # xs) = map Some ns \<and> (\<forall>i\<in>set ns. 0 \<le> i \<and> i < 2 ^ 31 - 1)"
  then show "l_countingsort (map Some (x # xs)) = Inr (sort ns)"
    by (intro l_countingsort_sorts) blast+
next
  show "\<exists>ys. l_stalinsort (map Some (x # xs)) = Inr (x # ys) \<and> subseq ys xs \<and> sorted_wrt (\<le>) (x # ys)
      \<and> (sorted_wrt (\<le>) (x # xs) \<longrightarrow> ys = xs)"
    using l_stalinsort_survivors survivors_subseq survivors_sorted survivors_id by blast
qed

lemma ascending_sorts_witness:
  "l_countingsort [Some (Double 0x4008000000000000), Some (Double 0), Some (Double 0x3FF8000000000000)]
     = Inr [0, 1, 3]"
proof -
  have conv: "map double_to_int [Double 0x4008000000000000, Double 0, Double 0x3FF8000000000000] = map Some [3, 0, 1]"
    by code_simp
  have sort: "sort [3, 0, 1] = [0, 1, 3 :: int]" by simp
  show ?thesis
    using ascending_sorts [of "[Double 0, Double 0x3FF8000000000000]" "Double 0x4008000000000000" "[3, 0, 1]"] conv
    unfolding sort by simp
qed

text \<open>C23: Miraclesort returns a table without descents as it is and runs for ever on every other
  one.  Bogosort returns the first of the successive shuffles that has no descent, and returns at
  all exactly when some shuffle has none; what it returns is a permutation.\<close>
theorem waiting_sorts:
  assumes "xs \<noteq> []"
  shows "l_miraclesort (map Some xs) = (if adjacent xs then Inr xs else Inl Undefined)
    \<and> ((\<exists>ys. l_bogosort r n (map Some xs) = Inr ys) \<longleftrightarrow> (\<exists>k. adjacent (shuffled r n k xs)))
    \<and> (l_bogosort r n (map Some xs) = Inr ys \<longrightarrow>
        mset ys = mset xs \<and> adjacent ys \<and> (numeric xs \<longrightarrow> sorted_wrt (\<le>) ys))"
proof -
  have bogo: "l_bogosort r n (map Some xs) = (case bogo_loop r n xs of None \<Rightarrow> Inl Undefined | Some ys \<Rightarrow> Inr ys)"
    using assms by (simp add: l_bogosort_def on_table_def read_table_numbers)
  have ret: "\<exists>k. ys = shuffled r n k xs \<and> adjacent ys" if "l_bogosort r n (map Some xs) = Inr ys" for ys
    using that bogo_returns assms by (simp add: bogo split: option.splits)
  have stop: "\<exists>ys. l_bogosort r n (map Some xs) = Inr ys" if "adjacent (shuffled r n k xs)" for k
    using bogo_stops [OF assms that] by (auto simp: bogo)
  have "mset ys = mset xs \<and> adjacent ys \<and> (numeric xs \<longrightarrow> sorted_wrt (\<le>) ys)"
    if run: "l_bogosort r n (map Some xs) = Inr ys"
  proof -
    obtain k where k: "ys = shuffled r n k xs" "adjacent ys" using ret [OF run] by blast
    then have ms: "mset ys = mset xs" using shuffled_mset [OF assms] by simp
    then show ?thesis using k(2) adjacent_sorted [of ys] numeric_mset [OF ms] by blast
  qed
  moreover have "l_miraclesort (map Some xs) = (if adjacent xs then Inr xs else Inl Undefined)"
    using assms by (simp add: l_miraclesort_def on_table_def read_table_numbers miracle_loop_eq)
  ultimately show ?thesis using ret stop by blast
qed

lemma waiting_sorts_witness:
  "l_miraclesort [Some (Double 2), Some (Double 1)] = Inl Undefined
   \<and> (\<exists>ys. l_bogosort (\<lambda>k. if k = 0 then 1 else 0) 0 [Some (Double 2), Some (Double 1)] = Inr ys)"
proof -
  let ?r = "\<lambda>k :: nat. if k = 0 then 1 else 0 :: nat"
  let ?xs = "[Double 2, Double 1]"
  have "\<not> adjacent ?xs" "adjacent [Double 1, Double 2]"
    by (simp_all add: adjacent_def less_double_def is_nan_def dkey_def dmag_def less_Suc_eq)
  moreover have "shuffled ?r 0 1 ?xs = [Double 1, Double 2]" by code_simp
  ultimately have "\<not> adjacent ?xs" "\<exists>k. adjacent (shuffled ?r 0 k ?xs)" by metis+
  then show ?thesis using waiting_sorts [of ?xs ?r 0] by simp
qed



end
