(* ===== verification/TableFns.thy ===== *)
theory TableFns
  imports IntArrays "HOL-Library.Monad_Syntax"
begin

text \<open>
  The table and string functions of \<open>src/src/table.c\<close>: l_len, l_reverse, l_greatest, l_least,
  l_sum, l_indexof, l_sindexof, l_split and l_to_char_array.  A table of arbitrary values is a map
  from its positive integer keys and the length objlen gives; loops that may not end are partial
  functions.  l_split is proved to cut a string at every occurrence of a one-byte separator, and
  l_sindexof to find a number in an array sorted from the greatest to the least.
\<close>

section \<open>Tables of values\<close>

text \<open>The loops run from 0 to len - 1 in size_t: for an empty table they have no end.\<close>

partial_function (option) reverse_loop ::
  "(nat \<rightharpoonup> 'v) \<Rightarrow> nat \<Rightarrow> nat \<Rightarrow> (nat \<rightharpoonup> 'v) \<Rightarrow> (nat \<rightharpoonup> 'v) option" where
  "reverse_loop t len i out =
     (if i \<le> size_dec len
      then reverse_loop t len ((i + 1) mod 2 ^ 64)
        (out (i + 1 := t ((2 ^ 64 + len - i - 1) mod 2 ^ 64)))
      else Some out)"

definition l_reverse :: "(nat \<rightharpoonup> 'v) \<Rightarrow> nat \<Rightarrow> (nat \<rightharpoonup> 'v) option" where
  "l_reverse t len = reverse_loop t len 0 (\<lambda>_. None)"

text \<open>rawequal is lua_rawequal of an entry (None for nil) and the item.\<close>

partial_function (option) index_loop ::
  "('v option \<Rightarrow> bool) \<Rightarrow> (nat \<rightharpoonup> 'v) \<Rightarrow> nat \<Rightarrow> nat \<Rightarrow> int option" where
  "index_loop rawequal t len i =
     (if i \<le> size_dec len
      then (if rawequal (t (i + 1)) then Some (int i) else index_loop rawequal t len ((i + 1) mod 2 ^ 64))
      else Some (-1))"

definition l_indexof :: "('v option \<Rightarrow> bool) \<Rightarrow> (nat \<rightharpoonup> 'v) \<Rightarrow> nat \<Rightarrow> int option" where
  "l_indexof rawequal t len = index_loop rawequal t len 0"

text \<open>lua_next visits every entry once.\<close>

fun i_len :: "('k \<times> 'v) list \<Rightarrow> nat" where
  "i_len [] = 0"
| "i_len (_ # entries) = i_len entries + 1"

text \<open>l_len is i_len of its table; l_unpack leaves the values on the stack and returns their number.\<close>

definition l_len :: "('k \<times> 'v) list \<Rightarrow> nat" where
  "l_len entries = i_len entries"

fun unpack_loop :: "('k \<times> 'v) list \<Rightarrow> 'v list \<Rightarrow> 'v list" where
  "unpack_loop [] stack = stack"
| "unpack_loop ((k, v) # entries) stack = unpack_loop entries (stack @ [v])"

definition l_unpack :: "('k \<times> 'v) list \<Rightarrow> 'v list \<times> nat" where
  "l_unpack entries = (let stack = unpack_loop entries [] in (stack, length stack))"

lemma l_unpack_values: "l_unpack entries = (map snd entries, l_len entries)"
proof -
  have "unpack_loop entries stack = stack @ map snd entries" for stack
    by (induction entries arbitrary: stack) auto
  moreover have "i_len entries = length entries" by (induction entries rule: i_len.induct) simp_all
  ultimately show ?thesis by (simp add: l_unpack_def l_len_def)
qed

text \<open>In an empty table no loop comes to an end: every index is at most SIZE_MAX.\<close>

lemma reverse_loop_ends:
  "reverse_loop t len i out = Some y \<Longrightarrow> len = 0 \<and> i < 2 ^ 64 \<longrightarrow> False"
proof (rule reverse_loop.raw_induct [where P = "\<lambda>t len i out y. len = 0 \<and> i < 2 ^ 64 \<longrightarrow> False"])
  fix loop :: "(nat \<rightharpoonup> 'a) \<Rightarrow> nat \<Rightarrow> nat \<Rightarrow> (nat \<rightharpoonup> 'a) \<Rightarrow> (nat \<rightharpoonup> 'a) option" and t len i out y
  assume ih: "\<And>t len i out y. loop t len i out = Some y \<Longrightarrow> len = 0 \<and> i < 2 ^ 64 \<longrightarrow> False"
    and run: "(if i \<le> size_dec len then loop t len ((i + 1) mod 2 ^ 64)
      (out(i + 1 := t ((2 ^ 64 + len - i - 1) mod 2 ^ 64))) else Some out) = Some y"
  show "len = 0 \<and> i < 2 ^ 64 \<longrightarrow> False"
  proof
    assume "len = 0 \<and> i < 2 ^ 64"
    then have "i \<le> size_dec len" "len = 0" "(i + 1) mod 2 ^ 64 < 2 ^ 64" by (simp_all add: size_dec_def)
    then show False using run ih by (metis (full_types))
  qed
qed

lemma reverse_loop_empty: "i < 2 ^ 64 \<Longrightarrow> reverse_loop t 0 i out = None"
  using reverse_loop_ends [of t 0 i out] by (cases "reverse_loop t 0 i out") auto

lemma index_loop_empty:
  "index_loop rawequal t len i = Some y \<Longrightarrow> len = 0 \<and> i < 2 ^ 64 \<longrightarrow> (\<exists>k. rawequal (t (k + 1)))"
proof (rule index_loop.raw_induct [where P = "\<lambda>rawequal t len i y. len = 0 \<and> i < 2 ^ 64 \<longrightarrow> (\<exists>k. rawequal (t (k + 1)))"])
  fix loop :: "('a option \<Rightarrow> bool) \<Rightarrow> (nat \<rightharpoonup> 'a) \<Rightarrow> nat \<Rightarrow> nat \<Rightarrow> int option" and rawequal t len i y
  assume ih: "\<And>rawequal t len i y. loop rawequal t len i = Some y \<Longrightarrow>
      len = 0 \<and> i < 2 ^ 64 \<longrightarrow> (\<exists>k. rawequal (t (k + 1)))"
    and run: "(if i \<le> size_dec len then if rawequal (t (i + 1)) then Some (int i)
      else loop rawequal t len ((i + 1) mod 2 ^ 64) else Some (- 1)) = Some y"
  show "len = 0 \<and> i < 2 ^ 64 \<longrightarrow> (\<exists>k. rawequal (t (k + 1)))"
  proof
    assume "len = 0 \<and> i < 2 ^ 64"
    then have "i \<le> size_dec len" "len = 0" "(i + 1) mod 2 ^ 64 < 2 ^ 64" by (simp_all add: size_dec_def)
    then show "\<exists>k. rawequal (t (k + 1))" using run ih by (metis (full_types))
  qed
qed

lemma next_index: "(i :: nat) < len \<Longrightarrow> len < 2 ^ 64 \<Longrightarrow> (i + 1) mod 2 ^ 64 = i + 1"
  by simp

lemma reverse_loop_eq:
  assumes "0 < len" "len < 2 ^ 64" "i \<le> len"
  shows "reverse_loop t len i out = Some (\<lambda>k. if i < k \<and> k \<le> len then t (len - k) else out k)"
  using assms
proof (induction "len - i" arbitrary: i out)
  case 0
  then show ?case by (subst reverse_loop.simps) (auto simp: size_dec_def fun_eq_iff)
next
  case (Suc d)
  have i: "i < len" using Suc.hyps(2) by simp
  have "(2 ^ 64 + len - i - 1) mod 2 ^ 64 = len - (i + 1)"
  proof -
    have "2 ^ 64 + len - i - 1 = 2 ^ 64 + (len - (i + 1))" using i by simp
    then show ?thesis using Suc.prems(2) by (simp only: mod_add_self1) simp
  qed
  then have "reverse_loop t len i out = reverse_loop t len (i + 1) (out(i + 1 := t (len - (i + 1))))"
    using i next_index [OF i Suc.prems(2)] by (subst reverse_loop.simps) (cases len; simp add: size_dec_def)
  also have "\<dots> = Some (\<lambda>k. if i + 1 < k \<and> k \<le> len then t (len - k)
      else (out(i + 1 := t (len - (i + 1)))) k)"
    using Suc.hyps(2) Suc.prems i by (intro Suc.hyps(1)) simp_all
  also have "\<dots> = Some (\<lambda>k. if i < k \<and> k \<le> len then t (len - k) else out k)"
    using i by (auto simp: fun_eq_iff)
  finally show ?case .
qed

text \<open>Entry k of the result is entry len - k of the argument: one too far, so the last entry is
  lost and the result ends with the entry 0, which is nil in an array.\<close>

lemma l_reverse_eq:
  "0 < len \<Longrightarrow> len < 2 ^ 64 \<Longrightarrow> l_reverse t len = Some (\<lambda>k. if 1 \<le> k \<and> k \<le> len then t (len - k) else None)"
  unfolding l_reverse_def by (subst reverse_loop_eq) (auto simp: fun_eq_iff)

lemma index_loop_found:
  assumes "k < len" "len < 2 ^ 64" "rawequal (t (k + 1))" "\<forall>m. i \<le> m \<and> m < k \<longrightarrow> \<not> rawequal (t (m + 1))" "i \<le> k"
  shows "index_loop rawequal t len i = Some (int k)"
  using assms(4,5)
proof (induction "k - i" arbitrary: i)
  case 0
  then show ?case using assms(1,3) by (subst index_loop.simps) (auto simp: size_dec_def)
next
  case (Suc d)
  then have "index_loop rawequal t len (i + 1) = Some (int k)" by (intro Suc.hyps(1)) auto
  moreover have "(i + 1) mod 2 ^ 64 = i + 1" using Suc.hyps(2) assms(1,2) by (intro next_index [of i len]) simp_all
  ultimately show ?case using Suc.hyps(2) Suc.prems assms(1) by (subst index_loop.simps) (auto simp: size_dec_def)
qed

lemma index_loop_missing:
  assumes "0 < len" "len < 2 ^ 64" "\<forall>m. i \<le> m \<and> m < len \<longrightarrow> \<not> rawequal (t (m + 1))" "i \<le> len"
  shows "index_loop rawequal t len i = Some (-1)"
  using assms(3,4)
proof (induction "len - i" arbitrary: i)
  case 0
  then show ?case using assms(1) by (subst index_loop.simps) (auto simp: size_dec_def)
next
  case (Suc d)
  then have "index_loop rawequal t len (i + 1) = Some (-1)" by (intro Suc.hyps(1)) auto
  moreover have "(i + 1) mod 2 ^ 64 = i + 1" using Suc.hyps(2) assms(1,2) by (intro next_index [of i len]) simp_all
  ultimately show ?case using Suc.hyps(2) Suc.prems assms(1) by (subst index_loop.simps) (auto simp: size_dec_def)
qed

section \<open>Tables of numbers\<close>

fun extreme_step ::
  "(double \<Rightarrow> double \<Rightarrow> bool) \<Rightarrow> double \<Rightarrow> bool \<times> double \<Rightarrow> lua_error + bool \<times> double" where
  "extreme_step better x (touched, cur) = Inr (True, if \<not> touched \<or> better x cur then x else cur)"

definition l_greatest :: "lua_array \<Rightarrow> lua_error + double" where
  "l_greatest t = map_sum id snd (over_table (extreme_step (\<lambda>x cur. x > cur)) t (False, Double 0))"

definition l_least :: "lua_array \<Rightarrow> lua_error + double" where
  "l_least t = map_sum id snd (over_table (extreme_step (\<lambda>x cur. x < cur)) t (False, Double 0))"

text \<open>The sum, with the addition of doubles as an argument.\<close>

definition l_sum :: "(double \<Rightarrow> double \<Rightarrow> double) \<Rightarrow> lua_array \<Rightarrow> lua_error + double" where
  "l_sum add t = over_table (\<lambda>x s. Inr (add s x)) t (Double 0)"

lemma steps_extreme:
  "steps (extreme_step better) xs (True, c) = Inr (True, foldl (\<lambda>cur x. if better x cur then x else cur) c xs)"
  by (induction xs arbitrary: c) simp_all

lemma extreme_first:
  "over_table (extreme_step better) (map Some (x # xs)) (False, d)
    = Inr (True, foldl (\<lambda>cur x. if better x cur then x else cur) x xs)"
  using over_table_numbers [of "x # xs" "extreme_step better" "(False, d)"] steps_extreme [of better xs x]
  by simp

lemma foldl_extreme:
  assumes "numeric (c # xs)" and "\<And>x y. \<not> is_nan x \<Longrightarrow> \<not> is_nan y \<Longrightarrow> better x y \<longleftrightarrow> f (dkey y) < f (dkey x)"
  shows "foldl (\<lambda>cur x. if better x cur then x else cur) c xs \<in> set (c # xs)"
    and "\<forall>y\<in>set (c # xs). f (dkey y) \<le> (f (dkey (foldl (\<lambda>cur x. if better x cur then x else cur) c xs)) :: int)"
proof -
  let ?g = "foldl (\<lambda>cur x. if better x cur then x else cur)"
  have "?g c xs \<in> set (c # xs) \<and> (\<forall>y\<in>set (c # xs). f (dkey y) \<le> f (dkey (?g c xs)))"
    using assms(1)
  proof (induction xs arbitrary: c)
    case (Cons x xs)
    let ?c = "if better x c then x else c"
    have c: "f (dkey c) \<le> f (dkey ?c)" "f (dkey x) \<le> f (dkey ?c)"
      using Cons.prems assms(2) [of x c] by (auto simp: numeric_def)
    have "?g ?c xs \<in> set (?c # xs) \<and> (\<forall>y\<in>set (?c # xs). f (dkey y) \<le> f (dkey (?g ?c xs)))"
      using Cons.prems by (intro Cons.IH) (simp add: numeric_def)
    then show ?case using c order.trans by (auto split: if_splits)
  qed simp
  then show "?g c xs \<in> set (c # xs)"
    and "\<forall>y\<in>set (c # xs). f (dkey y) \<le> f (dkey (?g c xs))" by blast+
qed

lemma l_greatest_numbers:
  assumes "numeric (x # xs)"
  shows "\<exists>g. l_greatest (map Some (x # xs)) = Inr g \<and> g \<in> set (x # xs) \<and> (\<forall>y\<in>set (x # xs). dkey y \<le> dkey g)"
  using foldl_extreme [OF assms, of "\<lambda>x cur. x > cur" id] extreme_first [of "\<lambda>x cur. x > cur" x xs]
  by (simp add: l_greatest_def less_number)

lemma l_least_numbers:
  assumes "numeric (x # xs)"
  shows "\<exists>g. l_least (map Some (x # xs)) = Inr g \<and> g \<in> set (x # xs) \<and> (\<forall>y\<in>set (x # xs). dkey g \<le> dkey y)"
  using foldl_extreme [OF assms, of "\<lambda>x cur. x < cur" uminus] extreme_first [of "\<lambda>x cur. x < cur" x xs]
  by (simp add: l_least_def less_number)

section \<open>Binary search\<close>

function sindex_loop :: "lua_array \<Rightarrow> double \<Rightarrow> int \<Rightarrow> int \<Rightarrow> lua_error + int" where
  "sindex_loop t target l r =
     (if l \<le> r then
        (let m = l + (r - l) sdiv 2 in
         case (if 0 \<le> m + 1 then lua_gettable t (nat (m + 1)) else None) of
           None \<Rightarrow> Inl ArgumentError
         | Some x \<Rightarrow> (if deq x target then Inr m
             else if x > target then sindex_loop t target (m + 1) r
             else sindex_loop t target l (m - 1)))
      else Inr (-1))"
  by pat_completeness auto
termination
proof (relation "measure (\<lambda>(t, target, l, r). nat (r - l + 1))", simp, goal_cases)
  case (1 t target l r m x)
  then show ?case by (simp add: sdiv2)
next
  case (2 t target l r m x)
  then show ?case by (simp add: sdiv2)
qed

declare sindex_loop.simps [simp del]

definition l_sindexof :: "lua_array \<Rightarrow> double \<Rightarrow> lua_error + int" where
  "l_sindexof t target = sindex_loop t target 0 (int (length t) - 1)"

lemma sindex_loop_correct:
  assumes "numeric xs" "\<not> is_nan target" "desc_on 0 (int (length xs) - 1) xs"
    and "0 \<le> l" "r < int (length xs)"
  shows "\<exists>m. sindex_loop (map Some xs) target l r = Inr m
    \<and> (m = -1 \<and> (\<forall>k. l \<le> k \<and> k \<le> r \<longrightarrow> dkey (xs ! nat k) \<noteq> dkey target)
       \<or> l \<le> m \<and> m \<le> r \<and> dkey (xs ! nat m) = dkey target)"
  using assms(4,5)
proof (induction "nat (r - l + 1)" arbitrary: l r rule: less_induct)
  case less
  show ?case
  proof (cases "l \<le> r")
    case False
    then show ?thesis by (subst sindex_loop.simps) simp
  next
    case True
    let ?m = "l + (r - l) div 2"
    let ?x = "xs ! nat ?m"
    have m: "l \<le> ?m" "?m \<le> r" using True by simp_all
    have sdiv: "l + (r - l) sdiv 2 = ?m" using True by (simp add: sdiv2)
    have "lua_gettable (map Some xs) (nat (?m + 1)) = Some ?x"
      using m less.prems by (simp add: lua_gettable_def nat_add_distrib nat_less_iff)
    then have run: "sindex_loop (map Some xs) target l r = (if deq ?x target then Inr ?m
        else if ?x > target then sindex_loop (map Some xs) target (?m + 1) r
        else sindex_loop (map Some xs) target l (?m - 1))"
      using True m less.prems by (subst sindex_loop.simps) (simp add: sdiv Let_def)
    have num: "\<not> is_nan ?x" using assms(1) m less.prems by (intro numeric_nth) simp_all
    have ord: "dkey (xs ! nat q) \<le> dkey (xs ! nat p)" if "0 \<le> p" "p \<le> q" "q < int (length xs)" for p q
      using assms(3) that by (cases "p = q") (simp_all add: desc_on_def)
    consider "dkey ?x = dkey target" | "dkey target < dkey ?x" | "dkey ?x < dkey target" by linarith
    then show ?thesis
    proof cases
      case 1
      then show ?thesis using run m num assms(2) by (simp add: deq_def)
    next
      case 2
      have low: "dkey (xs ! nat k) \<noteq> dkey target" if "l \<le> k" "k < ?m + 1" for k
        using ord [of k ?m] that m less.prems 2 by simp
      obtain j where j: "sindex_loop (map Some xs) target (?m + 1) r = Inr j"
        "j = -1 \<and> (\<forall>k. ?m + 1 \<le> k \<and> k \<le> r \<longrightarrow> dkey (xs ! nat k) \<noteq> dkey target)
          \<or> ?m + 1 \<le> j \<and> j \<le> r \<and> dkey (xs ! nat j) = dkey target"
        using less.hyps [of r "?m + 1"] m less.prems True by auto
      have "sindex_loop (map Some xs) target l r = Inr j"
        using run j(1) 2 num assms(2) by (simp add: deq_def less_number)
      moreover have "\<forall>k. l \<le> k \<and> k \<le> r \<longrightarrow> dkey (xs ! nat k) \<noteq> dkey target"
        if "\<forall>k. ?m + 1 \<le> k \<and> k \<le> r \<longrightarrow> dkey (xs ! nat k) \<noteq> dkey target"
        using that low by (meson not_le)
      moreover have "l \<le> j" if "?m + 1 \<le> j" using that m(1) by linarith
      ultimately show ?thesis using j(2) by blast
    next
      case 3
      have high: "dkey (xs ! nat k) \<noteq> dkey target" if "?m - 1 < k" "k \<le> r" for k
        using ord [of ?m k] that m less.prems 3 by simp
      obtain j where j: "sindex_loop (map Some xs) target l (?m - 1) = Inr j"
        "j = -1 \<and> (\<forall>k. l \<le> k \<and> k \<le> ?m - 1 \<longrightarrow> dkey (xs ! nat k) \<noteq> dkey target)
          \<or> l \<le> j \<and> j \<le> ?m - 1 \<and> dkey (xs ! nat j) = dkey target"
        using less.hyps [of "?m - 1" l] m less.prems True by auto
      have "sindex_loop (map Some xs) target l r = Inr j"
        using run j(1) 3 num assms(2) by (simp add: deq_def less_number)
      moreover have "\<forall>k. l \<le> k \<and> k \<le> r \<longrightarrow> dkey (xs ! nat k) \<noteq> dkey target"
        if "\<forall>k. l \<le> k \<and> k \<le> ?m - 1 \<longrightarrow> dkey (xs ! nat k) \<noteq> dkey target"
        using that high by (meson not_le)
      moreover have "j \<le> r" if "j \<le> ?m - 1" using that m(2) by linarith
      ultimately show ?thesis using j(2) by blast
    qed
  qed
qed

lemma l_sindexof_finds:
  assumes "numeric xs" "\<not> is_nan target" "sorted_wrt (\<ge>) xs"
  shows "\<exists>m. l_sindexof (map Some xs) target = Inr m
    \<and> (if dkey target \<in> dkey ` set xs then 0 \<le> m \<and> m < int (length xs) \<and> dkey (xs ! nat m) = dkey target
       else m = -1)"
proof -
  have "dkey (xs ! nat j) \<le> dkey (xs ! nat i)" if "0 \<le> i" "i < j" "j \<le> int (length xs) - 1" for i j
    using sorted_wrt_nth_less [OF assms(3), of "nat i" "nat j"] that assms(1)
    by (simp add: less_eq_double_def)
  then have "desc_on 0 (int (length xs) - 1) xs" by (simp add: desc_on_def)
  then obtain m where m: "l_sindexof (map Some xs) target = Inr m"
    "m = -1 \<and> (\<forall>k. 0 \<le> k \<and> k \<le> int (length xs) - 1 \<longrightarrow> dkey (xs ! nat k) \<noteq> dkey target)
       \<or> 0 \<le> m \<and> m \<le> int (length xs) - 1 \<and> dkey (xs ! nat m) = dkey target"
    using sindex_loop_correct [OF assms(1,2), of 0 "int (length xs) - 1"] by (auto simp: l_sindexof_def)
  have "dkey (xs ! k) \<noteq> dkey target" if "m = -1" "k < length xs" for k
    using m(2) that by (auto dest!: spec [of _ "int k"])
  then have "dkey target \<notin> dkey ` set xs" if "m = -1" using that by (metis imageE in_set_conv_nth)
  moreover have "dkey target \<in> dkey ` set xs" if "m \<noteq> -1"
    using m(2) that by (metis imageI nat_less_iff nth_mem zle_diff1_eq)
  ultimately show ?thesis using m by auto
qed

section \<open>Strings\<close>

text \<open>memmem of the C library: the first place of the needle in a haystack.\<close>

definition memmem :: "u8 list \<Rightarrow> u8 list \<Rightarrow> nat option" where
  "memmem hay needle = List.find (\<lambda>i. take (length needle) (drop i hay) = needle) [0..<length hay + 1 - length needle]"

text \<open>last and end are offsets into str.  Behind the end of the string (reached with an empty
  separator only) the remaining length str_len - (last - str) wraps, and the search reads outside.\<close>

partial_function (option) split_loop ::
  "u8 list \<Rightarrow> u8 list \<Rightarrow> bool \<Rightarrow> nat \<Rightarrow> u8 list list \<Rightarrow> u8 list list option" where
  "split_loop str search skip pos out =
     (if pos \<le> length str then
        (case memmem (drop pos str) search of
           None \<Rightarrow> Some (out @ [drop pos str])
         | Some e \<Rightarrow> split_loop str search skip (pos + e + 1)
             (if skip \<and> e = 0 then out else out @ [take e (drop pos str)]))
      else None)"

declare split_loop.simps [code]

definition l_split :: "u8 list \<Rightarrow> u8 list \<Rightarrow> bool \<Rightarrow> u8 list list option" where
  "l_split str search skip = split_loop str search skip 0 []"

text \<open>The C string in an object: undefined when the object has no terminator.\<close>

definition object_string :: "u8 list \<Rightarrow> u8 list option" where
  "object_string obj = (if 0 \<in> set obj then Some (c_str obj) else None)"

text \<open>Each character is pushed from the one-byte object uwu.\<close>

partial_function (option) char_loop :: "u8 list \<Rightarrow> nat \<Rightarrow> u8 list list \<Rightarrow> u8 list list option" where
  "char_loop input i out =
     (if i \<le> size_dec (length input) then
        Option.bind (c_load input i) (\<lambda>uwu.
        Option.bind (object_string [uwu]) (\<lambda>s. char_loop input (i + 1) (out @ [s])))
      else Some out)"

definition l_to_char_array :: "u8 list \<Rightarrow> u8 list list option" where
  "l_to_char_array input = char_loop input 0 []"

lemma l_to_char_array_undefined: "input \<noteq> [] \<Longrightarrow> hd input \<noteq> 0 \<Longrightarrow> l_to_char_array input = None"
  unfolding l_to_char_array_def
  by (subst char_loop.simps) (cases input; simp add: c_load_def object_string_def)

text \<open>The reference for a one-byte separator: the pieces between its occurrences.\<close>

fun pieces :: "u8 \<Rightarrow> u8 list \<Rightarrow> u8 list list" where
  "pieces c [] = [[]]"
| "pieces c (x # xs) = (if x = c then [] # pieces c xs
     else (case pieces c xs of p # ps \<Rightarrow> (x # p) # ps | [] \<Rightarrow> [[x]]))"

fun join :: "u8 \<Rightarrow> u8 list list \<Rightarrow> u8 list" where
  "join c [] = []"
| "join c [p] = p"
| "join c (p # ps) = p @ c # join c ps"

lemma pieces_nonempty: "pieces c xs \<noteq> []"
  by (cases xs) (auto split: list.splits)

lemma join_pieces: "join c (pieces c xs) = xs"
proof (induction xs)
  case (Cons x xs)
  obtain p ps where "pieces c xs = p # ps" using pieces_nonempty by (metis list.exhaust)
  then show ?case using Cons.IH by (cases ps) auto
qed simp

lemma pieces_free: "\<forall>p\<in>set (pieces c xs). c \<notin> set p"
  by (induction xs) (auto split: list.splits)

lemma pieces_none: "c \<notin> set xs \<Longrightarrow> pieces c xs = [xs]"
  by (induction xs) auto

lemma pieces_first: "c \<notin> set as \<Longrightarrow> pieces c (as @ c # bs) = as # pieces c bs"
  by (induction as) auto

lemma takeWhile_stops: "c \<in> set xs \<Longrightarrow> length (takeWhile (\<lambda>x. x \<noteq> c) xs) < length xs"
  by (induction xs) auto

lemma memmem_single:
  "memmem hay [c] = (if c \<in> set hay then Some (length (takeWhile (\<lambda>x. x \<noteq> c) hay)) else None)"
proof -
  have at: "take (Suc 0) (drop i hay) = [c] \<longleftrightarrow> hay ! i = c" if "i < length hay" for i
    using that by (simp add: take_Suc hd_drop_conv_nth)
  show ?thesis
  proof (cases "c \<in> set hay")
    case True
    let ?k = "length (takeWhile (\<lambda>x. x \<noteq> c) hay)"
    have k: "?k < length hay" using True by (rule takeWhile_stops)
    have here: "hay ! ?k = c" using nth_length_takeWhile [of "\<lambda>x. x \<noteq> c" hay] k by simp
    have before: "hay ! j \<noteq> c" if "j < ?k" for j using that by (metis (mono_tags) nth_mem set_takeWhileD takeWhile_nth)
    have "memmem hay [c] = Some ?k"
      unfolding memmem_def find_Some_iff using k here before at by (intro exI [of _ ?k]) simp
    then show ?thesis using True by simp
  next
    case False
    have "memmem hay [c] = None"
      unfolding memmem_def find_None_iff using False at by (auto simp: in_set_conv_nth)
    then show ?thesis using False by simp
  qed
qed

lemma split_loop_pieces:
  assumes "pos \<le> length str"
  shows "split_loop str [c] False pos out = Some (out @ pieces c (drop pos str))"
    and "split_loop str [c] True pos out = Some (out @ (case rev (pieces c (drop pos str)) of
      [] \<Rightarrow> [] | l # ps \<Rightarrow> filter (\<lambda>p. p \<noteq> []) (rev ps) @ [l]))"
proof -
  let ?last = "\<lambda>pss. (case rev pss of [] \<Rightarrow> [] | l # ps \<Rightarrow> filter (\<lambda>p. p \<noteq> []) (rev ps) @ [l])"
  have skip: "?last (p # pss) = (if p = [] then ?last pss else p # ?last pss)" if "pss \<noteq> []" for p and pss :: "u8 list list"
    using that by (cases pss rule: rev_cases) auto
  have "split_loop str [c] s pos out = Some (out @ (if s then ?last (pieces c (drop pos str)) else pieces c (drop pos str)))" for s
    using assms
  proof (induction "length str - pos" arbitrary: pos out rule: less_induct)
    case less
    let ?rest = "drop pos str"
    show ?case
    proof (cases "c \<in> set ?rest")
      case False
      then show ?thesis using less.prems
        by (subst split_loop.simps) (simp add: memmem_single pieces_none)
    next
      case True
      let ?p = "takeWhile (\<lambda>x. x \<noteq> c) ?rest"
      have e: "length ?p < length ?rest" using True by (rule takeWhile_stops)
      then have "?rest ! length ?p = c" using nth_length_takeWhile [of "\<lambda>x. x \<noteq> c" ?rest] by simp
      then have rest: "?rest = ?p @ c # drop (pos + length ?p + 1) str"
        using e id_take_nth_drop [OF e] takeWhile_eq_take [of "\<lambda>x. x \<noteq> c" ?rest]
        by (simp add: add.commute add.left_commute)
      have pieces: "pieces c ?rest = ?p # pieces c (drop (pos + length ?p + 1) str)"
        by (subst rest, rule pieces_first) (auto dest: set_takeWhileD)
      have run: "split_loop str [c] s pos out = split_loop str [c] s (pos + length ?p + 1)
          (if s \<and> ?p = [] then out else out @ [?p])"
        using less.prems True e takeWhile_eq_take [of "\<lambda>x. x \<noteq> c" ?rest]
        by (subst split_loop.simps) (simp add: memmem_single)
      also have "\<dots> = Some ((if s \<and> ?p = [] then out else out @ [?p]) @
          (if s then ?last (pieces c (drop (pos + length ?p + 1) str)) else pieces c (drop (pos + length ?p + 1) str)))"
        using e by (intro less.hyps) simp_all
      finally show ?thesis using pieces skip [of "pieces c (drop (pos + length ?p + 1) str)" ?p] pieces_nonempty
        by simp
    qed
  qed
  from this [of False] this [of True]
  show "split_loop str [c] False pos out = Some (out @ pieces c (drop pos str))"
    and "split_loop str [c] True pos out = Some (out @ ?last (pieces c (drop pos str)))" by simp_all
qed

lemma l_split_pieces:
  "l_split str [c] False = Some (pieces c str)"
  "l_split str [c] True = Some (filter (\<lambda>p. p \<noteq> []) (butlast (pieces c str)) @ [last (pieces c str)])"
proof -
  show "l_split str [c] False = Some (pieces c str)" by (simp add: l_split_def split_loop_pieces)
  obtain ps l where "pieces c str = ps @ [l]" using pieces_nonempty by (metis rev_exhaust)
  then show "l_split str [c] True = Some (filter (\<lambda>p. p \<noteq> []) (butlast (pieces c str)) @ [last (pieces c str)])"
    by (simp add: l_split_def split_loop_pieces)
qed

text \<open>With an empty separator the loop leaves the string: no result.\<close>

lemma l_split_empty: "l_split str [] skip = None"
proof -
  have m: "memmem hay [] = Some 0" for hay by (simp add: memmem_def upt_rec [of 0] del: upt_Suc)
  have "split_loop str [] skip pos out = None" if "pos \<le> length str + 1" for pos out
    using that
  proof (induction "length str + 1 - pos" arbitrary: pos out)
    case 0
    then show ?case by (subst split_loop.simps) simp
  next
    case (Suc d)
    then show ?case using Suc.hyps(1) [of "pos + 1"] by (subst split_loop.simps) (simp add: m)
  qed
  then show ?thesis by (simp add: l_split_def)
qed

text \<open>The search resumes one byte behind the start of the separator, so the rest of a longer
  separator stays in the pieces.\<close>

lemma l_split_long_separator:
  "l_split (bytes ''a--b'') (bytes ''--'') True = Some [bytes ''a'', bytes ''-b'']"
  by code_simp

section \<open>Properties\<close>

text \<open>C25: On a table of numbers l_greatest and l_least return an entry that no other one exceeds or
  goes below, and l_sindexof finds a target in a table sorted from the greatest to the least, or
  returns -1 when there is none.\<close>
theorem extremes_and_search:
  assumes "numeric (x # xs)"
  shows "(\<exists>g. l_greatest (map Some (x # xs)) = Inr g \<and> g \<in> set (x # xs) \<and> (\<forall>y\<in>set (x # xs). dkey y \<le> dkey g))
    \<and> (\<exists>g. l_least (map Some (x # xs)) = Inr g \<and> g \<in> set (x # xs) \<and> (\<forall>y\<in>set (x # xs). dkey g \<le> dkey y))
    \<and> (\<not> is_nan target \<and> sorted_wrt (\<ge>) (x # xs) \<longrightarrow>
        (\<exists>m. l_sindexof (map Some (x # xs)) target = Inr m
          \<and> (if dkey target \<in> dkey ` set (x # xs)
             then 0 \<le> m \<and> m < int (length (x # xs)) \<and> dkey ((x # xs) ! nat m) = dkey target else m = -1)))"
  by (intro conjI impI l_greatest_numbers l_least_numbers l_sindexof_finds assms; elim conjE)

lemma extremes_and_search_witness:
  "(\<exists>g. l_greatest [Some (Double 9), Some (Double 4)] = Inr g \<and> dkey (Double 9) \<le> dkey g)
   \<and> l_sindexof [Some (Double 9), Some (Double 4)] (Double 5) = Inr (-1)"
proof -
  have "numeric [Double 9, Double 4]" "sorted_wrt (\<ge>) [Double 9, Double 4]" "\<not> is_nan (Double 5)"
    "dkey (Double 5) \<notin> dkey ` set [Double 9, Double 4]"
    by code_simp+
  then show ?thesis using extremes_and_search [of "Double 9" "[Double 4]" "Double 5"] by auto
qed



text \<open>C27: On a table of length len > 0, entry k of the result of l_reverse is the entry len - k, so
  the last entry of the table is lost; l_indexof returns, counted from 0, the first entry equal to
  the item, or -1.  On a table of length 0 l_reverse never returns, and neither does l_indexof when
  no entry is equal to the item.\<close>
theorem reverse_and_index:
  assumes "len < 2 ^ 64"
  shows "(0 < len \<longrightarrow> l_reverse t len = Some (\<lambda>k. if 1 \<le> k \<and> k \<le> len then t (len - k) else None))
    \<and> l_reverse t 0 = None
    \<and> (k < len \<and> rawequal (t (k + 1)) \<and> (\<forall>m < k. \<not> rawequal (t (m + 1))) \<longrightarrow> l_indexof rawequal t len = Some (int k))
    \<and> (0 < len \<and> (\<forall>m < len. \<not> rawequal (t (m + 1))) \<longrightarrow> l_indexof rawequal t len = Some (-1))
    \<and> ((\<forall>m. \<not> rawequal (t (m + 1))) \<longrightarrow> l_indexof rawequal t 0 = None)"
  using l_reverse_eq [of len t] reverse_loop_empty [of 0 t "\<lambda>_. None"] assms
    index_loop_found [of k len rawequal t 0] index_loop_missing [of len 0 rawequal t]
    index_loop_empty [of rawequal t 0 0]
  by (cases "index_loop rawequal t 0 0") (auto simp: l_reverse_def l_indexof_def)

lemma reverse_and_index_witness:
  "map_option (\<lambda>t. map t [1, 2, 3]) (l_reverse [1 \<mapsto> ''a'', 2 \<mapsto> ''b'', 3 \<mapsto> ''c''] 3)
     = Some [Some ''b'', Some ''a'', None]
   \<and> l_indexof (\<lambda>v. v = Some ''b'') [1 \<mapsto> ''a'', 2 \<mapsto> ''b''] 2 = Some 1"
proof -
  have "l_reverse [1 \<mapsto> ''a'', 2 \<mapsto> ''b'', 3 \<mapsto> ''c''] 3
      = Some (\<lambda>k. if 1 \<le> k \<and> k \<le> 3 then [1 \<mapsto> ''a'', 2 \<mapsto> ''b'', 3 \<mapsto> ''c''] (3 - k) else None)"
    using reverse_and_index [of 3 "[1 \<mapsto> ''a'', 2 \<mapsto> ''b'', 3 \<mapsto> ''c'']"] by simp
  moreover have "l_indexof (\<lambda>v. v = Some ''b'') [1 \<mapsto> ''a'', 2 \<mapsto> ''b''] 2 = Some 1"
    using reverse_and_index [of 2 "[1 \<mapsto> ''a'', 2 \<mapsto> ''b'']" 1 "\<lambda>v. v = Some ''b''"] by simp
  ultimately show ?thesis by simp
qed

end
