(* ===== verification/MathLib.thy ===== *)
theory MathLib
  imports IntArrays
begin

text \<open>
  \<open>src/src/math.c\<close>: gcd and lcm on unsigned 64-bit integers, and l_lcm, which converts the numbers
  of a table.  The product in lcm wraps; as long as no intermediate product does, the result is the
  least common multiple.  A division by gcd(0, 0) = 0 is undefined.
\<close>

function gcd64 :: "u64 \<Rightarrow> u64 \<Rightarrow> u64" where
  "gcd64 a b = (if b = 0 then a else gcd64 b (a mod b))"
  by pat_completeness auto
termination
  by (relation "measure (\<lambda>(a, b). unat b)") (auto simp: unat_mod word_gt_0_no unat_gt_0 intro: mod_less_divisor)

declare gcd64.simps [simp del]

fun lcm_loop :: "u64 list \<Rightarrow> u64 \<Rightarrow> u64 option" where
  "lcm_loop [] out = Some out"
| "lcm_loop (x # a) out =
     (let g = gcd64 x out in if g = 0 then None else lcm_loop a ((x * out) div g))"

text \<open>The loop starts with the first number; an array without one is read outside.\<close>

definition lcm64 :: "u64 list \<Rightarrow> u64 option" where
  "lcm64 a = (case a of [] \<Rightarrow> None | x # xs \<Rightarrow> lcm_loop xs x)"

definition lcm_step :: "double \<Rightarrow> u64 list \<Rightarrow> lua_error + u64 list" where
  "lcm_step d nums = (case double_to_uint64 d of None \<Rightarrow> Inl Undefined | Some x \<Rightarrow> Inr (nums @ [x]))"

definition l_lcm :: "lua_array \<Rightarrow> lua_error + u64" where
  "l_lcm t = (case over_table lcm_step t [] of
     Inl e \<Rightarrow> Inl e
   | Inr nums \<Rightarrow> (case lcm64 nums of None \<Rightarrow> Inl Undefined | Some r \<Rightarrow> Inr r))"

lemma steps_lcm:
  "map double_to_uint64 ds = map Some xs \<Longrightarrow> steps lcm_step ds nums = Inr (nums @ xs)"
proof (induction ds arbitrary: nums xs)
  case (Cons d ds)
  then obtain x xs' where "xs = x # xs'" "double_to_uint64 d = Some x" "map double_to_uint64 ds = map Some xs'"
    by (cases xs) auto
  then show ?case using Cons.IH [of xs'] by (simp add: lcm_step_def)
qed simp

lemma gcd64_eq: "unat (gcd64 a b) = gcd (unat a) (unat b)"
proof (induction a b rule: gcd64.induct)
  case (1 a b)
  show ?case
  proof (cases "b = 0")
    case True
    then show ?thesis by (simp add: gcd64.simps [of a])
  next
    case False
    then have "unat (gcd64 a b) = gcd (unat b) (unat (a mod b))"
      using 1 by (simp add: gcd64.simps [of a b])
    then show ?thesis using False by (simp add: unat_mod gcd_red_nat [of "unat a"])
  qed
qed

text \<open>No intermediate product of the loop reaches 2^64.\<close>

fun lcm_fits :: "nat list \<Rightarrow> nat \<Rightarrow> bool" where
  "lcm_fits [] out \<longleftrightarrow> True"
| "lcm_fits (x # a) out \<longleftrightarrow> x * out < 2 ^ 64 \<and> (x \<noteq> 0 \<or> out \<noteq> 0) \<and> lcm_fits a (lcm x out)"

lemma lcm_loop_eq:
  "lcm_fits (map unat a) (unat out) \<Longrightarrow>
   \<exists>r. lcm_loop a out = Some r \<and> unat r = fold lcm (map unat a) (unat out)"
proof (induction a arbitrary: out)
  case (Cons x a)
  let ?g = "gcd64 x out"
  have g: "unat ?g = gcd (unat x) (unat out)" by (rule gcd64_eq)
  have nz: "?g \<noteq> 0" using Cons.prems g by (auto simp: unat_eq_zero)
  have "unat x * unat out < 2 ^ LENGTH(64)" using Cons.prems by simp
  then have "unat (x * out) = unat x * unat out" by (rule unat_mult_lem [THEN iffD1])
  then have "unat ((x * out) div ?g) = lcm (unat x) (unat out)"
    by (simp add: unat_div g lcm_nat_def)
  moreover from this have "\<exists>r. lcm_loop a ((x * out) div ?g) = Some r
      \<and> unat r = fold lcm (map unat a) (unat ((x * out) div ?g))"
    using Cons.prems by (intro Cons.IH) simp
  ultimately show ?case using nz by (simp add: Let_def)
qed simp

lemma fold_lcm_Lcm: "fold lcm xs (n :: nat) = Lcm (set (n # xs))"
proof (induction xs arbitrary: n)
  case (Cons x xs)
  then show ?case by (simp add: lcm.assoc lcm.commute lcm.left_commute)
qed simp

lemma lcm64_Lcm:
  assumes "lcm_fits (map unat xs) (unat x)"
  obtains r where "lcm64 (x # xs) = Some r" and "unat r = Lcm (unat ` set (x # xs))"
  using lcm_loop_eq [OF assms] that fold_lcm_Lcm [of "map unat xs" "unat x"]
  by (auto simp: lcm64_def)

lemma lcm64_zeros: "lcm64 (0 # 0 # xs) = None"
  by (simp add: lcm64_def gcd64.simps)

lemma l_lcm_Lcm:
  assumes "map double_to_uint64 (d # ds) = map Some (x # xs)" "lcm_fits (map unat xs) (unat x)"
  shows "\<exists>r. l_lcm (map Some (d # ds)) = Inr r \<and> unat r = Lcm (unat ` set (x # xs))"
proof -
  have "over_table lcm_step (map Some (d # ds)) [] = Inr ([] @ x # xs)"
    using over_table_numbers [of "d # ds" lcm_step "[]"] steps_lcm [OF assms(1)] by simp
  moreover obtain r where "lcm64 (x # xs) = Some r" "unat r = Lcm (unat ` set (x # xs))"
    by (rule lcm64_Lcm [OF assms(2)])
  ultimately show ?thesis by (simp add: l_lcm_def)
qed



end
