(* ===== verification/OpenAddressing.thy ===== *)
theory OpenAddressing
  imports Prelude
begin

text \<open>
  What the two hash tables of \<open>src/src/types\<close> (larray.c, map.c) have in common: slots that are free
  or hold a key and a value, probed linearly from the hash of the key.  The invariant says that the
  way from a key's hash to its slot is occupied, so that a search never stops too early, and that a
  slot is free, so that it stops at all.  The locale \<open>keyed_store\<close> is the interface the rest of the
  program relies on.
\<close>

section \<open>Stores\<close>

text \<open>A store whose insertions may fail (None) and which takes a new key only when it fits.\<close>

locale keyed_store =
  fixes set_op :: "'s \<Rightarrow> 'k \<Rightarrow> 'v \<Rightarrow> 's option" and get_op :: "'s \<Rightarrow> 'k \<Rightarrow> 'v option option"
    and wf :: "'s \<Rightarrow> bool" and fits :: "'s \<Rightarrow> 'k \<Rightarrow> bool" and contents :: "'s \<Rightarrow> 'k \<rightharpoonup> 'v"
  assumes get_contents: "wf s \<Longrightarrow> fits s k \<Longrightarrow> get_op s k = Some (contents s k)"
    and set_wf: "wf s \<Longrightarrow> fits s k \<Longrightarrow> set_op s k v = Some s' \<Longrightarrow> wf s'"
    and set_contents: "wf s \<Longrightarrow> fits s k \<Longrightarrow> set_op s k v = Some s' \<Longrightarrow> contents s' = (contents s)(k \<mapsto> v)"
begin

fun set_all :: "('k \<times> 'v) list \<Rightarrow> 's \<Rightarrow> 's option" where
  "set_all [] s = Some s"
| "set_all ((k, v) # kvs) s = Option.bind (set_op s k v) (set_all kvs)"

lemma get_set_same:
  "wf s \<Longrightarrow> fits s k \<Longrightarrow> set_op s k v = Some s' \<Longrightarrow> fits s' k \<Longrightarrow> get_op s' k = Some (Some v)"
  using get_contents [OF set_wf] set_contents by simp

lemma get_set_other:
  "wf s \<Longrightarrow> fits s k \<Longrightarrow> set_op s k v = Some s' \<Longrightarrow> k' \<noteq> k \<Longrightarrow> fits s k' \<Longrightarrow> fits s' k' \<Longrightarrow>
   get_op s' k' = get_op s k'"
  using get_contents [OF set_wf, of s k v s' k'] set_contents [of s k v s'] get_contents [of s k'] by simp

text \<open>A sequence of insertions of keys that all fit leaves the map of the pairs, the last value of a
  key first.\<close>

lemma set_all_contents:
  assumes "\<And>s k. wf s \<Longrightarrow> fits s k" and "wf s" and "set_all kvs s = Some s'"
  shows "wf s' \<and> contents s' = contents s ++ map_of (rev kvs)"
  using assms(2,3)
proof (induction kvs arbitrary: s)
  case (Cons kv kvs)
  obtain k v where kv: "kv = (k, v)" by (cases kv)
  with Cons.prems obtain t where t: "set_op s k v = Some t" "set_all kvs t = Some s'"
    by (auto split: Option.bind_splits)
  have wft: "wf t" and ct: "contents t = (contents s)(k \<mapsto> v)"
    using set_wf set_contents assms(1) Cons.prems(1) t(1) by blast+
  have "wf s' \<and> contents s' = contents t ++ map_of (rev kvs)" using wft t(2) by (rule Cons.IH)
  then show ?case by (simp add: ct kv)
qed simp

end

section \<open>Slots\<close>

type_synonym ('k, 'v) slots = "('k \<times> 'v) option list"

definition oa_pos :: "('k \<Rightarrow> nat) \<Rightarrow> ('k, 'v) slots \<Rightarrow> 'k \<Rightarrow> nat \<Rightarrow> nat" where
  "oa_pos H ss k d = (H k + d) mod length ss"

definition oa_pairs :: "('k, 'v) slots \<Rightarrow> ('k \<times> 'v) list" where
  "oa_pairs ss = concat (map (\<lambda>s. case s of None \<Rightarrow> [] | Some kv \<Rightarrow> [kv]) ss)"

definition oa_map :: "('k, 'v) slots \<Rightarrow> 'k \<rightharpoonup> 'v" where
  "oa_map ss = map_of (oa_pairs ss)"

text \<open>Slots passed on the way to a key: occupied by other keys.\<close>

definition oa_passed :: "('k \<Rightarrow> nat) \<Rightarrow> ('k, 'v) slots \<Rightarrow> 'k \<Rightarrow> nat \<Rightarrow> bool" where
  "oa_passed H ss k d \<longleftrightarrow> (\<forall>e < d. \<exists>k' v'. ss ! oa_pos H ss k e = Some (k', v') \<and> k' \<noteq> k)"

definition oa_wf :: "('k \<Rightarrow> nat) \<Rightarrow> ('k, 'v) slots \<Rightarrow> bool" where
  "oa_wf H ss \<longleftrightarrow> length (oa_pairs ss) < length ss
     \<and> (\<forall>j < length ss. \<forall>k v. ss ! j = Some (k, v) \<longrightarrow>
          (\<exists>d. d + 1 < length ss \<and> j = oa_pos H ss k d \<and> (\<forall>e < d. ss ! oa_pos H ss k e \<noteq> None)))
     \<and> (\<forall>i < length ss. \<forall>j < length ss. \<forall>k v w. ss ! i = Some (k, v) \<and> ss ! j = Some (k, w) \<longrightarrow> i = j)"

lemma oa_pairs_simps [simp]:
  "oa_pairs [] = []" "oa_pairs (None # ss) = oa_pairs ss" "oa_pairs (Some kv # ss) = kv # oa_pairs ss"
  "oa_pairs (ss @ ts) = oa_pairs ss @ oa_pairs ts"
  by (simp_all add: oa_pairs_def)

lemma oa_pairs_replicate [simp]: "oa_pairs (replicate n None) = []"
  by (induction n) simp_all

lemma set_oa_pairs: "kv \<in> set (oa_pairs ss) \<longleftrightarrow> Some kv \<in> set ss"
proof (induction ss)
  case (Cons s ss)
  then show ?case by (cases s) auto
qed simp

lemma oa_pairs_split:
  "j < length ss \<Longrightarrow> oa_pairs ss = oa_pairs (take j ss) @ (case ss ! j of None \<Rightarrow> [] | Some kv \<Rightarrow> [kv])
     @ oa_pairs (drop (Suc j) ss)"
proof -
  assume j: "j < length ss"
  have "oa_pairs ss = oa_pairs (take j ss @ ss ! j # drop (Suc j) ss)"
    using id_take_nth_drop [OF j] by simp
  then show ?thesis by (cases "ss ! j") simp_all
qed

lemma oa_pairs_update:
  "j < length ss \<Longrightarrow> oa_pairs (ss[j := Some kv]) = oa_pairs (take j ss) @ [kv] @ oa_pairs (drop (Suc j) ss)"
  by (simp add: upd_conv_take_nth_drop)

lemma oa_pos_less: "ss \<noteq> [] \<Longrightarrow> oa_pos H ss k d < length ss"
  by (simp add: oa_pos_def)

lemma oa_wf_less: "oa_wf H ss \<Longrightarrow> length (oa_pairs ss) < length ss"
  by (simp add: oa_wf_def)

lemma oa_wf_path:
  "oa_wf H ss \<Longrightarrow> j < length ss \<Longrightarrow> ss ! j = Some (k, v) \<Longrightarrow>
   \<exists>d. d + 1 < length ss \<and> j = oa_pos H ss k d \<and> (\<forall>e < d. ss ! oa_pos H ss k e \<noteq> None)"
  by (simp add: oa_wf_def)

lemma oa_wf_unique:
  "oa_wf H ss \<Longrightarrow> i < length ss \<Longrightarrow> j < length ss \<Longrightarrow> ss ! i = Some (k, v) \<Longrightarrow> ss ! j = Some (k, w) \<Longrightarrow> i = j"
  unfolding oa_wf_def by blast

lemma oa_passed_used: "oa_passed H ss k d \<Longrightarrow> e < d \<Longrightarrow> ss ! oa_pos H ss k e \<noteq> None"
  unfolding oa_passed_def by (drule_tac x = e in spec) auto

lemma oa_wf_nonempty: "oa_wf H ss \<Longrightarrow> ss \<noteq> []"
  by (auto simp: oa_wf_def)

lemma oa_wf_free:
  assumes "oa_wf H ss"
  shows "None \<in> set ss"
proof (rule ccontr)
  assume "None \<notin> set ss"
  then have "length (oa_pairs ss) = length ss"
  proof (induction ss)
    case (Cons s ss)
    then show ?case by (cases s) simp_all
  qed simp
  then show False using assms by (simp add: oa_wf_def)
qed

text \<open>With distinct keys the map holds what the slots hold.\<close>

lemma oa_wf_keys:
  assumes "oa_wf H ss"
  shows "oa_map ss k = Some v \<longleftrightarrow> Some (k, v) \<in> set ss"
proof
  assume "oa_map ss k = Some v"
  then show "Some (k, v) \<in> set ss" using map_of_SomeD set_oa_pairs by (fastforce simp: oa_map_def)
next
  assume slot: "Some (k, v) \<in> set ss"
  then have "(k, v) \<in> set (oa_pairs ss)" by (simp add: set_oa_pairs)
  then obtain w where w: "oa_map ss k = Some w" by (auto simp: oa_map_def dest: weak_map_of_SomeI)
  then have "Some (k, w) \<in> set ss" using map_of_SomeD set_oa_pairs by (fastforce simp: oa_map_def)
  then obtain i j where "i < length ss" "ss ! i = Some (k, v)" "j < length ss" "ss ! j = Some (k, w)"
    using slot by (metis in_set_conv_nth)
  moreover from this have "i = j" using assms unfolding oa_wf_def by blast
  ultimately show "oa_map ss k = Some v" using w by simp
qed

lemma oa_map_None: "oa_map ss k = None \<longleftrightarrow> (\<forall>v. Some (k, v) \<notin> set ss)"
  by (force simp: oa_map_def map_of_eq_None_iff simp flip: set_oa_pairs)

lemma oa_pos_eq:
  assumes "d < length ss"
  shows "oa_pos H ss k d = (if H k mod length ss + d < length ss then H k mod length ss + d
    else H k mod length ss + d - length ss)"
proof -
  have "H k mod length ss < length ss" using assms by (intro mod_less_divisor) linarith
  then have "(H k mod length ss + d) mod length ss = (if H k mod length ss + d < length ss
      then H k mod length ss + d else H k mod length ss + d - length ss)"
    using assms by (cases "H k mod length ss + d < length ss") (simp_all add: le_mod_geq)
  then show ?thesis by (simp add: oa_pos_def mod_add_left_eq)
qed

lemma oa_pos_inj:
  assumes "d < length ss" "e < length ss" "oa_pos H ss k d = oa_pos H ss k e"
  shows "d = e"
proof -
  have "H k mod length ss < length ss" using assms(1) by (intro mod_less_divisor) linarith
  then show ?thesis using assms by (simp add: oa_pos_eq split: if_splits)
qed

lemma oa_pos_surj:
  assumes "j < length ss"
  obtains d where "d < length ss" and "oa_pos H ss k d = j"
proof -
  let ?n = "length ss" and ?h = "H k mod length ss"
  let ?d = "if ?h \<le> j then j - ?h else j + ?n - ?h"
  have h: "?h < ?n" using assms by (intro mod_less_divisor) linarith
  have d: "?d < ?n" using assms h by auto
  have "oa_pos H ss k ?d = j" unfolding oa_pos_eq [OF d] using assms h by auto
  with d show ?thesis by (rule that)
qed

text \<open>Where a search for a key ends: at the key, before the last slot of the ring, or at a free
  slot.\<close>

lemma oa_search:
  assumes "oa_wf H ss"
  obtains (found) d v where "oa_map ss k = Some v" "d + 1 < length ss" "oa_passed H ss k d"
      "ss ! oa_pos H ss k d = Some (k, v)"
    | (free) d where "oa_map ss k = None" "d < length ss" "oa_passed H ss k d" "ss ! oa_pos H ss k d = None"
proof (cases "oa_map ss k")
  case (Some v)
  then obtain j where j: "j < length ss" "ss ! j = Some (k, v)"
    using oa_wf_keys [OF assms] by (metis in_set_conv_nth)
  then obtain d where d: "d + 1 < length ss" "j = oa_pos H ss k d" "\<forall>e < d. ss ! oa_pos H ss k e \<noteq> None"
    using assms unfolding oa_wf_def by blast
  have "oa_passed H ss k d"
    unfolding oa_passed_def
  proof (intro allI impI)
    fix e assume e: "e < d"
    then obtain k' v' where slot: "ss ! oa_pos H ss k e = Some (k', v')" using d(3) by (metis option.exhaust surj_pair)
    have "k' \<noteq> k"
    proof
      assume "k' = k"
      then have "oa_pos H ss k e = oa_pos H ss k d"
        using assms slot j d(2) oa_pos_less [of ss H k e] oa_wf_nonempty [OF assms] unfolding oa_wf_def by blast
      then show False using e d(1) oa_pos_inj [of e ss d H k] by simp
    qed
    then show "\<exists>k' v'. ss ! oa_pos H ss k e = Some (k', v') \<and> k' \<noteq> k" using slot by blast
  qed
  then show ?thesis using found Some d j by blast
next
  case None
  obtain j where j: "j < length ss" "ss ! j = None" using oa_wf_free [OF assms] by (metis in_set_conv_nth)
  obtain d0 where "d0 < length ss" "oa_pos H ss k d0 = j" by (rule oa_pos_surj [OF j(1)])
  then have ex: "ss ! oa_pos H ss k d0 = None" using j(2) by simp
  define d where "d = (LEAST d. ss ! oa_pos H ss k d = None)"
  have d: "ss ! oa_pos H ss k d = None" "d \<le> d0" "\<And>e. e < d \<Longrightarrow> ss ! oa_pos H ss k e \<noteq> None"
    unfolding d_def using ex by (rule LeastI, intro Least_le ex, blast dest: not_less_Least)
  have "oa_passed H ss k d"
    unfolding oa_passed_def
  proof (intro allI impI)
    fix e assume "e < d"
    then obtain k' v' where slot: "ss ! oa_pos H ss k e = Some (k', v')" using d(3) by (metis option.exhaust surj_pair)
    then have "Some (k', v') \<in> set ss" using oa_pos_less oa_wf_nonempty [OF assms] by (metis nth_mem)
    then have "k' \<noteq> k" using None by (auto simp: oa_map_None)
    then show "\<exists>k' v'. ss ! oa_pos H ss k e = Some (k', v') \<and> k' \<noteq> k" using slot by blast
  qed
  then show ?thesis using free None d \<open>d0 < length ss\<close> by (meson le_less_trans)
qed

text \<open>A search that has passed d slots and stands on a free one, or on the key, knows the answer.\<close>

lemma oa_found:
  assumes "oa_wf H ss" "d < length ss" "ss ! oa_pos H ss k d = Some (k, v)"
  shows "oa_map ss k = Some v"
  using oa_wf_keys [OF assms(1)] assms(3) oa_pos_less oa_wf_nonempty [OF assms(1)] by (metis nth_mem)

lemma oa_missing:
  assumes "oa_wf H ss" "oa_passed H ss k d" "d < length ss" "ss ! oa_pos H ss k d = None"
  shows "oa_map ss k = None"
  using assms(1)
proof (cases rule: oa_search [where k = k])
  case (found d2 v)
  have "d2 \<noteq> d" using found(4) assms(4) by auto
  moreover have "\<not> d2 < d" using assms(2) found(4) unfolding oa_passed_def by fastforce
  moreover have "\<not> d < d2" using found(3) assms(4) unfolding oa_passed_def by fastforce
  ultimately show ?thesis by linarith
qed

lemma oa_count: "length (oa_pairs ss) = card {j. j < length ss \<and> ss ! j \<noteq> None}"
proof -
  have "length (oa_pairs ss) = length (filter (\<lambda>s. s \<noteq> None) ss)"
  proof (induction ss)
    case (Cons s ss)
    then show ?case by (cases s) simp_all
  qed simp
  then show ?thesis by (simp only: length_filter_conv_card)
qed

lemma oa_passed_count:
  assumes "oa_passed H ss k d" "d \<le> length ss"
  shows "d \<le> length (oa_pairs ss)"
proof -
  have "inj_on (oa_pos H ss k) {..<d}"
  proof (rule inj_onI)
    fix x y assume "x \<in> {..<d}" "y \<in> {..<d}" "oa_pos H ss k x = oa_pos H ss k y"
    then show "x = y" using oa_pos_inj [of x ss y H k] assms(2) by simp
  qed
  moreover have "oa_pos H ss k ` {..<d} \<subseteq> {j. j < length ss \<and> ss ! j \<noteq> None}"
  proof (rule image_subsetI)
    fix e assume "e \<in> {..<d}"
    then have "e < d" "ss \<noteq> []" using assms(2) by auto
    then show "oa_pos H ss k e \<in> {j. j < length ss \<and> ss ! j \<noteq> None}"
      using oa_passed_used [OF assms(1)] oa_pos_less by simp
  qed
  ultimately have "card {..<d} \<le> card {j. j < length ss \<and> ss ! j \<noteq> None}"
    by (intro card_inj_on_le) simp_all
  then show ?thesis by (simp add: oa_count)
qed

lemma oa_store_pos:
  assumes wf: "oa_wf H ss" and passed: "oa_passed H ss k d" and d: "d < length ss"
    and slot: "ss ! oa_pos H ss k d = None \<and> length (oa_pairs ss) + 1 < length ss
      \<or> (\<exists>w. ss ! oa_pos H ss k d = Some (k, w))"
  shows "d + 1 < length ss"
  using slot
proof
  assume "ss ! oa_pos H ss k d = None \<and> length (oa_pairs ss) + 1 < length ss"
  then show ?thesis using oa_passed_count [OF passed] d by simp
next
  assume "\<exists>w. ss ! oa_pos H ss k d = Some (k, w)"
  then obtain d2 where "d2 + 1 < length ss" "oa_pos H ss k d = oa_pos H ss k d2"
    using oa_wf_path [OF wf oa_pos_less] oa_wf_nonempty [OF wf] by metis
  then show ?thesis using oa_pos_inj [of d ss d2 H k] d by simp
qed

lemma oa_store_pairs:
  assumes "j < length ss" "oa_wf H ss"
    and "ss ! j = None \<and> length (oa_pairs ss) + 1 < length ss \<or> ss ! j \<noteq> None"
  shows "length (oa_pairs (ss[j := Some kv])) < length ss"
    and "length (oa_pairs (ss[j := Some kv])) \<le> length (oa_pairs ss) + 1"
proof -
  have upd: "length (oa_pairs (ss[j := Some kv]))
      = length (oa_pairs (take j ss)) + 1 + length (oa_pairs (drop (Suc j) ss))"
    by (simp add: oa_pairs_update [OF assms(1)])
  have old: "length (oa_pairs ss) = length (oa_pairs (take j ss)) + (if ss ! j = None then 0 else 1)
      + length (oa_pairs (drop (Suc j) ss))"
    by (subst oa_pairs_split [OF assms(1)]) (simp split: option.split)
  have less: "length (oa_pairs ss) < length ss" using assms(2) by (simp add: oa_wf_def)
  show "length (oa_pairs (ss[j := Some kv])) < length ss"
    and "length (oa_pairs (ss[j := Some kv])) \<le> length (oa_pairs ss) + 1"
    using upd old less assms(3) by (simp_all split: if_splits)
qed

text \<open>No other slot holds the key.\<close>

lemma oa_store_only:
  assumes wf: "oa_wf H ss" and passed: "oa_passed H ss k d" and d: "d < length ss"
    and slot: "ss ! oa_pos H ss k d = None \<or> (\<exists>w. ss ! oa_pos H ss k d = Some (k, w))"
    and i: "i < length ss" "ss ! i = Some (k, w)"
  shows "i = oa_pos H ss k d"
proof -
  have "oa_map ss k = Some w" using oa_wf_keys [OF wf] i by (metis nth_mem)
  then have "ss ! oa_pos H ss k d \<noteq> None" using oa_missing [OF wf passed d] by (metis option.distinct(1))
  then obtain w' where "ss ! oa_pos H ss k d = Some (k, w')" using slot by metis
  then show ?thesis using oa_wf_unique [OF wf i(1) oa_pos_less i(2)] oa_wf_nonempty [OF wf] by blast
qed

lemma oa_store_wf:
  assumes wf: "oa_wf H ss" and passed: "oa_passed H ss k d" and d: "d < length ss"
    and slot: "ss ! oa_pos H ss k d = None \<and> length (oa_pairs ss) + 1 < length ss
      \<or> (\<exists>w. ss ! oa_pos H ss k d = Some (k, w))"
  shows "oa_wf H (ss[oa_pos H ss k d := Some (k, v)])"
proof -
  define j where "j = oa_pos H ss k d"
  define ss' where "ss' = ss[j := Some (k, v)]"
  have j: "j < length ss" unfolding j_def by (rule oa_pos_less [OF oa_wf_nonempty [OF wf]])
  have at: "ss' ! i = (if i = j then Some (k, v) else ss ! i)" if "i < length ss" for i
    using that by (simp add: ss'_def nth_list_update)
  have len: "length ss' = length ss" by (simp add: ss'_def)
  have pos: "oa_pos H ss' = oa_pos H ss" by (intro ext) (simp only: oa_pos_def len)
  have keep: "ss' ! oa_pos H ss l e \<noteq> None" if "ss ! oa_pos H ss l e \<noteq> None" for l e
    using that at [OF oa_pos_less [OF oa_wf_nonempty [OF wf]]] by simp
  have only: "i = j" if "i < length ss" "ss' ! i = Some (k, w)" for i w
    using that oa_store_only [OF wf passed d, of i w] slot at [OF that(1)] unfolding j_def
    by (cases "i = oa_pos H ss k d") auto
  have old: "ss ! i = Some (l, w)" if "i < length ss" "ss' ! i = Some (l, w)" "l \<noteq> k" for i l w
    using that at [OF that(1)] by (auto split: if_splits)
  have less: "length (oa_pairs ss') < length ss"
    unfolding ss'_def using oa_store_pairs(1) [OF j wf] slot unfolding j_def by auto
  have path: "\<exists>d. d + 1 < length ss \<and> i = oa_pos H ss l d \<and> (\<forall>e < d. ss' ! oa_pos H ss l e \<noteq> None)"
    if i: "i < length ss" "ss' ! i = Some (l, w)" for i l w
  proof (cases "l = k")
    case True
    then have "i = j" using only i by blast
    moreover have "\<forall>e < d. ss' ! oa_pos H ss k e \<noteq> None"
      using oa_passed_used [OF passed] keep by blast
    ultimately show ?thesis using oa_store_pos [OF wf passed d slot] True unfolding j_def by blast
  next
    case False
    obtain d2 where "d2 + 1 < length ss" "i = oa_pos H ss l d2" "\<forall>e < d2. ss ! oa_pos H ss l e \<noteq> None"
      using oa_wf_path [OF wf i(1) old [OF i False]] by blast
    then show ?thesis using keep by blast
  qed
  have unique: "i = i2" if "i < length ss" "i2 < length ss" "ss' ! i = Some (l, w)" "ss' ! i2 = Some (l, w2)"
    for i i2 l w w2
  proof (cases "l = k")
    case True
    then show ?thesis using only that by blast
  next
    case False
    then show ?thesis using oa_wf_unique [OF wf that(1,2)] old that by blast
  qed
  have "oa_wf H ss'" unfolding oa_wf_def len pos using less path unique by blast
  then show ?thesis by (simp only: ss'_def j_def)
qed

lemma oa_store_map:
  assumes wf: "oa_wf H ss" and wf': "oa_wf H (ss[j := Some (k, v)])" and j: "j < length ss"
    and slot: "ss ! j = None \<or> (\<exists>w. ss ! j = Some (k, w))"
  shows "oa_map (ss[j := Some (k, v)]) = (oa_map ss)(k \<mapsto> v)"
proof
  fix l
  let ?ss = "ss[j := Some (k, v)]"
  show "oa_map ?ss l = ((oa_map ss)(k \<mapsto> v)) l"
  proof (cases "l = k")
    case True
    have "Some (k, v) \<in> set ?ss" using j by (rule set_update_memI)
    then show ?thesis using oa_wf_keys [OF wf'] True by simp
  next
    case False
    have "Some (l, w) \<in> set ?ss \<longleftrightarrow> Some (l, w) \<in> set ss" for w
    proof
      assume "Some (l, w) \<in> set ?ss"
      then have "Some (l, w) \<in> insert (Some (k, v)) (set ss)" by (rule set_update_subset_insert [THEN subsetD])
      then show "Some (l, w) \<in> set ss" using False by simp
    next
      assume "Some (l, w) \<in> set ss"
      then obtain i where i: "i < length ss" "ss ! i = Some (l, w)" by (metis in_set_conv_nth)
      then have "i \<noteq> j" using slot False by auto
      then have "?ss ! i = Some (l, w)" using i by simp
      then show "Some (l, w) \<in> set ?ss" using i(1) by (metis length_list_update nth_mem)
    qed
    then have "oa_map ?ss l = Some w \<longleftrightarrow> oa_map ss l = Some w" for w
      by (simp only: oa_wf_keys [OF wf'] oa_wf_keys [OF wf])
    then have "oa_map ?ss l = oa_map ss l" by (cases "oa_map ss l") (metis not_None_eq)+
    then show ?thesis using False by simp
  qed
qed

lemma oa_store:
  assumes "oa_wf H ss" "oa_passed H ss k d" "d < length ss"
    and "ss ! oa_pos H ss k d = None \<and> length (oa_pairs ss) + 1 < length ss
      \<or> (\<exists>w. ss ! oa_pos H ss k d = Some (k, w))"
  shows "oa_wf H (ss[oa_pos H ss k d := Some (k, v)])"
    and "oa_map (ss[oa_pos H ss k d := Some (k, v)]) = (oa_map ss)(k \<mapsto> v)"
  using oa_store_wf [OF assms, of v] oa_store_map [OF assms(1) oa_store_wf [OF assms, of v]]
    oa_pos_less [OF oa_wf_nonempty [OF assms(1)], of H k d] assms(4) by blast+

text \<open>Fresh slots.\<close>

lemma oa_wf_fresh: "0 < n \<Longrightarrow> oa_wf H (replicate n None)"
  by (simp add: oa_wf_def)

lemma oa_map_fresh: "oa_map (replicate n None) = (\<lambda>_. None)"
  by (simp add: oa_map_def)

lemma oa_pairs_distinct:
  assumes "oa_wf H ss"
  shows "distinct (map fst (oa_pairs ss))"
proof -
  have inj: "\<forall>i < length ss. \<forall>j < length ss. \<forall>k v w. ss ! i = Some (k, v) \<and> ss ! j = Some (k, w) \<longrightarrow> i = j"
    using assms unfolding oa_wf_def by blast
  then show ?thesis
  proof (induction ss)
    case (Cons s ss)
    have "\<forall>i < length ss. \<forall>j < length ss. \<forall>k v w. ss ! i = Some (k, v) \<and> ss ! j = Some (k, w) \<longrightarrow> i = j"
      using Cons.prems by (metis Suc_inject Suc_mono length_Cons nth_Cons_Suc)
    then have ih: "distinct (map fst (oa_pairs ss))" by (rule Cons.IH)
    show ?case
    proof (cases s)
      case None
      then show ?thesis using ih by simp
    next
      case (Some kv)
      have "Some (fst kv, w) \<notin> set ss" for w
      proof
        assume "Some (fst kv, w) \<in> set ss"
        then obtain j where "j < length ss" "ss ! j = Some (fst kv, w)" by (metis in_set_conv_nth)
        then show False using Cons.prems [rule_format, of 0 "Suc j" "fst kv" "snd kv" w] Some by simp
      qed
      then have "fst kv \<notin> fst ` set (oa_pairs ss)" by (force simp: set_oa_pairs)
      then show ?thesis using ih Some by simp
    qed
  qed simp
qed

text \<open>A key that is not there may take an occupied slot on its way.\<close>

lemma oa_replace:
  assumes wf: "oa_wf H ss" and d: "d + 1 < length ss" and way: "\<forall>e < d. ss ! oa_pos H ss k' e \<noteq> None"
    and slot: "ss ! oa_pos H ss k' d = Some (k, v)" and absent: "oa_map ss k' = None"
  shows "oa_wf H (ss[oa_pos H ss k' d := Some (k', v')])"
    and "oa_map (ss[oa_pos H ss k' d := Some (k', v')]) = (oa_map ss)(k := None, k' \<mapsto> v')"
proof -
  define j where "j = oa_pos H ss k' d"
  define ss' where "ss' = ss[j := Some (k', v')]"
  have j: "j < length ss" unfolding j_def by (rule oa_pos_less [OF oa_wf_nonempty [OF wf]])
  have at: "ss' ! i = (if i = j then Some (k', v') else ss ! i)" if "i < length ss" for i
    using that by (simp add: ss'_def nth_list_update)
  have len: "length ss' = length ss" by (simp add: ss'_def)
  have pos: "oa_pos H ss' = oa_pos H ss" by (intro ext) (simp only: oa_pos_def len)
  have no: "Some (k', w) \<notin> set ss" for w using absent by (simp add: oa_map_None)
  have old: "(i = j \<and> l = k' \<and> w = v') \<or> (i \<noteq> j \<and> ss ! i = Some (l, w) \<and> l \<noteq> k' \<and> l \<noteq> k)"
    if i: "i < length ss" "ss' ! i = Some (l, w)" for i l w
  proof (cases "i = j")
    case True
    then show ?thesis using at [OF i(1)] i(2) by simp
  next
    case False
    then have here: "ss ! i = Some (l, w)" using at [OF i(1)] i(2) by simp
    then have "l \<noteq> k'" using no i(1) by (metis nth_mem)
    moreover have "l \<noteq> k" using oa_wf_unique [OF wf i(1) j] here slot False unfolding j_def by blast
    ultimately show ?thesis using False here by blast
  qed
  have keep: "ss' ! oa_pos H ss l e \<noteq> None" if "ss ! oa_pos H ss l e \<noteq> None" for l e
    using that at [OF oa_pos_less [OF oa_wf_nonempty [OF wf]]] by simp
  have less: "length (oa_pairs ss') < length ss"
    unfolding ss'_def using oa_store_pairs(1) [OF j wf] slot unfolding j_def by auto
  have path: "\<exists>d. d + 1 < length ss \<and> i = oa_pos H ss l d \<and> (\<forall>e < d. ss' ! oa_pos H ss l e \<noteq> None)"
    if i: "i < length ss" "ss' ! i = Some (l, w)" for i l w
  proof (cases "i = j")
    case True
    then show ?thesis using old [OF i] d way keep unfolding j_def by blast
  next
    case False
    then have "ss ! i = Some (l, w)" using old [OF i] by blast
    then show ?thesis using oa_wf_path [OF wf i(1)] keep by blast
  qed
  have unique: "i = i2" if "i < length ss" "i2 < length ss" "ss' ! i = Some (l, w)" "ss' ! i2 = Some (l, w2)"
    for i i2 l w w2
    using old [OF that(1,3)] old [OF that(2,4)] oa_wf_unique [OF wf that(1,2)] by blast
  have wf': "oa_wf H ss'" unfolding oa_wf_def len pos using less path unique by blast
  then show "oa_wf H (ss[oa_pos H ss k' d := Some (k', v')])" by (simp only: ss'_def j_def)
  have "oa_map ss' l = Some w \<longleftrightarrow> ((oa_map ss)(k := None, k' \<mapsto> v')) l = Some w" for l w
  proof -
    have "Some (l, w) \<in> set ss' \<longleftrightarrow> (l = k' \<and> w = v') \<or> (l \<noteq> k' \<and> l \<noteq> k \<and> Some (l, w) \<in> set ss)"
    proof
      assume "Some (l, w) \<in> set ss'"
      then obtain i where "i < length ss" "ss' ! i = Some (l, w)" using len by (metis in_set_conv_nth)
      then show "(l = k' \<and> w = v') \<or> (l \<noteq> k' \<and> l \<noteq> k \<and> Some (l, w) \<in> set ss)"
        using old by (metis nth_mem)
    next
      assume "(l = k' \<and> w = v') \<or> (l \<noteq> k' \<and> l \<noteq> k \<and> Some (l, w) \<in> set ss)"
      then show "Some (l, w) \<in> set ss'"
      proof
        assume "l = k' \<and> w = v'"
        then show ?thesis using at [OF j] j len by (metis nth_mem)
      next
        assume a: "l \<noteq> k' \<and> l \<noteq> k \<and> Some (l, w) \<in> set ss"
        then obtain i where i: "i < length ss" "ss ! i = Some (l, w)" by (metis in_set_conv_nth)
        then have "i \<noteq> j" using a slot unfolding j_def by auto
        then have "ss' ! i = Some (l, w)" using at [OF i(1)] i(2) by simp
        then show ?thesis using i(1) len by (metis nth_mem)
      qed
    qed
    then show ?thesis by (auto simp: oa_wf_keys [OF wf'] oa_wf_keys [OF wf])
  qed
  then have "oa_map ss' l = ((oa_map ss)(k := None, k' \<mapsto> v')) l" for l by (metis option.exhaust)
  then show "oa_map (ss[oa_pos H ss k' d := Some (k', v')]) = (oa_map ss)(k := None, k' \<mapsto> v')"
    unfolding ss'_def j_def by (intro ext)
qed

end
