(* ===== verification/GrowingTable.thy ===== *)
theory GrowingTable
  imports OpenAddressing
begin

text \<open>
  What larray.c and map.c do with their slots, whatever is in them: the loops that walk round the
  ring (locale \<open>ring_table\<close>) and the insertion that grows the table by the factor 4 and inserts
  everything again (locale \<open>growing_table\<close>).  A table states its loops as instances of the
  recursions here and gets where they end, what an insertion does, and the fuel that is enough for
  the nesting of growths.
\<close>

section \<open>Walking round the ring\<close>

text \<open>The two loops both tables have: a probe for the slot to write, which gives up after twelve
  occupied slots, and a search, which compares with the slot before its start in 64-bit arithmetic.
  A table offers its slots to them as occupied by another key or not, and as free, the key, or
  another key; the lemmas say where the loops end.\<close>

datatype probe = Slot nat | Expand | Outside

datatype seen = Free | Here | Other

definition ring_next :: "nat \<Rightarrow> nat \<Rightarrow> nat" where
  "ring_next n ind = (if ind + 1 \<ge> n then 0 else ind + 1)"

lemma ring_next_pos:
  assumes "0 < n"
  shows "ring_next n ((h + d) mod n) = (h + (d + 1)) mod n"
proof -
  have "(h + (d + 1)) mod n = Suc ((h + d) mod n) mod n" by (simp add: mod_Suc_eq)
  moreover have "(h + d) mod n < n" using assms by (rule mod_less_divisor)
  ultimately show ?thesis by (auto simp: ring_next_def le_Suc_eq not_le Suc_le_eq)
qed

lemma ring_pos_inj:
  assumes "d < n" "e < n" "(h + d) mod n = (h + e) mod (n :: nat)"
  shows "d = e"
  using oa_pos_inj [of d "replicate n None" e "\<lambda>_. h" "()"] assms by (simp add: oa_pos_def)

text \<open>Before the ring has been walked round, the search has not come to the slot before its start.\<close>

lemma ring_not_round:
  assumes "e + 1 < n" "n < 2 ^ 31"
  shows "(of_nat ((h + e) mod n) :: u64) \<noteq> of_nat (h mod n) - 1"
proof
  have less: "(h + e) mod n < n" "h mod n < n" using assms(1) by (intro mod_less_divisor; linarith)+
  assume "(of_nat ((h + e) mod n) :: u64) = of_nat (h mod n) - 1"
  then have "(of_nat ((h + e) mod n + 1) :: u64) = of_nat (h mod n)" by simp
  moreover have "m + 1 < 2 ^ LENGTH(64)" if "m < n" for m using that assms(2) by simp
  note this [OF less(1)]
  ultimately have "unat (of_nat (h mod n) :: u64) = (h + e) mod n + 1" by (rule of_nat_inverse)
  moreover have "unat (of_nat (h mod n) :: u64) = h mod n"
    using less assms(2) by (intro of_nat_inverse [OF refl]) simp
  ultimately have "(h + e) mod n + 1 = h mod n" by simp
  then have "(h + (e + 1)) mod n = (h + 0) mod n"
    using ring_next_pos [of n h e] less assms(1) by (simp add: ring_next_def)
  from ring_pos_inj [OF assms(1) _ this] show False using assms(1) by linarith
qed

locale ring_table =
  fixes size :: "'t \<Rightarrow> nat" and ok :: "'t \<Rightarrow> 'k \<Rightarrow> bool" and other :: "'t \<Rightarrow> 'k \<Rightarrow> nat \<Rightarrow> bool"
    and look :: "'t \<Rightarrow> 'k \<Rightarrow> nat \<Rightarrow> seen"
    and probe :: "nat \<Rightarrow> 't \<Rightarrow> 'k \<Rightarrow> nat \<Rightarrow> nat \<Rightarrow> probe" and search :: "'t \<Rightarrow> 'k \<Rightarrow> u64 \<Rightarrow> nat \<Rightarrow> int option"
  assumes probe_eq: "ok t k \<Longrightarrow> ind < size t \<Longrightarrow> probe left t k oind ind =
      (if other t k ind
       then (case left of 0 \<Rightarrow> Expand
             | Suc left \<Rightarrow> (if ring_next (size t) ind = oind then Expand
                 else probe left t k oind (ring_next (size t) ind)))
       else Slot ind)"
    and search_eq: "ok t k \<Longrightarrow> ind < size t \<Longrightarrow> search t k initial ind =
      (if of_nat ind \<noteq> initial - 1
       then (case look t k ind of
               Free \<Rightarrow> Some (-1)
             | Here \<Rightarrow> Some (int ind)
             | Other \<Rightarrow> search t k initial (ring_next (size t) ind))
       else Some (-1))"
begin

definition way :: "'t \<Rightarrow> 'k \<Rightarrow> nat \<Rightarrow> nat \<Rightarrow> bool" where
  "way t k h d \<longleftrightarrow> (\<forall>e < d. other t k ((h + e) mod size t))"

lemma way_0: "way t k h 0"
  by (simp add: way_def)

lemma way_step: "way t k h d \<Longrightarrow> other t k ((h + d) mod size t) \<Longrightarrow> way t k h (d + 1)"
  by (auto simp: way_def less_Suc_eq)

lemma inside: "d < size t \<Longrightarrow> (h + e) mod size t < size t"
  by (rule mod_less_divisor) linarith

lemma probe_slot:
  assumes "ok t k" "probe left t k (h mod size t) ((h + d) mod size t) = Slot j" "way t k h d" "d < size t"
  shows "\<exists>d. d < size t \<and> j = (h + d) mod size t \<and> way t k h d \<and> \<not> other t k j"
  using assms(2-4)
proof (induction left arbitrary: d)
  case 0
  then show ?case using probe_eq [OF assms(1) inside [OF "0.prems"(3), of h d]]
    by (auto split: if_splits)
next
  case (Suc left)
  let ?j = "(h + d) mod size t"
  have eq: "probe (Suc left) t k (h mod size t) ?j = (if other t k ?j
      then if (h + (d + 1)) mod size t = h mod size t then Expand
        else probe left t k (h mod size t) ((h + (d + 1)) mod size t)
      else Slot ?j)"
    using probe_eq [OF assms(1) inside [OF Suc.prems(3)]] ring_next_pos [of "size t" h d] Suc.prems(3) by simp
  show ?case
  proof (cases "other t k ?j")
    case False
    then show ?thesis using Suc.prems eq by auto
  next
    case True
    then have run: "probe left t k (h mod size t) ((h + (d + 1)) mod size t) = Slot j"
      "(h + (d + 1)) mod size t \<noteq> h mod size t"
      using Suc.prems(1) eq by (auto split: if_splits)
    have "d + 1 \<noteq> size t" using run(2) by (metis mod_add_self2)
    then show ?thesis using Suc.IH [OF run(1) way_step [OF Suc.prems(2) True]] Suc.prems(3) by simp
  qed
qed

lemma probe_inside:
  assumes "ok t k" "ind < size t"
  shows "probe left t k oind ind \<noteq> Outside"
  using assms(2)
proof (induction left arbitrary: ind)
  case 0
  then show ?case using probe_eq [OF assms(1)] by simp
next
  case (Suc left)
  have "ring_next (size t) ind < size t" using Suc.prems by (simp add: ring_next_def)
  then show ?case using Suc.IH [of "ring_next (size t) ind"] probe_eq [OF assms(1) Suc.prems] by simp
qed

lemma probe_stays:
  assumes "ok t k" "\<And>d. way t k h d \<Longrightarrow> d \<le> size t \<Longrightarrow> d < size t \<and> d \<le> 10"
    and "left + d = 11" "way t k h d" "d < size t"
  shows "probe left t k (h mod size t) ((h + d) mod size t) \<noteq> Expand"
  using assms(3-5)
proof (induction left arbitrary: d)
  case 0
  then show ?case using assms(2) [OF "0.prems"(2)] by simp
next
  case (Suc left)
  let ?j = "(h + d) mod size t"
  show ?case
  proof (cases "other t k ?j")
    case False
    then show ?thesis using probe_eq [OF assms(1) inside [OF Suc.prems(3)]] by simp
  next
    case True
    note way = way_step [OF Suc.prems(2) True]
    have d: "d + 1 < size t" using assms(2) [OF way] Suc.prems(3) by simp
    have "(h + (d + 1)) mod size t \<noteq> h mod size t"
      using ring_pos_inj [of "d + 1" "size t" 0 h] d by auto
    moreover have "probe left t k (h mod size t) ((h + (d + 1)) mod size t) \<noteq> Expand"
      using Suc.prems(1) by (intro Suc.IH way d) simp
    ultimately show ?thesis
      using probe_eq [OF assms(1) inside [OF Suc.prems(3)]] ring_next_pos [of "size t" h d] Suc.prems(3) by simp
  qed
qed

lemma search_run:
  assumes "ok t k" "size t < 2 ^ 31" "\<forall>e < D. look t k ((h + e) mod size t) = Other" "d \<le> D" "D < size t"
  shows "search t k (of_nat (h mod size t)) ((h + d) mod size t) = search t k (of_nat (h mod size t)) ((h + D) mod size t)"
  using assms(4)
proof (induction "D - d" arbitrary: d)
  case 0
  then show ?case by simp
next
  case (Suc n)
  have d: "d < D" using Suc.hyps(2) by simp
  have "search t k (of_nat (h mod size t)) ((h + d) mod size t)
      = search t k (of_nat (h mod size t)) ((h + (d + 1)) mod size t)"
    using search_eq [OF assms(1) inside [OF assms(5)]] ring_not_round [of d "size t" h] d assms(2,3,5)
      ring_next_pos [of "size t" h d] by simp
  then show ?case using Suc.hyps(1) [of "d + 1"] Suc.hyps(2) d by simp
qed

lemma search_ends:
  assumes "ok t k" "size t < 2 ^ 31" "\<forall>e < D. look t k ((h + e) mod size t) = Other" "D < size t"
  shows "look t k ((h + D) mod size t) = Free \<Longrightarrow>
      search t k (of_nat (h mod size t)) (h mod size t) = Some (-1)"
    and "look t k ((h + D) mod size t) = Here \<Longrightarrow> D + 1 < size t \<Longrightarrow>
      search t k (of_nat (h mod size t)) (h mod size t) = Some (int ((h + D) mod size t))"
  using search_run [OF assms(1-3) _ assms(4), of 0] search_eq [OF assms(1) inside [OF assms(4)]]
    ring_not_round [of D "size t" h] assms(2) by simp_all

end

section \<open>Growing\<close>

text \<open>Insertions of a list of pairs, one after the other.\<close>

fun insert_all :: "('t \<Rightarrow> 'k \<Rightarrow> 'v \<Rightarrow> 't option) \<Rightarrow> ('k \<times> 'v) list \<Rightarrow> 't \<Rightarrow> 't option" where
  "insert_all set_op [] t = Some t"
| "insert_all set_op ((k, v) # kvs) t = Option.bind (set_op t k v) (insert_all set_op kvs)"

text \<open>The number of occupied slots occ is at most the counter len.  A clean table takes every key
  that is compatible with its keys, and what makes keys compatible holds of subsets.\<close>

locale growing_table =
  fixes size :: "'t \<Rightarrow> nat" and len :: "'t \<Rightarrow> nat" and occ :: "'t \<Rightarrow> nat" and pairs :: "'t \<Rightarrow> ('k \<times> 'v) list"
    and wf :: "'t \<Rightarrow> bool" and clean :: "'t \<Rightarrow> bool" and fits :: "'t \<Rightarrow> 'k \<Rightarrow> bool" and compat :: "'k set \<Rightarrow> bool"
    and contents :: "'t \<Rightarrow> 'k \<rightharpoonup> 'v" and fresh :: "nat \<Rightarrow> 't" and place :: "'t \<Rightarrow> 'k \<Rightarrow> probe"
    and store :: "'t \<Rightarrow> nat \<Rightarrow> 'k \<Rightarrow> 'v \<Rightarrow> 't" and expand :: "nat \<Rightarrow> 't \<Rightarrow> 't option"
    and go :: "nat \<Rightarrow> bool \<Rightarrow> 't \<Rightarrow> 'k \<Rightarrow> 'v \<Rightarrow> 't option"
  assumes go_0: "go 0 e t k v = None"
    and go_Suc: "go (Suc n) e t k v =
      (if \<not> e \<and> len t + 1 \<ge> size t then Option.bind (expand n t) (\<lambda>t. go n True t k v)
       else if size t = 0 then None
       else (case place t k of
               Slot ind \<Rightarrow> Some (store t ind k v)
             | Expand \<Rightarrow> Option.bind (expand n t) (\<lambda>t. go n True t k v)
             | Outside \<Rightarrow> None))"
    and expand_eq: "wf t \<Longrightarrow> expand n t =
      (if size t * 4 < 2 ^ 31 then insert_all (go n False) (pairs t) (fresh (size t * 4)) else None)"
    and wf_sizes: "wf t \<Longrightarrow> length (pairs t) \<le> occ t \<and> occ t \<le> len t \<and> occ t < size t \<and> size t < 2 ^ 31"
    and wf_pairs: "wf t \<Longrightarrow> distinct (map fst (pairs t)) \<and> contents t = map_of (pairs t)"
    and wf_compat: "wf t \<Longrightarrow> compat (dom (contents t))"
    and compat_subset: "compat A \<Longrightarrow> B \<subseteq> A \<Longrightarrow> compat B"
    and clean_fits: "wf t \<Longrightarrow> clean t \<Longrightarrow> compat (insert k (dom (contents t))) \<Longrightarrow> fits t k"
    and fits_compat: "wf t \<Longrightarrow> fits t k \<Longrightarrow> compat (insert k (dom (contents t)))"
    and fresh_wf: "0 < n \<Longrightarrow> n < 2 ^ 31 \<Longrightarrow> wf (fresh n) \<and> clean (fresh n) \<and> size (fresh n) = n
      \<and> len (fresh n) = 0 \<and> occ (fresh n) = 0 \<and> contents (fresh n) = (\<lambda>_. None)"
    and store_wf: "wf t \<Longrightarrow> fits t k \<Longrightarrow> occ t + 1 < size t \<Longrightarrow> place t k = Slot j \<Longrightarrow>
      wf (store t j k v) \<and> (clean t \<longrightarrow> clean (store t j k v)) \<and> size (store t j k v) = size t
      \<and> len (store t j k v) = len t + 1 \<and> occ (store t j k v) \<le> occ t + 1
      \<and> contents (store t j k v) = (contents t)(k \<mapsto> v)"
    and place_slot: "wf t \<Longrightarrow> fits t k \<Longrightarrow> occ t \<le> 10 \<Longrightarrow> \<exists>j. place t k = Slot j"
begin

text \<open>What a set is to do, whichever way it took.\<close>

definition sets :: "'t \<Rightarrow> 'k \<Rightarrow> 'v \<Rightarrow> 't \<Rightarrow> bool" where
  "sets t k v t' \<longleftrightarrow> wf t' \<and> contents t' = (contents t)(k \<mapsto> v) \<and> size t \<le> size t'
     \<and> occ t' \<le> occ t + 1 \<and> (clean t \<longrightarrow> clean t')"

definition good :: "('t \<Rightarrow> 'k \<Rightarrow> 'v \<Rightarrow> 't option) \<Rightarrow> bool" where
  "good f \<longleftrightarrow> (\<forall>t k v t'. wf t \<longrightarrow> fits t k \<longrightarrow> f t k v = Some t' \<longrightarrow> sets t k v t')"

lemma goodD: "good f \<Longrightarrow> wf t \<Longrightarrow> fits t k \<Longrightarrow> f t k v = Some t' \<Longrightarrow> sets t k v t'"
  by (simp add: good_def)

text \<open>Inserting compatible keys into a clean table.\<close>

lemma insert_all_sets:
  assumes "good f"
  shows "wf t \<Longrightarrow> clean t \<Longrightarrow> compat (dom (contents t) \<union> fst ` set kvs) \<Longrightarrow> insert_all f kvs t = Some t' \<Longrightarrow>
    wf t' \<and> clean t' \<and> contents t' = contents t ++ map_of (rev kvs) \<and> size t \<le> size t'
    \<and> occ t' \<le> occ t + length kvs"
proof (induction kvs arbitrary: t)
  case (Cons kv kvs)
  obtain k v where kv: "kv = (k, v)" by (cases kv)
  with Cons.prems(4) obtain u where u: "f t k v = Some u" "insert_all f kvs u = Some t'"
    by (auto split: Option.bind_splits)
  have "compat (insert k (dom (contents t)))"
    by (rule compat_subset [OF Cons.prems(3)]) (auto simp: kv)
  then have s: "sets t k v u" using goodD [OF assms Cons.prems(1) clean_fits [OF Cons.prems(1,2)] u(1)] by blast
  then have "dom (contents u) \<union> fst ` set kvs = dom (contents t) \<union> fst ` set (kv # kvs)"
    by (auto simp: sets_def kv)
  then have c: "compat (dom (contents u) \<union> fst ` set kvs)" using Cons.prems(3) by (simp only:)
  then have "wf t' \<and> clean t' \<and> contents t' = contents u ++ map_of (rev kvs) \<and> size u \<le> size t'
      \<and> occ t' \<le> occ u + length kvs"
    using s Cons.prems(2) u(2) by (intro Cons.IH [OF _ _ c]) (simp_all add: sets_def)
  then show ?case using s by (auto simp: sets_def kv)
qed simp

lemma pairs_compat: "wf t \<Longrightarrow> compat (fst ` set (pairs t))"
  using wf_compat [of t] wf_pairs [of t] by (simp add: dom_map_of_conv_image_fst)

lemma expand_sets:
  assumes "good (go n False)" "wf t" "expand n t = Some t'"
  shows "wf t' \<and> clean t' \<and> contents t' = contents t \<and> size t * 4 \<le> size t' \<and> occ t' \<le> occ t \<and> occ t' + 1 < size t'"
proof -
  have small: "size t * 4 < 2 ^ 31" and ins: "insert_all (go n False) (pairs t) (fresh (size t * 4)) = Some t'"
    using assms(3) unfolding expand_eq [OF assms(2)] by (simp_all split: if_splits)
  note sizes = wf_sizes [OF assms(2)]
  have fresh: "wf (fresh (size t * 4))" "clean (fresh (size t * 4))" "size (fresh (size t * 4)) = size t * 4"
    "occ (fresh (size t * 4)) = 0" "contents (fresh (size t * 4)) = (\<lambda>_. None)"
    using fresh_wf [of "size t * 4"] small sizes by simp_all
  have "wf t' \<and> clean t' \<and> contents t' = map_of (rev (pairs t)) \<and> size t * 4 \<le> size t' \<and> occ t' \<le> length (pairs t)"
    using insert_all_sets [OF assms(1) fresh(1,2) _ ins] pairs_compat [OF assms(2)] fresh by simp
  moreover have "map_of (rev (pairs t)) = map_of (pairs t)"
    using wf_pairs [OF assms(2)] by (intro map_of_eqI) (auto simp: rev_map [symmetric])
  ultimately show ?thesis using wf_pairs [OF assms(2)] sizes by simp
qed

text \<open>A set, at any fuel, that returns has set the key.\<close>

lemma go_sets:
  "wf t \<Longrightarrow> fits t k \<Longrightarrow> (e \<Longrightarrow> occ t + 1 < size t) \<Longrightarrow> go n e t k v = Some t' \<Longrightarrow> sets t k v t'"
proof (induction n arbitrary: e t k v t')
  case 0
  then show ?case by (simp add: go_0)
next
  case (Suc n)
  have grown: "sets t k v t'" if grow: "Option.bind (expand n t) (\<lambda>t. go n True t k v) = Some t'"
  proof -
    obtain m where m: "expand n t = Some m" "go n True m k v = Some t'"
      using grow by (auto split: Option.bind_splits)
    have "good (go n False)" unfolding good_def using Suc.IH [where e = False] by simp
    note em = expand_sets [OF this Suc.prems(1) m(1)]
    then have "fits m k" using clean_fits [of m k] fits_compat [OF Suc.prems(1,2)] by simp
    then have "sets m k v t'" using em m(2) by (intro Suc.IH) simp_all
    then show ?thesis using em Suc.prems(1) by (auto simp: sets_def)
  qed
  show ?case
  proof (cases "\<not> e \<and> len t + 1 \<ge> size t")
    case True
    then show ?thesis using Suc.prems(4) by (intro grown) (simp add: go_Suc)
  next
    case False
    then have room: "occ t + 1 < size t" using Suc.prems(3) wf_sizes [OF Suc.prems(1)] by (cases e) simp_all
    show ?thesis
    proof (cases "place t k")
      case (Slot j)
      then have "t' = store t j k v" using Suc.prems(4) False room by (auto simp: go_Suc)
      then show ?thesis using store_wf [OF Suc.prems(1,2) room Slot] by (simp add: sets_def)
    next
      case Expand
      then show ?thesis using Suc.prems(4) False room by (intro grown) (simp add: go_Suc del: not_le split: if_splits)
    next
      case Outside
      then show ?thesis using Suc.prems(4) False room by (simp add: go_Suc split: if_splits)
    qed
  qed
qed

lemma go_good: "good (go n False)"
  unfolding good_def using go_sets [where e = False] by simp

text \<open>A size that cannot grow n times has fuel enough with n.\<close>

lemma insert_all_cong:
  assumes "good f" and eq: "\<And>t k v. wf t \<Longrightarrow> fits t k \<Longrightarrow> s \<le> size t \<Longrightarrow> f t k v = g t k v"
  shows "wf t \<Longrightarrow> clean t \<Longrightarrow> compat (dom (contents t) \<union> fst ` set kvs) \<Longrightarrow> s \<le> size t \<Longrightarrow>
    insert_all f kvs t = insert_all g kvs t"
proof (induction kvs arbitrary: t)
  case (Cons kv kvs)
  obtain k v where kv: "kv = (k, v)" by (cases kv)
  have "compat (insert k (dom (contents t)))"
    by (rule compat_subset [OF Cons.prems(3)]) (auto simp: kv)
  then have fits: "fits t k" by (rule clean_fits [OF Cons.prems(1,2)])
  have "insert_all f kvs u = insert_all g kvs u" if "f t k v = Some u" for u
  proof -
    have s: "sets t k v u" using goodD [OF assms(1) Cons.prems(1) fits that] .
    then have "dom (contents u) \<union> fst ` set kvs = dom (contents t) \<union> fst ` set (kv # kvs)"
      by (auto simp: sets_def kv)
    then have c: "compat (dom (contents u) \<union> fst ` set kvs)" using Cons.prems(3) by (simp only:)
    then show ?thesis using s Cons.prems(2,4) by (intro Cons.IH [OF _ _ c]) (simp_all add: sets_def)
  qed
  then show ?case using eq [OF Cons.prems(1) fits Cons.prems(4)] by (simp add: kv cong: Option.bind_cong)
qed simp

lemma go_fuel:
  "wf t \<Longrightarrow> fits t k \<Longrightarrow> 2 ^ 31 \<le> size t * 4 ^ n \<Longrightarrow> go (n + i) e t k v = go n e t k v"
proof (induction n arbitrary: e t k v)
  case 0
  then show ?case using wf_sizes [of t] by simp
next
  case (Suc n)
  have more: "2 ^ 31 \<le> size r * 4 ^ n" if "size t * 4 \<le> size r" for r
  proof -
    have "2 ^ 31 \<le> size t * 4 * 4 ^ n" using Suc.prems(3) by simp
    also have "\<dots> \<le> size r * 4 ^ n" using that by (rule mult_le_mono1)
    finally show ?thesis .
  qed
  have exp: "expand (n + i) t = expand n t"
  proof (cases "size t * 4 < 2 ^ 31")
    case True
    then have fresh: "wf (fresh (size t * 4))" "clean (fresh (size t * 4))" "size (fresh (size t * 4)) = size t * 4"
      "contents (fresh (size t * 4)) = (\<lambda>_. None)"
      using fresh_wf [of "size t * 4"] wf_sizes [OF Suc.prems(1)] by simp_all
    have "go (n + i) False r l w = go n False r l w" if "wf r" "fits r l" "size t * 4 \<le> size r" for r l w
      using that more by (intro Suc.IH) simp_all
    then have "insert_all (go (n + i) False) (pairs t) (fresh (size t * 4)) = insert_all (go n False) (pairs t) (fresh (size t * 4))"
      using fresh pairs_compat [OF Suc.prems(1)]
      by (intro insert_all_cong [OF go_good, where s = "size t * 4"]) simp_all
    then show ?thesis by (simp add: expand_eq [OF Suc.prems(1)])
  qed (simp add: expand_eq [OF Suc.prems(1)])
  have "go (n + i) True m k v = go n True m k v" if "expand n t = Some m" for m
  proof -
    note em = expand_sets [OF go_good Suc.prems(1) that]
    then have "fits m k" using clean_fits [of m k] fits_compat [OF Suc.prems(1,2)] by simp
    then show ?thesis using em more by (intro Suc.IH) simp_all
  qed
  then have "Option.bind (expand (n + i) t) (\<lambda>t. go (n + i) True t k v) = Option.bind (expand n t) (\<lambda>t. go n True t k v)"
    unfolding exp by (intro Option.bind_cong) simp_all
  then show ?case by (simp only: add_Suc go_Suc)
qed

text \<open>With at most ten occupied slots and room to grow, a set succeeds.\<close>

lemma go_direct:
  assumes "wf t" "fits t k" "occ t \<le> 10" "e \<or> len t + 1 < size t"
  obtains j where "place t k = Slot j" and "go (Suc n) e t k v = Some (store t j k v)"
  using place_slot [OF assms(1-3)] assms(4) wf_sizes [OF assms(1)] that by (auto simp: go_Suc)

lemma insert_all_defined:
  assumes "wf t" "clean t" "compat (dom (contents t) \<union> fst ` set kvs)" "occ t + length kvs \<le> 10"
    and "len t + length kvs < size t"
  shows "\<exists>t'. insert_all (go (Suc n) False) kvs t = Some t'"
  using assms
proof (induction kvs arbitrary: t)
  case (Cons kv kvs)
  obtain k v where kv: "kv = (k, v)" by (cases kv)
  have "compat (insert k (dom (contents t)))"
    by (rule compat_subset [OF Cons.prems(3)]) (auto simp: kv)
  then have fits: "fits t k" by (rule clean_fits [OF Cons.prems(1,2)])
  have room: "occ t + 1 < size t" using Cons.prems(5) wf_sizes [OF Cons.prems(1)] by simp
  obtain j where j: "place t k = Slot j" "go (Suc n) False t k v = Some (store t j k v)"
    using go_direct [OF Cons.prems(1) fits, of False n v] Cons.prems(4,5) by auto
  note s = store_wf [OF Cons.prems(1) fits room j(1), of v]
  then have "dom (contents (store t j k v)) \<union> fst ` set kvs = dom (contents t) \<union> fst ` set (kv # kvs)"
    by (auto simp: kv)
  then have c: "compat (dom (contents (store t j k v)) \<union> fst ` set kvs)" using Cons.prems(3) by (simp only:)
  then have "\<exists>t'. insert_all (go (Suc n) False) kvs (store t j k v) = Some t'"
    using s Cons.prems(2,4,5) by (intro Cons.IH [OF _ _ c]) simp_all
  then show ?case using j(2) kv by simp
qed simp

lemma go_succeeds:
  assumes "wf t" "fits t k" "occ t \<le> 10" "size t * 4 < 2 ^ 31"
  shows "\<exists>t'. go (Suc (Suc n)) False t k v = Some t'"
proof (cases "len t + 1 < size t")
  case True
  then show ?thesis using go_direct [OF assms(1-3), of False "Suc n" v] by blast
next
  case False
  note sizes = wf_sizes [OF assms(1)]
  have fresh: "wf (fresh (size t * 4))" "clean (fresh (size t * 4))" "size (fresh (size t * 4)) = size t * 4"
    "occ (fresh (size t * 4)) = 0" "len (fresh (size t * 4)) = 0" "contents (fresh (size t * 4)) = (\<lambda>_. None)"
    using fresh_wf [of "size t * 4"] assms(4) sizes by simp_all
  then obtain m where "insert_all (go (Suc n) False) (pairs t) (fresh (size t * 4)) = Some m"
    using insert_all_defined [of "fresh (size t * 4)" "pairs t" n] pairs_compat [OF assms(1)] assms(3) sizes by auto
  then have m: "expand (Suc n) t = Some m" using assms(4) by (simp add: expand_eq [OF assms(1)])
  note em = expand_sets [OF go_good assms(1) m]
  then have "fits m k" using clean_fits [of m k] fits_compat [OF assms(1,2)] by simp
  then obtain j where "go (Suc n) True m k v = Some (store m j k v)"
    using go_direct [of m k True n v] em assms(3) by auto
  moreover have "go (Suc (Suc n)) False t k v = Option.bind (expand (Suc n) t) (\<lambda>t. go (Suc n) True t k v)"
    using False by (simp add: go_Suc [of "Suc n"])
  ultimately show ?thesis using m by simp
qed

end

end
