(* ===== verification/LArray.thy ===== *)
theory LArray
  imports GrowingTable "HOL-Library.Monad_Syntax"
begin

text \<open>
  \<open>src/src/types/larray.c\<close>: the map from 64-bit indices to pointers that the server keeps route
  parameters in and thread.c its locks.  Slots are probed linearly, at most twelve of them, before
  the table grows by the factor 4.  The counter len grows with every insertion, also of a key that
  is there.  The size is an int, so growing ends at 2^31; the number of nested growths is the fuel,
  and 16 is always enough (\<open>larray_fuel\<close>).
\<close>

section \<open>Model\<close>

record 'v larray_item =
  li_idx :: u64
  li_value :: 'v
  li_used :: bool

text \<open>An item that calloc made and nobody has set is None.\<close>

record 'v larray =
  la_arr :: "'v larray_item option list"
  la_len :: nat
  la_size :: nat

definition item_used :: "'v larray_item option \<Rightarrow> bool" where
  "item_used it = (case it of None \<Rightarrow> False | Some i \<Rightarrow> li_used i)"

definition item_is :: "u64 \<Rightarrow> 'v larray_item option \<Rightarrow> bool" where
  "item_is idx it = (case it of None \<Rightarrow> idx = 0 | Some i \<Rightarrow> li_idx i = idx)"

definition larray_initl :: "nat \<Rightarrow> 'v larray" where
  "larray_initl len = \<lparr>la_arr = replicate len None, la_len = 0, la_size = len\<rparr>"

definition larray_init :: "'v larray" where
  "larray_init = larray_initl 4"

text \<open>The probing loop of larray_set: the slot to write, or None where the code jumps to expand.\<close>

fun larray_probe :: "nat \<Rightarrow> 'v larray \<Rightarrow> u64 \<Rightarrow> nat \<Rightarrow> nat \<Rightarrow> probe" where
  "larray_probe left l idx oind ind =
     (case c_load (la_arr l) ind of
        None \<Rightarrow> Outside
      | Some it \<Rightarrow>
        (if item_used it \<and> \<not> item_is idx it then
           (let ind = ind + 1; ind = (if ind \<ge> la_size l then 0 else ind)
            in case left of 0 \<Rightarrow> Expand
               | Suc left \<Rightarrow> (if ind = oind then Expand else larray_probe left l idx oind ind))
         else Slot ind))"

declare larray_probe.simps [simp del]

definition larray_store :: "'v larray \<Rightarrow> nat \<Rightarrow> u64 \<Rightarrow> 'v \<Rightarrow> 'v larray" where
  "larray_store l ind idx value = l\<lparr>la_arr := (la_arr l)[ind := Some \<lparr>li_idx = idx, li_value = value, li_used = True\<rparr>],
     la_len := la_len l + 1\<rparr>"

text \<open>larray_expand sets every used item in a table of the fourfold size.\<close>

fun expand_items ::
  "('v larray \<Rightarrow> u64 \<Rightarrow> 'v \<Rightarrow> ('v larray \<times> nat) option) \<Rightarrow> 'v larray_item option list \<Rightarrow> 'v larray
     \<Rightarrow> 'v larray option" where
  "expand_items set_item [] remade = Some remade"
| "expand_items set_item (it # items) remade =
     (case it of
        Some i \<Rightarrow> (if li_used i then do {
            (remade, ind) \<leftarrow> set_item remade (li_idx i) (li_value i);
            expand_items set_item items remade
          } else expand_items set_item items remade)
      | None \<Rightarrow> expand_items set_item items remade)"

definition larray_expand ::
  "('v larray \<Rightarrow> u64 \<Rightarrow> 'v \<Rightarrow> ('v larray \<times> nat) option) \<Rightarrow> 'v larray \<Rightarrow> 'v larray option" where
  "larray_expand set_item l =
     (if la_size l * 4 < 2 ^ 31 then expand_items set_item (la_arr l) (larray_initl (la_size l * 4)) else None)"

text \<open>larray_set with the number of nested growths as fuel; expanded is the state behind the label
  expand, where the length is not checked again.\<close>

fun larray_go :: "nat \<Rightarrow> bool \<Rightarrow> 'v larray \<Rightarrow> u64 \<Rightarrow> 'v \<Rightarrow> ('v larray \<times> nat) option" where
  "larray_go 0 expanded l idx value = None"
| "larray_go (Suc n) expanded l idx value = (
     if \<not> expanded \<and> la_len l + 1 \<ge> la_size l
     then do { l \<leftarrow> larray_expand (larray_go n False) l; larray_go n True l idx value }
     else if la_size l = 0 then None
     else (let oind = unat idx mod la_size l
           in case larray_probe 11 l idx oind oind of
                Slot ind \<Rightarrow> Some (larray_store l ind idx value, ind)
              | Expand \<Rightarrow> do { l \<leftarrow> larray_expand (larray_go n False) l; larray_go n True l idx value }
              | Outside \<Rightarrow> None))"

definition larray_set :: "'v larray \<Rightarrow> u64 \<Rightarrow> 'v \<Rightarrow> ('v larray \<times> nat) option" where
  "larray_set l idx value = larray_go 16 False l idx value"

partial_function (option) geti_loop :: "'v larray \<Rightarrow> u64 \<Rightarrow> u64 \<Rightarrow> nat \<Rightarrow> int option" where
  "geti_loop l idx initial ind =
     (if of_nat ind \<noteq> initial - 1 then
        Option.bind (c_load (la_arr l) ind) (\<lambda>it.
        if \<not> item_used it then Some (-1)
        else if item_is idx it then Some (int ind)
        else let ind = ind + 1 in geti_loop l idx initial (if ind \<ge> la_size l then 0 else ind))
      else Some (-1))"

definition larray_geti :: "'v larray \<Rightarrow> u64 \<Rightarrow> int option" where
  "larray_geti l idx =
     (if la_size l = 0 then None
      else let ind = unat idx mod la_size l in geti_loop l idx (of_nat ind) ind)"

text \<open>NULL is None inside.\<close>

definition larray_get :: "'v larray \<Rightarrow> u64 \<Rightarrow> 'v option option" where
  "larray_get l idx = do {
     r \<leftarrow> larray_geti l idx;
     if r = -1 then Some None
     else do { it \<leftarrow> c_load (la_arr l) (nat r); Some (map_option li_value it) }
   }"

section \<open>Slots\<close>

definition item_slots :: "'v larray_item option list \<Rightarrow> (u64, 'v) slots" where
  "item_slots items = map (\<lambda>it. case it of Some i \<Rightarrow> if li_used i then Some (li_idx i, li_value i) else None
     | None \<Rightarrow> None) items"

definition larray_wf :: "'v larray \<Rightarrow> bool" where
  "larray_wf l \<longleftrightarrow> la_size l = length (la_arr l) \<and> la_size l < 2 ^ 31 \<and> oa_wf unat (item_slots (la_arr l))
     \<and> length (oa_pairs (item_slots (la_arr l))) \<le> la_len l"

definition larray_map :: "'v larray \<Rightarrow> u64 \<rightharpoonup> 'v" where
  "larray_map l = oa_map (item_slots (la_arr l))"

lemma length_slots [simp]: "length (item_slots items) = length items"
  by (simp add: item_slots_def)

lemma nth_slots: "j < length items \<Longrightarrow> item_slots items ! j =
   (case items ! j of Some i \<Rightarrow> if li_used i then Some (li_idx i, li_value i) else None | None \<Rightarrow> None)"
  by (simp add: item_slots_def)

lemma slot_used: "j < length items \<Longrightarrow> item_used (items ! j) \<longleftrightarrow> item_slots items ! j \<noteq> None"
  by (simp add: nth_slots item_used_def split: option.split)

lemma slot_other:
  "j < length items \<Longrightarrow> item_used (items ! j) \<and> \<not> item_is idx (items ! j)
     \<longleftrightarrow> (\<exists>k v. item_slots items ! j = Some (k, v) \<and> k \<noteq> idx)"
  by (auto simp: nth_slots item_used_def item_is_def split: option.split)

lemma slots_store: "item_slots (la_arr (larray_store l ind idx v)) = (item_slots (la_arr l))[ind := Some (idx, v)]"
  by (simp add: larray_store_def item_slots_def map_update)

lemma slot_inside: "d < length items \<Longrightarrow> oa_pos H (item_slots items) k e < length items"
  unfolding oa_pos_def length_slots by (rule mod_less_divisor) linarith

lemma oa_passed_0: "oa_passed H ss k 0"
  by (simp add: oa_passed_def)

text \<open>The loops are those of a ring of slots.\<close>

definition larray_ok :: "'v larray \<Rightarrow> u64 \<Rightarrow> bool" where
  "larray_ok l idx \<longleftrightarrow> la_size l = length (la_arr l)"

definition larray_other :: "'v larray \<Rightarrow> u64 \<Rightarrow> nat \<Rightarrow> bool" where
  "larray_other l idx ind \<longleftrightarrow> item_used (la_arr l ! ind) \<and> \<not> item_is idx (la_arr l ! ind)"

definition larray_look :: "'v larray \<Rightarrow> u64 \<Rightarrow> nat \<Rightarrow> seen" where
  "larray_look l idx ind = (if \<not> item_used (la_arr l ! ind) then Free
     else if item_is idx (la_arr l ! ind) then Here else Other)"

interpretation larray_ring: ring_table la_size larray_ok larray_other larray_look larray_probe geti_loop
proof
  fix ind left oind and t :: "'a larray" and k
  assume "larray_ok t k" "ind < la_size t"
  then show "larray_probe left t k oind ind =
      (if larray_other t k ind
       then (case left of 0 \<Rightarrow> Expand
             | Suc left \<Rightarrow> (if ring_next (la_size t) ind = oind then Expand
                 else larray_probe left t k oind (ring_next (la_size t) ind)))
       else Slot ind)"
    by (subst larray_probe.simps) (simp add: larray_ok_def larray_other_def c_mem ring_next_def Let_def split: nat.split)
next
  fix ind initial and t :: "'a larray" and k
  assume "larray_ok t k" "ind < la_size t"
  then show "geti_loop t k initial ind =
      (if of_nat ind \<noteq> initial - 1
       then (case larray_look t k ind of
               Free \<Rightarrow> Some (-1)
             | Here \<Rightarrow> Some (int ind)
             | Other \<Rightarrow> geti_loop t k initial (ring_next (la_size t) ind))
       else Some (-1))"
    by (subst geti_loop.simps) (simp add: larray_ok_def larray_look_def c_mem ring_next_def Let_def)
qed

lemma larray_pos: "larray_ok l idx \<Longrightarrow> (unat idx + d) mod la_size l = oa_pos unat (item_slots (la_arr l)) idx d"
  by (simp add: oa_pos_def larray_ok_def)

lemma larray_way:
  assumes "larray_ok l idx" "0 < la_size l"
  shows "larray_ring.way l idx (unat idx) d \<longleftrightarrow> oa_passed unat (item_slots (la_arr l)) idx d"
proof -
  have "larray_other l idx ((unat idx + e) mod la_size l)
      \<longleftrightarrow> (\<exists>k v. item_slots (la_arr l) ! oa_pos unat (item_slots (la_arr l)) idx e = Some (k, v) \<and> k \<noteq> idx)" for e
    unfolding larray_pos [OF assms(1)] larray_other_def
    by (rule slot_other, rule slot_inside [of 0]) (use assms in \<open>simp add: larray_ok_def\<close>)
  then show ?thesis by (simp add: larray_ring.way_def oa_passed_def)
qed

text \<open>The probe ends on a slot that is free or has the key, behind slots of other keys.\<close>

lemma larray_probe_Slot:
  assumes "larray_ok l idx" "0 < la_size l"
    and "larray_probe left l idx (unat idx mod la_size l) (unat idx mod la_size l) = Slot j"
  obtains d where "d < length (la_arr l)" "j = oa_pos unat (item_slots (la_arr l)) idx d"
    "oa_passed unat (item_slots (la_arr l)) idx d"
    "item_slots (la_arr l) ! j = None \<or> (\<exists>w. item_slots (la_arr l) ! j = Some (idx, w))"
proof -
  have start: "larray_probe left l idx (unat idx mod la_size l) ((unat idx + 0) mod la_size l) = Slot j"
    using assms(3) by simp
  from larray_ring.probe_slot [OF assms(1) start larray_ring.way_0 assms(2)]
  obtain d where d: "d < la_size l" "j = (unat idx + d) mod la_size l" "larray_ring.way l idx (unat idx) d"
    "\<not> larray_other l idx j" by blast
  have pos: "j = oa_pos unat (item_slots (la_arr l)) idx d" using d(2) larray_pos [OF assms(1)] by simp
  have "j < length (la_arr l)" unfolding pos
    by (rule slot_inside [of d]) (use d(1) assms(1) in \<open>simp add: larray_ok_def\<close>)
  from slot_other [OF this, of idx]
  have "\<not> (\<exists>k v. item_slots (la_arr l) ! j = Some (k, v) \<and> k \<noteq> idx)"
    using d(4) by (simp add: larray_other_def)
  then have "item_slots (la_arr l) ! j = None \<or> (\<exists>w. item_slots (la_arr l) ! j = Some (idx, w))"
    by (cases "item_slots (la_arr l) ! j") auto
  then show thesis using that pos d(1,3) larray_way [OF assms(1,2)] assms(1) by (simp add: larray_ok_def)
qed

section \<open>Setting and growing\<close>

abbreviation la_pairs :: "'v larray \<Rightarrow> (u64 \<times> 'v) list" where
  "la_pairs l \<equiv> oa_pairs (item_slots (la_arr l))"

lemma larray_initl_fresh:
  "0 < n \<Longrightarrow> n < 2 ^ 31 \<Longrightarrow> larray_wf (larray_initl n)" "larray_map (larray_initl n) = (\<lambda>_. None)"
  "la_pairs (larray_initl n) = []" "la_size (larray_initl n) = n" "la_len (larray_initl n) = 0"
  by (simp_all add: larray_wf_def larray_map_def larray_initl_def item_slots_def oa_wf_fresh oa_map_fresh)

lemma larray_place:
  assumes "larray_wf l" "length (la_pairs l) + 1 < la_size l"
    and "larray_probe 11 l idx (unat idx mod la_size l) (unat idx mod la_size l) = Slot j"
  shows "larray_wf (larray_store l j idx v) \<and> larray_map (larray_store l j idx v) = (larray_map l)(idx \<mapsto> v)
    \<and> length (la_pairs (larray_store l j idx v)) \<le> length (la_pairs l) + 1"
proof -
  let ?ss = "item_slots (la_arr l)"
  have size: "la_size l = length (la_arr l)" and wf: "oa_wf unat ?ss" and ok: "larray_ok l idx"
    using assms(1) by (simp_all add: larray_wf_def larray_ok_def)
  have "0 < la_size l" using assms(2) by linarith
  from larray_probe_Slot [OF ok this assms(3)] obtain d where d: "d < length (la_arr l)" "j = oa_pos unat ?ss idx d"
    "oa_passed unat ?ss idx d" "?ss ! j = None \<or> (\<exists>w. ?ss ! j = Some (idx, w))" by blast
  have slot: "?ss ! oa_pos unat ?ss idx d = None \<and> length (oa_pairs ?ss) + 1 < length ?ss
      \<or> (\<exists>w. ?ss ! oa_pos unat ?ss idx d = Some (idx, w))"
    using assms(2) d(2,4) size by auto
  note stored = oa_store [OF wf d(3) _ slot, of v, folded d(2)]
  have "length (oa_pairs (?ss[j := Some (idx, v)])) \<le> length (oa_pairs ?ss) + 1"
    using assms(2) d(2) size slot_inside [OF d(1), of unat idx d]
    by (intro oa_store_pairs(2) [OF _ wf]) (auto simp del: not_None_eq)
  then show ?thesis using stored d(1) assms(1)
    by (simp add: larray_wf_def larray_map_def slots_store) (simp add: larray_store_def)
qed

lemma larray_probe_place:
  assumes "larray_wf l" "length (la_pairs l) \<le> 10"
  shows "\<exists>j. larray_probe 11 l idx (unat idx mod la_size l) (unat idx mod la_size l) = Slot j"
proof -
  have size: "la_size l = length (la_arr l)" and wf: "oa_wf unat (item_slots (la_arr l))" and ok: "larray_ok l idx"
    using assms(1) by (simp_all add: larray_wf_def larray_ok_def)
  have less: "length (la_pairs l) < la_size l" using oa_wf_less [OF wf] by (simp add: size)
  then have pos: "0 < la_size l" by linarith
  have "d < la_size l \<and> d \<le> 10" if "larray_ring.way l idx (unat idx) d" "d \<le> la_size l" for d
  proof -
    have "oa_passed unat (item_slots (la_arr l)) idx d" using that(1) larray_way [OF ok pos] by simp
    then have "d \<le> length (la_pairs l)" using that(2) size by (intro oa_passed_count) simp_all
    then show ?thesis using assms(2) less by simp
  qed
  then have "larray_probe 11 l idx (unat idx mod la_size l) (unat idx mod la_size l) \<noteq> Expand"
    using larray_ring.probe_stays [OF ok, of "unat idx" 11 0] larray_ring.way_0 [of l idx "unat idx"] pos by simp
  moreover have "larray_probe 11 l idx (unat idx mod la_size l) (unat idx mod la_size l) \<noteq> Outside"
    using pos by (intro larray_ring.probe_inside [OF ok]) simp
  ultimately show ?thesis
    by (cases "larray_probe 11 l idx (unat idx mod la_size l) (unat idx mod la_size l)") simp_all
qed

lemma expand_items_pairs:
  "expand_items f items r = insert_all (\<lambda>t k v. map_option fst (f t k v)) (oa_pairs (item_slots items)) r"
proof (induction items arbitrary: r)
  case (Cons it items)
  show ?case
  proof (cases "item_used it")
    case False
    then show ?thesis using Cons.IH by (auto simp: item_used_def item_slots_def split: option.splits)
  next
    case True
    then obtain i where i: "it = Some i" "li_used i" by (auto simp: item_used_def split: option.splits)
    then show ?thesis using Cons.IH
      by (cases "f r (li_idx i) (li_value i)") (auto simp: item_slots_def)
  qed
qed (simp add: item_slots_def)

interpretation larray_grow: growing_table la_size la_len "\<lambda>l. length (la_pairs l)" la_pairs larray_wf "\<lambda>_. True"
  "\<lambda>_ _. True" "\<lambda>_. True" larray_map larray_initl
  "\<lambda>l idx. larray_probe 11 l idx (unat idx mod la_size l) (unat idx mod la_size l)" larray_store
  "\<lambda>n. larray_expand (larray_go n False)" "\<lambda>n e l idx v. map_option fst (larray_go n e l idx v)"
proof (unfold_locales, goal_cases)
  case (2 n e t k v)
  then show ?case by (auto simp: Let_def map_option_bind comp_def split: probe.split)
next
  case (3 t n)
  then show ?case by (simp add: larray_expand_def expand_items_pairs)
next
  case (4 t)
  then show ?case using oa_wf_less [of unat "item_slots (la_arr t)"] by (simp add: larray_wf_def)
next
  case (5 t)
  then show ?case using oa_pairs_distinct [of unat "item_slots (la_arr t)"] by (simp add: larray_wf_def larray_map_def oa_map_def)
next
  case (10 n)
  then show ?case using larray_initl_fresh [of n] by simp
next
  case (11 t k j v)
  then show ?case using larray_place [of t k j v] by (simp add: larray_store_def)
next
  case (12 t k)
  then show ?case using larray_probe_place by blast
qed simp_all

text \<open>The slot larray_set returns.\<close>

lemma larray_go_slot:
  "larray_go n e l idx v = Some (l', j) \<Longrightarrow>
   c_load (la_arr l') j = Some (Some \<lparr>li_idx = idx, li_value = v, li_used = True\<rparr>)"
proof (induction n arbitrary: e l)
  case (Suc n)
  have grown: ?case if "Option.bind (larray_expand (larray_go n False) l) (\<lambda>l. larray_go n True l idx v) = Some (l', j)"
    using that Suc.IH by (auto split: Option.bind_splits)
  have inside: "larray_probe left l idx oind ind = Slot i \<Longrightarrow> i < length (la_arr l)" for left oind ind i
    by (induction left arbitrary: ind)
      (subst (asm) larray_probe.simps, auto simp: c_load_def Let_def split: if_splits)+
  show ?case
    using Suc.prems grown inside
    by (auto simp: Let_def c_mem larray_store_def split: if_splits probe.splits)
qed simp

lemma larray_set_sets:
  assumes "larray_wf l" "larray_set l idx v = Some (l', j)"
  shows "larray_grow.sets l idx v l' \<and> c_load (la_arr l') j = Some (Some \<lparr>li_idx = idx, li_value = v, li_used = True\<rparr>)"
  using larray_grow.go_sets [where t = l and n = 16 and e = False and k = idx and v = v and t' = l'] larray_go_slot [of 16 False l idx v l' j] assms
  by (simp add: larray_set_def)

section \<open>Looking up\<close>

declare geti_loop.simps [code]

text \<open>For evaluation the bound is an int, whose numerals are binary.\<close>

lemma larray_expand_code [code]:
  "larray_expand set_item l =
     (if int (la_size l) * 4 < 2147483648 then expand_items set_item (la_arr l) (larray_initl (la_size l * 4)) else None)"
proof -
  have "la_size l * 4 < 2 ^ 31 \<longleftrightarrow> int (la_size l) * 4 < 2147483648" by simp
  then show ?thesis by (simp add: larray_expand_def)
qed

lemma larray_geti_ends:
  assumes "larray_wf l"
  shows "\<exists>r. larray_geti l idx = Some r \<and>
    (case larray_map l idx of None \<Rightarrow> r = -1
     | Some v \<Rightarrow> 0 \<le> r \<and> nat r < length (la_arr l) \<and> item_slots (la_arr l) ! nat r = Some (idx, v))"
proof -
  let ?ss = "item_slots (la_arr l)"
  have wf: "oa_wf unat ?ss" and size: "la_size l = length (la_arr l)" "la_size l < 2 ^ 31" and ok: "larray_ok l idx"
    using assms by (simp_all add: larray_wf_def larray_ok_def)
  have pos: "0 < la_size l" using oa_wf_less [OF wf] unfolding size(1) length_slots by linarith
  have start: "larray_geti l idx = geti_loop l idx (of_nat (unat idx mod la_size l)) (unat idx mod la_size l)"
    using pos by (simp add: larray_geti_def Let_def)
  have inside: "oa_pos unat ?ss idx D < length (la_arr l)" for D using pos size by (intro slot_inside [of 0]) simp
  have other: "\<forall>e < D. larray_look l idx ((unat idx + e) mod la_size l) = Other" if "oa_passed unat ?ss idx D" for D
    using that unfolding larray_way [OF ok pos, symmetric] larray_ring.way_def
    by (simp add: larray_look_def larray_other_def)
  from wf show ?thesis
  proof (cases rule: oa_search [where k = idx])
    case (found D v)
    have "larray_look l idx ((unat idx + D) mod la_size l) = Here"
      using found(4) slot_used [OF inside] slot_other [OF inside, of D idx] unfolding larray_pos [OF ok]
      by (auto simp: larray_look_def)
    then have "larray_geti l idx = Some (int (oa_pos unat ?ss idx D))"
      using larray_ring.search_ends(2) [OF ok size(2) other [OF found(3)]] found(2) size(1)
      by (simp add: start larray_pos [OF ok, unfolded size(1)])
    then show ?thesis using found inside by (simp add: larray_map_def)
  next
    case (free D)
    have "larray_look l idx ((unat idx + D) mod la_size l) = Free"
      using free(4) slot_used [OF inside] unfolding larray_pos [OF ok] by (simp add: larray_look_def)
    then have "larray_geti l idx = Some (-1)"
      using larray_ring.search_ends(1) [OF ok size(2) other [OF free(3)]] free(2) size(1) by (simp add: start)
    then show ?thesis using free(1) by (simp add: larray_map_def)
  qed
qed

lemma larray_get_map:
  assumes "larray_wf l"
  shows "larray_get l idx = Some (larray_map l idx)"
proof -
  obtain r where r: "larray_geti l idx = Some r"
    "case larray_map l idx of None \<Rightarrow> r = -1
     | Some v \<Rightarrow> 0 \<le> r \<and> nat r < length (la_arr l) \<and> item_slots (la_arr l) ! nat r = Some (idx, v)"
    using larray_geti_ends [OF assms] by blast
  show ?thesis
  proof (cases "larray_map l idx")
    case None
    then show ?thesis using r by (simp add: larray_get_def)
  next
    case (Some v)
    then have "0 \<le> r" "nat r < length (la_arr l)" "item_slots (la_arr l) ! nat r = Some (idx, v)" using r(2) by simp_all
    moreover from this have "map_option li_value (la_arr l ! nat r) = Some v"
      by (simp add: nth_slots split: option.splits if_splits)
    ultimately show ?thesis using r(1) Some by (simp add: larray_get_def c_mem)
  qed
qed

text \<open>An array is a store for keys of every value.\<close>

interpretation larray: keyed_store "\<lambda>l idx v. map_option fst (larray_set l idx v)" larray_get larray_wf
  "\<lambda>_ _. True" larray_map
  by unfold_locales (auto simp: larray_get_map larray_grow.sets_def dest: larray_set_sets)

section \<open>Properties\<close>

lemma larray_init_wf: "larray_wf larray_init" "larray_map larray_init = (\<lambda>_. None)"
  by (simp_all add: larray_init_def larray_initl_fresh)

text \<open>C29: The array refines a finite map from 64-bit indices: a new one is empty, a set that returns
  keeps the invariant, updates the map at its index alone and returns the slot of the item, and a
  lookup ends and returns the value of the map, NULL where there is none, so sets and lookups of
  any order behave like the map.\<close>
theorem larray_refines_map:
  assumes "larray_wf l"
  shows "larray_get l i = Some (larray_map l i)
    \<and> (larray_set l i v = Some (l', j) \<longrightarrow> larray_wf l' \<and> larray_map l' = (larray_map l)(i \<mapsto> v)
        \<and> c_load (la_arr l') j = Some (Some \<lparr>li_idx = i, li_value = v, li_used = True\<rparr>))
    \<and> (larray.set_all ivs l = Some l' \<longrightarrow>
        larray_wf l' \<and> (\<forall>k. larray_get l' k = Some ((larray_map l ++ map_of (rev ivs)) k)))
    \<and> larray_wf larray_init \<and> larray_map larray_init = (\<lambda>_. None)"
proof (intro conjI impI)
  assume all: "larray.set_all ivs l = Some l'"
  have "larray_wf l' \<and> larray_map l' = larray_map l ++ map_of (rev ivs)"
    by (rule larray.set_all_contents [OF _ assms all]) simp
  then show "larray_wf l'" "\<forall>k. larray_get l' k = Some ((larray_map l ++ map_of (rev ivs)) k)"
    by (simp_all add: larray_get_map)
qed (use larray_get_map [OF assms] larray_set_sets [OF assms] larray_init_wf in \<open>simp_all add: larray_grow.sets_def\<close>)

lemma larray_refines_map_witness:
  "\<exists>l'. larray.set_all [(1, ''a''), (5, ''b''), (1, ''c'')] larray_init = Some l'
     \<and> larray_get l' 1 = Some (Some ''c'') \<and> larray_get l' 5 = Some (Some ''b'') \<and> larray_get l' 2 = Some None"
proof -
  have "larray.set_all [(1, ''a''), (5, ''b''), (1, ''c'')] larray_init \<noteq> None"
    unfolding larray.set_all.simps by code_simp
  then obtain l' where l': "larray.set_all [(1, ''a''), (5, ''b''), (1, ''c'')] larray_init = Some l'" by blast
  have "larray_get l' k = Some ((larray_map larray_init ++ map_of (rev [(1, ''a''), (5, ''b''), (1, ''c'')])) k)" for k
    using larray_refines_map [OF larray_init_wf(1), where ivs = "[(1, ''a''), (5, ''b''), (1, ''c'')]" and l' = l'] l'
    by blast
  then show ?thesis using l' by (simp add: larray_init_wf)
qed

lemma larray_set_some:
  assumes "larray_wf l" "card (dom (larray_map l)) \<le> 10" "la_size l < 2 ^ 29"
  shows "larray_set l i v \<noteq> None"
proof -
  have "oa_wf unat (item_slots (la_arr l))" using assms(1) by (simp add: larray_wf_def)
  from distinct_card [OF oa_pairs_distinct [OF this]]
  have "length (la_pairs l) = card (dom (larray_map l))"
    by (simp add: larray_map_def oa_map_def dom_map_of_conv_image_fst)
  then show ?thesis
    using larray_grow.go_succeeds [OF assms(1), where k = i and n = 14 and v = v] assms(2,3) by (auto simp: larray_set_def)
qed

text \<open>C30: The nesting of growths in larray_set is bounded by the size of an int: 16 levels are enough,
  more change nothing in the table.  While the table holds at most ten keys and may still grow, a set
  succeeds.\<close>
theorem larray_set_ends:
  assumes "larray_wf l"
  shows "map_option fst (larray_go (16 + k) False l i v) = map_option fst (larray_set l i v)
    \<and> (card (dom (larray_map l)) \<le> 10 \<and> la_size l < 2 ^ 29 \<longrightarrow> larray_set l i v \<noteq> None)"
proof
  have "0 < la_size l" using assms by (auto simp: larray_wf_def dest: oa_wf_less)
  then show "map_option fst (larray_go (16 + k) False l i v) = map_option fst (larray_set l i v)"
    unfolding larray_set_def by (intro larray_grow.go_fuel assms) simp_all
  show "card (dom (larray_map l)) \<le> 10 \<and> la_size l < 2 ^ 29 \<longrightarrow> larray_set l i v \<noteq> None"
    using larray_set_some [OF assms] by blast
qed

lemma larray_set_ends_witness: "larray_set larray_init 7 ''x'' \<noteq> None"
  using larray_set_ends [OF larray_init_wf(1), of 0 7 "''x''"]
  by (simp add: larray_init_wf) (simp add: larray_init_def larray_initl_def)

end
