(* ===== verification/HashMap.thy ===== *)
theory HashMap
  imports GrowingTable StringHashes "HOL-Library.Monad_Syntax"
begin

text \<open>
  \<open>src/src/types/map.c\<close>: the map from C strings to pointers, hashed with FNV-1a (theory StringHashes),
  probed and grown like larray.c.  A removal leaves the slot with a freed key, a tombstone: searches
  pass it, insertions reuse it.  As long as different keys have different hashes and no key that is
  in the map is set while there are tombstones, the map refines a finite map.
\<close>

section \<open>Model\<close>

text \<open>A key is the bytes of its C string; None is the pointer to a freed one.  An element that calloc
  made and nobody has set is None, its key is NULL.\<close>

record 'v melem =
  me_value :: 'v
  me_key :: "u8 list option"
  me_hash :: u64
  me_used :: bool

record 'v hmap =
  mp_M :: "'v melem option list"
  mp_len :: nat
  mp_mod :: nat

definition map_hash :: "u8 list \<Rightarrow> u64" where
  "map_hash c = fnv_1 c v_a"

definition map_initl :: "nat \<Rightarrow> 'v hmap" where
  "map_initl len = \<lparr>mp_M = replicate len None, mp_len = 0, mp_mod = len\<rparr>"

definition map_init :: "'v hmap" where
  "map_init = map_initl 4"

text \<open>The condition of the probing loop; comparing with a freed key is undefined.\<close>

definition elem_differs :: "'v melem option \<Rightarrow> u8 list \<Rightarrow> u64 \<Rightarrow> bool option" where
  "elem_differs it key h =
     (case it of
        None \<Rightarrow> Some False
      | Some e \<Rightarrow>
        (if me_used e \<and> me_hash e \<noteq> h then map_option (\<lambda>k. k \<noteq> key) (me_key e) else Some False))"

fun map_probe :: "nat \<Rightarrow> 'v hmap \<Rightarrow> u8 list \<Rightarrow> u64 \<Rightarrow> nat \<Rightarrow> nat \<Rightarrow> probe" where
  "map_probe left M key h oind ind =
     (case Option.bind (c_load (mp_M M) ind) (\<lambda>it. elem_differs it key h) of
        None \<Rightarrow> Outside
      | Some differs \<Rightarrow>
        (if differs then
           (let ind = ind + 1; ind = (if ind \<ge> mp_mod M then 0 else ind)
            in case left of 0 \<Rightarrow> Expand
               | Suc left \<Rightarrow> (if ind = oind then Expand else map_probe left M key h oind ind))
         else Slot ind))"

declare map_probe.simps [simp del]

definition map_store :: "'v hmap \<Rightarrow> nat \<Rightarrow> u8 list \<Rightarrow> 'v \<Rightarrow> 'v hmap" where
  "map_store M ind key value = M\<lparr>mp_M := (mp_M M)[ind := Some \<lparr>me_value = value, me_key = Some key,
     me_hash = map_hash key, me_used = True\<rparr>], mp_len := mp_len M + 1\<rparr>"

fun expand_elems ::
  "('v hmap \<Rightarrow> u8 list \<Rightarrow> 'v \<Rightarrow> 'v hmap option) \<Rightarrow> 'v melem option list \<Rightarrow> 'v hmap \<Rightarrow> 'v hmap option" where
  "expand_elems set_elem [] remade = Some remade"
| "expand_elems set_elem (it # items) remade =
     (case it of
        Some e \<Rightarrow> (if me_used e then do {
            key \<leftarrow> me_key e;
            remade \<leftarrow> set_elem remade key (me_value e);
            expand_elems set_elem items remade
          } else expand_elems set_elem items remade)
      | None \<Rightarrow> expand_elems set_elem items remade)"

definition map_expand :: "('v hmap \<Rightarrow> u8 list \<Rightarrow> 'v \<Rightarrow> 'v hmap option) \<Rightarrow> 'v hmap \<Rightarrow> 'v hmap option" where
  "map_expand set_elem M =
     (if mp_mod M * 4 < 2 ^ 31 then expand_elems set_elem (mp_M M) (map_initl (mp_mod M * 4)) else None)"

text \<open>map_set, with the number of nested growths as fuel and the state behind the label expand.\<close>

fun map_go :: "nat \<Rightarrow> bool \<Rightarrow> 'v hmap \<Rightarrow> u8 list \<Rightarrow> 'v \<Rightarrow> 'v hmap option" where
  "map_go 0 expanded M key value = None"
| "map_go (Suc n) expanded M key value =
     (if \<not> expanded \<and> mp_len M + 1 \<ge> mp_mod M
      then do { M \<leftarrow> map_expand (map_go n False) M; map_go n True M key value }
      else if mp_mod M = 0 then None
      else (let h = map_hash key; ind = unat h mod mp_mod M
            in case map_probe 11 M key h ind ind of
                 Slot ind \<Rightarrow> Some (map_store M ind key value)
               | Expand \<Rightarrow> do { M \<leftarrow> map_expand (map_go n False) M; map_go n True M key value }
               | Outside \<Rightarrow> None))"

definition map_set :: "'v hmap \<Rightarrow> u8 list \<Rightarrow> 'v \<Rightarrow> 'v hmap option" where
  "map_set M key value = map_go 16 False M key value"

text \<open>What map_geti sees in a slot.\<close>

definition elem_look :: "'v melem option \<Rightarrow> u8 list \<Rightarrow> u64 \<Rightarrow> seen option" where
  "elem_look it key h =
     (case it of
        None \<Rightarrow> Some Free
      | Some e \<Rightarrow>
        (if me_hash e = h then map_option (\<lambda>k. if k = key then Here else Other) (me_key e) else Some Other))"

partial_function (option) map_geti_loop :: "'v hmap \<Rightarrow> u8 list \<Rightarrow> u64 \<Rightarrow> u64 \<Rightarrow> nat \<Rightarrow> int option" where
  "map_geti_loop M key h initial ind =
     (if of_nat ind \<noteq> initial - 1 then
        Option.bind (c_load (mp_M M) ind) (\<lambda>it.
        Option.bind (elem_look it key h) (\<lambda>r.
        case r of
          Free \<Rightarrow> Some (-1)
        | Here \<Rightarrow> Some (int ind)
        | Other \<Rightarrow> (let ind = ind + 1 in map_geti_loop M key h initial (if ind \<ge> mp_mod M then 0 else ind))))
      else Some (-1))"

declare map_geti_loop.simps [code]

definition map_geti :: "'v hmap \<Rightarrow> u8 list \<Rightarrow> int option" where
  "map_geti M key =
     (if mp_mod M = 0 then None
      else let h = map_hash key; ind = unat h mod mp_mod M in map_geti_loop M key h (of_nat ind) ind)"

text \<open>NULL is None inside.\<close>

definition map_get :: "'v hmap \<Rightarrow> u8 list \<Rightarrow> 'v option option" where
  "map_get M key = do {
     r \<leftarrow> map_geti M key;
     if r = -1 then Some None
     else do { it \<leftarrow> c_load (mp_M M) (nat r); Some (map_option me_value it) }
   }"

text \<open>The key is freed; the value goes to free_method, and its pointer stays.\<close>

definition map_remove :: "'v hmap \<Rightarrow> u8 list \<Rightarrow> 'v hmap option" where
  "map_remove M key = do {
     r \<leftarrow> map_geti M key;
     if r = -1 then Some M
     else do {
       it \<leftarrow> c_load (mp_M M) (nat r);
       e \<leftarrow> it;
       Some (M\<lparr>mp_M := (mp_M M)[nat r := Some (e\<lparr>me_used := False, me_hash := 0, me_key := None\<rparr>)]\<rparr>)
     }
   }"

section \<open>Slots\<close>

text \<open>A tombstone in slot j is the key Dead j, which hashes to j; no key of the map is equal to it.\<close>

datatype slot_key = Live "u8 list" | Dead nat

fun slot_hash :: "slot_key \<Rightarrow> nat" where
  "slot_hash (Live k) = unat (map_hash k)"
| "slot_hash (Dead j) = j"

definition elem_ok :: "'v melem option \<Rightarrow> bool" where
  "elem_ok it \<longleftrightarrow> (case it of None \<Rightarrow> True
     | Some e \<Rightarrow> (if me_used e then (case me_key e of None \<Rightarrow> False | Some k \<Rightarrow> me_hash e = map_hash k)
                 else me_key e = None \<and> me_hash e = 0))"

lemma elem_okE:
  assumes "elem_ok it"
  obtains (null) "it = None"
  | (live) e k where "it = Some e" "me_used e" "me_key e = Some k" "me_hash e = map_hash k"
  | (dead) e where "it = Some e" "\<not> me_used e" "me_key e = None" "me_hash e = 0"
  using assms by (auto simp: elem_ok_def split: option.splits if_splits)

definition elem_slot :: "nat \<Rightarrow> 'v melem option \<Rightarrow> (slot_key \<times> 'v) option" where
  "elem_slot j it = (case it of None \<Rightarrow> None
     | Some e \<Rightarrow> Some (case me_key e of None \<Rightarrow> Dead j | Some k \<Rightarrow> Live k, me_value e))"

definition map_slots :: "'v melem option list \<Rightarrow> (slot_key, 'v) slots" where
  "map_slots items = map (\<lambda>(j, it). elem_slot j it) (enumerate 0 items)"

abbreviation mp_slots :: "'v hmap \<Rightarrow> (slot_key, 'v) slots" where
  "mp_slots M \<equiv> map_slots (mp_M M)"

definition map_contents :: "'v hmap \<Rightarrow> u8 list \<rightharpoonup> 'v" where
  "map_contents M k = oa_map (mp_slots M) (Live k)"

text \<open>The pairs of the map, in the order of the slots.\<close>

definition live_pairs :: "'v melem option list \<Rightarrow> (u8 list \<times> 'v) list" where
  "live_pairs items = concat (map (\<lambda>it. case it of None \<Rightarrow> []
     | Some e \<Rightarrow> (case me_key e of None \<Rightarrow> [] | Some k \<Rightarrow> [(k, me_value e)])) items)"

definition hashes_differ :: "u8 list set \<Rightarrow> bool" where
  "hashes_differ K \<longleftrightarrow> inj_on map_hash K \<and> (\<forall>k\<in>K. map_hash k \<noteq> 0)"

definition map_wf :: "'v hmap \<Rightarrow> bool" where
  "map_wf M \<longleftrightarrow> mp_mod M = length (mp_M M) \<and> mp_mod M < 2 ^ 31 \<and> (\<forall>it\<in>set (mp_M M). elem_ok it)
     \<and> oa_wf slot_hash (mp_slots M) \<and> length (oa_pairs (mp_slots M)) \<le> mp_len M
     \<and> hashes_differ (dom (map_contents M))"

definition no_tombstones :: "'v hmap \<Rightarrow> bool" where
  "no_tombstones M \<longleftrightarrow> (\<forall>j v. Some (Dead j, v) \<notin> set (mp_slots M))"

definition map_fits :: "'v hmap \<Rightarrow> u8 list \<Rightarrow> bool" where
  "map_fits M k \<longleftrightarrow> hashes_differ (insert k (dom (map_contents M))) \<and> (map_contents M k = None \<or> no_tombstones M)"

lemma length_map_slots [simp]: "length (map_slots items) = length items"
  by (simp add: map_slots_def)

lemma nth_map_slots [simp]: "j < length items \<Longrightarrow> map_slots items ! j = elem_slot j (items ! j)"
  by (simp add: map_slots_def nth_enumerate_eq)

lemma map_slots_update: "j < length items \<Longrightarrow> map_slots (items[j := it]) = (map_slots items)[j := elem_slot j it]"
  by (intro nth_equalityI) (simp_all add: nth_list_update)

lemma map_slots_Dead: "j < length items \<Longrightarrow> map_slots items ! j = Some (Dead i, v) \<Longrightarrow> i = j"
  by (auto simp: elem_slot_def split: option.splits)

text \<open>The pairs are the live ones of the slots.\<close>

fun live_of :: "(slot_key \<times> 'v) list \<Rightarrow> (u8 list \<times> 'v) list" where
  "live_of [] = []"
| "live_of ((Live k, v) # ps) = (k, v) # live_of ps"
| "live_of ((Dead j, v) # ps) = live_of ps"

lemma live_pairs_of: "live_pairs items = live_of (oa_pairs (map (\<lambda>(j, it). elem_slot j it) (enumerate i items)))"
  by (induction items arbitrary: i) (auto simp: live_pairs_def elem_slot_def split: option.split)

lemma length_live_of: "length (live_of ps) \<le> length ps"
  by (induction ps rule: live_of.induct) simp_all

lemma live_of_keys: "k \<in> fst ` set (live_of ps) \<longleftrightarrow> Live k \<in> fst ` set ps"
  by (induction ps rule: live_of.induct) auto

lemma live_of_map:
  "distinct (map fst ps) \<Longrightarrow> distinct (map fst (live_of ps)) \<and> map_of (live_of ps) k = map_of ps (Live k)"
proof (induction ps rule: live_of.induct)
  case (2 l v ps)
  then show ?case using live_of_keys [of l ps] by simp
qed simp_all

section \<open>The loops\<close>

definition map_ok :: "'v hmap \<Rightarrow> u8 list \<Rightarrow> bool" where
  "map_ok M key \<longleftrightarrow> mp_mod M = length (mp_M M) \<and> (\<forall>it\<in>set (mp_M M). elem_ok it) \<and> map_hash key \<noteq> 0"

definition map_other :: "'v hmap \<Rightarrow> u8 list \<Rightarrow> nat \<Rightarrow> bool" where
  "map_other M key ind \<longleftrightarrow> the (elem_differs (mp_M M ! ind) key (map_hash key))"

definition map_look :: "'v hmap \<Rightarrow> u8 list \<Rightarrow> nat \<Rightarrow> seen" where
  "map_look M key ind = the (elem_look (mp_M M ! ind) key (map_hash key))"

lemma elem_defined:
  assumes "map_ok M key" "ind < mp_mod M"
  shows "Option.bind (c_load (mp_M M) ind) (\<lambda>it. elem_differs it key h) = Some (the (elem_differs (mp_M M ! ind) key h))"
    and "elem_look (mp_M M ! ind) key (map_hash key) = Some (map_look M key ind)"
proof -
  have "mp_M M ! ind \<in> set (mp_M M)" using assms by (simp add: map_ok_def)
  then have "elem_ok (mp_M M ! ind)" using assms(1) by (simp add: map_ok_def)
  then show "Option.bind (c_load (mp_M M) ind) (\<lambda>it. elem_differs it key h) = Some (the (elem_differs (mp_M M ! ind) key h))"
    and "elem_look (mp_M M ! ind) key (map_hash key) = Some (map_look M key ind)"
    using assms unfolding map_ok_def map_look_def
    by (cases rule: elem_okE; simp add: c_mem elem_differs_def elem_look_def)+
qed

interpretation map_ring: ring_table mp_mod map_ok map_other map_look
  "\<lambda>left M key. map_probe left M key (map_hash key)" "\<lambda>M key. map_geti_loop M key (map_hash key)"
proof
  fix ind left oind and t :: "'a hmap" and k
  assume a: "map_ok t k" "ind < mp_mod t"
  show "map_probe left t k (map_hash k) oind ind =
      (if map_other t k ind
       then (case left of 0 \<Rightarrow> Expand
             | Suc left \<Rightarrow> (if ring_next (mp_mod t) ind = oind then Expand
                 else map_probe left t k (map_hash k) oind (ring_next (mp_mod t) ind)))
       else Slot ind)"
    by (subst map_probe.simps) (simp add: elem_defined(1) [OF a] map_other_def ring_next_def Let_def split: nat.split)
next
  fix ind initial and t :: "'a hmap" and k
  assume a: "map_ok t k" "ind < mp_mod t"
  then have "c_load (mp_M t) ind = Some (mp_M t ! ind)" by (simp add: map_ok_def c_mem)
  then show "map_geti_loop t k (map_hash k) initial ind =
      (if of_nat ind \<noteq> initial - 1
       then (case map_look t k ind of
               Free \<Rightarrow> Some (-1)
             | Here \<Rightarrow> Some (int ind)
             | Other \<Rightarrow> map_geti_loop t k (map_hash k) initial (ring_next (mp_mod t) ind))
       else Some (-1))"
    by (subst map_geti_loop.simps) (simp add: elem_defined(2) [OF a] ring_next_def Let_def cong: seen.case_cong)
qed

text \<open>What the loops see, when the hashes of the keys differ.\<close>

lemma map_wf_sizes:
  assumes "map_wf M"
  shows "mp_mod M = length (mp_M M)" "0 < mp_mod M" "mp_mod M < 2 ^ 31" "oa_wf slot_hash (mp_slots M)"
    "length (oa_pairs (mp_slots M)) < mp_mod M" "length (oa_pairs (mp_slots M)) \<le> mp_len M"
proof -
  show "mp_mod M = length (mp_M M)" "mp_mod M < 2 ^ 31" "oa_wf slot_hash (mp_slots M)"
    "length (oa_pairs (mp_slots M)) \<le> mp_len M"
    using assms by (simp_all add: map_wf_def)
  then show "length (oa_pairs (mp_slots M)) < mp_mod M" using oa_wf_less [of slot_hash "mp_slots M"] by simp
  then show "0 < mp_mod M" by linarith
qed

lemma map_wf_ok: "map_wf M \<Longrightarrow> hashes_differ (insert key K) \<Longrightarrow> map_ok M key"
  by (simp add: map_wf_def map_ok_def hashes_differ_def)

lemma live_in_contents:
  assumes "map_wf M" "j < mp_mod M" "elem_slot j (mp_M M ! j) = Some (Live k, v)"
  shows "map_contents M k = Some v"
proof -
  have "mp_slots M ! j = Some (Live k, v)" using assms map_wf_sizes(1) [OF assms(1)] by simp
  then have "Some (Live k, v) \<in> set (mp_slots M)"
    using assms(2) map_wf_sizes(1) [OF assms(1)] by (metis length_map_slots nth_mem)
  then show ?thesis using oa_wf_keys [OF map_wf_sizes(4) [OF assms(1)]] by (simp add: map_contents_def)
qed

lemma map_sees:
  assumes "map_wf M" "hashes_differ (insert key (dom (map_contents M)))" "j < mp_mod M"
  shows "map_other M key j \<longleftrightarrow> (\<exists>k v. mp_slots M ! j = Some (Live k, v) \<and> k \<noteq> key)"
    and "map_look M key j = (case mp_slots M ! j of None \<Rightarrow> Free
      | Some (s, v) \<Rightarrow> if s = Live key then Here else Other)"
proof -
  have j: "j < length (mp_M M)" using assms(3) map_wf_sizes(1) [OF assms(1)] by simp
  then have ok: "elem_ok (mp_M M ! j)" using assms(1) by (simp add: map_wf_def)
  have differ: "map_hash k \<noteq> map_hash key" if "elem_slot j (mp_M M ! j) = Some (Live k, v)" "k \<noteq> key" for k v
    using assms(2) live_in_contents [OF assms(1,3) that(1)] that(2)
    unfolding hashes_differ_def inj_on_def by (metis domI insertCI)
  have nz: "map_hash key \<noteq> 0" using assms(2) by (simp add: hashes_differ_def)
  show "map_other M key j \<longleftrightarrow> (\<exists>k v. mp_slots M ! j = Some (Live k, v) \<and> k \<noteq> key)"
    using ok by (cases rule: elem_okE)
      (use j differ in \<open>auto simp: map_other_def elem_differs_def elem_slot_def\<close>)
  show "map_look M key j = (case mp_slots M ! j of None \<Rightarrow> Free
      | Some (s, v) \<Rightarrow> if s = Live key then Here else Other)"
    using ok by (cases rule: elem_okE)
      (use j differ nz in \<open>auto simp: map_look_def elem_look_def elem_slot_def\<close>)
qed

lemma map_pos: "map_wf M \<Longrightarrow> (unat (map_hash k) + d) mod mp_mod M = oa_pos slot_hash (mp_slots M) (Live k) d"
  by (simp add: oa_pos_def map_wf_sizes(1))

lemma map_inside: "map_wf M \<Longrightarrow> oa_pos slot_hash (mp_slots M) s d < mp_mod M"
  using oa_pos_less [OF oa_wf_nonempty] map_wf_sizes(1,4) by (metis length_map_slots)

lemma map_way:
  assumes "map_wf M" "hashes_differ (insert key (dom (map_contents M)))" "map_ring.way M key (unat (map_hash key)) d"
  shows "oa_passed slot_hash (mp_slots M) (Live key) d"
  unfolding oa_passed_def
proof (intro allI impI)
  fix e assume "e < d"
  then have "map_other M key (oa_pos slot_hash (mp_slots M) (Live key) e)"
    using assms(3) by (simp add: map_ring.way_def map_pos [OF assms(1)])
  then show "\<exists>k' v'. mp_slots M ! oa_pos slot_hash (mp_slots M) (Live key) e = Some (k', v') \<and> k' \<noteq> Live key"
    unfolding map_sees(1) [OF assms(1,2) map_inside [OF assms(1)]] by blast
qed

section \<open>Looking up\<close>

lemma map_geti_ends:
  assumes "map_wf M" "hashes_differ (insert key (dom (map_contents M)))"
  shows "\<exists>r. map_geti M key = Some r \<and>
    (case map_contents M key of None \<Rightarrow> r = -1
     | Some v \<Rightarrow> 0 \<le> r \<and> nat r < mp_mod M \<and> mp_slots M ! nat r = Some (Live key, v))"
proof -
  let ?ss = "mp_slots M" and ?h = "unat (map_hash key)"
  note sizes = map_wf_sizes [OF assms(1)] and ok = map_wf_ok [OF assms]
  have start: "map_geti M key = map_geti_loop M key (map_hash key) (of_nat (?h mod mp_mod M)) (?h mod mp_mod M)"
    using sizes(2) by (simp add: map_geti_def Let_def)
  have other: "\<forall>e < D. map_look M key ((?h + e) mod mp_mod M) = Other" if "oa_passed slot_hash ?ss (Live key) D" for D
  proof (intro allI impI)
    fix e assume "e < D"
    then have "\<exists>s v. ?ss ! oa_pos slot_hash ?ss (Live key) e = Some (s, v) \<and> s \<noteq> Live key"
      using that by (simp add: oa_passed_def)
    then obtain s v where "?ss ! oa_pos slot_hash ?ss (Live key) e = Some (s, v)" "s \<noteq> Live key" by blast
    then show "map_look M key ((?h + e) mod mp_mod M) = Other"
      unfolding map_pos [OF assms(1)] by (simp add: map_sees(2) [OF assms map_inside [OF assms(1)]])
  qed
  from sizes(4) show ?thesis
  proof (cases rule: oa_search [where k = "Live key"])
    case (found D v)
    have "map_look M key ((?h + D) mod mp_mod M) = Here"
      unfolding map_pos [OF assms(1)] by (simp add: map_sees(2) [OF assms map_inside [OF assms(1)]] found(4))
    then have "map_geti M key = Some (int (oa_pos slot_hash ?ss (Live key) D))"
      using map_ring.search_ends(2) [OF ok sizes(3) other [OF found(3)]] found(2) sizes(1)
      by (simp add: start map_pos [OF assms(1), unfolded sizes(1)])
    then show ?thesis using found map_inside [OF assms(1)] by (simp add: map_contents_def)
  next
    case (free D)
    have "map_look M key ((?h + D) mod mp_mod M) = Free"
      unfolding map_pos [OF assms(1)] by (simp add: map_sees(2) [OF assms map_inside [OF assms(1)]] free(4))
    then have "map_geti M key = Some (-1)"
      using map_ring.search_ends(1) [OF ok sizes(3) other [OF free(3)]] free(2) sizes(1) by (simp add: start)
    then show ?thesis using free(1) by (simp add: map_contents_def)
  qed
qed

lemma map_get_contents:
  assumes "map_wf M" "hashes_differ (insert key (dom (map_contents M)))"
  shows "map_get M key = Some (map_contents M key)"
proof -
  obtain r where r: "map_geti M key = Some r"
    "case map_contents M key of None \<Rightarrow> r = -1
     | Some v \<Rightarrow> 0 \<le> r \<and> nat r < mp_mod M \<and> mp_slots M ! nat r = Some (Live key, v)"
    using map_geti_ends [OF assms] by blast
  show ?thesis
  proof (cases "map_contents M key")
    case None
    then show ?thesis using r by (simp add: map_get_def)
  next
    case (Some v)
    then have "0 \<le> r" "nat r < length (mp_M M)" "mp_slots M ! nat r = Some (Live key, v)"
      using r(2) map_wf_sizes(1) [OF assms(1)] by simp_all
    moreover from this have "map_option me_value (mp_M M ! nat r) = Some v"
      by (simp add: elem_slot_def split: option.splits)
    ultimately show ?thesis using r(1) Some by (simp add: map_get_def c_mem)
  qed
qed

section \<open>Setting and removing\<close>

lemma map_wf_elems:
  assumes "map_wf M" "elem_ok it"
  shows "\<forall>e\<in>set ((mp_M M)[j := it]). elem_ok e"
  using assms set_update_subset_insert [of "mp_M M" j it] by (auto simp: map_wf_def)

lemma map_place:
  assumes "map_wf M" "map_fits M key" "length (oa_pairs (mp_slots M)) + 1 < mp_mod M"
    and "map_probe 11 M key (map_hash key) (unat (map_hash key) mod mp_mod M) (unat (map_hash key) mod mp_mod M) = Slot j"
  shows "map_wf (map_store M j key v) \<and> (no_tombstones M \<longrightarrow> no_tombstones (map_store M j key v))
    \<and> length (oa_pairs (mp_slots (map_store M j key v))) \<le> length (oa_pairs (mp_slots M)) + 1
    \<and> map_contents (map_store M j key v) = (map_contents M)(key \<mapsto> v)"
proof -
  let ?ss = "mp_slots M" and ?h = "unat (map_hash key)" and ?k = "Live key"
  let ?it = "Some \<lparr>me_value = v, me_key = Some key, me_hash = map_hash key, me_used = True\<rparr>"
  have differ: "hashes_differ (insert key (dom (map_contents M)))" using assms(2) by (simp add: map_fits_def)
  note sizes = map_wf_sizes [OF assms(1)] and ok = map_wf_ok [OF assms(1) differ]
  have start: "map_probe 11 M key (map_hash key) (?h mod mp_mod M) ((?h + 0) mod mp_mod M) = Slot j"
    using assms(4) by simp
  from map_ring.probe_slot [OF ok start map_ring.way_0 sizes(2)]
  obtain d where d: "d < mp_mod M" "j = (?h + d) mod mp_mod M" "map_ring.way M key ?h d" "\<not> map_other M key j"
    by blast
  have pos: "j = oa_pos slot_hash ?ss ?k d" using d(2) map_pos [OF assms(1)] by simp
  have j: "j < mp_mod M" unfolding pos by (rule map_inside [OF assms(1)])
  have passed: "oa_passed slot_hash ?ss ?k d" by (rule map_way [OF assms(1) differ d(3)])
  have dlen: "d < length ?ss" using d(1) sizes(1) by simp
  have slots: "mp_slots (map_store M j key v) = ?ss[j := Some (?k, v)]"
    using j sizes(1) by (simp add: map_store_def map_slots_update elem_slot_def)
  have pairs: "length (oa_pairs (?ss[j := Some (?k, v)])) \<le> length (oa_pairs ?ss) + 1"
    using j sizes(1,4) assms(3) by (intro oa_store_pairs(2)) (auto simp del: not_None_eq)
  have none: "\<nexists>k v. ?ss ! j = Some (Live k, v) \<and> k \<noteq> key" using d(4) map_sees(1) [OF assms(1) differ j] by blast
  have "oa_wf slot_hash (?ss[j := Some (?k, v)])
    \<and> (\<forall>k. oa_map (?ss[j := Some (?k, v)]) (Live k) = ((oa_map ?ss)(?k \<mapsto> v)) (Live k))"
  proof (cases "\<exists>i w. ?ss ! j = Some (Dead i, w)")
    case True
    then obtain i w where dead: "?ss ! j = Some (Dead i, w)" by blast
    then have "\<not> no_tombstones M" using j sizes(1) unfolding no_tombstones_def by (metis length_map_slots nth_mem)
    then have absent: "oa_map ?ss ?k = None" using assms(2) by (simp add: map_fits_def map_contents_def)
    have "oa_passed slot_hash ?ss ?k (d + 1)" using passed dead unfolding pos oa_passed_def by (auto simp: less_Suc_eq)
    then have "d + 1 < length ?ss" using oa_passed_count [of slot_hash ?ss ?k "d + 1"] assms(3) dlen sizes(1) by simp
    then show ?thesis
      using oa_replace [OF sizes(4) _ _ dead [unfolded pos] absent, of v] oa_passed_used [OF passed]
      unfolding pos by simp
  next
    case False
    then have slot: "?ss ! oa_pos slot_hash ?ss ?k d = None \<and> length (oa_pairs ?ss) + 1 < length ?ss
        \<or> (\<exists>w. ?ss ! oa_pos slot_hash ?ss ?k d = Some (?k, w))"
      using none assms(3) sizes(1) unfolding pos by (metis length_map_slots option.exhaust slot_key.exhaust surj_pair)
    show ?thesis using oa_store [OF sizes(4) passed dlen slot, of v] unfolding pos by simp
  qed
  then have wf: "oa_wf slot_hash (mp_slots (map_store M j key v))"
    and con: "map_contents (map_store M j key v) = (map_contents M)(key \<mapsto> v)"
    by (auto simp: slots map_contents_def fun_eq_iff)
  have "\<forall>it\<in>set (mp_M (map_store M j key v)). elem_ok it"
    using map_wf_elems [OF assms(1), of ?it j] by (simp add: map_store_def elem_ok_def)
  moreover have "length (oa_pairs (mp_slots (map_store M j key v))) \<le> mp_len (map_store M j key v)"
    using pairs sizes(6) by (simp add: slots) (simp add: map_store_def)
  ultimately have "map_wf (map_store M j key v)"
    using wf con differ sizes(1,3) unfolding map_wf_def by (simp add: map_store_def)
  moreover have "no_tombstones (map_store M j key v)" if "no_tombstones M"
    using that set_update_subset_insert [of ?ss j "Some (?k, v)"] unfolding no_tombstones_def slots by blast
  ultimately show ?thesis using con pairs by (simp add: slots)
qed

lemma map_probe_place:
  assumes "map_wf M" "map_fits M key" "length (oa_pairs (mp_slots M)) \<le> 10"
  shows "\<exists>j. map_probe 11 M key (map_hash key) (unat (map_hash key) mod mp_mod M) (unat (map_hash key) mod mp_mod M) = Slot j"
proof -
  let ?h = "unat (map_hash key)"
  have differ: "hashes_differ (insert key (dom (map_contents M)))" using assms(2) by (simp add: map_fits_def)
  note sizes = map_wf_sizes [OF assms(1)] and ok = map_wf_ok [OF assms(1) differ]
  have "d < mp_mod M \<and> d \<le> 10" if "map_ring.way M key ?h d" "d \<le> mp_mod M" for d
    using oa_passed_count [OF map_way [OF assms(1) differ that(1)]] that(2) assms(3) sizes(1,5) by simp
  then have "map_probe 11 M key (map_hash key) (?h mod mp_mod M) (?h mod mp_mod M) \<noteq> Expand"
    using map_ring.probe_stays [OF ok, of ?h 11 0] map_ring.way_0 [of M key ?h] sizes(2) by simp
  moreover have "map_probe 11 M key (map_hash key) (?h mod mp_mod M) (?h mod mp_mod M) \<noteq> Outside"
    using sizes(2) by (intro map_ring.probe_inside [OF ok]) simp
  ultimately show ?thesis
    by (cases "map_probe 11 M key (map_hash key) (?h mod mp_mod M) (?h mod mp_mod M)") simp_all
qed

lemma expand_elems_pairs:
  "\<forall>it\<in>set items. elem_ok it \<Longrightarrow> expand_elems f items r = insert_all f (live_pairs items) r"
proof (induction items arbitrary: r)
  case (Cons it items)
  have "elem_ok it" using Cons.prems by simp
  then show ?case
    by (cases rule: elem_okE) (use Cons in \<open>auto simp: live_pairs_def intro!: Option.bind_cong\<close>)
qed (simp add: live_pairs_def)

lemma map_initl_slots: "mp_slots (map_initl n) = replicate n None"
  by (intro nth_equalityI) (simp_all add: map_initl_def elem_slot_def)

lemma map_initl_contents: "map_contents (map_initl n) = (\<lambda>_. None)"
  by (intro ext) (simp add: map_contents_def map_initl_slots oa_map_fresh)

lemma map_initl_wf: "0 < n \<Longrightarrow> n < 2 ^ 31 \<Longrightarrow> map_wf (map_initl n)"
  unfolding map_wf_def map_initl_slots map_initl_contents
  by (simp add: oa_wf_fresh hashes_differ_def) (simp add: map_initl_def elem_ok_def)

lemma map_initl_clean: "no_tombstones (map_initl n)" "oa_pairs (mp_slots (map_initl n)) = []"
  by (simp_all add: map_initl_slots no_tombstones_def)

lemma live_contents:
  assumes "map_wf M"
  shows "distinct (map fst (live_pairs (mp_M M)))" "map_contents M = map_of (live_pairs (mp_M M))"
    "length (live_pairs (mp_M M)) \<le> length (oa_pairs (mp_slots M))"
proof -
  have live: "live_pairs (mp_M M) = live_of (oa_pairs (mp_slots M))"
    using live_pairs_of [of "mp_M M" 0] by (simp add: map_slots_def)
  have "distinct (map fst (oa_pairs (mp_slots M)))" by (rule oa_pairs_distinct [OF map_wf_sizes(4) [OF assms]])
  from live_of_map [OF this]
  show "distinct (map fst (live_pairs (mp_M M)))" "map_contents M = map_of (live_pairs (mp_M M))"
    "length (live_pairs (mp_M M)) \<le> length (oa_pairs (mp_slots M))"
    unfolding live by (auto simp: map_contents_def oa_map_def length_live_of fun_eq_iff)
qed

interpretation map_grow: growing_table mp_mod mp_len "\<lambda>M. length (oa_pairs (mp_slots M))" "\<lambda>M. live_pairs (mp_M M)"
  map_wf no_tombstones map_fits hashes_differ map_contents map_initl
  "\<lambda>M key. map_probe 11 M key (map_hash key) (unat (map_hash key) mod mp_mod M) (unat (map_hash key) mod mp_mod M)"
  map_store "\<lambda>n. map_expand (map_go n False)" map_go
proof (unfold_locales, goal_cases)
  case (2 n e t k v)
  then show ?case by (simp add: Let_def)
next
  case (3 t n)
  then show ?case using expand_elems_pairs [of "mp_M t" "map_go n False"] by (simp add: map_expand_def map_wf_def)
next
  case (4 t)
  then show ?case using map_wf_sizes [of t] live_contents [of t] by simp
next
  case (5 t)
  then show ?case using live_contents [of t] by simp
next
  case (6 t)
  then show ?case by (simp add: map_wf_def)
next
  case (7 A B)
  then show ?case unfolding hashes_differ_def using inj_on_subset by blast
next
  case (8 t k)
  then show ?case by (simp add: map_fits_def)
next
  case (9 t k)
  then show ?case by (simp add: map_fits_def)
next
  case (10 n)
  then show ?case
    by (simp add: map_initl_wf map_initl_contents map_initl_clean) (simp add: map_initl_def)
next
  case (11 t k j v)
  then show ?case using map_place [of t k j v] by (simp add: map_store_def)
next
  case (12 t k)
  then show ?case by (rule map_probe_place)
qed simp_all

lemma map_set_sets: "map_wf M \<Longrightarrow> map_fits M key \<Longrightarrow> map_set M key v = Some M' \<Longrightarrow> map_grow.sets M key v M'"
  unfolding map_set_def
  using map_grow.go_sets [where t = M and k = key and e = False and n = 16 and v = v and t' = M'] by simp

lemma map_remove_contents:
  assumes "map_wf M" "hashes_differ (insert key (dom (map_contents M)))"
  shows "\<exists>M'. map_remove M key = Some M' \<and> map_wf M' \<and> map_contents M' = (map_contents M)(key := None)"
proof (cases "map_contents M key")
  case None
  then have "map_geti M key = Some (-1)" using map_geti_ends [OF assms] by auto
  then show ?thesis using assms(1) None by (simp add: map_remove_def fun_upd_idem)
next
  case (Some v)
  obtain r where r: "map_geti M key = Some r" "nat r < mp_mod M" "mp_slots M ! nat r = Some (Live key, v)" "0 \<le> r"
    using map_geti_ends [OF assms] Some by auto
  let ?ss = "mp_slots M" and ?j = "nat r"
  note sizes = map_wf_sizes [OF assms(1)]
  have j: "?j < length (mp_M M)" using r(2) sizes(1) by simp
  obtain e where e: "mp_M M ! ?j = Some e" "me_value e = v"
    using r(3) j by (auto simp: elem_slot_def split: option.splits)
  let ?e = "e\<lparr>me_used := False, me_hash := 0, me_key := None\<rparr>"
  let ?M = "M\<lparr>mp_M := (mp_M M)[?j := Some ?e]\<rparr>"
  have run: "map_remove M key = Some ?M" using r e j by (simp add: map_remove_def c_mem)
  have slots: "mp_slots ?M = ?ss[?j := Some (Dead ?j, v)]"
    using j e by (simp add: map_slots_update elem_slot_def)
  have pos: "oa_pos slot_hash ?ss (Dead ?j) 0 = ?j" using j by (simp add: oa_pos_def)
  have two: "0 + 1 < length ?ss"
  proof -
    have "Some (Live key, v) \<in> set ?ss" using r(3) j by (metis length_map_slots nth_mem)
    then have "oa_pairs ?ss \<noteq> []" by (auto simp flip: set_oa_pairs)
    then have "0 < length (oa_pairs ?ss)" by blast
    then show ?thesis using sizes(1,5) unfolding length_map_slots by linarith
  qed
  have "Some (Dead ?j, w) \<notin> set ?ss" for w
  proof
    assume "Some (Dead ?j, w) \<in> set ?ss"
    then obtain i where "i < length (mp_M M)" "?ss ! i = Some (Dead ?j, w)" by (metis in_set_conv_nth length_map_slots)
    moreover from this have "?j = i" by (rule map_slots_Dead)
    ultimately show False using r(3) by simp
  qed
  then have absent: "oa_map ?ss (Dead ?j) = None" by (simp add: oa_map_None)
  have here: "?ss ! oa_pos slot_hash ?ss (Dead ?j) 0 = Some (Live key, v)" using r(3) by (simp only: pos)
  note replaced = oa_replace [OF sizes(4) two _ here absent, unfolded pos, of v]
  have con: "map_contents ?M = (map_contents M)(key := None)"
    using replaced(2) unfolding map_contents_def slots by (auto simp: fun_eq_iff)
  have "length (oa_pairs (?ss[?j := Some (Dead ?j, v)])) \<le> length (oa_pairs ?ss)"
    using oa_pairs_update [of ?j ?ss "(Dead ?j, v)"] oa_pairs_split [of ?j ?ss] j r(3) by simp
  moreover have "\<forall>it\<in>set (mp_M ?M). elem_ok it"
    using map_wf_elems [OF assms(1), of "Some ?e" ?j] by (simp add: elem_ok_def)
  moreover have "hashes_differ (dom (map_contents ?M))"
    using map_grow.compat_subset [OF assms(2), of "dom (map_contents ?M)"] by (auto simp: con)
  ultimately have "map_wf ?M"
    using replaced(1) sizes slots unfolding map_wf_def by simp
  then show ?thesis using run con by blast
qed

text \<open>A map is a store for keys whose hash is no other's, as long as no key is set again while there
  are tombstones.\<close>

interpretation hmap: keyed_store map_set map_get map_wf map_fits map_contents
proof
  fix s :: "'a hmap" and k
  assume "map_wf s" "map_fits s k"
  then show "map_get s k = Some (map_contents s k)" by (intro map_get_contents) (simp_all add: map_fits_def)
qed (auto simp: map_grow.sets_def dest: map_set_sets)

section \<open>Properties\<close>

text \<open>Single steps, for runs on concrete tables.\<close>

lemma map_set_direct:
  assumes "mp_len M + 1 < mp_mod M"
    and "map_probe 11 M key (map_hash key) (unat (map_hash key) mod mp_mod M) (unat (map_hash key) mod mp_mod M) = Slot j"
  shows "map_set M key v = Some (map_store M j key v)"
proof -
  have "(16 :: nat) = Suc 15" by simp
  then show ?thesis using assms unfolding map_set_def by (simp only: map_go.simps Let_def) simp
qed

lemma map_geti_loop_step:
  "of_nat ind \<noteq> initial - 1 \<Longrightarrow> c_load (mp_M M) ind = Some it \<Longrightarrow> elem_look it key h = Some r \<Longrightarrow>
   map_geti_loop M key h initial ind = (case r of
     Free \<Rightarrow> Some (-1)
   | Here \<Rightarrow> Some (int ind)
   | Other \<Rightarrow> (let ind = ind + 1 in map_geti_loop M key h initial (if ind \<ge> mp_mod M then 0 else ind)))"
  by (subst map_geti_loop.simps) (simp add: Let_def split: seen.split)


lemma map_init_wf: "map_wf map_init" "map_contents map_init = (\<lambda>_. None)" "no_tombstones map_init"
  unfolding map_init_def by (rule map_initl_wf map_initl_contents map_initl_clean(1); simp)+

text \<open>C32: For a key whose hash is neither 0 nor that of another key of the map, a lookup ends and returns
  the value of the map, and a removal takes the key out of it and leaves a well-formed map; a set,
  of a key that is not in the map or on a map without tombstones, adds the pair if it returns, and it
  does return while at most ten slots are occupied and the table may grow.\<close>
theorem map_refines:
  assumes "map_wf M" and "hashes_differ (insert k (dom (map_contents M)))"
  shows "map_get M k = Some (map_contents M k)
    \<and> (\<exists>M'. map_remove M k = Some M' \<and> map_wf M' \<and> map_contents M' = (map_contents M)(k := None))
    \<and> ((map_contents M k = None \<or> no_tombstones M) \<and> map_set M k v = Some M' \<longrightarrow>
        map_wf M' \<and> map_contents M' = (map_contents M)(k \<mapsto> v) \<and> (no_tombstones M \<longrightarrow> no_tombstones M'))
    \<and> ((map_contents M k = None \<or> no_tombstones M) \<and> length (oa_pairs (mp_slots M)) \<le> 10 \<and> mp_mod M < 2 ^ 29 \<longrightarrow>
        map_set M k v \<noteq> None)"
proof (intro conjI impI)
  show "map_get M k = Some (map_contents M k)" by (rule map_get_contents [OF assms])
  show "\<exists>M'. map_remove M k = Some M' \<and> map_wf M' \<and> map_contents M' = (map_contents M)(k := None)"
    by (rule map_remove_contents [OF assms])
next
  assume "(map_contents M k = None \<or> no_tombstones M) \<and> map_set M k v = Some M'"
  then have fits: "map_fits M k" and run: "map_set M k v = Some M'" using assms(2) by (simp_all add: map_fits_def)
  from map_set_sets [OF assms(1) fits run]
  show "map_wf M'" "map_contents M' = (map_contents M)(k \<mapsto> v)" "no_tombstones M \<Longrightarrow> no_tombstones M'"
    by (simp_all add: map_grow.sets_def)
next
  assume "(map_contents M k = None \<or> no_tombstones M) \<and> length (oa_pairs (mp_slots M)) \<le> 10 \<and> mp_mod M < 2 ^ 29"
  then show "map_set M k v \<noteq> None"
    using map_grow.go_succeeds [OF assms(1), where k = k and n = 14 and v = v] assms(2)
    by (auto simp: map_fits_def map_set_def)
qed

lemma map_refines_witness:
  "\<exists>M. map_set map_init (bytes ''abc'') ''v'' = Some M \<and> map_get M (bytes ''abc'') = Some (Some ''v'')
     \<and> (\<exists>M'. map_remove M (bytes ''abc'') = Some M' \<and> map_contents M' = (\<lambda>_. None))"
proof -
  let ?k = "bytes ''abc''"
  have nz: "map_hash ?k \<noteq> 0" by code_simp
  then have differ: "hashes_differ (insert ?k (dom (map_contents map_init)))" "hashes_differ {?k}"
    by (simp_all add: hashes_differ_def map_init_wf)
  have size: "oa_pairs (mp_slots (map_init :: string hmap)) = []" "mp_mod (map_init :: string hmap) = 4"
    unfolding map_init_def by (rule map_initl_clean(2), simp add: map_initl_def)
  have "map_set map_init ?k ''v'' \<noteq> None"
    using map_refines [OF map_init_wf(1) differ(1), of "''v''"] size
    by (simp add: map_init_wf)
  then obtain M where M: "map_set map_init ?k ''v'' = Some M" by blast
  then have wf: "map_wf M" "map_contents M = [?k \<mapsto> ''v'']"
    using map_refines [OF map_init_wf(1) differ(1), of "''v''" M] by (simp_all add: map_init_wf)
  have "hashes_differ (insert ?k (dom (map_contents M)))" using differ(2) by (simp add: wf(2))
  from map_refines [OF wf(1) this] show ?thesis using M wf(2) by auto
qed

text \<open>Setting a key again after another key was removed leaves the old element behind the new one:
  of two keys that collide in a table of four slots, the first is removed, the second set again and
  removed, and the lookup then returns the value it had first.\<close>
theorem map_set_over_tombstone:
  "do {
     M \<leftarrow> map_set map_init (bytes ''a'') ''u'';
     M \<leftarrow> map_set M (bytes ''e'') ''old'';
     M \<leftarrow> map_remove M (bytes ''a'');
     M \<leftarrow> map_set M (bytes ''e'') ''new'';
     r \<leftarrow> map_get M (bytes ''e'');
     M \<leftarrow> map_remove M (bytes ''e'');
     r' \<leftarrow> map_get M (bytes ''e'');
     Some (r, r')
   } = Some (Some ''new'', Some ''old'')"
proof -
  have h: "map_hash [97] = 12638187200555641996" "map_hash [101] = 12638182802509129152" by code_simp+
  have b: "bytes ''a'' = [97]" "bytes ''e'' = [101]" by code_simp+
  have u: "unat (12638187200555641996 :: u64) mod 4 = 0" "unat (12638182802509129152 :: u64) mod 4 = 0" by simp_all
  have four: "replicate 4 None = [None, None, None, None]" for x :: 'x by (simp add: numeral_eq_Suc)
  note run = b h u map_set_direct map_probe.simps [of 11] map_probe.simps [of 10] elem_differs_def c_load_def map_store_def
  define e where "e k v = Some \<lparr>me_value = v, me_key = Some k, me_hash = map_hash k, me_used = True\<rparr>" for k and v :: string
  define dead where "dead v = Some \<lparr>me_value = v, me_key = None, me_hash = 0, me_used = False\<rparr>" for v :: string
  have s1: "map_set map_init [97] ''u'' = Some \<lparr>mp_M = [e [97] ''u'', None, None, None], mp_len = 1, mp_mod = 4\<rparr>"
    by (simp add: map_init_def map_initl_def four run e_def)
  have s2: "map_set \<lparr>mp_M = [e [97] ''u'', None, None, None], mp_len = 1, mp_mod = 4\<rparr> [101] ''old''
      = Some \<lparr>mp_M = [e [97] ''u'', e [101] ''old'', None, None], mp_len = 2, mp_mod = 4\<rparr>"
    by (simp add: run e_def)
  have s3: "map_remove \<lparr>mp_M = [e [97] ''u'', e [101] ''old'', None, None], mp_len = 2, mp_mod = 4\<rparr> [97]
      = Some \<lparr>mp_M = [dead ''u'', e [101] ''old'', None, None], mp_len = 2, mp_mod = 4\<rparr>"
    by (simp add: run e_def dead_def map_remove_def map_geti_def map_geti_loop_step elem_look_def)
  have s4: "map_set \<lparr>mp_M = [dead ''u'', e [101] ''old'', None, None], mp_len = 2, mp_mod = 4\<rparr> [101] ''new''
      = Some \<lparr>mp_M = [e [101] ''new'', e [101] ''old'', None, None], mp_len = 3, mp_mod = 4\<rparr>"
    by (simp add: run e_def dead_def)
  have s5: "map_get \<lparr>mp_M = [e [101] ''new'', e [101] ''old'', None, None], mp_len = 3, mp_mod = 4\<rparr> [101] = Some (Some ''new'')"
    by (simp add: run e_def map_get_def map_geti_def map_geti_loop_step elem_look_def)
  have s6: "map_remove \<lparr>mp_M = [e [101] ''new'', e [101] ''old'', None, None], mp_len = 3, mp_mod = 4\<rparr> [101]
      = Some \<lparr>mp_M = [dead ''new'', e [101] ''old'', None, None], mp_len = 3, mp_mod = 4\<rparr>"
    by (simp add: run e_def dead_def map_remove_def map_geti_def map_geti_loop_step elem_look_def)
  have s7: "map_get \<lparr>mp_M = [dead ''new'', e [101] ''old'', None, None], mp_len = 3, mp_mod = 4\<rparr> [101] = Some (Some ''old'')"
    by (simp add: run e_def dead_def map_get_def map_geti_def map_geti_loop_step elem_look_def)
  show ?thesis by (simp only: b s1 s2 s3 s4 s5 s6 s7 Option.bind.bind_lunit)
qed

end
