(* ===== verification/StrBuf.thy ===== *)
theory StrBuf
  imports Prelude "HOL-Library.Monad_Syntax"
begin

text \<open>
  \<open>src/src/types/str.c\<close>: the growing string buffer of the server and the JSON code.  The bytes of a
  block fresh from malloc or realloc are None until they are written, so reading one is an error of
  the model like an access outside the block.  A well-formed buffer refines the list of its bytes;
  the locale \<open>byte_sink\<close> is what the callers that only append rely on.
\<close>

section \<open>Model\<close>

record str =
  s_len :: nat
  s_bytes :: nat
  s_c :: "u8 option list"

definition alloc_buffer :: nat where
  "alloc_buffer = 64"

text \<open>memcpy and memmove of n bytes, strlen, strcat and realloc on such blocks.\<close>

definition mem_copy :: "u8 option list \<Rightarrow> nat \<Rightarrow> u8 option list \<Rightarrow> nat \<Rightarrow> u8 option list option" where
  "mem_copy dst at src n =
     (if n \<le> length src \<and> at + n \<le> length dst \<and> None \<notin> set (take n src)
      then Some (take at dst @ take n src @ drop (at + n) dst) else None)"

fun mem_strlen :: "u8 option list \<Rightarrow> nat option" where
  "mem_strlen [] = None"
| "mem_strlen (None # bs) = None"
| "mem_strlen (Some b # bs) = (if b = 0 then Some 0 else map_option Suc (mem_strlen bs))"

definition mem_strcat :: "u8 option list \<Rightarrow> u8 list \<Rightarrow> u8 option list option" where
  "mem_strcat dst src = Option.bind (mem_strlen dst) (\<lambda>n. mem_copy dst n (map Some (src @ [0])) (length src + 1))"

definition mem_realloc :: "'a option list \<Rightarrow> nat \<Rightarrow> 'a option list" where
  "mem_realloc c n = take n c @ replicate (n - length c) None"

text \<open>str_initl copies len + 1 bytes of init, str_initfl len bytes and a terminator.  A string init
  is given without its terminator to str_init and str_push, so it has no zero byte.\<close>

definition str_initl :: "u8 list \<Rightarrow> nat \<Rightarrow> str option" where
  "str_initl init len = do {
     let bytes = len + 1 + alloc_buffer;
     c \<leftarrow> mem_copy (replicate bytes None) 0 (map Some init) (len + 1);
     Some \<lparr>s_len = len, s_bytes = bytes, s_c = c\<rparr>
   }"

definition str_initfl :: "u8 list \<Rightarrow> nat \<Rightarrow> str option" where
  "str_initfl init len = do {
     let bytes = len + 1 + alloc_buffer;
     c \<leftarrow> mem_copy (replicate bytes None) 0 (map Some init) len;
     c \<leftarrow> c_store c len (Some 0);
     Some \<lparr>s_len = len, s_bytes = bytes, s_c = c\<rparr>
   }"

definition str_init :: "u8 list \<Rightarrow> str option" where
  "str_init init = str_initl (init @ [0]) (length init)"

definition str_push :: "str \<Rightarrow> u8 list \<Rightarrow> str option" where
  "str_push s ins = do {
     let s = s\<lparr>s_len := s_len s + length ins\<rparr>;
     let s = (if s_len s + 1 \<ge> s_bytes s
       then (let n = s_len s + 1 + alloc_buffer in s\<lparr>s_bytes := n, s_c := mem_realloc (s_c s) n\<rparr>)
       else s);
     c \<leftarrow> mem_strcat (s_c s) ins;
     Some (s\<lparr>s_c := c\<rparr>)
   }"

fun store_bytes :: "u8 option list \<Rightarrow> nat \<Rightarrow> u8 list \<Rightarrow> u8 option list option" where
  "store_bytes c at [] = Some c"
| "store_bytes c at (b # bs) = Option.bind (c_store c at (Some b)) (\<lambda>c. store_bytes c (at + 1) bs)"

definition str_pushl :: "str \<Rightarrow> u8 list \<Rightarrow> nat \<Rightarrow> str option" where
  "str_pushl s ins l = do {
     let s = (if s_len s + l \<ge> s_bytes s
       then (let n = s_len s + l + alloc_buffer in s\<lparr>s_bytes := n, s_c := mem_realloc (s_c s) n\<rparr>)
       else s);
     c \<leftarrow> (if l \<le> length ins then store_bytes (s_c s) (s_len s) (take l ins) else None);
     let s = s\<lparr>s_len := s_len s + l\<rparr>;
     c \<leftarrow> c_store c (s_len s) (Some 0);
     Some (s\<lparr>s_c := c\<rparr>)
   }"

definition str_clear :: "str \<Rightarrow> str option" where
  "str_clear s = do {
     c \<leftarrow> c_memset (s_c s) 0 (Some 0) (s_len s);
     Some (s\<lparr>s_c := c, s_len := 0\<rparr>)
   }"

text \<open>The length is a size_t, so taking off more than there is wraps.\<close>

definition size_sub :: "nat \<Rightarrow> int \<Rightarrow> nat" where
  "size_sub n k = nat ((int n - k) mod 2 ^ 64)"

definition str_popf :: "str \<Rightarrow> int \<Rightarrow> str option" where
  "str_popf s len =
     (if len < 0 then None
      else do {
        let s = s\<lparr>s_len := size_sub (s_len s) len\<rparr>;
        c \<leftarrow> mem_copy (s_c s) 0 (drop (nat len) (s_c s)) (s_len s);
        c \<leftarrow> c_store c (s_len s) (Some 0);
        Some (s\<lparr>s_c := c\<rparr>)
      })"

definition str_popb :: "str \<Rightarrow> int \<Rightarrow> str option" where
  "str_popb s len = do {
     let s = s\<lparr>s_len := size_sub (s_len s) len\<rparr>;
     let s = s\<lparr>s_len := (if s_len s > 0 then s_len s else 0)\<rparr>;
     c \<leftarrow> c_store (s_c s) (s_len s) (Some 0);
     Some (s\<lparr>s_c := c\<rparr>)
   }"

section \<open>Well-formed buffers\<close>

definition str_wf :: "str \<Rightarrow> bool" where
  "str_wf s \<longleftrightarrow> length (s_c s) = s_bytes s \<and> s_len s < s_bytes s
     \<and> None \<notin> set (take (s_len s) (s_c s)) \<and> s_c s ! s_len s = Some 0"

definition str_text :: "str \<Rightarrow> u8 list" where
  "str_text s = map the (take (s_len s) (s_c s))"

lemma the_map: "None \<notin> set xs \<Longrightarrow> map Some (map the xs) = xs"
  by (induction xs) auto

text \<open>A well-formed buffer is its text, the terminator, and bytes nobody looks at.\<close>

lemma str_wf_shape:
  "str_wf s \<longleftrightarrow> (\<exists>rest. s_c s = map Some (str_text s) @ Some 0 # rest
     \<and> s_len s = length (str_text s) \<and> s_bytes s = length (s_c s))"
proof
  assume wf: "str_wf s"
  then have len: "s_len s < length (s_c s)" by (simp add: str_wf_def)
  have "s_c s = take (s_len s) (s_c s) @ s_c s ! s_len s # drop (Suc (s_len s)) (s_c s)"
    by (rule id_take_nth_drop [OF len])
  moreover have "map Some (str_text s) = take (s_len s) (s_c s)"
    using wf the_map unfolding str_text_def str_wf_def by blast
  ultimately have "s_c s = map Some (str_text s) @ Some 0 # drop (Suc (s_len s)) (s_c s)"
    using wf by (simp add: str_wf_def)
  moreover have "s_len s = length (str_text s)" using len by (simp add: str_text_def)
  ultimately show "\<exists>rest. s_c s = map Some (str_text s) @ Some 0 # rest
     \<and> s_len s = length (str_text s) \<and> s_bytes s = length (s_c s)"
    using wf unfolding str_wf_def by metis
next
  assume "\<exists>rest. s_c s = map Some (str_text s) @ Some 0 # rest
     \<and> s_len s = length (str_text s) \<and> s_bytes s = length (s_c s)"
  then obtain rest where r: "s_c s = map Some (str_text s) @ Some 0 # rest"
    "s_len s = length (str_text s)" "s_bytes s = length (s_c s)" by blast
  have "take (s_len s) (s_c s) = map Some (str_text s)" "s_len s < length (s_c s)"
    by (subst r(1), simp add: r(2))+
  moreover have "s_c s ! s_len s = Some 0" unfolding r(2) by (subst r(1)) (simp add: nth_append)
  ultimately show "str_wf s" using r(3) unfolding str_wf_def by auto
qed

lemma str_wf_build:
  assumes "s_c s = map Some xs @ Some 0 # rest" "s_len s = length xs" "s_bytes s = length (s_c s)"
  shows "str_wf s \<and> str_text s = xs"
proof -
  have "str_text s = xs" using assms(1,2) by (simp add: str_text_def o_def)
  then show ?thesis unfolding str_wf_shape using assms by metis
qed

lemma str_wfE:
  assumes "str_wf s"
  obtains rest where "s_c s = map Some (str_text s) @ Some 0 # rest" and "s_len s = length (str_text s)"
    and "s_bytes s = length (s_c s)"
  using assms unfolding str_wf_shape by blast

lemma mem_copy_Some:
  "n = length xs \<Longrightarrow> at + n \<le> length dst \<Longrightarrow>
   mem_copy dst at (map Some xs @ ys) n = Some (take at dst @ map Some xs @ drop (at + n) dst)"
  by (auto simp: mem_copy_def)

lemma mem_strlen_text: "0 \<notin> set xs \<Longrightarrow> mem_strlen (map Some xs @ Some 0 # ys) = Some (length xs)"
  by (induction xs) auto

lemma store_bytes_Some:
  "at + length bs \<le> length c \<Longrightarrow> store_bytes c at bs = Some (take at c @ map Some bs @ drop (at + length bs) c)"
proof (induction bs arbitrary: c at)
  case (Cons b bs)
  have at: "at < length c" using Cons.prems by simp
  have "take (at + 1) (c[at := Some b]) = take at c @ [Some b]"
    using at by (simp add: take_Suc_conv_app_nth)
  moreover have "drop (at + 1 + length bs) (c[at := Some b]) = drop (at + length (b # bs)) c"
    by simp
  ultimately show ?case using Cons.IH [of "at + 1" "c[at := Some b]"] Cons.prems at by (simp add: c_mem)
qed simp

lemma str_initl_text:
  assumes "len < length init" "init ! len = 0"
  shows "\<exists>s. str_initl init len = Some s \<and> str_wf s \<and> str_text s = take len init"
proof -
  have init: "map Some init = map Some (take (len + 1) init) @ map Some (drop (len + 1) init)"
    by (metis append_take_drop_id map_append)
  have "mem_copy (replicate (len + 1 + alloc_buffer) None) 0 (map Some init) (len + 1)
      = Some (map Some (take (len + 1) init) @ replicate alloc_buffer None)"
    unfolding init using assms(1) by (subst mem_copy_Some) simp_all
  moreover have "take (len + 1) init = take len init @ [0]"
    using assms by (simp add: take_Suc_conv_app_nth)
  ultimately show ?thesis
    using str_wf_build [of "\<lparr>s_len = len, s_bytes = len + 1 + alloc_buffer,
        s_c = map Some (take len init) @ Some 0 # replicate alloc_buffer None\<rparr>" "take len init"] assms(1)
    by (simp add: str_initl_def)
qed

lemma str_initfl_text:
  assumes "len \<le> length init"
  shows "\<exists>s. str_initfl init len = Some s \<and> str_wf s \<and> str_text s = take len init"
proof -
  have init: "map Some init = map Some (take len init) @ map Some (drop len init)"
    by (metis append_take_drop_id map_append)
  have "mem_copy (replicate (len + 1 + alloc_buffer) None) 0 (map Some init) len
      = Some (map Some (take len init) @ replicate (Suc alloc_buffer) None)"
    unfolding init using assms by (subst mem_copy_Some) (simp_all add: drop_replicate del: replicate_Suc)
  then show ?thesis
    using str_wf_build [of "\<lparr>s_len = len, s_bytes = len + 1 + alloc_buffer,
        s_c = map Some (take len init) @ Some 0 # replicate alloc_buffer None\<rparr>" "take len init"] assms
    by (simp add: str_initfl_def c_mem list_update_append)
qed

lemma str_init_text: "\<exists>s. str_init init = Some s \<and> str_wf s \<and> str_text s = init"
  using str_initl_text [of "length init" "init @ [0]"] by (simp add: str_init_def nth_append)

lemma grow_shape:
  assumes "c = map Some xs @ Some 0 # rest" "length xs < n"
  shows "\<exists>rest'. mem_realloc c n = map Some xs @ Some 0 # rest' \<and> length (mem_realloc c n) = n"
proof -
  have "take n c = map Some xs @ Some 0 # take (n - Suc (length xs)) rest"
    using assms by (simp add: take_Cons')
  then show ?thesis using assms by (simp add: mem_realloc_def)
qed

lemma str_push_text:
  assumes "str_wf s" "0 \<notin> set (str_text s)"
  shows "\<exists>s'. str_push s ins = Some s' \<and> str_wf s' \<and> str_text s' = str_text s @ ins"
proof -
  obtain rest where r: "s_c s = map Some (str_text s) @ Some 0 # rest" "s_len s = length (str_text s)"
    "s_bytes s = length (s_c s)" by (rule str_wfE [OF assms(1)])
  let ?len = "s_len s + length ins"
  define n where "n = (if ?len + 1 \<ge> s_bytes s then ?len + 1 + alloc_buffer else s_bytes s)"
  define c where "c = (if ?len + 1 \<ge> s_bytes s then mem_realloc (s_c s) n else s_c s)"
  have n: "?len + 1 < n" by (simp add: n_def alloc_buffer_def)
  obtain rest' where c: "c = map Some (str_text s) @ Some 0 # rest'" "length c = n"
    using grow_shape [OF r(1), of n] r n unfolding c_def by (cases "?len + 1 \<ge> s_bytes s") (auto simp: n_def)
  have "mem_strcat c ins = Some (map Some (str_text s) @ map Some (ins @ [0]) @ drop (?len + 1) c)"
    using mem_copy_Some [of "length ins + 1" "ins @ [0]" "length (str_text s)" c "[]"] n c
    by (simp add: mem_strcat_def mem_strlen_text [OF assms(2)] r(2) add.assoc)
  moreover have "s\<lparr>s_len := ?len, s_bytes := n, s_c := c'\<rparr> = s\<lparr>s_len := ?len, s_c := c'\<rparr>" if "n = s_bytes s" for c'
    using that by simp
  ultimately have "str_push s ins = Some (s\<lparr>s_len := ?len, s_bytes := n,
      s_c := map Some (str_text s @ ins) @ Some 0 # drop (?len + 1) c\<rparr>)"
    unfolding str_push_def c_def n_def by (cases "?len + 1 \<ge> s_bytes s") (simp_all add: Let_def)
  then show ?thesis
    using str_wf_build [of "s\<lparr>s_len := ?len, s_bytes := n, s_c := map Some (str_text s @ ins) @ Some 0 # drop (?len + 1) c\<rparr>"
        "str_text s @ ins" "drop (?len + 1) c"] n c(2) r(2) by simp
qed

lemma str_pushl_text:
  assumes "str_wf s" "l \<le> length ins"
  shows "\<exists>s'. str_pushl s ins l = Some s' \<and> str_wf s' \<and> str_text s' = str_text s @ take l ins"
proof -
  obtain rest where r: "s_c s = map Some (str_text s) @ Some 0 # rest" "s_len s = length (str_text s)"
    "s_bytes s = length (s_c s)" by (rule str_wfE [OF assms(1)])
  let ?len = "s_len s + l"
  define n where "n = (if ?len \<ge> s_bytes s then ?len + alloc_buffer else s_bytes s)"
  define c where "c = (if ?len \<ge> s_bytes s then mem_realloc (s_c s) n else s_c s)"
  have n: "?len < n" by (simp add: n_def alloc_buffer_def)
  obtain rest' where c: "c = map Some (str_text s) @ Some 0 # rest'" "length c = n"
    using grow_shape [OF r(1), of n] r n unfolding c_def by (cases "?len \<ge> s_bytes s") (auto simp: n_def)
  have "store_bytes c (s_len s) (take l ins) = Some (map Some (str_text s @ take l ins) @ drop ?len c)"
    using store_bytes_Some [of "s_len s" "take l ins" c] assms(2) n c by (simp add: r(2))
  moreover obtain b bs where "drop ?len c = b # bs" using n c(2) by (cases "drop ?len c") auto
  moreover from this have "bs = drop (?len + 1) c" by (metis drop_Suc drop_drop list.sel(3) plus_1_eq_Suc add.commute tl_drop)
  ultimately have "Option.bind (store_bytes c (s_len s) (take l ins)) (\<lambda>c. c_store c ?len (Some 0))
      = Some (map Some (str_text s @ take l ins) @ Some 0 # drop (?len + 1) c)"
    using assms(2) by (simp add: c_mem r(2) list_update_append)
  moreover have "str_pushl s ins l = Option.bind (Option.bind (store_bytes c (s_len s) (take l ins)) (\<lambda>c. c_store c ?len (Some 0)))
      (\<lambda>c. Some (s\<lparr>s_bytes := n, s_len := ?len, s_c := c\<rparr>))"
    unfolding str_pushl_def c_def n_def using assms(2)
    by (cases "?len \<ge> s_bytes s") (simp_all add: Let_def Option.bind_assoc)
  ultimately have "str_pushl s ins l = Some (s\<lparr>s_bytes := n, s_len := ?len,
      s_c := map Some (str_text s @ take l ins) @ Some 0 # drop (?len + 1) c\<rparr>)" by simp
  then show ?thesis
    using str_wf_build [of "s\<lparr>s_bytes := n, s_len := ?len, s_c := map Some (str_text s @ take l ins) @ Some 0 # drop (?len + 1) c\<rparr>"
        "str_text s @ take l ins" "drop (?len + 1) c"] n c(2) r(2) assms(2) by simp
qed

lemma str_clear_text:
  assumes "str_wf s"
  shows "\<exists>s'. str_clear s = Some s' \<and> str_wf s' \<and> str_text s' = []"
proof -
  obtain rest where r: "s_c s = map Some (str_text s) @ Some 0 # rest" "s_len s = length (str_text s)"
    "s_bytes s = length (s_c s)" by (rule str_wfE [OF assms])
  let ?c = "Some 0 # (replicate (s_len s) (Some 0) @ rest)"
  have "c_memset (s_c s) 0 (Some 0) (s_len s) = Some ?c"
    by (subst r(1)) (simp add: c_memset_def r(2) replicate_app_Cons_same)
  moreover have "length ?c = length (s_c s)" by (subst r(1)) (simp add: r(2))
  ultimately show ?thesis
    using str_wf_build [of "s\<lparr>s_c := ?c, s_len := 0\<rparr>" "[]" "replicate (s_len s) (Some 0) @ rest"] r(3)
    by (simp add: str_clear_def)
qed

lemma size_sub_le: "0 \<le> k \<Longrightarrow> k \<le> int n \<Longrightarrow> n < 2 ^ 64 \<Longrightarrow> size_sub n k = n - nat k"
  by (simp add: size_sub_def nat_diff_distrib)

lemma size_sub_wrap: "int n < k \<Longrightarrow> k < 2 ^ 31 \<Longrightarrow> 2 ^ 64 - 2 ^ 31 < size_sub n k"
proof -
  assume "int n < k" "k < 2 ^ 31"
  then have "(int n - k + 2 ^ 64) mod 2 ^ 64 = int n - k + 2 ^ 64" by (intro mod_pos_pos_trivial) simp_all
  then have "(int n - k) mod 2 ^ 64 = int n - k + 2 ^ 64" by (simp only: mod_add_self2)
  then show "2 ^ 64 - 2 ^ 31 < size_sub n k" using \<open>k < 2 ^ 31\<close> by (simp add: size_sub_def)
qed

lemma str_popf_text:
  assumes "str_wf s" "s_bytes s < 2 ^ 63" "n \<le> length (str_text s)"
  shows "\<exists>s'. str_popf s (int n) = Some s' \<and> str_wf s' \<and> str_text s' = drop n (str_text s)"
proof -
  obtain rest where r: "s_c s = map Some (str_text s) @ Some 0 # rest" "s_len s = length (str_text s)"
    "s_bytes s = length (s_c s)" by (rule str_wfE [OF assms(1)])
  let ?len = "length (drop n (str_text s))"
  have len: "size_sub (s_len s) (int n) = ?len" "?len < length (s_c s)"
    using assms(2,3) r(3) arg_cong [OF r(1), of length] by (simp_all add: size_sub_le r(2))
  have "drop n (s_c s) = map Some (drop n (str_text s)) @ Some 0 # rest"
    using assms(3) by (subst r(1)) (simp add: drop_map)
  then have "mem_copy (s_c s) 0 (drop n (s_c s)) ?len = Some (map Some (drop n (str_text s)) @ drop ?len (s_c s))"
    using mem_copy_Some [of ?len "drop n (str_text s)" 0 "s_c s" "Some 0 # rest"] len(2) by simp
  moreover obtain b bs where bs: "drop ?len (s_c s) = b # bs" using len(2) by (cases "drop ?len (s_c s)") auto
  ultimately have "str_popf s (int n) = Some (s\<lparr>s_len := ?len, s_c := map Some (drop n (str_text s)) @ Some 0 # bs\<rparr>)"
    unfolding str_popf_def len(1) by (simp add: c_mem list_update_append)
  then show ?thesis
    using str_wf_build [of "s\<lparr>s_len := ?len, s_c := map Some (drop n (str_text s)) @ Some 0 # bs\<rparr>" "drop n (str_text s)" bs]
      arg_cong [OF bs, of length] len(2) r(3) by simp
qed

lemma str_popb_short:
  assumes "str_wf s" "length (str_text s) < 2 ^ 63" "n \<le> length (str_text s)"
  shows "\<exists>s'. str_popb s (int n) = Some s' \<and> str_wf s' \<and> str_text s' = take (length (str_text s) - n) (str_text s)"
proof -
  obtain rest where r: "s_c s = map Some (str_text s) @ Some 0 # rest" "s_len s = length (str_text s)"
    "s_bytes s = length (s_c s)" by (rule str_wfE [OF assms(1)])
  let ?len = "length (str_text s) - n"
  have len: "size_sub (s_len s) (int n) = ?len" "?len < length (s_c s)"
    using assms(2,3) r(3) arg_cong [OF r(1), of length] by (simp_all add: size_sub_le r(2))
  have "(s_c s)[?len := Some 0] = take ?len (s_c s) @ Some 0 # drop (Suc ?len) (s_c s)"
    using len(2) by (rule upd_conv_take_nth_drop)
  also have "take ?len (s_c s) = map Some (take ?len (str_text s))" by (subst r(1)) (simp add: take_map)
  finally have "str_popb s (int n) = Some (s\<lparr>s_len := ?len,
      s_c := map Some (take ?len (str_text s)) @ Some 0 # drop (Suc ?len) (s_c s)\<rparr>)"
    unfolding str_popb_def len(1) using len(2)
    by (cases "n < length (str_text s)") (simp_all add: c_mem Let_def)
  then show ?thesis
    using str_wf_build [of "s\<lparr>s_len := ?len, s_c := map Some (take ?len (str_text s)) @ Some 0 # drop (Suc ?len) (s_c s)\<rparr>"
        "take ?len (str_text s)" "drop (Suc ?len) (s_c s)"] len(2) r(3) by simp
qed

lemma str_popb_text:
  assumes "str_wf s" "s_bytes s < 2 ^ 63" "n \<le> length (str_text s)"
  shows "\<exists>s'. str_popb s (int n) = Some s' \<and> str_wf s' \<and> str_text s' = take (length (str_text s) - n) (str_text s)"
proof (rule str_popb_short [OF assms(1) _ assms(3)])
  obtain rest where "s_c s = map Some (str_text s) @ Some 0 # rest" "s_bytes s = length (s_c s)" by (rule str_wfE [OF assms(1)])
  then have "length (str_text s) < s_bytes s" by simp
  then show "length (str_text s) < 2 ^ 63" using assms(2) by simp
qed

text \<open>Taking off more than there is wraps the length, and the terminator is written outside.\<close>

lemma str_pop_underflow:
  assumes "str_wf s" "s_bytes s < 2 ^ 63" "int (length (str_text s)) < n" "n < 2 ^ 31"
  shows "str_popf s n = None" and "str_popb s n = None"
proof -
  obtain rest where r: "s_c s = map Some (str_text s) @ Some 0 # rest" "s_len s = length (str_text s)"
    "s_bytes s = length (s_c s)" by (rule str_wfE [OF assms(1)])
  have "2 ^ 64 - 2 ^ 31 < size_sub (s_len s) n" using assms(3,4) r(2) by (intro size_sub_wrap) simp_all
  then have big: "length (s_c s) < size_sub (s_len s) n" using assms(2) r(3) by simp
  then show "str_popf s n = None" by (simp add: str_popf_def mem_copy_def)
  show "str_popb s n = None" using big by (simp add: str_popb_def c_store_def)
qed

section \<open>Sinks\<close>

text \<open>What the callers that only append rely on: a push of an allowed piece succeeds and appends it.\<close>

locale byte_sink =
  fixes push :: "'s \<Rightarrow> u8 list \<Rightarrow> 's option" and wf :: "'s \<Rightarrow> bool" and written :: "'s \<Rightarrow> u8 list"
    and allowed :: "u8 list \<Rightarrow> bool"
  assumes push_text: "wf s \<Longrightarrow> allowed (written s) \<Longrightarrow> allowed x \<Longrightarrow>
      \<exists>s'. push s x = Some s' \<and> wf s' \<and> written s' = written s @ x"
    and allowed_append: "allowed x \<Longrightarrow> allowed y \<Longrightarrow> allowed (x @ y)"
begin

fun push_all :: "'s \<Rightarrow> u8 list list \<Rightarrow> 's option" where
  "push_all s [] = Some s"
| "push_all s (x # xs) = Option.bind (push s x) (\<lambda>s. push_all s xs)"

lemma push_all_text:
  assumes "wf s" "allowed (written s)" "\<forall>x\<in>set xs. allowed x"
  shows "\<exists>s'. push_all s xs = Some s' \<and> wf s' \<and> written s' = written s @ concat xs"
  using assms
proof (induction xs arbitrary: s)
  case (Cons x xs)
  then obtain t where t: "push s x = Some t" "wf t" "written t = written s @ x"
    using push_text [of s x] by auto
  then have "\<exists>s'. push_all t xs = Some s' \<and> wf s' \<and> written s' = written t @ concat xs"
    using Cons.prems allowed_append by (intro Cons.IH) simp_all
  then show ?case using t by simp
qed simp

end

interpretation push_s: byte_sink str_push str_wf str_text "\<lambda>xs. 0 \<notin> set xs"
  by unfold_locales (auto intro: str_push_text)

interpretation pushl_s: byte_sink "\<lambda>s xs. str_pushl s xs (length xs)" str_wf str_text "\<lambda>_. True"
proof
  fix s x
  assume "str_wf s"
  then show "\<exists>s'. str_pushl s x (length x) = Some s' \<and> str_wf s' \<and> str_text s' = str_text s @ x"
    using str_pushl_text [of s "length x" x] by simp
qed simp

section \<open>Properties\<close>

text \<open>C31: A buffer made by str_initl, str_initfl or str_init from memory that holds what they copy is
  well-formed; on well-formed buffers the operations never leave the block or read a byte that was
  not written, keep the buffer well-formed, and refine the operations on its bytes: any sequence of
  str_pushl appends, str_push appends to a text without zero bytes, str_clear empties, str_popf and
  str_popb take bytes off the ends.  Taking off more bytes than there are writes outside.\<close>
theorem str_refines_bytes:
  assumes "str_wf s" and "s_bytes s < 2 ^ 63"
  shows "(\<exists>s'. pushl_s.push_all s xss = Some s' \<and> str_wf s' \<and> str_text s' = str_text s @ concat xss)
    \<and> (0 \<notin> set (str_text s) \<and> (\<forall>xs\<in>set xss. 0 \<notin> set xs) \<longrightarrow>
        (\<exists>s'. push_s.push_all s xss = Some s' \<and> str_wf s' \<and> str_text s' = str_text s @ concat xss))
    \<and> (\<exists>s'. str_clear s = Some s' \<and> str_wf s' \<and> str_text s' = [])
    \<and> (n \<le> length (str_text s) \<longrightarrow>
        (\<exists>s'. str_popf s (int n) = Some s' \<and> str_wf s' \<and> str_text s' = drop n (str_text s))
        \<and> (\<exists>s'. str_popb s (int n) = Some s' \<and> str_wf s'
             \<and> str_text s' = take (length (str_text s) - n) (str_text s)))
    \<and> (length (str_text s) < n \<and> n < 2 ^ 31 \<longrightarrow> str_popf s (int n) = None \<and> str_popb s (int n) = None)
    \<and> (\<exists>s'. str_init xs = Some s' \<and> str_wf s' \<and> str_text s' = xs)
    \<and> (n \<le> length xs \<longrightarrow> (\<exists>s'. str_initfl xs n = Some s' \<and> str_wf s' \<and> str_text s' = take n xs))
    \<and> (n < length xs \<and> xs ! n = 0 \<longrightarrow> (\<exists>s'. str_initl xs n = Some s' \<and> str_wf s' \<and> str_text s' = take n xs))"
  using pushl_s.push_all_text [OF assms(1)] push_s.push_all_text [OF assms(1)] str_clear_text [OF assms(1)]
    str_popf_text [OF assms] str_popb_text [OF assms] str_pop_underflow [OF assms, of "int n"]
    str_init_text [of xs] str_initfl_text [of n xs] str_initl_text [of n xs]
  by (intro conjI impI; (elim conjE)?; simp)

lemma str_refines_bytes_witness:
  "\<exists>s s'. str_init (bytes ''ab'') = Some s \<and> str_popf s 1 = Some s' \<and> str_text s' = bytes ''b''"
proof -
  have "str_init (bytes ''ab'') = Some \<lparr>s_len = 2, s_bytes = 67,
      s_c = [Some 97, Some 98, Some 0] @ replicate 64 None\<rparr>"
    by code_simp
  moreover have "str_wf \<lparr>s_len = 2, s_bytes = 67, s_c = [Some 97, Some 98, Some 0] @ replicate 64 None\<rparr>"
    and "str_text \<lparr>s_len = 2, s_bytes = 67, s_c = [Some 97, Some 98, Some 0] @ replicate 64 None\<rparr> = [97, 98]"
    by (simp_all add: str_wf_def str_text_def numeral_2_eq_2)
  moreover have "bytes ''b'' = [98]" by code_simp
  ultimately show ?thesis
    using str_refines_bytes [of "\<lparr>s_len = 2, s_bytes = 67, s_c = [Some 97, Some 98, Some 0] @ replicate 64 None\<rparr>" _ 1]
    by auto
qed

end
