(* ===== verification/PArray.thy ===== *)
theory PArray
  imports StrBuf OpenAddressing "HOL-Library.AList"
begin

text \<open>
  \<open>src/src/types/parray.c\<close>: the array of key/value pairs the server keeps headers, cookies, query
  parameters and routes in, searched from the front, and the wildcard matcher \<open>fmatch\<close>.  A
  well-formed array refines an association list; the matcher is proved against the usual recursive
  meaning of the wildcards.
\<close>

section \<open>Model\<close>

text \<open>The values are pointers the array never looks into; only a lookup that fails gives the null
  pointer, None here.  A slot that was allocated and not written is None.\<close>

record 'v pelem =
  pe_value :: 'v
  pe_key :: str

record 'v parray =
  pa_P :: "'v pelem option list"
  pa_len :: nat

datatype free_type = F_NONE | F_FREE | F_STR

text \<open>What a call releases: a key, or a value by free or by str_free.\<close>

datatype 'v released = Key_str str | Value_free 'v | Value_str 'v

definition free_method :: "'v option \<Rightarrow> free_type \<Rightarrow> 'v released list" where
  "free_method v m = (case v of None \<Rightarrow> [] | Some v \<Rightarrow>
     if m = F_FREE then [Value_free v] else if m = F_STR then [Value_str v] else [])"

definition parray_init :: "'v parray" where
  "parray_init = \<lparr>pa_P = [None], pa_len = 0\<rparr>"

definition parray_initl :: "nat \<Rightarrow> 'v parray" where
  "parray_initl n = \<lparr>pa_P = replicate n None, pa_len = n\<rparr>"

text \<open>strcmp of a key in memory with a C string is zero; the bytes of a C string in memory.\<close>

fun mem_streq :: "u8 option list \<Rightarrow> u8 list \<Rightarrow> bool option" where
  "mem_streq [] ks = None"
| "mem_streq (None # c) ks = None"
| "mem_streq (Some b # c) [] = Some (b = 0)"
| "mem_streq (Some b # c) (k # ks) =
     (if b \<noteq> k then Some False else if b = 0 then Some True else mem_streq c ks)"

fun mem_cstr :: "u8 option list \<Rightarrow> u8 list option" where
  "mem_cstr [] = None"
| "mem_cstr (None # c) = None"
| "mem_cstr (Some b # c) = (if b = 0 then Some [] else map_option ((#) b) (mem_cstr c))"

definition pa_at :: "'v pelem option list \<Rightarrow> nat \<Rightarrow> 'v pelem option" where
  "pa_at P i = Option.bind (c_load P i) (\<lambda>e. e)"

text \<open>The search loop of set, get and geti: the first index whose key equals, if there is one.\<close>

function parray_scan :: "'v parray \<Rightarrow> u8 list \<Rightarrow> nat \<Rightarrow> nat option option" where
  "parray_scan p key i =
     (if i < pa_len p then
        Option.bind (pa_at (pa_P p) i) (\<lambda>e. Option.bind (mem_streq (s_c (pe_key e)) key)
          (\<lambda>eq. if eq then Some (Some i) else parray_scan p key (Suc i)))
      else Some None)"
  by pat_completeness auto
termination by (relation "measure (\<lambda>(p, key, i). pa_len p - i)") auto

declare parray_scan.simps [simp del]

definition parray_set :: "'v parray \<Rightarrow> u8 list \<Rightarrow> 'v \<Rightarrow> 'v parray option" where
  "parray_set p key v = Option.bind (parray_scan p key 0) (\<lambda>r. case r of
     Some i \<Rightarrow> do {
       e \<leftarrow> pa_at (pa_P p) i;
       P \<leftarrow> c_store (pa_P p) i (Some (e\<lparr>pe_value := v\<rparr>));
       Some (p\<lparr>pa_P := P\<rparr>)
     }
   | None \<Rightarrow> do {
       let p = p\<lparr>pa_len := pa_len p + 1\<rparr>;
       let p = p\<lparr>pa_P := mem_realloc (pa_P p) (pa_len p + 1)\<rparr>;
       k \<leftarrow> str_init key;
       P \<leftarrow> c_store (pa_P p) (pa_len p - 1) (Some \<lparr>pe_value = v, pe_key = k\<rparr>);
       Some (p\<lparr>pa_P := P\<rparr>)
     })"

definition parray_get :: "'v parray \<Rightarrow> u8 list \<Rightarrow> 'v option option" where
  "parray_get p key = Option.bind (parray_scan p key 0) (\<lambda>r. case r of
     Some i \<Rightarrow> map_option (\<lambda>e. Some (pe_value e)) (pa_at (pa_P p) i)
   | None \<Rightarrow> Some None)"

definition parray_geti :: "'v parray \<Rightarrow> u8 list \<Rightarrow> int option" where
  "parray_geti p key = map_option (\<lambda>r. case r of Some i \<Rightarrow> int i | None \<Rightarrow> -1) (parray_scan p key 0)"

function shift_down :: "'a list \<Rightarrow> nat \<Rightarrow> nat \<Rightarrow> 'a list option" where
  "shift_down P i n =
     (if i < n then Option.bind (c_load P (i + 1)) (\<lambda>e. Option.bind (c_store P i e)
        (\<lambda>P. shift_down P (i + 1) n))
      else Some P)"
  by pat_completeness auto
termination by (relation "measure (\<lambda>(P, i, n). n - i)") auto

declare shift_down.simps [simp del]

definition parray_remove :: "'v parray \<Rightarrow> u8 list \<Rightarrow> free_type \<Rightarrow> ('v released list \<times> 'v parray) option" where
  "parray_remove p key m = do {
     ind \<leftarrow> parray_geti p key;
     if ind = -1 then Some ([], p)
     else do {
       e \<leftarrow> pa_at (pa_P p) (nat ind);
       P \<leftarrow> shift_down (pa_P p) (nat ind) (pa_len p - 1);
       let n = pa_len p - 1;
       Some (Key_str (pe_key e) # free_method (Some (pe_value e)) m,
             p\<lparr>pa_len := n, pa_P := mem_realloc P (n + 1)\<rparr>)
     }
   }"

text \<open>The array itself is always freed; lclear releases nothing else, clear every key and value.\<close>

definition parray_lclear :: "'v parray \<Rightarrow> 'v released list" where
  "parray_lclear p = []"

function clear_from :: "'v parray \<Rightarrow> free_type \<Rightarrow> nat \<Rightarrow> 'v released list option" where
  "clear_from p m i =
     (if i < pa_len p then Option.bind (pa_at (pa_P p) i) (\<lambda>e. map_option
        (\<lambda>rs. Key_str (pe_key e) # free_method (Some (pe_value e)) m @ rs) (clear_from p m (Suc i)))
      else Some (parray_lclear p))"
  by pat_completeness auto
termination by (relation "measure (\<lambda>(p, m, i). pa_len p - i)") auto

declare clear_from.simps [simp del]

definition parray_clear :: "'v parray \<Rightarrow> free_type \<Rightarrow> 'v released list option" where
  "parray_clear p m = clear_from p m 0"

text \<open>The loop of fmatch on the two strings; the last three variables are set together, and only
  when a star is met: the index after it and the position to take up the string from.\<close>

partial_function (option) fmatch_loop ::
    "u8 list \<Rightarrow> u8 list \<Rightarrow> nat \<Rightarrow> nat \<Rightarrow> (nat \<times> nat) option \<Rightarrow> bool option" where
  "fmatch_loop s p sidx pidx wild =
     (if sidx < length s then
        (if pidx < length p \<and> (p ! pidx = 63 \<or> p ! pidx = s ! sidx)
         then fmatch_loop s p (sidx + 1) (pidx + 1) wild
         else if pidx < length p \<and> p ! pidx = 42
         then fmatch_loop s p sidx (pidx + 1) (Some (pidx + 1, sidx))
         else (case wild of
             None \<Rightarrow> Some False
           | Some (next, back) \<Rightarrow> fmatch_loop s p back next (Some (next, back + 1))))
      else Some (\<forall>c\<in>set (drop pidx p). c = 42))"

definition fmatch :: "u8 list \<Rightarrow> u8 list \<Rightarrow> bool option" where
  "fmatch s p = fmatch_loop s p 0 0 None"

function find_from :: "'v parray \<Rightarrow> u8 list \<Rightarrow> nat \<Rightarrow> 'v parray \<Rightarrow> 'v parray option" where
  "find_from p m i ret =
     (if i < pa_len p then
        Option.bind (pa_at (pa_P p) i) (\<lambda>e. Option.bind (mem_cstr (s_c (pe_key e))) (\<lambda>k.
        Option.bind (fmatch m k) (\<lambda>matches.
          if matches then Option.bind (c_store (pa_P ret) (pa_len ret) (Some e))
            (\<lambda>P. find_from p m (Suc i) (ret\<lparr>pa_P := P, pa_len := pa_len ret + 1\<rparr>))
          else find_from p m (Suc i) ret)))
      else Some ret)"
  by pat_completeness auto
termination by (relation "measure (\<lambda>(p, m, i, ret). pa_len p - i)") auto

declare find_from.simps [simp del]

definition parray_find :: "'v parray \<Rightarrow> u8 list \<Rightarrow> 'v parray option" where
  "parray_find p m = find_from p m 0 \<lparr>pa_P = replicate (pa_len p) None, pa_len = 0\<rparr>"

section \<open>Wildcards\<close>

text \<open>What a pattern means: a star stands for any piece of the string, a question mark for any byte.\<close>

fun glob :: "u8 list \<Rightarrow> u8 list \<Rightarrow> bool" where
  "glob [] s = (s = [])"
| "glob (c # p) s =
     (if c = 42 then \<exists>k\<le>length s. glob p (drop k s)
      else (case s of [] \<Rightarrow> False | b # s' \<Rightarrow> (c = 63 \<or> c = b) \<and> glob p s'))"

lemma glob_star: "glob (42 # p) s \<longleftrightarrow> (\<exists>k. glob p (drop k s))"
proof
  assume "\<exists>k. glob p (drop k s)"
  then obtain k where "glob p (drop k s)" ..
  then have "glob p (drop (min k (length s)) s)" by (cases "k \<le> length s") (simp_all add: min_def)
  then show "glob (42 # p) s" by (auto intro!: exI [of _ "min k (length s)"])
qed auto

lemma glob_star_drop: "glob (42 # p) (drop k s) \<Longrightarrow> glob (42 # p) s"
  unfolding glob_star by (auto simp: drop_drop)

lemma glob_nil: "glob p [] \<longleftrightarrow> (\<forall>c\<in>set p. c = 42)"
  by (induction p) auto

lemma glob_seg:
  "42 \<notin> set seg \<Longrightarrow> glob (seg @ q) t \<Longrightarrow> length seg \<le> length t \<and> glob q (drop (length seg) t)"
  by (induction seg arbitrary: t) (auto split: list.splits)

lemma ex_ge_split: "(\<exists>k\<ge>n. P k) \<longleftrightarrow> P n \<or> (\<exists>k\<ge>n + 1. P k)" for n :: nat
  by (metis Suc_eq_plus1 Suc_leD Suc_leI le_neq_implies_less order_refl)

text \<open>What the loop knows of the last star: no other star was passed since, and the position to go
  back to is the place where the piece after the star started, or the next one.\<close>

definition wild_ok :: "u8 list \<Rightarrow> nat \<Rightarrow> nat \<Rightarrow> (nat \<times> nat) option \<Rightarrow> bool" where
  "wild_ok p sidx pidx wild = (case wild of None \<Rightarrow> True | Some (next, back) \<Rightarrow>
     next \<le> pidx \<and> pidx \<le> length p \<and> 42 \<notin> set (take (pidx - next) (drop next p))
     \<and> sidx \<le> back + (pidx - next) \<and> back \<le> sidx + 1)"

definition wild_glob :: "u8 list \<Rightarrow> u8 list \<Rightarrow> (nat \<times> nat) option \<Rightarrow> bool" where
  "wild_glob s p wild = (case wild of None \<Rightarrow> False | Some (next, back) \<Rightarrow> \<exists>k\<ge>back. glob (drop next p) (drop k s))"

lemma wild_glob_drop:
  assumes "wild_ok p sidx pidx wild" and "wild_glob s p wild"
  shows "\<exists>j\<ge>sidx. glob (drop pidx p) (drop j s)"
proof -
  obtain nxt bk k where w: "wild = Some (nxt, bk)" "bk \<le> k" "glob (drop nxt p) (drop k s)"
    using assms(2) by (auto simp: wild_glob_def split: option.splits)
  then have ok: "nxt \<le> pidx" "pidx \<le> length p" "42 \<notin> set (take (pidx - nxt) (drop nxt p))"
    "sidx \<le> bk + (pidx - nxt)" using assms(1) by (auto simp: wild_ok_def)
  have "drop nxt p = take (pidx - nxt) (drop nxt p) @ drop pidx p"
    using ok(1) by (metis append_take_drop_id drop_drop le_add_diff_inverse2)
  then have "glob (drop pidx p) (drop (pidx - nxt) (drop k s))"
    using glob_seg [OF ok(3), of "drop pidx p" "drop k s"] w(3) ok(1,2) by simp
  then show ?thesis using w(2) ok(4) by (intro exI [of _ "k + (pidx - nxt)"]) (simp add: add.commute)
qed

text \<open>Induction along the loop: every step gets further in the string, or past another star, or
  restarts further on.\<close>

lemma fmatch_induct [consumes 1, case_names ended matched star failed restart]:
  assumes le: "case wild of None \<Rightarrow> True | Some (nxt, bk) \<Rightarrow> nxt \<le> pidx"
    and ended: "\<And>sidx pidx wild. length s \<le> sidx \<Longrightarrow> P sidx pidx wild"
    and matched: "\<And>sidx pidx wild. sidx < length s \<Longrightarrow> pidx < length p \<Longrightarrow> p ! pidx = 63 \<or> p ! pidx = s ! sidx \<Longrightarrow>
      P (sidx + 1) (pidx + 1) wild \<Longrightarrow> P sidx pidx wild"
    and star: "\<And>sidx pidx wild. sidx < length s \<Longrightarrow> pidx < length p \<Longrightarrow> p ! pidx \<noteq> s ! sidx \<Longrightarrow> p ! pidx = 42 \<Longrightarrow>
      P sidx (pidx + 1) (Some (pidx + 1, sidx)) \<Longrightarrow> P sidx pidx wild"
    and failed: "\<And>sidx pidx. sidx < length s \<Longrightarrow> (pidx < length p \<Longrightarrow> p ! pidx \<noteq> 63 \<and> p ! pidx \<noteq> s ! sidx \<and> p ! pidx \<noteq> 42) \<Longrightarrow>
      P sidx pidx None"
    and restart: "\<And>sidx pidx nxt bk. sidx < length s \<Longrightarrow> (pidx < length p \<Longrightarrow> p ! pidx \<noteq> 63 \<and> p ! pidx \<noteq> s ! sidx \<and> p ! pidx \<noteq> 42) \<Longrightarrow>
      P bk nxt (Some (nxt, bk + 1)) \<Longrightarrow> P sidx pidx (Some (nxt, bk))"
  shows "P sidx pidx wild"
  using le
proof (induction "(sidx, pidx, wild)" arbitrary: sidx pidx wild rule: wf_induct_rule [OF wf_measures
    [of "[\<lambda>(_, _, w). case w of None \<Rightarrow> length p + 1 | Some (nxt, _) \<Rightarrow> length p - nxt,
          \<lambda>(_, _, w). case w of None \<Rightarrow> 0 | Some (_, bk) \<Rightarrow> length s + 1 - bk,
          \<lambda>(sidx, _, _). length s - sidx]"]])
  case (1 sidx pidx wild)
  note IH = 1(1) and ok = 1(2)
  consider "length s \<le> sidx"
    | "sidx < length s" "pidx < length p" "p ! pidx = 63 \<or> p ! pidx = s ! sidx"
    | "sidx < length s" "pidx < length p" "p ! pidx \<noteq> s ! sidx" "p ! pidx = 42"
    | "sidx < length s" "pidx < length p \<Longrightarrow> p ! pidx \<noteq> 63 \<and> p ! pidx \<noteq> s ! sidx \<and> p ! pidx \<noteq> 42"
    by (metis not_less)
  then show ?case
  proof cases
    case 1
    then show ?thesis by (rule ended)
  next
    case 2
    have "P (sidx + 1) (pidx + 1) wild" using 2(1) ok by (intro IH) (auto split: option.splits)
    with 2 show ?thesis by (rule matched)
  next
    case 3
    have "P sidx (pidx + 1) (Some (pidx + 1, sidx))"
      using 3(2) ok by (intro IH) (auto split: option.splits)
    with 3 show ?thesis by (rule star)
  next
    case 4
    show ?thesis
    proof (cases wild)
      case None
      then show ?thesis using failed [OF 4] by simp
    next
      case (Some w)
      obtain nxt bk where w: "wild = Some (nxt, bk)" using Some by (cases w) auto
      have "P bk nxt (Some (nxt, bk + 1))" using 4(1) by (intro IH) (auto simp: w)
      with 4 show ?thesis unfolding w by (rule restart)
    qed
  qed
qed

lemma wild_ok_le: "wild_ok p sidx pidx wild \<Longrightarrow> case wild of None \<Rightarrow> True | Some (nxt, bk) \<Rightarrow> nxt \<le> pidx"
  by (auto simp: wild_ok_def split: option.splits)

lemma no_glob:
  assumes "sidx < length s" and "pidx < length p \<Longrightarrow> p ! pidx \<noteq> 63 \<and> p ! pidx \<noteq> s ! sidx \<and> p ! pidx \<noteq> 42"
  shows "\<not> glob (drop pidx p) (drop sidx s)"
  using assms by (cases "pidx < length p") (auto simp: Cons_nth_drop_Suc [symmetric] split: list.splits)

lemma wild_glob_restart:
  "glob (drop nxt p) (drop bk s) \<or> wild_glob s p (Some (nxt, bk + 1)) \<longleftrightarrow> wild_glob s p (Some (nxt, bk))"
  unfolding wild_glob_def by (auto simp: ex_ge_split [of bk])

lemma wild_glob_star:
  "wild_glob s p (Some (pidx + 1, sidx)) \<longleftrightarrow> glob (42 # drop (pidx + 1) p) (drop sidx s)"
  unfolding wild_glob_def glob_star by (auto simp: le_iff_add add.commute)

lemma glob_star_here: "glob p s \<Longrightarrow> glob (42 # p) s"
  unfolding glob_star by (rule exI [of _ 0]) simp

text \<open>When the string has no star, the loop finds out whether the rest matches from here or from a
  later restart.\<close>

lemma fmatch_loop_glob:
  assumes "42 \<notin> set s" and "wild_ok p sidx pidx wild"
  shows "fmatch_loop s p sidx pidx wild = Some (glob (drop pidx p) (drop sidx s) \<or> wild_glob s p wild)"
  using wild_ok_le [OF assms(2)] assms(2)
proof (induction rule: fmatch_induct [where s = s and p = p])
  case (ended sidx pidx wild)
  have "wild_glob s p wild \<longrightarrow> glob (drop pidx p) (drop sidx s)"
    using wild_glob_drop [OF ended(2), of s] ended(1) by (metis drop_all le_trans)
  then show ?case using ended by (subst fmatch_loop.simps) (auto simp: glob_nil)
next
  case (matched sidx pidx wild)
  have c: "p ! pidx \<noteq> 42" using matched(1,3) assms(1) by (auto dest: nth_mem)
  have "wild_ok p (sidx + 1) (pidx + 1) wild"
    using matched(2,5) c by (auto simp: wild_ok_def Suc_diff_le take_Suc_conv_app_nth split: option.splits)
  moreover have "glob (drop pidx p) (drop sidx s) = glob (drop (pidx + 1) p) (drop (sidx + 1) s)"
    using matched(1-3) c by (auto simp: Cons_nth_drop_Suc [symmetric])
  ultimately show ?case using matched by (subst fmatch_loop.simps) simp
next
  case (star sidx pidx wild)
  let ?g = "glob (42 # drop (pidx + 1) p) (drop sidx s)"
  have p: "drop pidx p = 42 # drop (pidx + 1) p" using star(2,4) by (simp add: Cons_nth_drop_Suc [symmetric])
  have "?g" if w: "wild_glob s p wild"
  proof -
    obtain j where "j \<ge> sidx" "glob (42 # drop (pidx + 1) p) (drop j s)"
      using wild_glob_drop [OF star(6) w] p by auto
    then have "glob (42 # drop (pidx + 1) p) (drop (j - sidx) (drop sidx s))" by simp
    then show ?thesis by (rule glob_star_drop)
  qed
  moreover have "wild_ok p sidx (pidx + 1) (Some (pidx + 1, sidx))" using star(2) by (simp add: wild_ok_def)
  then have "fmatch_loop s p sidx (pidx + 1) (Some (pidx + 1, sidx))
      = Some (glob (drop (pidx + 1) p) (drop sidx s) \<or> ?g)" using star(5) unfolding wild_glob_star by simp
  ultimately show ?case using star(1-4) p glob_star_here [of "drop (pidx + 1) p" "drop sidx s"]
    by (subst fmatch_loop.simps) auto
next
  case (failed sidx pidx)
  then show ?case using no_glob [OF failed(1,2)] by (subst fmatch_loop.simps) (auto simp: wild_glob_def)
next
  case (restart sidx pidx nxt bk)
  have "wild_ok p bk nxt (Some (nxt, bk + 1))" using restart(4) by (simp add: wild_ok_def)
  then have "fmatch_loop s p bk nxt (Some (nxt, bk + 1)) = Some (wild_glob s p (Some (nxt, bk)))"
    using restart(3) unfolding wild_glob_restart by simp
  then show ?case using no_glob [OF restart(1,2)] restart(1,2) by (subst fmatch_loop.simps) auto
qed

text \<open>On any string the loop ends, and it never accepts a string the pattern does not match.\<close>

lemma fmatch_loop_sound:
  assumes "case wild of None \<Rightarrow> True | Some (nxt, bk) \<Rightarrow> nxt \<le> pidx"
  shows "\<exists>r. fmatch_loop s p sidx pidx wild = Some r
     \<and> (r \<longrightarrow> glob (drop pidx p) (drop sidx s) \<or> wild_glob s p wild)"
  using assms
proof (induction rule: fmatch_induct [where s = s and p = p])
  case (ended sidx pidx wild)
  then show ?case by (subst fmatch_loop.simps) (auto simp: glob_nil)
next
  case (matched sidx pidx wild)
  have "glob (drop (pidx + 1) p) (drop (sidx + 1) s) \<Longrightarrow> glob (drop pidx p) (drop sidx s)"
    using matched(1-3) by (cases "p ! pidx = 42")
      (auto simp: Cons_nth_drop_Suc [symmetric] intro!: exI [of _ "Suc 0"])
  then show ?case using matched by (subst fmatch_loop.simps) auto
next
  case (star sidx pidx wild)
  have p: "drop pidx p = 42 # drop (pidx + 1) p" using star(2,4) by (simp add: Cons_nth_drop_Suc [symmetric])
  have "\<exists>r. fmatch_loop s p sidx (pidx + 1) (Some (pidx + 1, sidx)) = Some r \<and> (r \<longrightarrow> glob (drop pidx p) (drop sidx s))"
    using star(5) glob_star_here unfolding wild_glob_star p by blast
  then show ?case using star(1-4) by (subst fmatch_loop.simps) auto
next
  case (failed sidx pidx)
  then show ?case by (subst fmatch_loop.simps) auto
next
  case (restart sidx pidx nxt bk)
  have "\<exists>r. fmatch_loop s p bk nxt (Some (nxt, bk + 1)) = Some r \<and> (r \<longrightarrow> wild_glob s p (Some (nxt, bk)))"
    using restart(3) unfolding wild_glob_restart .
  then show ?case using restart(1,2) by (subst fmatch_loop.simps) auto
qed

lemma fmatch_ends: "\<exists>r. fmatch s p = Some r \<and> (r \<longrightarrow> glob p s)"
  using fmatch_loop_sound [where wild = None and sidx = 0 and pidx = 0 and s = s and p = p] by (simp add: fmatch_def wild_glob_def)

lemma fmatch_glob: "42 \<notin> set s \<Longrightarrow> fmatch s p = Some (glob p s)"
  unfolding fmatch_def by (subst fmatch_loop_glob) (simp_all add: wild_ok_def wild_glob_def)

section \<open>Well-formed arrays\<close>

definition par_elems :: "'v parray \<Rightarrow> 'v pelem list" where
  "par_elems p = map the (take (pa_len p) (pa_P p))"

definition key_ok :: "'v pelem \<Rightarrow> bool" where
  "key_ok e \<longleftrightarrow> str_wf (pe_key e) \<and> 0 \<notin> set (str_text (pe_key e))"

definition par_pair :: "'v pelem \<Rightarrow> u8 list \<times> 'v" where
  "par_pair e = (str_text (pe_key e), pe_value e)"

definition par_list :: "'v parray \<Rightarrow> (u8 list \<times> 'v) list" where
  "par_list p = map par_pair (par_elems p)"

definition par_wf :: "'v parray \<Rightarrow> bool" where
  "par_wf p \<longleftrightarrow> pa_len p \<le> length (pa_P p) \<and> None \<notin> set (take (pa_len p) (pa_P p))
     \<and> (\<forall>e\<in>set (par_elems p). key_ok e) \<and> distinct (map fst (par_list p))"

lemma par_wfE:
  assumes "par_wf p"
  obtains rest where "pa_P p = map Some (par_elems p) @ rest" and "pa_len p = length (par_elems p)"
proof -
  have "map Some (par_elems p) = take (pa_len p) (pa_P p)"
    using assms the_map unfolding par_elems_def par_wf_def by blast
  then have "pa_P p = map Some (par_elems p) @ drop (pa_len p) (pa_P p)" by (metis append_take_drop_id)
  moreover have "pa_len p = length (par_elems p)" using assms by (simp add: par_elems_def par_wf_def)
  ultimately show thesis by (rule that)
qed

lemma par_build:
  assumes "pa_P p = map Some es @ rest" "pa_len p = length es" "\<forall>e\<in>set es. key_ok e"
    "distinct (map fst (map par_pair es))"
  shows "par_wf p \<and> par_elems p = es"
proof -
  have "par_elems p = es" using assms(1,2) by (simp add: par_elems_def o_def)
  then show ?thesis using assms by (auto simp: par_wf_def par_list_def)
qed

lemma pa_at_elem:
  assumes "par_wf p" "i < pa_len p"
  shows "pa_at (pa_P p) i = Some (par_elems p ! i)"
proof -
  obtain rest where "pa_P p = map Some (par_elems p) @ rest" "pa_len p = length (par_elems p)"
    by (rule par_wfE [OF assms(1)])
  then show ?thesis using assms(2) by (simp add: pa_at_def c_mem nth_append)
qed

lemma mem_streq_text: "0 \<notin> set xs \<Longrightarrow> 0 \<notin> set ks \<Longrightarrow> mem_streq (map Some xs @ Some 0 # rest) ks = Some (xs = ks)"
proof (induction xs arbitrary: ks)
  case Nil
  then show ?case by (cases ks) auto
next
  case (Cons x xs)
  then show ?case by (cases ks) auto
qed

lemma mem_cstr_text: "0 \<notin> set xs \<Longrightarrow> mem_cstr (map Some xs @ Some 0 # rest) = Some xs"
  by (induction xs) auto

lemma key_streq: "key_ok e \<Longrightarrow> 0 \<notin> set ks \<Longrightarrow> mem_streq (s_c (pe_key e)) ks = Some (fst (par_pair e) = ks)"
  unfolding key_ok_def str_wf_shape par_pair_def by (metis fst_conv mem_streq_text)

lemma key_cstr: "key_ok e \<Longrightarrow> mem_cstr (s_c (pe_key e)) = Some (fst (par_pair e))"
  unfolding key_ok_def str_wf_shape par_pair_def by (metis fst_conv mem_cstr_text)

text \<open>The search finds the first index that holds the key.\<close>

fun find_index :: "('a \<Rightarrow> bool) \<Rightarrow> 'a list \<Rightarrow> nat option" where
  "find_index P [] = None"
| "find_index P (x # xs) = (if P x then Some 0 else map_option Suc (find_index P xs))"

lemma find_index_Some:
  "find_index P xs = Some i \<Longrightarrow> i < length xs \<and> P (xs ! i) \<and> (\<forall>j<i. \<not> P (xs ! j))"
proof (induction xs arbitrary: i)
  case (Cons x xs)
  show ?case
  proof (cases "P x")
    case True
    then show ?thesis using Cons.prems by simp
  next
    case False
    then obtain k where k: "find_index P xs = Some k" "i = Suc k" using Cons.prems by auto
    have "\<not> P ((x # xs) ! j)" if "j < Suc k" for j
      using Cons.IH [OF k(1)] False that by (cases j) auto
    then show ?thesis using Cons.IH [OF k(1)] k(2) by simp
  qed
qed simp

lemma find_index_None: "find_index P xs = None \<longleftrightarrow> (\<forall>x\<in>set xs. \<not> P x)"
  by (induction xs) auto

lemma scan_find:
  assumes "par_wf p" "0 \<notin> set key" "i \<le> pa_len p"
  shows "parray_scan p key i = Some (map_option (\<lambda>k. i + k) (find_index (\<lambda>e. fst (par_pair e) = key) (drop i (par_elems p))))"
  using assms(3)
proof (induction "pa_len p - i" arbitrary: i)
  case 0
  then have "par_elems p = [] \<or> drop i (par_elems p) = []" by (simp add: par_elems_def)
  then show ?case using 0 by (subst parray_scan.simps) auto
next
  case (Suc n)
  then have i: "i < pa_len p" by simp
  have len: "pa_len p = length (par_elems p)" by (rule par_wfE [OF assms(1)])
  have ok: "key_ok (par_elems p ! i)" using assms(1) i len by (simp add: par_wf_def)
  have "parray_scan p key (Suc i) = Some (map_option (\<lambda>k. Suc i + k) (find_index (\<lambda>e. fst (par_pair e) = key) (drop (Suc i) (par_elems p))))"
    using Suc by (intro Suc.hyps(1)) simp_all
  moreover have "drop i (par_elems p) = par_elems p ! i # drop (Suc i) (par_elems p)"
    using i len by (simp add: Cons_nth_drop_Suc)
  ultimately show ?case
    using i pa_at_elem [OF assms(1) i] key_streq [OF ok assms(2)]
    by (subst parray_scan.simps) (auto simp: option.map_comp o_def)
qed

lemma scan_elems:
  "par_wf p \<Longrightarrow> 0 \<notin> set key \<Longrightarrow>
   parray_scan p key 0 = Some (find_index (\<lambda>e. fst (par_pair e) = key) (par_elems p))"
  using scan_find [of p key 0] by (simp add: option.map_ident)

lemma find_index_map: "find_index P (map f xs) = find_index (\<lambda>x. P (f x)) xs"
  by (induction xs) auto

lemma update_find:
  "AList.update k v xs = (case find_index (\<lambda>x. fst x = k) xs of
     Some i \<Rightarrow> xs[i := (k, v)] | None \<Rightarrow> xs @ [(k, v)])"
  by (induction xs) (auto split: option.splits)

lemma delete_find:
  "distinct (map fst xs) \<Longrightarrow> AList.delete k xs = (case find_index (\<lambda>x. fst x = k) xs of
     Some i \<Rightarrow> take i xs @ drop (Suc i) xs | None \<Rightarrow> xs)"
proof (induction xs)
  case (Cons x xs)
  show ?case
  proof (cases "fst x = k")
    case True
    then have "k \<notin> fst ` set xs" using Cons.prems by auto
    then show ?thesis using True by (cases x) (simp add: delete_id)
  next
    case False
    then show ?thesis using Cons by (cases x) (auto split: option.splits)
  qed
qed simp

lemma map_of_find: "map_of xs k = map_option (\<lambda>i. snd (xs ! i)) (find_index (\<lambda>x. fst x = k) xs)"
  by (induction xs) (auto simp: option.map_comp o_def)

lemma scan_list:
  assumes "par_wf p" "0 \<notin> set key"
  shows "parray_scan p key 0 = Some (find_index (\<lambda>x. fst x = key) (par_list p))"
  using scan_elems [OF assms] by (simp add: par_list_def find_index_map)

lemma length_par_list: "par_wf p \<Longrightarrow> length (par_list p) = pa_len p"
  by (simp add: par_list_def par_elems_def par_wf_def)

lemma parray_set_list:
  assumes "par_wf p" "0 \<notin> set key"
  shows "\<exists>p'. parray_set p key v = Some p' \<and> par_wf p' \<and> par_list p' = AList.update key v (par_list p)"
proof -
  obtain rest where r: "pa_P p = map Some (par_elems p) @ rest" "pa_len p = length (par_elems p)"
    by (rule par_wfE [OF assms(1)])
  have dist: "distinct (map fst (AList.update key v (par_list p)))"
    using assms(1) by (simp add: par_wf_def distinct_update)
  show ?thesis
  proof (cases "find_index (\<lambda>x. fst x = key) (par_list p)")
    case None
    obtain k where k: "str_init key = Some k" "str_wf k" "str_text k = key" using str_init_text by blast
    let ?e = "\<lparr>pe_value = v, pe_key = k\<rparr>"
    have upd: "AList.update key v (par_list p) = map par_pair (par_elems p @ [?e])"
      using None by (simp add: update_find par_list_def par_pair_def k)
    define rest' where "rest' = drop (Suc (pa_len p)) (mem_realloc (pa_P p) (pa_len p + 2))"
    have "(mem_realloc (pa_P p) (pa_len p + 2))[pa_len p := Some ?e]
        = map Some (par_elems p @ [?e]) @ rest'"
      by (simp add: upd_conv_take_nth_drop rest'_def mem_realloc_def r)
    moreover have "pa_len p < length (mem_realloc (pa_P p) (pa_len p + 2))" by (simp add: mem_realloc_def)
    ultimately have "parray_set p key v = Some (p\<lparr>pa_len := pa_len p + 1, pa_P := map Some (par_elems p @ [?e]) @ rest'\<rparr>)"
      using scan_list [OF assms] None k(1) by (simp add: parray_set_def c_store_def Let_def)
    moreover have "par_wf (p\<lparr>pa_len := pa_len p + 1, pa_P := map Some (par_elems p @ [?e]) @ rest'\<rparr>)
        \<and> par_elems (p\<lparr>pa_len := pa_len p + 1, pa_P := map Some (par_elems p @ [?e]) @ rest'\<rparr>) = par_elems p @ [?e]"
      using dist assms k r(2) unfolding upd
      by (intro par_build [where rest = rest']) (auto simp: par_wf_def key_ok_def)
    ultimately show ?thesis using upd by (auto simp: par_list_def)
  next
    case (Some i)
    from find_index_Some [OF this] have i: "i < pa_len p" "fst (par_list p ! i) = key"
      using length_par_list [OF assms(1)] by simp_all
    let ?e = "(par_elems p ! i)\<lparr>pe_value := v\<rparr>" and ?es = "(par_elems p)[i := (par_elems p ! i)\<lparr>pe_value := v\<rparr>]"
    have upd: "AList.update key v (par_list p) = map par_pair ?es"
      using Some i r(2) by (simp add: update_find par_list_def map_update par_pair_def)
    have "(pa_P p)[i := Some ?e] = map Some ?es @ rest"
      using i(1) r by (simp add: list_update_append map_update)
    moreover have "i < length (pa_P p)" using i(1) r by simp
    ultimately have "parray_set p key v = Some (p\<lparr>pa_P := map Some ?es @ rest\<rparr>)"
      using scan_list [OF assms] Some pa_at_elem [OF assms(1) i(1)] by (simp add: parray_set_def c_store_def)
    moreover have "par_wf (p\<lparr>pa_P := map Some ?es @ rest\<rparr>) \<and> par_elems (p\<lparr>pa_P := map Some ?es @ rest\<rparr>) = ?es"
    proof (rule par_build [where rest = rest])
      have "key_ok (par_elems p ! i)" using assms(1) i(1) r(2) by (simp add: par_wf_def)
      then show "\<forall>e\<in>set ?es. key_ok e"
        using assms(1) set_update_subset_insert [of "par_elems p" i ?e] by (auto simp: par_wf_def key_ok_def)
      show "distinct (map fst (map par_pair ?es))" using dist unfolding upd .
    qed (simp_all add: r(2))
    ultimately show ?thesis using upd by (auto simp: par_list_def)
  qed
qed

lemma parray_get_list: "par_wf p \<Longrightarrow> 0 \<notin> set key \<Longrightarrow> parray_get p key = Some (map_of (par_list p) key)"
proof -
  assume a: "par_wf p" "0 \<notin> set key"
  show ?thesis
  proof (cases "find_index (\<lambda>x. fst x = key) (par_list p)")
    case None
    then show ?thesis using scan_list [OF a] by (simp add: parray_get_def map_of_find)
  next
    case (Some i)
    then have "i < pa_len p" using find_index_Some length_par_list [OF a(1)] by metis
    then show ?thesis using scan_list [OF a] Some pa_at_elem [OF a(1)] length_par_list [OF a(1)]
      by (simp add: parray_get_def map_of_find par_list_def par_pair_def)
  qed
qed

lemma parray_geti_list:
  "par_wf p \<Longrightarrow> 0 \<notin> set key \<Longrightarrow>
   parray_geti p key = Some (case find_index (\<lambda>x. fst x = key) (par_list p) of Some i \<Rightarrow> int i | None \<Rightarrow> -1)"
  by (simp add: parray_geti_def scan_list)

lemma shift_down_eq:
  assumes "i \<le> n" "n < length P"
  shows "shift_down P i n = Some (take i P @ take (n - i) (drop (Suc i) P) @ drop n P)"
  using assms
proof (induction "n - i" arbitrary: P i)
  case 0
  then have "i = n" by simp
  then show ?case by (subst shift_down.simps) simp
next
  case (Suc m)
  let ?P = "P[i := P ! Suc i]"
  have i: "i < n" using Suc by simp
  have "shift_down ?P (Suc i) n
      = Some (take (Suc i) ?P @ take (n - Suc i) (drop (Suc (Suc i)) ?P) @ drop n ?P)"
    using Suc i by (intro Suc.hyps(1)) simp_all
  moreover have "take (Suc i) ?P = take i P @ [P ! Suc i]" using i Suc.prems by (simp add: take_Suc_conv_app_nth)
  moreover have "n - i = Suc (n - Suc i)" using i by simp
  then have "take (n - i) (drop (Suc i) P) = P ! Suc i # take (n - Suc i) (drop (Suc (Suc i)) P)"
    using i Suc.prems by (simp add: Cons_nth_drop_Suc [symmetric])
  ultimately show ?case using i Suc.prems by (subst shift_down.simps) (simp add: c_mem)
qed

lemma parray_remove_list:
  assumes "par_wf p" "0 \<notin> set key"
  shows "\<exists>rs p'. parray_remove p key m = Some (rs, p') \<and> par_wf p' \<and> par_list p' = AList.delete key (par_list p)
     \<and> (rs = [] \<longleftrightarrow> map_of (par_list p) key = None)"
proof -
  obtain rest where r: "pa_P p = map Some (par_elems p) @ rest" "pa_len p = length (par_elems p)"
    by (rule par_wfE [OF assms(1)])
  have d: "distinct (map fst (par_list p))" using assms(1) by (simp add: par_wf_def)
  then have dist: "distinct (map fst (AList.delete key (par_list p)))" by (rule distinct_delete)
  show ?thesis
  proof (cases "find_index (\<lambda>x. fst x = key) (par_list p)")
    case None
    then show ?thesis using assms d
      by (simp add: parray_remove_def parray_geti_list delete_find map_of_find)
  next
    case (Some i)
    then have i: "i < pa_len p" using find_index_Some length_par_list [OF assms(1)] by metis
    let ?es = "take i (par_elems p) @ drop (Suc i) (par_elems p)"
    have del: "AList.delete key (par_list p) = map par_pair ?es"
      unfolding delete_find [OF d] Some by (simp add: par_list_def take_map drop_map)
    have len: "length ?es = pa_len p - 1" using i r(2) by simp
    let ?P = "take i (pa_P p) @ take (pa_len p - 1 - i) (drop (Suc i) (pa_P p)) @ drop (pa_len p - 1) (pa_P p)"
    have P: "?P = map Some ?es @ drop (pa_len p - 1) (pa_P p)"
      using i r by (simp add: take_map drop_map)
    have sh: "shift_down (pa_P p) i (pa_len p - 1) = Some ?P"
      using i r by (intro shift_down_eq) simp_all
    obtain rest' where re: "mem_realloc ?P (pa_len p) = map Some ?es @ rest'"
      using len unfolding P mem_realloc_def by auto
    have "parray_remove p key m = Some (Key_str (pe_key (par_elems p ! i)) # free_method (Some (pe_value (par_elems p ! i))) m,
        p\<lparr>pa_len := pa_len p - 1, pa_P := map Some ?es @ rest'\<rparr>)"
      using Some i sh re pa_at_elem [OF assms(1) i] by (simp add: parray_remove_def parray_geti_list [OF assms])
    moreover have "par_wf (p\<lparr>pa_len := pa_len p - 1, pa_P := map Some ?es @ rest'\<rparr>)
        \<and> par_elems (p\<lparr>pa_len := pa_len p - 1, pa_P := map Some ?es @ rest'\<rparr>) = ?es"
      using dist len assms(1) unfolding del
      by (intro par_build [where rest = rest']) (auto simp: par_wf_def dest: in_set_takeD in_set_dropD)
    ultimately show ?thesis using del Some by (auto simp: par_list_def map_of_find)
  qed
qed

lemma clear_from_all:
  assumes "par_wf p" "i \<le> pa_len p"
  shows "clear_from p m i = Some (concat (map (\<lambda>e. Key_str (pe_key e) # free_method (Some (pe_value e)) m)
    (drop i (par_elems p))))"
  using assms(2)
proof (induction "pa_len p - i" arbitrary: i)
  case 0
  then have "drop i (par_elems p) = []" by (simp add: par_elems_def)
  then show ?case using 0 by (subst clear_from.simps) (simp add: parray_lclear_def)
next
  case (Suc n)
  then have i: "i < pa_len p" by simp
  have "pa_len p = length (par_elems p)" by (rule par_wfE [OF assms(1)])
  then have "drop i (par_elems p) = par_elems p ! i # drop (Suc i) (par_elems p)"
    using i by (simp add: Cons_nth_drop_Suc)
  moreover have "clear_from p m (Suc i) = Some (concat (map (\<lambda>e. Key_str (pe_key e) # free_method (Some (pe_value e)) m)
    (drop (Suc i) (par_elems p))))" using Suc by (intro Suc.hyps(1)) simp_all
  ultimately show ?case using i pa_at_elem [OF assms(1) i] by (subst clear_from.simps) simp
qed

lemma find_from_filter:
  assumes "par_wf p" "42 \<notin> set m" "i \<le> pa_len p"
    "pa_P ret = map Some (filter (\<lambda>e. glob (fst (par_pair e)) m) (take i (par_elems p))) @ rest"
    "pa_len ret = length (filter (\<lambda>e. glob (fst (par_pair e)) m) (take i (par_elems p)))"
    "length (pa_P ret) = pa_len p"
  shows "\<exists>ret' rest. find_from p m i ret = Some ret'
     \<and> pa_P ret' = map Some (filter (\<lambda>e. glob (fst (par_pair e)) m) (par_elems p)) @ rest
     \<and> pa_len ret' = length (filter (\<lambda>e. glob (fst (par_pair e)) m) (par_elems p))"
  using assms(3-)
proof (induction "pa_len p - i" arbitrary: i ret rest)
  case 0
  then have "take i (par_elems p) = par_elems p" by (simp add: par_elems_def)
  then show ?case using 0 by (subst find_from.simps) auto
next
  case (Suc n)
  then have i: "i < pa_len p" by simp
  have len: "pa_len p = length (par_elems p)" by (rule par_wfE [OF assms(1)])
  let ?e = "par_elems p ! i" and ?f = "\<lambda>xs. filter (\<lambda>e. glob (fst (par_pair e)) m) xs"
  have ok: "key_ok ?e" using assms(1) i len by (simp add: par_wf_def)
  have snoc: "take (Suc i) (par_elems p) = take i (par_elems p) @ [?e]" using i len by (simp add: take_Suc_conv_app_nth)
  have elem: "pa_at (pa_P p) i = Some ?e" "mem_cstr (s_c (pe_key ?e)) = Some (fst (par_pair ?e))"
    "fmatch m (fst (par_pair ?e)) = Some (glob (fst (par_pair ?e)) m)"
    by (rule pa_at_elem [OF assms(1) i]) (rule key_cstr [OF ok], rule fmatch_glob [OF assms(2)])
  show ?case
  proof (cases "glob (fst (par_pair ?e)) m")
    case False
    have "\<exists>ret' rest. find_from p m (Suc i) ret = Some ret'
       \<and> pa_P ret' = map Some (?f (par_elems p)) @ rest \<and> pa_len ret' = length (?f (par_elems p))"
      using Suc.hyps(2) Suc.prems False i by (intro Suc.hyps(1) [where rest = rest]) (simp_all add: snoc)
    then show ?thesis using i elem False by (subst find_from.simps) simp
  next
    case True
    have "length (?f (take i (par_elems p))) \<le> length (take i (par_elems p))" by (rule length_filter_le)
    then have room: "pa_len ret < length (pa_P ret)" using Suc.prems(3,4) i len by simp
    then obtain r rest' where rest: "rest = r # rest'" using Suc.prems by (cases rest) simp_all
    let ?ret = "ret\<lparr>pa_P := (pa_P ret)[pa_len ret := Some ?e], pa_len := pa_len ret + 1\<rparr>"
    have "pa_P ?ret = map Some (?f (take (Suc i) (par_elems p))) @ rest'"
      using Suc.prems True by (simp add: snoc rest list_update_append)
    then have "\<exists>ret' rest. find_from p m (Suc i) ?ret = Some ret'
       \<and> pa_P ret' = map Some (?f (par_elems p)) @ rest \<and> pa_len ret' = length (?f (par_elems p))"
      using Suc.hyps(2) Suc.prems(2-4) True i by (intro Suc.hyps(1) [where rest = rest']) (simp_all add: snoc rest)
    then show ?thesis using i elem True room by (subst find_from.simps) (simp add: c_mem)
  qed
qed

lemma parray_find_list:
  assumes "par_wf p" "42 \<notin> set m"
  shows "\<exists>p'. parray_find p m = Some p' \<and> par_wf p' \<and> par_list p' = filter (\<lambda>(k, v). glob k m) (par_list p)"
proof -
  let ?f = "\<lambda>xs. filter (\<lambda>e. glob (fst (par_pair e)) m) xs"
  obtain p' rest where p': "parray_find p m = Some p'" "pa_P p' = map Some (?f (par_elems p)) @ rest"
    "pa_len p' = length (?f (par_elems p))"
    using find_from_filter [OF assms, of 0 "\<lparr>pa_P = replicate (pa_len p) None, pa_len = 0\<rparr>" "replicate (pa_len p) None"]
    by (auto simp: parray_find_def)
  have list: "map par_pair (?f (par_elems p)) = filter (\<lambda>(k, v). glob k m) (par_list p)"
    by (simp add: par_list_def filter_map o_def split_beta)
  have "distinct (map fst (map par_pair (?f (par_elems p))))"
    unfolding list using assms(1) by (simp add: par_wf_def distinct_map_filter)
  then have "par_wf p' \<and> par_elems p' = ?f (par_elems p)"
    using assms(1) p' by (intro par_build [where rest = rest]) (auto simp: par_wf_def)
  then show ?thesis using p'(1) list by (auto simp: par_list_def)
qed

text \<open>Header and route tables are stores of this interface.\<close>

definition par_map :: "'v parray \<Rightarrow> u8 list \<rightharpoonup> 'v" where
  "par_map p = map_of (par_list p)"

interpretation parr: keyed_store parray_set parray_get par_wf "\<lambda>_ k. 0 \<notin> set k" par_map
proof
  fix s s' :: "'a parray" and k :: "u8 list" and v :: 'a
  assume wf: "par_wf s" "0 \<notin> set k"
  show "parray_get s k = Some (par_map s k)" using wf by (simp add: par_map_def parray_get_list)
  assume "parray_set s k v = Some s'"
  with parray_set_list [OF wf, of v]
  have s': "par_wf s'" "par_list s' = AList.update k v (par_list s)" by auto
  show "par_wf s'" by (rule s')
  show "par_map s' = (par_map s)(k \<mapsto> v)" by (simp add: par_map_def s'(2) update_conv')
qed

lemma parray_init_list: "par_list parray_init = []"
  by (simp add: par_list_def par_elems_def parray_init_def)

lemma parray_init_wf: "par_wf parray_init"
  by (simp add: par_wf_def par_list_def par_elems_def parray_init_def)

section \<open>Properties\<close>

text \<open>C34: A parray is an association list.  The empty one is well-formed; on a well-formed one and a key
  that is a C string, set replaces the value in place or appends the pair, get and geti find the
  first pair of the key, remove deletes it and releases something exactly when the key was there,
  find keeps the pairs whose key, read as a pattern, matches, and clear releases every key once.
  None of them leaves the array or reads a slot that was not written, and the results are
  well-formed again.\<close>
theorem parray_refines_alist:
  assumes "par_wf p" and "0 \<notin> set key" and "42 \<notin> set m"
  shows "par_wf parray_init \<and> par_list parray_init = []
    \<and> (\<exists>p'. parray_set p key v = Some p' \<and> par_wf p' \<and> par_list p' = AList.update key v (par_list p))
    \<and> parray_get p key = Some (map_of (par_list p) key)
    \<and> (\<exists>i. parray_geti p key = Some i \<and> (i = -1 \<longleftrightarrow> map_of (par_list p) key = None)
         \<and> (i \<noteq> -1 \<longrightarrow> 0 \<le> i \<and> nat i < length (par_list p) \<and> fst (par_list p ! nat i) = key))
    \<and> (\<exists>rs p'. parray_remove p key fr = Some (rs, p') \<and> par_wf p' \<and> par_list p' = AList.delete key (par_list p)
         \<and> (rs = [] \<longleftrightarrow> map_of (par_list p) key = None))
    \<and> (\<exists>p'. parray_find p m = Some p' \<and> par_wf p' \<and> par_list p' = filter (\<lambda>(k, v). glob k m) (par_list p))
    \<and> (\<exists>rs. parray_clear p fr = Some rs
         \<and> concat (map (\<lambda>r. case r of Key_str k \<Rightarrow> [str_text k] | _ \<Rightarrow> []) rs) = map fst (par_list p))"
proof (intro conjI)
  show "par_wf parray_init" "par_list parray_init = []" by (rule parray_init_wf, rule parray_init_list)
  show "\<exists>p'. parray_set p key v = Some p' \<and> par_wf p' \<and> par_list p' = AList.update key v (par_list p)"
    by (rule parray_set_list [OF assms(1,2)])
  show "parray_get p key = Some (map_of (par_list p) key)" by (rule parray_get_list [OF assms(1,2)])
  show "\<exists>i. parray_geti p key = Some i \<and> (i = -1 \<longleftrightarrow> map_of (par_list p) key = None)
      \<and> (i \<noteq> -1 \<longrightarrow> 0 \<le> i \<and> nat i < length (par_list p) \<and> fst (par_list p ! nat i) = key)"
    unfolding parray_geti_list [OF assms(1,2)] map_of_find
    using find_index_Some [where P = "\<lambda>x. fst x = key" and xs = "par_list p"]
    by (cases "find_index (\<lambda>x. fst x = key) (par_list p)") simp_all
  show "\<exists>rs p'. parray_remove p key fr = Some (rs, p') \<and> par_wf p' \<and> par_list p' = AList.delete key (par_list p)
      \<and> (rs = [] \<longleftrightarrow> map_of (par_list p) key = None)"
    by (rule parray_remove_list [OF assms(1,2)])
  show "\<exists>p'. parray_find p m = Some p' \<and> par_wf p' \<and> par_list p' = filter (\<lambda>(k, v). glob k m) (par_list p)"
    by (rule parray_find_list [OF assms(1,3)])
  have "concat (map (\<lambda>r. case r of Key_str k \<Rightarrow> [str_text k] | _ \<Rightarrow> [])
      (concat (map (\<lambda>e. Key_str (pe_key e) # free_method (Some (pe_value e)) fr) es))) = map fst (map par_pair es)" for es
    by (induction es) (auto simp: free_method_def par_pair_def)
  then show "\<exists>rs. parray_clear p fr = Some rs
      \<and> concat (map (\<lambda>r. case r of Key_str k \<Rightarrow> [str_text k] | _ \<Rightarrow> []) rs) = map fst (par_list p)"
    using clear_from_all [OF assms(1), of 0 fr] by (simp add: parray_clear_def par_list_def)
qed

lemma parray_refines_alist_witness:
  "\<exists>p. parray_set parray_init (bytes ''a'') (1 :: nat) = Some p \<and> par_list p = [(bytes ''a'', 1)]"
proof -
  have "par_wf (parray_init :: nat parray)" and "par_list (parray_init :: nat parray) = []"
    by (rule parray_init_wf, rule parray_init_list)
  moreover have "0 \<notin> set (bytes ''a'')" by code_simp
  ultimately show ?thesis
    using parray_refines_alist [of "parray_init :: nat parray" "bytes ''a''" "[]" 1 F_NONE] by auto
qed

text \<open>C35: The wildcard match of fmatch ends on every string and pattern and accepts only strings the
  pattern matches; on a string without stars it accepts exactly those.  A star in the string is
  compared as a byte first, so ** is refused by the pattern *.\<close>
theorem fmatch_is_glob:
  "(\<exists>r. fmatch s p = Some r \<and> (r \<longrightarrow> glob p s)) \<and> (42 \<notin> set s \<longrightarrow> fmatch s p = Some (glob p s))
   \<and> fmatch (bytes ''**'') (bytes ''*'') = Some False \<and> glob (bytes ''*'') (bytes ''**'')"
proof (intro conjI impI)
  show "\<exists>r. fmatch s p = Some r \<and> (r \<longrightarrow> glob p s)" by (rule fmatch_ends)
  show "42 \<notin> set s \<Longrightarrow> fmatch s p = Some (glob p s)" by (rule fmatch_glob)
  have b: "bytes ''**'' = [42, 42]" "bytes ''*'' = [42]" by code_simp+
  show "fmatch (bytes ''**'') (bytes ''*'') = Some False"
    unfolding b fmatch_def by (subst fmatch_loop.simps, simp, subst fmatch_loop.simps, simp)
  show "glob (bytes ''*'') (bytes ''**'')" unfolding b by (auto intro: exI [of _ 2])
qed

lemma fmatch_is_glob_witness: "fmatch (bytes ''/a/b'') (bytes ''/*/?'') = Some True"
proof -
  have "42 \<notin> set (bytes ''/a/b'')" "glob (bytes ''/*/?'') (bytes ''/a/b'')" by code_simp+
  then show ?thesis using fmatch_is_glob [of "bytes ''/a/b''" "bytes ''/*/?''"] by simp
qed

end
