(* ===== verification/Sextets.thy ===== *)
theory Sextets
  imports Prelude "HOL-Library.Monad_Syntax"
begin

text \<open>
  What \<open>encode/base64.c\<close> and \<open>encode/uuencode.c\<close> share: the length loop over a C string, the reads
  guarded by \<open>i > len\<close>, the text appended by \<open>sprintf(out, "%s...", out, ...)\<close>, and the regrouping of
  three bytes as four sextets.  The calls of sprintf read and write the same buffer; they are modelled
  as the library behaves, which copies the string onto itself and goes on after it.  A write past
  the buffer is None.
\<close>

unbundle bit_operations_syntax

section \<open>Strings\<close>

fun mem_len :: "u8 list \<Rightarrow> nat option" where
  "mem_len [] = None"
| "mem_len (b # bs) = (if b = 0 then Some 0 else map_option Suc (mem_len bs))"

definition byte_at :: "u8 list \<Rightarrow> nat \<Rightarrow> nat \<Rightarrow> u8 option" where
  "byte_at inp len i = (if i > len then Some 0 else c_load inp i)"

definition sprintf_at :: "u8 list \<Rightarrow> nat \<Rightarrow> u8 list \<Rightarrow> u8 list option" where
  "sprintf_at out n cs = c_memcpy out n (cs @ [0]) 0 (length cs + 1)"

definition sprintf_append :: "u8 list \<Rightarrow> u8 list \<Rightarrow> u8 list option" where
  "sprintf_append out cs = Option.bind (mem_len out) (\<lambda>n. sprintf_at out n cs)"

lemma mem_len_text: "0 \<notin> set xs \<Longrightarrow> mem_len (xs @ 0 # ys) = Some (length xs)"
  by (induction xs) auto

lemma mem_len_None: "0 \<notin> set xs \<Longrightarrow> mem_len xs = None"
  by (induction xs) auto

text \<open>The state of an output buffer: its text, the terminator, and how much room there is.\<close>

definition holds_text :: "u8 list \<Rightarrow> u8 list \<Rightarrow> bool" where
  "holds_text out xs \<longleftrightarrow> 0 \<notin> set xs \<and> (\<exists>rest. out = xs @ 0 # rest)"

lemma holds_text_zero: "0 < n \<Longrightarrow> holds_text (replicate n 0) []"
  by (cases n) (auto simp: holds_text_def)

lemma holds_text_str: "holds_text out xs \<Longrightarrow> mem_len out = Some (length xs) \<and> c_str out = xs"
  by (auto simp: holds_text_def mem_len_text c_str_text)

lemma append_text:
  assumes "holds_text out xs" and "length xs + length cs < length out"
  shows "\<exists>out'. sprintf_append out cs = Some out' \<and> length out' = length out \<and> holds_text out' (xs @ c_str cs)"
proof -
  obtain rest where out: "out = xs @ 0 # rest" "0 \<notin> set xs" using assms(1) by (auto simp: holds_text_def)
  let ?out = "xs @ cs @ 0 # drop (length cs) rest"
  have "sprintf_append out cs = Some ?out"
    using assms(2) out by (simp add: sprintf_append_def mem_len_text sprintf_at_def c_mem)
  moreover have "length ?out = length out" using assms(2) out(1) by simp
  moreover have "holds_text ?out (xs @ c_str cs)"
  proof (cases "0 \<in> set cs")
    case True
    then obtain as bs where "cs = as @ 0 # bs" "0 \<notin> set as" by (meson split_list_first)
    then show ?thesis using out(2) by (auto simp: holds_text_def c_str_text)
  next
    case False
    then show ?thesis using out(2) by (auto simp: holds_text_def c_str_id)
  qed
  ultimately show ?thesis by blast
qed

lemma append_overflow:
  "holds_text out xs \<Longrightarrow> length out \<le> length xs + length cs \<Longrightarrow> sprintf_append out cs = None"
  by (auto simp: sprintf_append_def holds_text_str sprintf_at_def c_memcpy_def)

lemma byte_at_text:
  "i < length xs \<Longrightarrow> byte_at (xs @ 0 # ys) (length xs) i = Some (xs ! i)"
  "length xs \<le> i \<Longrightarrow> byte_at (xs @ 0 # ys) (length xs) i = Some 0"
  by (auto simp: byte_at_def c_load_def nth_append)

section \<open>Regrouping\<close>

definition sextet1 :: "u8 \<Rightarrow> u8" where
  "sextet1 f = drop_bit 2 f"

definition sextet2 :: "u8 \<Rightarrow> u8 \<Rightarrow> u8" where
  "sextet2 f s = drop_bit 2 (push_bit 6 f) OR drop_bit 4 s"

definition sextet3 :: "u8 \<Rightarrow> u8 \<Rightarrow> u8" where
  "sextet3 s t = drop_bit 2 (push_bit 4 s) OR drop_bit 6 t"

definition sextet4 :: "u8 \<Rightarrow> u8" where
  "sextet4 t = t AND 0x3f"

definition left_byte :: "u8 \<Rightarrow> u8 \<Rightarrow> u8" where
  "left_byte u1 u2 = push_bit 2 u1 OR drop_bit 4 u2"

definition middle_byte :: "u8 \<Rightarrow> u8 \<Rightarrow> u8" where
  "middle_byte u2 u3 = push_bit 4 u2 OR drop_bit 2 u3"

definition right_byte :: "u8 \<Rightarrow> u8 \<Rightarrow> u8" where
  "right_byte u3 u4 = push_bit 6 u3 OR u4"

named_theorems regroup \<open>the bytes and the sextets of a group\<close>

lemma less_8: "n < 8 \<longleftrightarrow> n \<in> {0, 1, 2, 3, 4, 5, 6, 7 :: nat}"
  by auto

lemma left_sextets [regroup]: "left_byte (sextet1 f) (sextet2 f s) = f"
  by (rule bit_word_eqI, auto simp: left_byte_def sextet1_def sextet2_def bit_simps less_8)
    (simp_all add: numeral_2_eq_2 numeral_3_eq_3)

lemma middle_sextets [regroup]: "middle_byte (sextet2 f s) (sextet3 s t) = s"
  by (rule bit_word_eqI) (auto simp: middle_byte_def sextet2_def sextet3_def bit_simps less_8)

lemma mask_6: "(0x3f :: u8) = mask 6"
  by (simp add: mask_eq_exp_minus_1)

lemma right_sextets [regroup]: "right_byte (sextet3 s t) (sextet4 t) = t"
  unfolding right_byte_def sextet3_def sextet4_def mask_6
  by (rule bit_word_eqI) (auto simp: bit_simps less_8)

lemma sextet_lt:
  "uint (sextet1 f) < 64" "uint (sextet2 f s) < 64" "uint (sextet3 s t) < 64" "uint (sextet4 t) < 64"
proof -
  have lt: "uint w < 64" if "take_bit 6 w = w" for w :: u8
  proof -
    have "uint w = take_bit 6 (uint w)" using that by (metis unsigned_take_bit_eq)
    then show ?thesis using take_bit_int_less_exp [of 6 "uint w"] by simp
  qed
  show "uint (sextet1 f) < 64" "uint (sextet2 f s) < 64" "uint (sextet3 s t) < 64" "uint (sextet4 t) < 64"
    by (rule lt, rule bit_word_eqI,
        (auto simp: bit_simps less_8 sextet1_def sextet2_def sextet3_def sextet4_def mask_6
          dest: bit_imp_le_length) [1])+
qed

text \<open>The four sextets of a group, 64 standing for the padding of a missing byte.\<close>

definition en_group :: "u8 \<Rightarrow> u8 \<Rightarrow> u8 \<Rightarrow> u8 list" where
  "en_group f s t =
     [sextet1 f, sextet2 f s, (if s = 0 then 64 else sextet3 s t), (if t = 0 then 64 else sextet4 t)]"

section \<open>Groups\<close>

text \<open>A string in groups of three or of four bytes, the last one filled up with zeros.\<close>

definition at0 :: "u8 list \<Rightarrow> nat \<Rightarrow> u8" where
  "at0 xs i = (if i < length xs then xs ! i else 0)"

fun threes :: "u8 list \<Rightarrow> (u8 \<times> u8 \<times> u8) list" where
  "threes [] = []"
| "threes [f] = [(f, 0, 0)]"
| "threes [f, s] = [(f, s, 0)]"
| "threes (f # s # t # xs) = (f, s, t) # threes xs"

fun fours :: "u8 list \<Rightarrow> (u8 \<times> u8 \<times> u8 \<times> u8) list" where
  "fours [] = []"
| "fours [a] = [(a, 0, 0, 0)]"
| "fours [a, b] = [(a, b, 0, 0)]"
| "fours [a, b, c] = [(a, b, c, 0)]"
| "fours (a # b # c # d # xs) = (a, b, c, d) # fours xs"

lemma byte_at_at0: "byte_at (xs @ 0 # ys) (length xs) i = Some (at0 xs i)"
  by (simp add: at0_def byte_at_text)

lemma at0_Cons [simp]: "at0 (x # xs) 0 = x" "at0 (x # xs) (Suc i) = at0 xs i" "at0 [] i = 0"
  by (simp_all add: at0_def)

lemma length_threes: "length (threes xs) = (length xs + 2) div 3"
  by (induction xs rule: threes.induct) simp_all

lemma length_fours: "length (fours xs) = (length xs + 3) div 4"
  by (induction xs rule: fours.induct) simp_all

lemma nth_threes:
  "k < length (threes xs) \<Longrightarrow> threes xs ! k = (at0 xs (3 * k), at0 xs (3 * k + 1), at0 xs (3 * k + 2))"
proof (induction xs arbitrary: k rule: threes.induct)
  case (4 f s t xs)
  then show ?case by (cases k) (simp_all add: numeral_3_eq_3)
qed simp_all

lemma nth_fours:
  "k < length (fours xs) \<Longrightarrow>
   fours xs ! k = (at0 xs (4 * k), at0 xs (4 * k + 1), at0 xs (4 * k + 2), at0 xs (4 * k + 3))"
proof (induction xs arbitrary: k rule: fours.induct)
  case (5 a b c d xs)
  then show ?case by (cases k) (simp_all add: eval_nat_numeral)
qed (simp_all add: numeral_3_eq_3)

lemma threes_less: "3 * k < length xs \<longleftrightarrow> k < length (threes xs)"
  unfolding length_threes by linarith

lemma fours_less: "4 * k < length xs \<longleftrightarrow> k < length (fours xs)"
  unfolding length_fours by linarith

lemma map_threes: "map (\<lambda>k. g (at0 xs (3 * k)) (at0 xs (3 * k + 1)) (at0 xs (3 * k + 2))) [0..<length (threes xs)]
    = map (\<lambda>(f, s, t). g f s t) (threes xs)"
  by (rule nth_equalityI) (simp_all add: nth_threes)

lemma map_fours:
  "map (\<lambda>k. g (at0 xs (4 * k)) (at0 xs (4 * k + 1)) (at0 xs (4 * k + 2)) (at0 xs (4 * k + 3))) [0..<length (fours xs)]
    = map (\<lambda>(a, b, c, d). g a b c d) (fours xs)"
  by (rule nth_equalityI) (simp_all add: nth_fours)

section \<open>Loops that append\<close>

text \<open>What the coding loops rely on: while there is room, a step appends its piece to the text.\<close>

locale text_steps =
  fixes step :: "nat \<Rightarrow> u8 list \<Rightarrow> u8 list option" and piece :: "nat \<Rightarrow> u8 list"
    and room :: "nat \<Rightarrow> nat"
  assumes step_text: "holds_text out xs \<Longrightarrow> length xs + room k < length out \<Longrightarrow>
      \<exists>out'. step k out = Some out' \<and> length out' = length out \<and> holds_text out' (xs @ piece k)"
    and piece_room: "length (piece k) \<le> room k"
begin

fun run :: "nat list \<Rightarrow> u8 list \<Rightarrow> u8 list option" where
  "run [] out = Some out"
| "run (k # ks) out = Option.bind (step k out) (run ks)"

lemma run_text:
  assumes "holds_text out xs" and "length xs + sum_list (map room ks) < length out"
  shows "\<exists>out'. run ks out = Some out' \<and> length out' = length out
    \<and> holds_text out' (xs @ concat (map piece ks))"
  using assms
proof (induction ks arbitrary: out xs)
  case (Cons k ks)
  obtain out' where out': "step k out = Some out'" "length out' = length out" "holds_text out' (xs @ piece k)"
    using step_text [of out xs k] Cons.prems by auto
  have "length (xs @ piece k) + sum_list (map room ks) < length out'"
    using Cons.prems(2) piece_room [of k] out'(2) by simp
  from Cons.IH [OF out'(3) this] show ?case using out' by auto
qed simp

lemma run_loop:
  assumes "\<And>k out. loop k out = (if k < n then Option.bind (step k out) (loop (Suc k)) else Some out)"
    and "k \<le> n"
  shows "loop k out = run [k..<n] out"
  using assms(2)
proof (induction "n - k" arbitrary: k out)
  case 0
  then show ?case by (subst assms(1)) simp
next
  case (Suc m)
  have "loop (Suc k) = run [Suc k..<n]" using Suc by (intro ext Suc.hyps(1)) simp_all
  moreover have "k < n" using Suc.hyps(2) by simp
  ultimately show ?case by (subst assms(1)) (simp add: upt_conv_Cons)
qed

end

end
