(* ===== verification/Base64.thy ===== *)
theory Base64
  imports Sextets
begin

text \<open>
  \<open>encode/base64.c\<close>: the two codings between C strings and the two functions of the Lua library,
  which copy the string without its terminator: the bytes that follow the copy in memory are an
  argument of the model.  The encoder writes the text of the standard; the decoder reads + as the
  sextet 0 and drops the bytes of a group that ends in zero sextets, so the round trip holds exactly
  on the strings without such sextets.
\<close>

section \<open>Model\<close>

definition char_index :: "int \<Rightarrow> int" where
  "char_index c =
     (if c \<le> 25 then 65 + c else if c \<le> 51 then 71 + c else if c \<le> 61 then (c - 52) + 48
      else if c = 62 then 43 else if c = 63 then 47 else 61)"

definition ichar_index :: "int \<Rightarrow> int" where
  "ichar_index c =
     (if 65 \<le> c \<and> c \<le> 90 then c - 65 else if 97 \<le> c \<and> c \<le> 122 then c - 97 + 26
      else if 48 \<le> c \<and> c \<le> 57 then c - 48 + 52 else if c = 47 then 63 else 0)"

text \<open>The bytes a step prints: for four characters read, and for three bytes read.\<close>

definition de_piece :: "u8 \<Rightarrow> u8 \<Rightarrow> u8 \<Rightarrow> u8 \<Rightarrow> u8 list" where
  "de_piece c1 c2 c3 c4 =
     (let u1 = word_of_int (ichar_index (uint c1)); u2 = word_of_int (ichar_index (uint c2));
          u3 = word_of_int (ichar_index (uint c3)); u4 = word_of_int (ichar_index (uint c4))
      in if u4 = 0 then [left_byte u1 u2, middle_byte u2 u3]
         else if u3 = 0 then [left_byte u1 u2]
         else [left_byte u1 u2, middle_byte u2 u3, right_byte u3 u4])"

definition base64_char :: "u8 \<Rightarrow> u8" where
  "base64_char i = word_of_int (char_index (uint i))"

definition en_piece :: "u8 \<Rightarrow> u8 \<Rightarrow> u8 \<Rightarrow> u8 list" where
  "en_piece f s t = map base64_char (en_group f s t)"

function de_base64_loop :: "u8 list \<Rightarrow> nat \<Rightarrow> nat \<Rightarrow> u8 list \<Rightarrow> u8 list option" where
  "de_base64_loop inp len i out =
     (if i < len then do {
        c1 \<leftarrow> byte_at inp len i;
        c2 \<leftarrow> byte_at inp len (i + 1);
        c3 \<leftarrow> byte_at inp len (i + 2);
        c4 \<leftarrow> byte_at inp len (i + 3);
        out \<leftarrow> sprintf_append out (de_piece c1 c2 c3 c4);
        de_base64_loop inp len (i + 4) out
      } else Some out)"
  by pat_completeness auto
termination by (relation "measure (\<lambda>(inp, len, i, out). len - i)") auto

function en_base64_loop :: "u8 list \<Rightarrow> nat \<Rightarrow> nat \<Rightarrow> u8 list \<Rightarrow> u8 list option" where
  "en_base64_loop inp len i out =
     (if i < len then do {
        f \<leftarrow> byte_at inp len i;
        s \<leftarrow> byte_at inp len (i + 1);
        t \<leftarrow> byte_at inp len (i + 2);
        out \<leftarrow> sprintf_append out (en_piece f s t);
        en_base64_loop inp len (i + 3) out
      } else Some out)"
  by pat_completeness auto
termination by (relation "measure (\<lambda>(inp, len, i, out). len - i)") auto

declare de_base64_loop.simps [simp del] en_base64_loop.simps [simp del]

definition de_base64 :: "u8 list \<Rightarrow> u8 list \<Rightarrow> u8 list option" where
  "de_base64 inp out = Option.bind (mem_len inp) (\<lambda>len. de_base64_loop inp len 0 out)"

definition en_base64 :: "u8 list \<Rightarrow> u8 list \<Rightarrow> u8 list option" where
  "en_base64 inp out = Option.bind (mem_len inp) (\<lambda>len. en_base64_loop inp len 0 out)"

text \<open>The string a is copied to a block of its length, followed in memory by the bytes next; the result
  is the C string at the start of the output block.\<close>

definition push_cstr :: "u8 list \<Rightarrow> u8 list option" where
  "push_cstr out = map_option (\<lambda>n. take n out) (mem_len out)"

definition l_base64encode :: "u8 list \<Rightarrow> u8 list \<Rightarrow> u8 list option" where
  "l_base64encode a nxt = Option.bind (en_base64 (a @ nxt) (replicate (length a * 3) 0)) push_cstr"

definition l_base64decode :: "u8 list \<Rightarrow> u8 list \<Rightarrow> u8 list option" where
  "l_base64decode a nxt = Option.bind (de_base64 (a @ nxt) (replicate (length a) 0)) push_cstr"

section \<open>The loops as steps\<close>

text \<open>The standard: the sextets of a group are the digits of a number in base 64, written with the
  characters of the alphabet; a missing byte gives an equals sign.\<close>

definition base64_alphabet :: "u8 list" where
  "base64_alphabet = bytes ''ABCDEFGHIJKLMNOPQRSTUVWXYZabcdefghijklmnopqrstuvwxyz0123456789+/''"

definition group_number :: "u8 \<Rightarrow> u8 \<Rightarrow> u8 \<Rightarrow> nat" where
  "group_number f s t = (unat f * 256 + unat s) * 256 + unat t"

definition base64_digit :: "nat \<Rightarrow> nat \<Rightarrow> u8" where
  "base64_digit n k = base64_alphabet ! (n div 64 ^ k mod 64)"

fun base64 :: "u8 list \<Rightarrow> u8 list" where
  "base64 (f # s # t # xs) = map (base64_digit (group_number f s t)) [3, 2, 1, 0] @ base64 xs"
| "base64 [f, s] = map (base64_digit (group_number f s 0)) [3, 2, 1] @ bytes ''=''"
| "base64 [f] = map (base64_digit (group_number f 0 0)) [3, 2] @ bytes ''==''"
| "base64 [] = []"

text \<open>The strings the decoder gives back: no sextet is 62, and in a complete group the last two are not
  0 either.\<close>

fun base64_safe :: "u8 list \<Rightarrow> bool" where
  "base64_safe (f # s # t # xs) \<longleftrightarrow> sextet1 f \<noteq> 62 \<and> sextet2 f s \<noteq> 62
     \<and> sextet3 s t \<notin> {0, 62} \<and> sextet4 t \<notin> {0, 62} \<and> base64_safe xs"
| "base64_safe [f, s] \<longleftrightarrow> sextet1 f \<noteq> 62 \<and> sextet2 f s \<noteq> 62 \<and> sextet3 s 0 \<noteq> 62"
| "base64_safe [f] \<longleftrightarrow> sextet1 f \<noteq> 62"
| "base64_safe [] \<longleftrightarrow> True"

lemma length_en_piece: "length (en_piece f s t) = 4"
  by (simp add: en_piece_def en_group_def)

lemma length_de_piece: "length (de_piece a b c d) \<le> 3"
  by (simp add: de_piece_def Let_def)

text \<open>A character of the output is never a zero byte.\<close>

lemma char_index_range: "43 \<le> char_index i \<and> char_index i \<le> 122" if "0 \<le> i"
  using that by (auto simp: char_index_def)

lemma base64_char_nonzero: "base64_char i \<noteq> 0"
proof -
  have r: "43 \<le> char_index (uint i)" "char_index (uint i) \<le> 122" using char_index_range [of "uint i"] by simp_all
  then have "uint (base64_char i) = char_index (uint i)"
    unfolding base64_char_def by (simp add: uint_word_of_int)
  then show ?thesis using r(1) by auto
qed

lemma c_str_en_piece: "c_str (en_piece f s t) = en_piece f s t"
  by (rule c_str_id) (auto simp: en_piece_def base64_char_nonzero)

interpretation en_steps: text_steps
  "\<lambda>k out. sprintf_append out (en_piece (at0 xs (3 * k)) (at0 xs (3 * k + 1)) (at0 xs (3 * k + 2)))"
  "\<lambda>k. en_piece (at0 xs (3 * k)) (at0 xs (3 * k + 1)) (at0 xs (3 * k + 2))" "\<lambda>k. 4" for xs
proof
  fix out ys and k :: nat
  assume "holds_text out ys" "length ys + 4 < length out"
  then show "\<exists>out'. sprintf_append out (en_piece (at0 xs (3 * k)) (at0 xs (3 * k + 1)) (at0 xs (3 * k + 2))) = Some out'
      \<and> length out' = length out
      \<and> holds_text out' (ys @ en_piece (at0 xs (3 * k)) (at0 xs (3 * k + 1)) (at0 xs (3 * k + 2)))"
    using append_text [of out ys "en_piece (at0 xs (3 * k)) (at0 xs (3 * k + 1)) (at0 xs (3 * k + 2))"]
    by (simp add: length_en_piece c_str_en_piece)
qed (simp add: length_en_piece)

interpretation de_steps: text_steps
  "\<lambda>k out. sprintf_append out (de_piece (at0 xs (4 * k)) (at0 xs (4 * k + 1)) (at0 xs (4 * k + 2)) (at0 xs (4 * k + 3)))"
  "\<lambda>k. c_str (de_piece (at0 xs (4 * k)) (at0 xs (4 * k + 1)) (at0 xs (4 * k + 2)) (at0 xs (4 * k + 3)))" "\<lambda>k. 3" for xs
proof
  fix out ys and k :: nat
  let ?p = "de_piece (at0 xs (4 * k)) (at0 xs (4 * k + 1)) (at0 xs (4 * k + 2)) (at0 xs (4 * k + 3))"
  show "length (c_str ?p) \<le> 3"
    using length_takeWhile_le [of "\<lambda>b. b \<noteq> 0" ?p] length_de_piece unfolding c_str_def by (rule le_trans)
  assume "holds_text out ys" "length ys + 3 < length out"
  moreover have "length ?p \<le> 3" by (rule length_de_piece)
  ultimately show "\<exists>out'. sprintf_append out ?p = Some out' \<and> length out' = length out \<and> holds_text out' (ys @ c_str ?p)"
    by (intro append_text) simp_all
qed

lemma en_loop_run: "en_base64_loop (xs @ 0 # ys) (length xs) 0 = en_steps.run xs [0..<length (threes xs)]"
proof
  fix out
  have "(\<lambda>k. en_base64_loop (xs @ 0 # ys) (length xs) (3 * k)) 0 out = en_steps.run xs [0..<length (threes xs)] out"
    by (rule en_steps.run_loop, subst en_base64_loop.simps)
      (simp_all add: byte_at_at0 threes_less add.commute del: add_2_eq_Suc')
  then show "en_base64_loop (xs @ 0 # ys) (length xs) 0 out = en_steps.run xs [0..<length (threes xs)] out" by simp
qed

lemma de_loop_run: "de_base64_loop (xs @ 0 # ys) (length xs) 0 = de_steps.run xs [0..<length (fours xs)]"
proof
  fix out
  have "(\<lambda>k. de_base64_loop (xs @ 0 # ys) (length xs) (4 * k)) 0 out = de_steps.run xs [0..<length (fours xs)] out"
    by (rule de_steps.run_loop, subst de_base64_loop.simps)
      (simp_all add: byte_at_at0 fours_less add.commute del: add_2_eq_Suc')
  then show "de_base64_loop (xs @ 0 # ys) (length xs) 0 out = de_steps.run xs [0..<length (fours xs)] out" by simp
qed

lemma push_text: "holds_text out xs \<Longrightarrow> push_cstr out = Some xs"
  using holds_text_str by (fastforce simp: push_cstr_def holds_text_def)

lemma encode_text:
  assumes "0 \<notin> set xs" and "2 \<le> length xs"
  shows "l_base64encode xs (0 # ys) = Some (concat (map (\<lambda>(f, s, t). en_piece f s t) (threes xs)))"
proof -
  have "holds_text (replicate (length xs * 3) 0) []" using assms(2) by (intro holds_text_zero) linarith
  moreover have "length (threes xs) * 4 < length xs * 3" using assms(2) unfolding length_threes by linarith
  ultimately obtain out where "en_base64_loop (xs @ 0 # ys) (length xs) 0 (replicate (length xs * 3) 0) = Some out"
    "holds_text out (concat (map (\<lambda>(f, s, t). en_piece f s t) (threes xs)))"
    using en_steps.run_text [of "replicate (length xs * 3) 0" "[]" "[0..<length (threes xs)]" xs]
    unfolding en_loop_run map_threes [symmetric] by (auto simp: sum_list_triv)
  then show ?thesis using assms(1) by (simp add: l_base64encode_def en_base64_def mem_len_text push_text)
qed

lemma decode_text:
  assumes "0 \<notin> set xs" and "xs \<noteq> []" and "4 dvd length xs"
  shows "l_base64decode xs (0 # ys) = Some (concat (map (\<lambda>(a, b, c, d). c_str (de_piece a b c d)) (fours xs)))"
proof -
  have "holds_text (replicate (length xs) 0) []" using assms(2) by (intro holds_text_zero) simp
  moreover have "length (fours xs) * 3 < length xs"
  proof -
    obtain n where "length xs = 4 * n" using assms(3) by (elim dvdE)
    moreover have "0 < length xs" using assms(2) by simp
    ultimately show ?thesis unfolding length_fours by presburger
  qed
  ultimately obtain out where "de_base64_loop (xs @ 0 # ys) (length xs) 0 (replicate (length xs) 0) = Some out"
    "holds_text out (concat (map (\<lambda>(a, b, c, d). c_str (de_piece a b c d)) (fours xs)))"
    using de_steps.run_text [of "replicate (length xs) 0" "[]" "[0..<length (fours xs)]" xs]
    unfolding de_loop_run map_fours [symmetric] by (auto simp: sum_list_triv)
  then show ?thesis using assms(1) by (simp add: l_base64decode_def de_base64_def mem_len_text push_text)
qed

section \<open>The standard's text\<close>

lemma alphabet_nth: "k < 64 \<Longrightarrow> base64_alphabet ! k = word_of_int (char_index (int k))"
proof -
  have "list_all (\<lambda>k. base64_alphabet ! k = word_of_int (char_index (int k))) [0..<64]" by code_simp
  then show "k < 64 \<Longrightarrow> base64_alphabet ! k = word_of_int (char_index (int k))" by (simp add: list_all_iff)
qed

lemma alphabet_sextet: "unat w < 64 \<Longrightarrow> base64_alphabet ! unat w = base64_char w"
  by (simp add: alphabet_nth base64_char_def)

lemma unat_or: "(\<And>n. \<not> (bit a n \<and> bit b n)) \<Longrightarrow> unat (a OR b) = unat a + unat (b :: u8)"
proof -
  assume "\<And>n. \<not> (bit a n \<and> bit b n)"
  then have "uint a + uint b = uint a OR uint b" by (intro disjunctive_add) (simp add: bit_uint_iff)
  then have "uint (a OR b) = uint a + uint b" by (simp add: unsigned_or_eq)
  then show ?thesis by (metis nat_add_distrib unat_eq_nat_uint uint_ge_0)
qed

lemma unat_sextets:
  "unat (sextet1 f) = unat f div 4"
  "unat (sextet2 f s) = unat f mod 4 * 16 + unat s div 16"
  "unat (sextet3 s t) = unat s mod 16 * 4 + unat t div 64"
  "unat (sextet4 t) = unat t mod 64"
proof -
  show "unat (sextet1 f) = unat f div 4"
    unfolding sextet1_def unat_drop_bit_eq by (simp add: drop_bit_eq_div)
  have "unat (sextet2 f s) = unat (drop_bit 2 (push_bit 6 f)) + unat (drop_bit 4 s)"
    unfolding sextet2_def by (rule unat_or) (auto simp: bit_simps dest: bit_imp_le_length)
  then show "unat (sextet2 f s) = unat f mod 4 * 16 + unat s div 16"
    unfolding unat_drop_bit_eq unsigned_push_bit_eq unfolding drop_bit_eq_div take_bit_eq_mod push_bit_eq_mult
    using mod_mult_mult2 [of "unat f" 64 4] by simp
  have "unat (sextet3 s t) = unat (drop_bit 2 (push_bit 4 s)) + unat (drop_bit 6 t)"
    unfolding sextet3_def by (rule unat_or) (auto simp: bit_simps dest: bit_imp_le_length)
  then show "unat (sextet3 s t) = unat s mod 16 * 4 + unat t div 64"
    unfolding unat_drop_bit_eq unsigned_push_bit_eq unfolding drop_bit_eq_div take_bit_eq_mod push_bit_eq_mult
    using mod_mult_mult2 [of "unat s" 16 16] by simp
  show "unat (sextet4 t) = unat t mod 64"
    unfolding sextet4_def mask_6 take_bit_eq_mask [symmetric] unsigned_take_bit_eq by (simp add: take_bit_eq_mod)
qed

lemma unat_less_64: "uint w < 64 \<Longrightarrow> unat w < 64" for w :: u8
  by (metis of_nat_less_iff of_nat_numeral uint_nat)

lemma sextet_unat_lt:
  "unat (sextet1 f) < 64" "unat (sextet2 f s) < 64" "unat (sextet3 s t) < 64" "unat (sextet4 t) < 64"
  by (intro unat_less_64 sextet_lt)+

lemma digits_256:
  fixes f s t :: nat
  assumes "f < 256" "s < 256" "t < 256"
  shows "((f * 256 + s) * 256 + t) div 262144 mod 64 = f div 4"
    "((f * 256 + s) * 256 + t) div 4096 mod 64 = f mod 4 * 16 + s div 16"
    "((f * 256 + s) * 256 + t) div 64 mod 64 = s mod 16 * 4 + t div 64"
    "((f * 256 + s) * 256 + t) mod 64 = t mod 64"
proof -
  have d: "((f * 256 + s) * 256 + t) div 256 = f * 256 + s" "(f * 256 + s) div 256 = f" using assms by simp_all
  show "((f * 256 + s) * 256 + t) div 262144 mod 64 = f div 4"
    using d div_mult2_eq [of "(f * 256 + s) * 256 + t" 256 1024] div_mult2_eq [of "f * 256 + s" 256 4] assms by simp
  have m: "x mod 64 = 4 * (x div 4 mod 16) + x mod 4" for x :: nat using mod_mult2_eq [of x 4 16] by simp
  have q: "(a * 4 + t div 64) div 4 = a" "(a * 4 + t div 64) mod 4 = t div 64" for a using assms by simp_all
  have "(f * 256 + s) div 16 = f * 16 + s div 16" by linarith
  moreover have "(f * 16 + s div 16) mod 64 = f mod 4 * 16 + s div 16"
    using mod_mult2_eq [of "f * 16 + s div 16" 16 4] assms by simp
  ultimately show "((f * 256 + s) * 256 + t) div 4096 mod 64 = f mod 4 * 16 + s div 16"
    using d div_mult2_eq [of "(f * 256 + s) * 256 + t" 256 16] by simp
  have "((f * 256 + s) * 256 + t) div 64 = (f * 256 + s) * 4 + t div 64" by linarith
  moreover have "(f * 256 + s) mod 16 = s mod 16" 
    using mod_mult_self1 [of s "f * 16" 16] by (simp add: ac_simps)
  then have "((f * 256 + s) * 4 + t div 64) mod 64 = s mod 16 * 4 + t div 64"
    unfolding m q by simp
  ultimately show "((f * 256 + s) * 256 + t) div 64 mod 64 = s mod 16 * 4 + t div 64" by simp
  have "(f * 256 + s) * 256 + t = t + ((f * 256 + s) * 4) * 64" by simp
  then show "((f * 256 + s) * 256 + t) mod 64 = t mod 64" by (simp only: mod_mult_self1)
qed
lemma group_digits:
  "group_number f s t div 64 ^ 3 mod 64 = unat (sextet1 f)" "group_number f s t div 64 ^ 2 mod 64 = unat (sextet2 f s)"
  "group_number f s t div 64 ^ 1 mod 64 = unat (sextet3 s t)" "group_number f s t div 64 ^ 0 mod 64 = unat (sextet4 t)"
proof -
  have "unat f < 256" "unat s < 256" "unat t < 256"
    using unsigned_less [of f] unsigned_less [of s] unsigned_less [of t] by simp_all
  note d = digits_256 [OF this, folded unat_sextets group_number_def]
  show "group_number f s t div 64 ^ 3 mod 64 = unat (sextet1 f)" "group_number f s t div 64 ^ 2 mod 64 = unat (sextet2 f s)"
    "group_number f s t div 64 ^ 1 mod 64 = unat (sextet3 s t)" "group_number f s t div 64 ^ 0 mod 64 = unat (sextet4 t)"
    using d by simp_all
qed

lemma base64_digits:
  "base64_digit (group_number f s t) 3 = base64_char (sextet1 f)"
  "base64_digit (group_number f s t) 2 = base64_char (sextet2 f s)"
  "base64_digit (group_number f s t) 1 = base64_char (sextet3 s t)"
  "base64_digit (group_number f s t) 0 = base64_char (sextet4 t)"
  unfolding base64_digit_def group_digits by (simp_all add: alphabet_sextet sextet_unat_lt)

lemma base64_pieces: "0 \<notin> set xs \<Longrightarrow> base64 xs = concat (map (\<lambda>(f, s, t). en_piece f s t) (threes xs))"
proof (induction xs rule: base64.induct)
  case (1 f s t xs)
  then show ?case by (simp add: base64_digits base64_digits(3) [simplified] en_piece_def en_group_def)
next
  case (2 f s)
  then show ?case
    by (simp add: base64_digits base64_digits(3) [simplified] en_piece_def en_group_def base64_char_def char_index_def bytes_def)
next
  case (3 f)
  then show ?case
    by (simp add: base64_digits en_piece_def en_group_def base64_char_def char_index_def bytes_def)
qed simp

section \<open>The round trip\<close>

text \<open>The sextets a decoded byte is made of.\<close>

lemma take_6: "unat u < 64 \<Longrightarrow> u = take_bit 6 u" for u :: u8
  by (rule word_unat_eq_iff [THEN iffD2]) (simp add: unsigned_take_bit_eq take_bit_nat_eq_self)

lemma sextet_left:
  assumes "unat u1 < 64" "unat u2 < 64"
  shows "sextet1 (left_byte u1 u2) = u1"
proof -
  have "sextet1 (left_byte (take_bit 6 u1) (take_bit 6 u2)) = take_bit 6 u1"
    by (rule bit_word_eqI) (auto simp: sextet1_def left_byte_def bit_simps less_8 dest: bit_imp_le_length)
  then show ?thesis using assms take_6 by metis
qed

lemma sextet_left_middle:
  assumes "unat u2 < 64" "unat u3 < 64"
  shows "sextet2 (left_byte u1 u2) (middle_byte u2 u3) = u2"
proof -
  have "sextet2 (left_byte u1 (take_bit 6 u2)) (middle_byte (take_bit 6 u2) (take_bit 6 u3)) = take_bit 6 u2"
    by (rule bit_word_eqI) (auto simp: sextet2_def left_byte_def middle_byte_def bit_simps less_8 dest: bit_imp_le_length)
  then show ?thesis using assms take_6 by metis
qed

lemma sextet_middle: "sextet3 (middle_byte u2 0) 0 = 0"
  by (rule bit_word_eqI) (auto simp: sextet3_def middle_byte_def bit_simps less_8)

text \<open>What the decoder reads of a character: the sextet, but 0 for the plus sign and the padding.\<close>

definition seen_sextet :: "u8 \<Rightarrow> u8" where
  "seen_sextet u = (if u = 62 \<or> u = 64 then 0 else u)"

lemma ichar_char: "uint u \<le> 64 \<Longrightarrow> word_of_int (ichar_index (uint (base64_char u))) = seen_sextet u"
proof -
  assume u: "uint u \<le> 64"
  have r: "43 \<le> char_index (uint u)" "char_index (uint u) \<le> 122" using char_index_range [of "uint u"] by simp_all
  then have "uint (base64_char u) = char_index (uint u)"
    unfolding base64_char_def by (simp add: uint_word_of_int)
  moreover have "ichar_index (char_index (uint u)) = (if uint u = 62 \<or> uint u = 64 then 0 else uint u)"
    using u by (auto simp: char_index_def ichar_index_def)
  moreover have "uint u = 62 \<longleftrightarrow> u = 62" "uint u = 64 \<longleftrightarrow> u = 64" by (simp_all add: word_uint_eq_iff)
  ultimately show ?thesis by (simp add: seen_sextet_def)
qed

text \<open>What decoding an encoded group prints.\<close>

definition coded_group :: "u8 \<Rightarrow> u8 \<Rightarrow> u8 \<Rightarrow> u8 list" where
  "coded_group f s t = c_str (case en_piece f s t of [a, b, c, d] \<Rightarrow> de_piece a b c d | _ \<Rightarrow> [])"

lemma seen_small: "unat u \<le> 64 \<Longrightarrow> unat (seen_sextet u) < 64"
  by (auto simp: seen_sextet_def word_unat_eq_iff)

lemma coded_group_printed:
  "coded_group f s t = c_str
     (let u1 = seen_sextet (sextet1 f); u2 = seen_sextet (sextet2 f s);
          u3 = seen_sextet (if s = 0 then 64 else sextet3 s t); u4 = seen_sextet (if t = 0 then 64 else sextet4 t)
      in if u4 = 0 then [left_byte u1 u2, middle_byte u2 u3]
         else if u3 = 0 then [left_byte u1 u2]
         else [left_byte u1 u2, middle_byte u2 u3, right_byte u3 u4])"
  using sextet_lt(1) [of f] sextet_lt(2) [of f s] sextet_lt(3) [of s t] sextet_lt(4) [of t]
  by (simp add: coded_group_def en_piece_def en_group_def de_piece_def ichar_char)

lemma seen_64 [simp]: "seen_sextet 64 = 0" "seen_sextet 0 = 0"
  by (simp_all add: seen_sextet_def)

lemma seen_less: "unat (seen_sextet (sextet1 f)) < 64" "unat (seen_sextet (sextet2 f s)) < 64"
  "unat (seen_sextet (sextet3 s t)) < 64" "unat (seen_sextet (sextet4 t)) < 64"
  using sextet_unat_lt by (auto intro!: seen_small less_imp_le)

lemma c_str_exact: "0 \<notin> set ys \<Longrightarrow> length xs = length ys \<Longrightarrow> c_str xs = ys \<longleftrightarrow> xs = ys"
  by (metis c_str_def c_str_id length_takeWhile_le takeWhile_eq_take take_all order_refl)

lemma seen_eq: "seen_sextet u = u \<longleftrightarrow> u \<noteq> 62 \<and> u \<noteq> 64"
  by (auto simp: seen_sextet_def)

lemma sextet_not_64: "sextet1 f \<noteq> 64" "sextet2 f s \<noteq> 64" "sextet3 s t \<noteq> 64" "sextet4 t \<noteq> 64"
  using sextet_unat_lt(1) [of f] sextet_unat_lt(2) [of f s] sextet_unat_lt(3) [of s t] sextet_unat_lt(4) [of t]
  by auto

lemma seen_zero: "seen_sextet u = 0 \<longleftrightarrow> u = 0 \<or> u = 62 \<or> u = 64"
  by (auto simp: seen_sextet_def)

lemma length_c_str: "length (c_str xs) \<le> length xs"
  unfolding c_str_def by (rule length_takeWhile_le)

lemma coded_group_length: "length (coded_group f s t) \<le> 3" "length (coded_group f s 0) \<le> 2"
  "length (coded_group f 0 0) \<le> 1"
proof -
  show "length (coded_group f s t) \<le> 3"
    unfolding coded_group_printed by (rule le_trans [OF length_c_str]) (simp add: Let_def)
  show "length (coded_group f s 0) \<le> 2"
    unfolding coded_group_printed by (rule le_trans [OF length_c_str]) (simp add: Let_def)
  have "middle_byte (seen_sextet (sextet2 f 0)) 0 = 0"
  proof -
    have "middle_byte (sextet2 f 0) 0 = 0"
      by (rule bit_word_eqI) (auto simp: middle_byte_def sextet2_def bit_simps less_8)
    then show ?thesis by (simp add: seen_sextet_def middle_byte_def)
  qed
  then show "length (coded_group f 0 0) \<le> 1"
    unfolding coded_group_printed by (simp add: Let_def c_str_def)
qed

lemma coded_three:
  assumes "f \<noteq> 0" "s \<noteq> 0" "t \<noteq> 0"
  shows "coded_group f s t = [f, s, t] \<longleftrightarrow> base64_safe [f, s, t]"
proof -
  let ?u1 = "seen_sextet (sextet1 f)" and ?u2 = "seen_sextet (sextet2 f s)" and ?u3 = "seen_sextet (sextet3 s t)" and ?u4 = "seen_sextet (sextet4 t)"
  show ?thesis
  proof (cases "?u3 = 0 \<or> ?u4 = 0")
    case True
    then have "length (coded_group f s t) \<le> 2"
      unfolding coded_group_printed by (intro le_trans [OF length_c_str]) (auto simp: Let_def assms)
    then have "coded_group f s t \<noteq> [f, s, t]" by auto
    then show ?thesis using True by (auto simp: seen_zero sextet_not_64)
  next
    case False
    then have g: "coded_group f s t = c_str [left_byte ?u1 ?u2, middle_byte ?u2 ?u3, right_byte ?u3 ?u4]"
      unfolding coded_group_printed by (simp add: Let_def assms)
    have u: "?u3 = sextet3 s t" "?u4 = sextet4 t" "sextet3 s t \<notin> {0, 62}" "sextet4 t \<notin> {0, 62}"
      using False by (auto simp: seen_sextet_def)
    show ?thesis
    proof
      assume "coded_group f s t = [f, s, t]"
      then have "[left_byte ?u1 ?u2, middle_byte ?u2 ?u3, right_byte ?u3 ?u4] = [f, s, t]"
        unfolding g using assms by (subst (asm) c_str_exact) simp_all
      then have "sextet1 f = ?u1" "sextet2 f s = ?u2"
        using sextet_left [of ?u1 ?u2] sextet_left_middle [of ?u2 ?u3 ?u1] seen_less by auto
      then show "base64_safe [f, s, t]" using u by (auto simp: seen_eq dest!: sym [of _ "seen_sextet _"])
    next
      assume "base64_safe [f, s, t]"
      then have "?u1 = sextet1 f" "?u2 = sextet2 f s" by (simp_all add: seen_eq sextet_not_64)
      then have "coded_group f s t = c_str [f, s, t]" unfolding g u by (simp add: regroup)
      then show "coded_group f s t = [f, s, t]" using assms by (simp add: c_str_id)
    qed
  qed
qed

lemma coded_two:
  assumes "f \<noteq> 0" "s \<noteq> 0"
  shows "coded_group f s 0 = [f, s] \<longleftrightarrow> base64_safe [f, s]"
proof -
  let ?u1 = "seen_sextet (sextet1 f)" and ?u2 = "seen_sextet (sextet2 f s)" and ?u3 = "seen_sextet (sextet3 s 0)"
  have g: "coded_group f s 0 = c_str [left_byte ?u1 ?u2, middle_byte ?u2 ?u3]"
    unfolding coded_group_printed by (simp add: Let_def assms)
  show ?thesis
  proof
    assume "coded_group f s 0 = [f, s]"
    then have e: "left_byte ?u1 ?u2 = f" "middle_byte ?u2 ?u3 = s"
      unfolding g using assms by (auto simp: c_str_exact)
    then have "sextet1 f = ?u1" "sextet2 f s = ?u2"
      using sextet_left [of ?u1 ?u2] sextet_left_middle [of ?u2 ?u3 ?u1] seen_less by auto
    moreover have "sextet3 s 0 \<noteq> 62"
    proof
      assume s: "sextet3 s 0 = 62"
      then have "sextet3 s 0 = 0" using e(2) sextet_middle [of ?u2] by (simp add: seen_sextet_def)
      then show False using s by simp
    qed
    ultimately show "base64_safe [f, s]" by (auto simp: seen_eq dest!: sym [of _ "seen_sextet _"])
  next
    assume "base64_safe [f, s]"
    then have "?u1 = sextet1 f" "?u2 = sextet2 f s" "?u3 = sextet3 s 0" by (simp_all add: seen_eq sextet_not_64)
    then have "coded_group f s 0 = c_str [f, s]" unfolding g by (simp add: regroup)
    then show "coded_group f s 0 = [f, s]" using assms by (simp add: c_str_id)
  qed
qed

lemma coded_one:
  assumes "f \<noteq> 0"
  shows "coded_group f 0 0 = [f] \<longleftrightarrow> base64_safe [f]"
proof -
  let ?u1 = "seen_sextet (sextet1 f)" and ?u2 = "seen_sextet (sextet2 f 0)"
  have z: "sextet2 f 0 \<noteq> 62"
  proof
    assume "sextet2 f 0 = 62"
    then have "unat f mod 4 * 16 = 62" using unat_sextets(2) [of f 0] by simp
    then show False by presburger
  qed
  then have u2: "?u2 = sextet2 f 0" by (simp add: seen_eq sextet_not_64)
  have "middle_byte (sextet2 f 0) 0 = 0"
    by (rule bit_word_eqI) (auto simp: middle_byte_def sextet2_def bit_simps less_8)
  then have g: "coded_group f 0 0 = c_str [left_byte ?u1 ?u2]"
    unfolding coded_group_printed by (simp add: Let_def u2 c_str_def)
  show ?thesis
  proof
    assume "coded_group f 0 0 = [f]"
    then have "left_byte ?u1 ?u2 = f" unfolding g using assms by (subst (asm) c_str_exact) auto
    then have "sextet1 f = ?u1" using sextet_left [of ?u1 ?u2] seen_less by auto
    then show "base64_safe [f]" by (auto simp: seen_eq dest!: sym [of _ "seen_sextet _"])
  next
    assume "base64_safe [f]"
    then have "?u1 = sextet1 f" by (simp add: seen_eq sextet_not_64)
    then have "coded_group f 0 0 = c_str [f]" unfolding g u2 by (simp add: regroup)
    then show "coded_group f 0 0 = [f]" using assms by (simp add: c_str_id)
  qed
qed

lemma decode_groups:
  "concat (map (\<lambda>(a, b, c, d). c_str (de_piece a b c d)) (fours (concat (map (\<lambda>(f, s, t). en_piece f s t) gs))))
    = concat (map (\<lambda>(f, s, t). coded_group f s t) gs)"
proof (induction gs)
  case (Cons g gs)
  obtain f s t where "g = (f, s, t)" by (cases g)
  moreover obtain a b c d where "en_piece f s t = [a, b, c, d]" by (simp add: en_piece_def en_group_def)
  ultimately show ?case using Cons by (simp add: coded_group_def)
qed simp

lemma coded_length: "length (concat (map (\<lambda>(f, s, t). coded_group f s t) (threes xs))) \<le> length xs"
proof (induction xs rule: threes.induct)
  case (4 f s t xs)
  then show ?case using coded_group_length(1) [of f s t] by simp
qed (use coded_group_length in \<open>simp_all add: numeral_2_eq_2\<close>)

lemma coded_safe:
  "0 \<notin> set xs \<Longrightarrow> concat (map (\<lambda>(f, s, t). coded_group f s t) (threes xs)) = xs \<longleftrightarrow> base64_safe xs"
proof (induction xs rule: threes.induct)
  case (4 f s t xs)
  let ?rest = "concat (map (\<lambda>(f, s, t). coded_group f s t) (threes xs))"
  have "coded_group f s t @ ?rest = [f, s, t] @ xs \<longleftrightarrow> coded_group f s t = [f, s, t] \<and> ?rest = xs"
  proof
    assume e: "coded_group f s t @ ?rest = [f, s, t] @ xs"
    then have "length (coded_group f s t) + length ?rest = 3 + length xs" by (metis length_append length_Cons list.size(3) numeral_3_eq_3)
    then have "length (coded_group f s t) = length [f, s, t]"
      using coded_group_length(1) [of f s t] coded_length [of xs] by simp
    with e show "coded_group f s t = [f, s, t] \<and> ?rest = xs" by (metis append_eq_append_conv)
  qed simp
  then show ?case using 4 coded_three [of f s t] by auto
qed (auto simp: coded_one coded_two)

lemma base64_nonzero: "0 \<notin> set xs \<Longrightarrow> 0 \<notin> set (base64 xs)"
  by (auto simp: base64_pieces en_piece_def base64_char_nonzero)

lemma length_base64: "length (base64 xs) = 4 * ((length xs + 2) div 3)"
proof (induction xs rule: base64.induct)
  case (1 f s t xs)
  have "(n + 5) div 3 = Suc ((n + 2) div 3)" for n :: nat by presburger
  from this [of "length xs"] show ?case using 1 by (simp add: add.commute)
qed (simp_all add: bytes_def)

lemma decode_base64:
  assumes "0 \<notin> set xs" and "xs \<noteq> []"
  shows "\<exists>zs. l_base64decode (base64 xs) (0 # ys) = Some zs \<and> (zs = xs \<longleftrightarrow> base64_safe xs)"
proof -
  have "4 dvd length (base64 xs)" by (simp add: length_base64)
  moreover have "base64 xs \<noteq> []" using assms(2) length_base64 [of xs] by (cases xs) auto
  ultimately have "l_base64decode (base64 xs) (0 # ys) = Some (concat (map (\<lambda>(f, s, t). coded_group f s t) (threes xs)))"
    using decode_text [OF base64_nonzero [OF assms(1)]] assms(1) by (simp add: base64_pieces decode_groups)
  then show ?thesis using coded_safe [OF assms(1)] by simp
qed

text \<open>One character more than the output block of a single byte has room for; and the copy of a string
  that is not followed by a zero byte is read on past its end.\<close>

lemma encode_one_overflows:
  assumes "f \<noteq> 0"
  shows "l_base64encode [f] (0 # ys) = None"
proof -
  have "holds_text (replicate 3 0) []" by (rule holds_text_zero) simp
  then have "sprintf_append (replicate 3 0) (en_piece f 0 0) = None"
    by (rule append_overflow) (simp add: length_en_piece)
  then show ?thesis
    using assms byte_at_at0 [of "[f]" ys]
    by (simp add: l_base64encode_def en_base64_def en_base64_loop.simps [of "f # 0 # ys"])
qed

lemma encode_unterminated: "0 \<notin> set xs \<Longrightarrow> l_base64encode xs [] = None"
  by (simp add: l_base64encode_def en_base64_def mem_len_None)

section \<open>Properties\<close>



end
