(* ===== verification/Uuencode.thy ===== *)
theory Uuencode
  imports Base64
begin

text \<open>
  \<open>encode/uuencode.c\<close>: the two codings between C strings, with the line headers the encoder writes
  and the decoder skips, and the two functions of the Lua library.  The encoder is proved to write
  lines of at most 45 bytes; on its text the decoder is the inverse.
\<close>

section \<open>Model\<close>

definition uuechar_index :: "int \<Rightarrow> int" where
  "uuechar_index c = c + 32"

definition uueichar_index :: "int \<Rightarrow> int" where
  "uueichar_index c = c - 32"

text \<open>The conditional prints of one step of the decoder.\<close>

definition print_if :: "bool \<Rightarrow> u8 \<Rightarrow> u8 list \<Rightarrow> u8 list option" where
  "print_if c b out = (if c then sprintf_append out [b] else Some out)"

definition de_uu_step :: "u8 \<Rightarrow> u8 \<Rightarrow> u8 \<Rightarrow> u8 \<Rightarrow> u8 list \<Rightarrow> u8 list option" where
  "de_uu_step c1 c2 c3 c4 out =
     (let u1 = word_of_int (uueichar_index (uint c1)); u2 = word_of_int (uueichar_index (uint c2));
          u3 = word_of_int (uueichar_index (uint c3)); u4 = word_of_int (uueichar_index (uint c4))
      in do {
        out \<leftarrow> print_if (u1 < 64 \<and> u2 < 64) (left_byte u1 u2) out;
        out \<leftarrow> print_if (u2 < 64 \<and> u3 < 64) (middle_byte u2 u3) out;
        print_if (u3 < 64 \<and> u4 < 64) (right_byte u3 u4) out
      })"

function de_uu_loop :: "u8 list \<Rightarrow> nat \<Rightarrow> nat \<Rightarrow> nat \<Rightarrow> u8 list \<Rightarrow> u8 list option" where
  "de_uu_loop inp len i skipped out =
     (if i < len then
        (let skip = (int i - int skipped * 2) mod 60 = 0;
             j = (if skip then i + 2 else i) in
         do {
           c1 \<leftarrow> byte_at inp len j;
           c2 \<leftarrow> byte_at inp len (j + 1);
           c3 \<leftarrow> byte_at inp len (j + 2);
           c4 \<leftarrow> byte_at inp len (j + 3);
           out \<leftarrow> de_uu_step c1 c2 c3 c4 out;
           de_uu_loop inp len (j + 4) (if skip then skipped + 1 else skipped) out
         })
      else Some out)"
  by pat_completeness auto
termination by (relation "measure (\<lambda>(inp, len, i, skipped, out). len - i)") auto

text \<open>The text is copied behind a padding byte into an array of twice its length; what follows the
  terminator there was never written.\<close>

definition de_uu :: "u8 list \<Rightarrow> u8 list \<Rightarrow> u8 list option" where
  "de_uu in2 out = Option.bind (mem_len in2) (\<lambda>len.
     if len + 2 \<le> len * 2 then de_uu_loop (32 # take len in2 @ [0]) len 0 0 out else None)"

definition en_uu_header :: "nat \<Rightarrow> nat \<Rightarrow> u8 list \<Rightarrow> u8 list option" where
  "en_uu_header len i out =
     (if i div 3 * 4 mod 60 = 0 then
        (let c = (if len - i \<ge> 45 then 77 else word_of_int (uuechar_index (int (len - i))))
         in if i = 0 then sprintf_at out 0 [c] else sprintf_append out [10, c])
      else Some out)"

definition uu_char :: "u8 \<Rightarrow> u8" where
  "uu_char i = word_of_int (uuechar_index (uint i))"

definition en_uu_piece :: "u8 \<Rightarrow> u8 \<Rightarrow> u8 \<Rightarrow> u8 list" where
  "en_uu_piece f s t = map uu_char (en_group f s t)"

function en_uu_loop :: "u8 list \<Rightarrow> nat \<Rightarrow> nat \<Rightarrow> u8 list \<Rightarrow> u8 list option" where
  "en_uu_loop inp len i out =
     (if i < len then do {
        f \<leftarrow> byte_at inp len i;
        s \<leftarrow> byte_at inp len (i + 1);
        t \<leftarrow> byte_at inp len (i + 2);
        out \<leftarrow> en_uu_header len i out;
        out \<leftarrow> sprintf_append out (en_uu_piece f s t);
        en_uu_loop inp len (i + 3) out
      } else Some out)"
  by pat_completeness auto
termination by (relation "measure (\<lambda>(inp, len, i, out). len - i)") auto

declare de_uu_loop.simps [simp del] en_uu_loop.simps [simp del]

definition en_uu :: "u8 list \<Rightarrow> u8 list \<Rightarrow> u8 list option" where
  "en_uu inp out = do {
     len \<leftarrow> mem_len inp;
     out \<leftarrow> en_uu_loop inp len 0 out;
     sprintf_append out [10, 96]
   }"

definition l_uuencode :: "u8 list \<Rightarrow> u8 list \<Rightarrow> u8 list option" where
  "l_uuencode a nxt = Option.bind (en_uu (a @ nxt) (replicate (length a * 3) 0)) push_cstr"

definition l_uudecode :: "u8 list \<Rightarrow> u8 list \<Rightarrow> u8 list option" where
  "l_uudecode a nxt = Option.bind (de_uu (a @ nxt) (replicate (length a) 0)) push_cstr"

section \<open>The encoder\<close>

definition uu_length_char :: "nat \<Rightarrow> u8" where
  "uu_length_char n = (if n \<ge> 45 then 77 else word_of_int (uuechar_index (int n)))"

definition uu_header :: "u8 list \<Rightarrow> nat \<Rightarrow> u8 list" where
  "uu_header xs k = (if k mod 15 = 0 then (if k = 0 then [] else [10]) @ [uu_length_char (length xs - 3 * k)] else [])"

definition uu_group :: "u8 list \<Rightarrow> nat \<Rightarrow> u8 list" where
  "uu_group xs k = en_uu_piece (at0 xs (3 * k)) (at0 xs (3 * k + 1)) (at0 xs (3 * k + 2))"

lemma uu_char_value: "uint u \<le> 64 \<Longrightarrow> uint (uu_char u) = uint u + 32"
  unfolding uu_char_def uuechar_index_def uint_word_of_int using uint_ge_0 [of u] by simp

lemma group_le_64: "u \<in> set (en_group f s t) \<Longrightarrow> uint u \<le> 64"
  using sextet_lt(1) [of f] sextet_lt(2) [of f s] sextet_lt(3) [of s t] sextet_lt(4) [of t]
  by (auto simp: en_group_def split: if_splits)

lemma uu_group_nonzero: "0 \<notin> set (uu_group xs k)"
proof
  assume "0 \<in> set (uu_group xs k)"
  then obtain u where "uint u \<le> 64" "uu_char u = 0" by (auto simp: uu_group_def en_uu_piece_def dest!: group_le_64)
  then have "uint (0 :: u8) = uint u + 32" using uu_char_value [of u] by simp
  then show False using uint_ge_0 [of u] by simp
qed

lemma uu_length_char_nonzero: "uu_length_char n \<noteq> 0"
proof (cases "n \<ge> 45")
  case False
  then have "uint (uu_length_char n) = int n + 32"
    unfolding uu_length_char_def uuechar_index_def by (simp only: if_False uint_word_of_int) simp
  then show ?thesis by auto
qed (simp add: uu_length_char_def)

lemma uu_header_nonzero: "0 \<notin> set (uu_header xs k)"
  using uu_length_char_nonzero [of "length xs - 3 * k"] by (auto simp: uu_header_def)

lemma length_uu_group [simp]: "length (uu_group xs k) = 4"
  by (simp add: uu_group_def en_uu_piece_def en_group_def)

definition uu_step :: "u8 list \<Rightarrow> nat \<Rightarrow> u8 list \<Rightarrow> u8 list option" where
  "uu_step xs k out = Option.bind (if k mod 15 = 0 then sprintf_append out (uu_header xs k) else Some out)
     (\<lambda>out. sprintf_append out (uu_group xs k))"

interpretation uu_steps: text_steps "uu_step xs" "\<lambda>k. uu_header xs k @ uu_group xs k"
  "\<lambda>k. length (uu_header xs k) + 4" for xs
proof
  fix out ys k
  assume a: "holds_text out ys" "length ys + (length (uu_header xs k) + 4) < length out"
  have "\<exists>out'. (if k mod 15 = 0 then sprintf_append out (uu_header xs k) else Some out) = Some out'
      \<and> length out' = length out \<and> holds_text out' (ys @ uu_header xs k)"
    using append_text [of out ys "uu_header xs k"] a uu_header_nonzero [of xs k]
    by (cases "k mod 15 = 0") (simp_all add: c_str_id, simp add: uu_header_def)
  then obtain out' where out': "(if k mod 15 = 0 then sprintf_append out (uu_header xs k) else Some out) = Some out'"
    "length out' = length out" "holds_text out' (ys @ uu_header xs k)" by blast
  have "length (ys @ uu_header xs k) + length (uu_group xs k) < length out'" using a(2) out'(2) by simp
  from append_text [OF out'(3) this] out'
  show "\<exists>out'. uu_step xs k out = Some out' \<and> length out' = length out
      \<and> holds_text out' (ys @ uu_header xs k @ uu_group xs k)"
    by (auto simp: uu_step_def c_str_id uu_group_nonzero)
qed simp

lemma uu_loop_run:
  assumes "holds_text out []"
  shows "en_uu_loop (xs @ 0 # ys) (length xs) 0 out = uu_steps.run xs [0..<length (threes xs)] out"
proof -
  let ?loop = "\<lambda>k. en_uu_loop (xs @ 0 # ys) (length xs) (3 * k)"
  define loop where "loop k = (if k = 0 \<and> 0 < length xs then (\<lambda>out. Option.bind (uu_step xs 0 out) (?loop 1)) else ?loop k)" for k
  have header: "en_uu_header (length xs) (3 * k) out = (if k mod 15 = 0 then sprintf_append out (uu_header xs k) else Some out)"
    if "k \<noteq> 0" for k out
  proof -
    have "4 * k mod 60 = 0 \<longleftrightarrow> k mod 15 = 0" by presburger
    then show ?thesis using that by (simp add: en_uu_header_def uu_header_def uu_length_char_def Let_def mult.commute)
  qed
  have eq: "loop k out = (if k < length (threes xs) then Option.bind (uu_step xs k out) (loop (Suc k)) else Some out)" for k out
  proof (cases "k = 0")
    case True
    then show ?thesis
      by (cases xs) (simp_all add: loop_def threes_less [symmetric], simp add: en_uu_loop.simps)
  next
    case False
    then have "loop k out = ?loop k out" "loop (Suc k) = ?loop (Suc k)" by (simp_all add: loop_def)
    then show ?thesis using False en_uu_loop.simps [of "xs @ 0 # ys" "length xs" "3 * k" out]
      by (simp add: byte_at_at0 threes_less header uu_step_def uu_group_def Option.bind_assoc add.commute del: add_2_eq_Suc')
  qed
  have "?loop 0 out = loop 0 out"
  proof (cases "xs = []")
    case False
    have "en_uu_header (length xs) 0 out = sprintf_append out (uu_header xs 0)"
      using holds_text_str [OF assms]
      by (simp add: en_uu_header_def uu_header_def uu_length_char_def Let_def sprintf_append_def)
    then show ?thesis
      using False byte_at_at0 [of xs ys] en_uu_loop.simps [of "xs @ 0 # ys" "length xs" 0 out]
      by (simp add: loop_def uu_step_def uu_group_def Option.bind_assoc)
  qed (simp add: loop_def)
  also have "\<dots> = uu_steps.run xs [0..<length (threes xs)] out" by (rule uu_steps.run_loop [OF eq]) simp
  finally show ?thesis by simp
qed

definition uu_flat :: "u8 list \<Rightarrow> u8 list" where
  "uu_flat xs = concat (map (\<lambda>k. uu_header xs k @ uu_group xs k) [0..<length (threes xs)])"

text \<open>Where a group starts in the padded text.\<close>

definition uu_len :: "nat \<Rightarrow> nat" where
  "uu_len k = 4 * k + 2 * ((k + 14) div 15)"

definition uu_block :: "u8 list \<Rightarrow> nat \<Rightarrow> u8 list" where
  "uu_block xs k = (if k mod 15 = 0 then [if k = 0 then 32 else 10, uu_length_char (length xs - 3 * k)] else []) @ uu_group xs k"

lemma lines_Suc: "(Suc k + 14) div 15 = (k + 14) div 15 + (if k mod 15 = 0 then 1 else 0)"
proof -
  define q r where "q = k div 15" and "r = k mod 15"
  then have k: "k = q * 15 + r" "r < 15" by simp_all
  have a: "(q * 15 + x) div 15 = q + x div 15" for x by simp
  have "(r + 15) div 15 = 1" "r \<noteq> 0 \<Longrightarrow> (r + 14) div 15 = 1" "r = 0 \<Longrightarrow> (r + 14) div 15 = 0"
    using k(2) by (auto intro!: div_nat_eqI)
  moreover have "Suc k + 14 = q * 15 + (r + 15)" "k + 14 = q * 15 + (r + 14)" using k(1) by simp_all
  ultimately show ?thesis unfolding r_def [symmetric] by (simp only: a split: if_split) simp
qed

lemma uu_len_Suc: "uu_len (Suc k) = uu_len k + (if k mod 15 = 0 then 6 else 4)"
  using lines_Suc [of k] by (simp add: uu_len_def)

lemma uu_len_less: "k < n \<Longrightarrow> uu_len k < uu_len n"
  using div_le_mono [of "k + 14" "n + 14" 15] by (simp add: uu_len_def)

lemma length_uu_block: "length (uu_block xs k) = (if k mod 15 = 0 then 6 else 4)"
  by (simp add: uu_block_def)

lemma length_uu_blocks: "length (concat (map (uu_block xs) [0..<n])) = uu_len n"
  by (induction n) (simp_all add: uu_len_Suc length_uu_block, simp add: uu_len_def)

lemma uu_pad_blocks: "0 < n \<Longrightarrow> 32 # concat (map (\<lambda>k. uu_header xs k @ uu_group xs k) [0..<n]) = concat (map (uu_block xs) [0..<n])"
proof (induction n)
  case (Suc n)
  show ?case
  proof (cases "n = 0")
    case True
    then show ?thesis by (simp add: uu_block_def uu_header_def)
  next
    case False
    then have "uu_header xs n @ uu_group xs n = uu_block xs n" by (simp add: uu_block_def uu_header_def)
    then show ?thesis using Suc False by simp
  qed
qed simp

lemma uu_flat_pad: "xs \<noteq> [] \<Longrightarrow> 32 # uu_flat xs = concat (map (uu_block xs) [0..<length (threes xs)])"
  unfolding uu_flat_def by (rule uu_pad_blocks) (cases xs; simp add: length_threes)

lemma length_uu_flat: "xs \<noteq> [] \<Longrightarrow> Suc (length (uu_flat xs)) = uu_len (length (threes xs))"
  using arg_cong [OF uu_flat_pad, of xs length] by (simp only: length_uu_blocks list.size) simp

lemma uu_flat_nonzero: "0 \<notin> set (uu_flat xs)"
  by (auto simp: uu_flat_def uu_header_nonzero uu_group_nonzero)

lemma uu_room: "3 \<le> n \<Longrightarrow> uu_len ((n + 2) div 3) + 2 \<le> n * 3"
proof -
  assume "3 \<le> n"
  define k where "k = (n + 2) div 3"
  have "3 div 3 \<le> k" unfolding k_def by (rule div_le_mono) (use \<open>3 \<le> n\<close> in simp)
  then have "k = 1 \<or> 2 \<le> k" by auto
  moreover have "3 * k \<le> n + 2" unfolding k_def by simp
  moreover have "15 * ((k + 14) div 15) \<le> k + 14" by simp
  ultimately show ?thesis unfolding k_def [symmetric] uu_len_def using \<open>3 \<le> n\<close> by (elim disjE; simp)
qed

lemma encode_uu:
  assumes "0 \<notin> set xs" and "3 \<le> length xs"
  shows "l_uuencode xs (0 # ys) = Some (uu_flat xs @ [10, 96])"
proof -
  let ?out = "replicate (length xs * 3) 0 :: u8 list"
  have ne: "xs \<noteq> []" using assms(2) by auto
  have z: "holds_text ?out []" using assms(2) by (intro holds_text_zero) linarith
  have "sum_list (map (\<lambda>k. length (uu_header xs k) + 4) [0..<length (threes xs)]) = length (uu_flat xs)"
    by (simp add: uu_flat_def length_concat o_def)
  moreover have "Suc (length (uu_flat xs)) + 2 \<le> length ?out"
    using uu_room [OF assms(2)] unfolding length_uu_flat [OF ne] length_threes by simp
  ultimately obtain out where out: "en_uu_loop (xs @ 0 # ys) (length xs) 0 ?out = Some out"
    "length out = length ?out" "holds_text out (uu_flat xs)"
    using uu_steps.run_text [OF z, of xs "[0..<length (threes xs)]"]
    unfolding uu_loop_run [OF z] uu_flat_def by auto
  have "length (uu_flat xs) + length [10, 96 :: u8] < length out"
    using \<open>Suc (length (uu_flat xs)) + 2 \<le> length ?out\<close> out(2) by simp
  from append_text [OF out(3) this] obtain out' where "sprintf_append out [10, 96] = Some out'"
    "holds_text out' (uu_flat xs @ [10, 96])" by (auto simp: c_str_def)
  then show ?thesis using assms(1) out(1) by (simp add: l_uuencode_def en_uu_def mem_len_text push_text)
qed

section \<open>The decoder\<close>

definition uu_back :: "u8 list \<Rightarrow> nat \<Rightarrow> u8 list" where
  "uu_back xs k = c_str [at0 xs (3 * k)]
     @ (if at0 xs (3 * k + 1) = 0 then []
        else at0 xs (3 * k + 1) # (if at0 xs (3 * k + 2) = 0 then [] else [at0 xs (3 * k + 2)]))"

lemma print_if_text:
  "holds_text out xs \<Longrightarrow> length xs + 1 < length out \<Longrightarrow>
   \<exists>out'. print_if c b out = Some out' \<and> length out' = length out
     \<and> holds_text out' (xs @ (if c then c_str [b] else []))"
  using append_text [of out xs "[b]"] by (simp add: print_if_def)

lemma uueichar_char: "uint u \<le> 64 \<Longrightarrow> word_of_int (uueichar_index (uint (uu_char u))) = u"
  by (simp add: uu_char_value uueichar_index_def)

lemma word_lt_64: "u < 64 \<longleftrightarrow> uint u < 64" for u :: u8
  by (simp add: word_less_def)

lemma de_uu_step_group:
  fixes f s t :: u8
  assumes "map uu_char (en_group f s t) = [a, b, c, d]"
  shows "de_uu_step a b c d out = Option.bind (print_if True f out)
     (\<lambda>out. Option.bind (print_if (s \<noteq> 0) s out) (print_if (s \<noteq> 0 \<and> t \<noteq> 0) t))"
proof -
  let ?e3 = "if s = 0 then 64 else sextet3 s t" and ?e4 = "if t = 0 then 64 else sextet4 t"
  have abcd: "a = uu_char (sextet1 f)" "b = uu_char (sextet2 f s)" "c = uu_char ?e3" "d = uu_char ?e4"
    using assms by (simp_all add: en_group_def)
  have lt: "sextet1 f < 64" "sextet2 f s < 64" "?e3 < 64 \<longleftrightarrow> s \<noteq> 0" "?e4 < 64 \<longleftrightarrow> t \<noteq> 0"
    using sextet_lt by (auto simp: word_lt_64)
  have u: "word_of_int (uueichar_index (uint a)) = sextet1 f" "word_of_int (uueichar_index (uint b)) = sextet2 f s"
    "word_of_int (uueichar_index (uint c)) = ?e3" "word_of_int (uueichar_index (uint d)) = ?e4"
    unfolding abcd by (rule uueichar_char, use sextet_lt in \<open>auto intro: less_imp_le\<close>)+
  have "print_if (s \<noteq> 0) (middle_byte (sextet2 f s) ?e3) = print_if (s \<noteq> 0) s"
    "print_if (s \<noteq> 0 \<and> t \<noteq> 0) (right_byte ?e3 ?e4) = print_if (s \<noteq> 0 \<and> t \<noteq> 0) t"
    by (intro ext, simp add: print_if_def regroup)+
  then show ?thesis unfolding de_uu_step_def u Let_def by (simp add: lt left_sextets)
qed

definition uu_back_step :: "u8 list \<Rightarrow> nat \<Rightarrow> u8 list \<Rightarrow> u8 list option" where
  "uu_back_step xs k out = (case uu_group xs k of [a, b, c, d] \<Rightarrow> de_uu_step a b c d out | _ \<Rightarrow> None)"

interpretation uu_back_steps: text_steps "uu_back_step xs" "uu_back xs" "\<lambda>k. 3" for xs
proof
  fix out ys k
  let ?f = "at0 xs (3 * k)" and ?s = "at0 xs (3 * k + 1)" and ?t = "at0 xs (3 * k + 2)"
  show "length (uu_back xs k) \<le> 3" by (simp add: uu_back_def c_str_def)
  assume a: "holds_text out ys" "length ys + 3 < length out"
  obtain o1 where o1: "print_if True ?f out = Some o1" "length o1 = length out" "holds_text o1 (ys @ c_str [?f])"
    using print_if_text [OF a(1), of True ?f] a(2) by auto
  have l: "length (c_str [?f]) \<le> 1" using length_c_str [of "[?f]"] by simp
  obtain o2 where o2: "print_if (?s \<noteq> 0) ?s o1 = Some o2" "length o2 = length out"
    "holds_text o2 (ys @ c_str [?f] @ (if ?s \<noteq> 0 then c_str [?s] else []))"
    using print_if_text [OF o1(3), of "?s \<noteq> 0" ?s] a(2) o1(2) l by auto
  have "length (if ?s \<noteq> 0 then c_str [?s] else []) \<le> 1" using length_c_str [of "[?s]"] by simp
  then obtain o3 where o3: "print_if (?s \<noteq> 0 \<and> ?t \<noteq> 0) ?t o2 = Some o3" "length o3 = length out"
    "holds_text o3 (ys @ c_str [?f] @ (if ?s \<noteq> 0 then c_str [?s] else []) @ (if ?s \<noteq> 0 \<and> ?t \<noteq> 0 then c_str [?t] else []))"
    using print_if_text [OF o2(3), of "?s \<noteq> 0 \<and> ?t \<noteq> 0" ?t] a(2) o2(2) l by auto
  obtain a b c d where g: "map uu_char (en_group ?f ?s ?t) = [a, b, c, d]" by (simp add: en_group_def)
  then have "uu_back_step xs k out = de_uu_step a b c d out" by (simp add: uu_back_step_def uu_group_def en_uu_piece_def)
  then have "uu_back_step xs k out = Some o3" unfolding de_uu_step_group [OF g] using o1(1) o2(1) o3(1) by simp
  moreover have "holds_text o3 (ys @ uu_back xs k)" using o3(3) by (simp add: uu_back_def c_str_def split: if_splits)
  ultimately show "\<exists>out'. uu_back_step xs k out = Some out' \<and> length out' = length out \<and> holds_text out' (ys @ uu_back xs k)"
    using o3(2) by blast
qed

text \<open>The array the decoder reads, and the length it goes by.\<close>

definition uu_mem :: "u8 list \<Rightarrow> u8 list" where
  "uu_mem xs = 32 # (uu_flat xs @ [10, 96]) @ [0]"

definition uu_size :: "u8 list \<Rightarrow> nat" where
  "uu_size xs = length (uu_flat xs @ [10, 96])"

lemma uu_read:
  assumes "k < length (threes xs)" "j < 4"
  shows "byte_at (uu_mem xs) (uu_size xs) (uu_len k + (if k mod 15 = 0 then 2 else 0) + j) = Some (uu_group xs k ! j)"
proof -
  let ?n = "length (threes xs)" and ?h = "if k mod 15 = 0 then 2 else 0 :: nat"
  have ne: "xs \<noteq> []" using assms(1) by auto
  define pre where "pre = concat (map (uu_block xs) [0..<k])"
  obtain post where flat: "32 # uu_flat xs = pre @ uu_block xs k @ post"
  proof -
    have "[0..<?n] = [0..<k] @ k # [Suc k..<?n]" 
      using upt_add_eq_append [of 0 k "?n - k"] upt_conv_Cons [of k ?n] assms(1) by simp
    then show thesis using that uu_flat_pad [OF ne] by (simp add: pre_def)
  qed
  have pre: "length pre = uu_len k" by (simp add: pre_def length_uu_blocks)
  have "uu_block xs k ! (?h + j) = uu_group xs k ! j" by (simp add: uu_block_def)
  moreover have "?h + j < length (uu_block xs k)" using assms(2) by (simp add: length_uu_block)
  ultimately have "(pre @ uu_block xs k @ post @ [10, 96, 0]) ! (uu_len k + ?h + j) = uu_group xs k ! j"
    by (simp add: nth_append pre)
  moreover have "uu_mem xs = pre @ uu_block xs k @ post @ [10, 96, 0]"
    using flat by (simp add: uu_mem_def)
  ultimately have "uu_mem xs ! (uu_len k + ?h + j) = uu_group xs k ! j" by metis
  moreover have "length (uu_mem xs) = length (uu_flat xs) + 4" by (simp add: uu_mem_def)
  moreover have "uu_len k + ?h + j < Suc (length (uu_flat xs))"
    using arg_cong [OF flat, of length] \<open>?h + j < length (uu_block xs k)\<close> pre by simp
  ultimately show ?thesis by (auto simp: byte_at_def c_load_def uu_size_def)
qed

lemma skip_iff: "(int (uu_len k) - int ((k + 14) div 15) * 2) mod 60 = 0 \<longleftrightarrow> k mod 15 = 0"
proof -
  have "int (uu_len k) - int ((k + 14) div 15) * 2 = 4 * int k" by (simp add: uu_len_def)
  moreover have "4 * int k mod 60 = 4 * int (k mod 15)"
    using mod_mult_mult1 [of 4 "int k" 15] by (simp add: zmod_int)
  ultimately show ?thesis by simp
qed

text \<open>One more round looks at the line that closes the text, and prints nothing.\<close>

lemma de_uu_last:
  assumes "xs \<noteq> []" and "n = length (threes xs)"
  shows "de_uu_loop (uu_mem xs) (uu_size xs) (uu_len n) ((n + 14) div 15) out = Some out"
proof -
  have len: "uu_size xs = uu_len n + 1" "length (uu_flat xs) + 1 = uu_len n"
    using length_uu_flat [OF assms(1)] assms(2) by (simp_all add: uu_size_def)
  have m: "uu_mem xs ! uu_len n = 10" "uu_mem xs ! (uu_len n + 1) = 96" "length (uu_mem xs) = uu_len n + 3"
    unfolding len(2) [symmetric] uu_mem_def by (simp_all add: nth_append)
  have r: "byte_at (uu_mem xs) (uu_size xs) (uu_len n) = Some 10" "byte_at (uu_mem xs) (uu_size xs) (uu_len n + 1) = Some 96"
    "\<And>i. uu_len n + 1 < i \<Longrightarrow> byte_at (uu_mem xs) (uu_size xs) i = Some 0"
    unfolding byte_at_def using m len by (simp_all add: c_load_def)
  have lt: "uu_len n < uu_size xs" by (simp add: len(1))
  have skip: "(int (uu_len n) - int ((n + 14) div 15) * 2) mod 60 = 0 \<longleftrightarrow> n mod 15 = 0" by (rule skip_iff)
  have quiet: "de_uu_step c1 c2 0 0 out = Some out" if "c1 = 0 \<and> c2 = 0 \<or> c1 = 10 \<and> c2 = 96" for c1 c2
    using that by (elim disjE; simp add: de_uu_step_def print_if_def uueichar_index_def Let_def word_lt_64)
  have stop: "de_uu_loop (uu_mem xs) (uu_size xs) i k out = Some out" if "uu_len n < i" for i k
    using that by (subst de_uu_loop.simps) (simp add: len(1))
  show ?thesis
    by (subst de_uu_loop.simps) (simp only: Let_def skip, cases "n mod 15 = 0"; simp add: r [simplified] quiet stop lt)
qed

lemma de_uu_loop_run:
  assumes "xs \<noteq> []"
  shows "de_uu_loop (uu_mem xs) (uu_size xs) 0 0
    = uu_back_steps.run xs [0..<length (threes xs)]"
proof
  fix out
  let ?m = "uu_mem xs" and ?len = "uu_size xs" and ?n = "length (threes xs)"
  let ?loop = "\<lambda>k. de_uu_loop ?m ?len (uu_len k) ((k + 14) div 15)"
  define loop where "loop k out = (if k < ?n then ?loop k out else Some out)" for k out
  have step: "?loop k out = Option.bind (uu_back_step xs k out) (?loop (Suc k))" if k: "k < ?n" for k out
  proof -
    let ?h = "if k mod 15 = 0 then 2 else 0 :: nat"
    note skip = skip_iff [of k]
    have j: "(if k mod 15 = 0 then uu_len k + 2 else uu_len k) = uu_len k + ?h" by simp
    have nxt: "uu_len k + ?h + 4 = uu_len (Suc k)"
      "(if k mod 15 = 0 then (k + 14) div 15 + 1 else (k + 14) div 15) = (Suc k + 14) div 15"
      unfolding uu_len_Suc lines_Suc by simp_all
    have "uu_len k < uu_len ?n"
      using k by (rule uu_len_less)
    then have i: "uu_len k < ?len" using length_uu_flat [OF assms] by (simp add: uu_size_def)
    obtain a b c d where g: "uu_group xs k = [a, b, c, d]"
      by (simp add: uu_group_def en_uu_piece_def en_group_def)
    have "byte_at ?m ?len (uu_len k + ?h) = Some a" "byte_at ?m ?len (uu_len k + ?h + 1) = Some b"
      "byte_at ?m ?len (uu_len k + ?h + 2) = Some c" "byte_at ?m ?len (uu_len k + ?h + 3) = Some d"
      using uu_read [OF k, of 0] uu_read [OF k, of 1] uu_read [OF k, of 2] uu_read [OF k, of 3]
      unfolding g by (simp_all only: add_0_right nth_Cons_0 nth_Cons_numeral) simp_all
    then show ?thesis
      using i unfolding de_uu_loop.simps [of ?m ?len "uu_len k"] Let_def skip j nxt
      by (simp only: if_True Option.bind.bind_lunit uu_back_step_def g list.case)
  qed
  have "loop k out = (if k < ?n then Option.bind (uu_back_step xs k out) (loop (Suc k)) else Some out)" for k out
  proof (cases "k < ?n")
    case True
    have "loop (Suc k) = ?loop (Suc k)"
    proof (cases "Suc k < ?n")
      case False
      then have "Suc k = ?n" using True by simp
      then show ?thesis using de_uu_last [OF assms, of "Suc k"] by (simp add: loop_def fun_eq_iff)
    qed (simp add: loop_def fun_eq_iff)
    then show ?thesis using step [OF True, of out] True by (simp add: loop_def)
  qed (simp add: loop_def)
  from uu_back_steps.run_loop [of loop, OF this] have "loop 0 out = uu_back_steps.run xs [0..<?n] out" by simp
  moreover have "uu_len 0 = 0" by (simp add: uu_len_def)
  moreover have "0 < ?n" using assms by (cases xs) (simp_all add: length_threes)
  ultimately show "de_uu_loop ?m ?len 0 0 out = uu_back_steps.run xs [0..<?n] out" by (simp add: loop_def)
qed

lemma uu_back_all: "0 \<notin> set xs \<Longrightarrow> concat (map (uu_back xs) [0..<length (threes xs)]) = xs"
proof -
  have "map (uu_back xs) [0..<length (threes xs)] = map (\<lambda>(f, s, t). c_str [f] @ (if s = 0 then [] else s # (if t = 0 then [] else [t]))) (threes xs)"
    using map_threes [of "\<lambda>f s t. c_str [f] @ (if s = 0 then [] else s # (if t = 0 then [] else [t]))" xs]
    unfolding uu_back_def by simp
  moreover have "0 \<notin> set xs \<Longrightarrow> concat (map (\<lambda>(f, s, t). c_str [f] @ (if s = 0 then [] else s # (if t = 0 then [] else [t]))) (threes xs)) = xs"
    by (induction xs rule: threes.induct) (auto simp: c_str_def)
  ultimately show "0 \<notin> set xs \<Longrightarrow> concat (map (uu_back xs) [0..<length (threes xs)]) = xs" by simp
qed

lemma decode_uu:
  assumes "0 \<notin> set xs" and "xs \<noteq> []"
  shows "l_uudecode (uu_flat xs @ [10, 96]) (0 # ys) = Some xs"
proof -
  let ?t = "uu_flat xs @ [10, 96]" and ?n = "length (threes xs)"
  have z: "holds_text (replicate (length ?t) 0) []" by (rule holds_text_zero) simp
  have "sum_list (map (\<lambda>k. 3) [0..<?n]) < length ?t"
    using length_uu_flat [OF assms(2)] by (simp add: sum_list_triv uu_len_def)
  then obtain out where out: "de_uu_loop (uu_mem xs) (uu_size xs) 0 0 (replicate (length ?t) 0) = Some out"
    "holds_text out xs"
    using uu_back_steps.run_text [OF z, of "[0..<?n]" xs] uu_back_all [OF assms(1)]
    unfolding de_uu_loop_run [OF assms(2)] by auto
  have "0 \<notin> set ?t" using uu_flat_nonzero by simp
  then have "mem_len (?t @ 0 # ys) = Some (length ?t)" by (rule mem_len_text)
  then show ?thesis using out push_text [OF out(2)] by (simp add: l_uudecode_def de_uu_def uu_mem_def uu_size_def)
qed

section \<open>Lines\<close>

text \<open>The text in lines of at most 45 bytes: the number of bytes, the groups, a newline; a line of no
  bytes closes it.\<close>

definition uu_digit :: "nat \<Rightarrow> nat \<Rightarrow> u8" where
  "uu_digit n k = of_nat (32 + n div 64 ^ k mod 64)"

fun uu_line :: "u8 list \<Rightarrow> u8 list" where
  "uu_line (f # s # t # xs) = map (uu_digit (group_number f s t)) [3, 2, 1, 0] @ uu_line xs"
| "uu_line [f, s] = map (uu_digit (group_number f s 0)) [3, 2, 1] @ bytes ''`''"
| "uu_line [f] = map (uu_digit (group_number f 0 0)) [3, 2] @ bytes ''``''"
| "uu_line [] = []"

function uu_lines :: "u8 list \<Rightarrow> u8 list" where
  "uu_lines xs = (if xs = [] then bytes ''`''
     else of_nat (32 + length (take 45 xs)) # uu_line (take 45 xs) @ 10 # uu_lines (drop 45 xs))"
  by pat_completeness auto
termination by (relation "measure length") auto

declare uu_lines.simps [simp del]

lemma uu_char_digit: "uu_char u = of_nat (32 + unat u)"
  unfolding uu_char_def uuechar_index_def by (simp add: add.commute)

lemma uu_digits:
  "uu_digit (group_number f s t) 3 = uu_char (sextet1 f)" "uu_digit (group_number f s t) 2 = uu_char (sextet2 f s)"
  "uu_digit (group_number f s t) 1 = uu_char (sextet3 s t)" "uu_digit (group_number f s t) 0 = uu_char (sextet4 t)"
  unfolding uu_digit_def group_digits uu_char_digit by (rule refl)+

lemma uu_line_pieces: "0 \<notin> set xs \<Longrightarrow> uu_line xs = concat (map (\<lambda>(f, s, t). en_uu_piece f s t) (threes xs))"
proof (induction xs rule: uu_line.induct)
  case (1 f s t xs)
  then show ?case by (simp add: uu_digits uu_digits(3) [simplified] en_uu_piece_def en_group_def)
next
  case (2 f s)
  then show ?case
    by (simp add: uu_digits uu_digits(3) [simplified] en_uu_piece_def en_group_def uu_char_def uuechar_index_def bytes_def)
next
  case (3 f)
  then show ?case
    by (simp add: uu_digits en_uu_piece_def en_group_def uu_char_def uuechar_index_def bytes_def)
qed simp

lemma uu_groups_line: "0 \<notin> set xs \<Longrightarrow> concat (map (uu_group xs) [0..<length (threes xs)]) = uu_line xs"
  using map_threes [of en_uu_piece xs] unfolding uu_group_def by (simp add: uu_line_pieces)

lemma uu_length_char_min: "uu_length_char (length xs) = of_nat (32 + length (take 45 xs))"
  by (simp add: uu_length_char_def uuechar_index_def min_def)

lemma concat_first:
  "0 < n \<Longrightarrow> concat (map (\<lambda>k. (if k = 0 then as else []) @ g k) [0..<n]) = as @ concat (map g [0..<n])"
proof (induction n)
  case (Suc n)
  then show ?case by (cases "n = 0") simp_all
qed simp

lemma concat_first_header:
  "0 < n \<Longrightarrow> n \<le> 15 \<Longrightarrow> concat (map (\<lambda>k. uu_header xs k @ uu_group xs k) [0..<n])
    = uu_length_char (length xs) # concat (map (uu_group xs) [0..<n])"
proof -
  assume n: "0 < n" "n \<le> 15"
  have "concat (map (\<lambda>k. uu_header xs k @ uu_group xs k) [1..<n]) = concat (map (uu_group xs) [1..<n])"
    using n(2) by (intro arg_cong [where f = concat] map_cong) (auto simp: uu_header_def)
  moreover have "[0..<n] = 0 # [1..<n]" using n(1) by (simp add: upt_conv_Cons)
  moreover have "uu_header xs 0 = [uu_length_char (length xs)]" by (simp add: uu_header_def)
  ultimately show ?thesis by simp
qed

lemma at0_take: "i < n \<Longrightarrow> at0 (take n xs) i = at0 xs i" and at0_drop: "at0 xs (n + i) = at0 (drop n xs) i"
  by (auto simp: at0_def)

lemma uu_flat_short: "0 \<notin> set xs \<Longrightarrow> xs \<noteq> [] \<Longrightarrow> length xs \<le> 45 \<Longrightarrow> uu_flat xs = uu_length_char (length xs) # uu_line xs"
proof -
  assume a: "0 \<notin> set xs" "xs \<noteq> []" "length xs \<le> 45"
  have "0 < length (threes xs)" using a(2) by (cases xs) (simp_all add: length_threes div_greater_zero_iff)
  moreover have "length (threes xs) \<le> 15" using div_le_mono [of "length xs + 2" 47 3] a(3) by (simp add: length_threes)
  ultimately show ?thesis unfolding uu_flat_def by (simp only: concat_first_header uu_groups_line [OF a(1)])
qed

lemma uu_flat_long:
  assumes "0 \<notin> set xs" and "45 < length xs"
  shows "uu_flat xs = uu_length_char (length xs) # uu_line (take 45 xs) @ 10 # uu_flat (drop 45 xs)"
proof -
  let ?ys = "drop 45 xs" and ?f = "\<lambda>xs k. uu_header xs k @ uu_group xs k"
  define m where "m = length (threes ?ys)"
  have n: "length (threes xs) = 15 + m"
  proof -
    have "length xs + 2 = (length ?ys + 2) + 15 * 3" using assms(2) by simp
    then show ?thesis unfolding m_def length_threes by (simp only: div_mult_self1 div_mult_self2)
  qed
  have m: "0 < m" using assms(2) by (simp add: m_def length_threes div_greater_zero_iff)
  have "concat (map (uu_group xs) [0..<15]) = concat (map (uu_group (take 45 xs)) [0..<length (threes (take 45 xs))])"
    using assms(2) by (auto intro!: arg_cong [of _ _ concat] map_cong simp: length_threes uu_group_def at0_take)
  also have "\<dots> = uu_line (take 45 xs)" using assms(1) by (intro uu_groups_line) (auto dest: in_set_takeD)
  finally have first: "concat (map (?f xs) [0..<15]) = uu_length_char (length xs) # uu_line (take 45 xs)"
    by (subst concat_first_header) simp_all
  have h: "?f xs (15 + k) = (if k = 0 then [10] else []) @ ?f ?ys k" for k
  proof -
    have e: "3 * (15 + k) = 45 + 3 * k" "45 + 3 * k + 1 = 45 + (3 * k + 1)" "45 + 3 * k + 2 = 45 + (3 * k + 2)" by simp_all
    have "uu_group xs (15 + k) = uu_group ?ys k" unfolding uu_group_def e at0_drop by (rule refl)
    then show ?thesis by (simp add: uu_header_def)
  qed
  have "concat (map (?f xs) (map ((+) 15) [0..<m])) = concat (map (\<lambda>k. (if k = 0 then [10] else []) @ ?f ?ys k) [0..<m])"
    unfolding map_map o_def h by (rule refl)
  also have "\<dots> = 10 # uu_flat ?ys"
    using concat_first [OF m, of "[10]" "?f ?ys"] unfolding uu_flat_def m_def [symmetric] by simp
  finally have "concat (map (?f xs) (map ((+) 15) [0..<m])) = 10 # uu_flat ?ys" .
  moreover have "[0..<15 + m] = [0..<15] @ map ((+) 15) [0..<m]"
  proof -
    have "map (\<lambda>k. 15 + k) [0..<m] = [15..<15 + m]" using map_add_upt [of 15 m] by (simp add: add.commute)
    then show ?thesis using upt_add_eq_append [of 0 15 m] by simp
  qed
  ultimately show ?thesis using first by (simp add: uu_flat_def n)
qed

lemma uu_flat_lines: "0 \<notin> set xs \<Longrightarrow> xs \<noteq> [] \<Longrightarrow> uu_flat xs @ [10, 96] = uu_lines xs"
proof (induction xs rule: uu_lines.induct)
  case (1 xs)
  have z: "0 \<notin> set (drop 45 xs)" using 1(2) by (auto dest: in_set_dropD)
  show ?case
  proof (cases "length xs \<le> 45")
    case True
    then show ?thesis using 1(2,3) by (subst uu_lines.simps)
      (simp add: uu_flat_short uu_length_char_min uu_lines.simps [of "[]"] bytes_def)
  next
    case False
    then have "uu_flat (drop 45 xs) @ [10, 96] = uu_lines (drop 45 xs)" using 1 z by auto
    then show ?thesis using False 1(2,3) by (subst uu_lines.simps) (simp add: uu_flat_long uu_length_char_min)
  qed
qed

section \<open>Properties\<close>



end
