(* ===== verification/BaseConvert.thy ===== *)
theory BaseConvert
  imports IntArrays
begin

text \<open>
  \<open>encode/baseN.c\<close>: conversion of a table of digits between bases.  The sum of the digits is computed
  in doubles with the pow of the C library: the step \<open>out += d * pow(base, k)\<close> is an argument of the
  model, and what the code relies on is that it is exact below \<open>2 ^ 53\<close>.
\<close>

section \<open>Model\<close>

text \<open>An entry that luaL_checkinteger refuses is None; the step gives None when the sum does not fit an
  unsigned 64-bit integer, which C leaves undefined.\<close>

type_synonym pow_step = "u64 \<Rightarrow> int \<Rightarrow> int \<Rightarrow> nat \<Rightarrow> u64 option"

fun import_loop :: "pow_step \<Rightarrow> int \<Rightarrow> int option list \<Rightarrow> u64 \<Rightarrow> lua_error + u64" where
  "import_loop mac b [] out = Inr out"
| "import_loop mac b (None # ds) out = Inl ArgumentError"
| "import_loop mac b (Some d # ds) out =
     (case mac out d b (length ds) of None \<Rightarrow> Inl Undefined | Some out \<Rightarrow> import_loop mac b ds out)"

partial_function (option) export_loop :: "u64 \<Rightarrow> u64 \<Rightarrow> u64 list \<Rightarrow> (lua_error + u64 list) option" where
  "export_loop b out ds =
     (if out > 0 then
        (if b = 0 then Some (Inl Undefined) else export_loop b (out div b) (ds @ [out mod b]))
      else Some (Inr ds))"

text \<open>The base of the result is converted to the unsigned type of the number.  None is a call that
  does not return.\<close>

definition l_baseconvert :: "pow_step \<Rightarrow> int option list \<Rightarrow> int \<Rightarrow> int \<Rightarrow> (lua_error + u64 list) option" where
  "l_baseconvert mac tab base_import base_export =
     (case import_loop mac base_import tab 0 of
        Inl e \<Rightarrow> Some (Inl e)
      | Inr out \<Rightarrow> export_loop (word_of_int base_export) out [])"

section \<open>Correctness\<close>

definition pow_exact :: "pow_step \<Rightarrow> bool" where
  "pow_exact mac \<longleftrightarrow> (\<forall>out d b k. 0 \<le> d \<and> 0 \<le> b \<and> uint out + d * b ^ k < 2 ^ 53 \<longrightarrow>
     mac out d b k = Some (out + word_of_int (d * b ^ k)))"

fun number_of :: "int \<Rightarrow> int list \<Rightarrow> int" where
  "number_of b [] = 0"
| "number_of b (d # ds) = d * b ^ length ds + number_of b ds"

fun number_of_rev :: "nat \<Rightarrow> nat list \<Rightarrow> nat" where
  "number_of_rev b [] = 0"
| "number_of_rev b (d # ds) = d + b * number_of_rev b ds"

lemma number_of_nonneg: "0 \<le> b \<Longrightarrow> \<forall>d\<in>set ds. 0 \<le> d \<Longrightarrow> 0 \<le> number_of b ds"
  by (induction ds) simp_all

lemma uint_add_small: "0 \<le> x \<Longrightarrow> uint w + x < 2 ^ 64 \<Longrightarrow> uint (w + word_of_int x) = uint w + x" for w :: u64
proof -
  assume a: "0 \<le> x" "uint w + x < 2 ^ 64"
  then have "x < 2 ^ 64" using uint_ge_0 [of w] by linarith
  then have "x mod 2 ^ 64 = x" "(uint w + x) mod 2 ^ 64 = uint w + x" using a uint_ge_0 [of w] by simp_all
  then show ?thesis by (simp add: uint_word_ariths uint_word_of_int)
qed

lemma import_exact:
  assumes "pow_exact mac" "0 \<le> b" "\<forall>d\<in>set ds. 0 \<le> d" "uint out + number_of b ds < 2 ^ 53"
  shows "import_loop mac b (map Some ds) out = Inr (out + word_of_int (number_of b ds))"
  using assms(3,4)
proof (induction ds arbitrary: out)
  case (Cons d ds)
  let ?p = "d * b ^ length ds"
  have n: "0 \<le> number_of b ds" "0 \<le> ?p" using Cons.prems(1) assms(2) by (simp_all add: number_of_nonneg)
  have "uint out + ?p < 2 ^ 53" using Cons.prems(2) n by simp
  then have step: "mac out d b (length ds) = Some (out + word_of_int ?p)"
    using assms(1,2) Cons.prems(1) by (auto simp: pow_exact_def)
  have "uint (out + word_of_int ?p) = uint out + ?p"
    using \<open>uint out + ?p < 2 ^ 53\<close> n(2) by (intro uint_add_small) simp_all
  then have "uint (out + word_of_int ?p) + number_of b ds < 2 ^ 53" using Cons.prems(2) by simp
  then have "import_loop mac b (map Some ds) (out + word_of_int ?p) = Inr (out + word_of_int ?p + word_of_int (number_of b ds))"
    using Cons.prems(1) by (intro Cons.IH) simp_all
  then show ?case using step by (simp add: add.assoc)
qed simp

text \<open>The digits come out from the least significant one.\<close>

lemma export_digits:
  assumes "1 < b"
  shows "\<exists>qs. export_loop b out ds = Some (Inr (ds @ qs)) \<and> number_of_rev (unat b) (map unat qs) = unat out
    \<and> (\<forall>q\<in>set qs. q < b) \<and> (qs \<noteq> [] \<longrightarrow> last qs \<noteq> 0)"
proof (induction "unat out" arbitrary: out ds rule: less_induct)
  case less
  show ?case
  proof (cases "out > 0")
    case False
    then show ?thesis by (intro exI [of _ "[]"]) (subst export_loop.simps, simp add: word_neq_0_conv [symmetric])
  next
    case True
    have b: "1 < unat b" "b \<noteq> 0" using assms by (auto simp: word_less_nat_alt)
    have pos: "0 < unat out" using True by (simp add: word_less_nat_alt)
    then have "unat (out div b) < unat out" using b(1) by (simp add: unat_div)
    from less [OF this, of "ds @ [out mod b]"]
    obtain qs where qs: "export_loop b (out div b) (ds @ [out mod b]) = Some (Inr ((ds @ [out mod b]) @ qs))"
      "number_of_rev (unat b) (map unat qs) = unat (out div b)" "\<forall>q\<in>set qs. q < b" "qs \<noteq> [] \<longrightarrow> last qs \<noteq> 0"
      by blast
    have "out mod b < b" using b by (simp add: word_less_nat_alt unat_mod)
    moreover have "number_of_rev (unat b) (map unat (out mod b # qs)) = unat out"
      using qs(2) by (simp add: unat_mod unat_div mult.commute)
    moreover have "last (out mod b # qs) \<noteq> 0"
    proof (cases "qs = []")
      case True
      then have "unat out div unat b = 0" using qs(2) by (simp add: unat_div)
      then have "unat (out mod b) = unat out" using b(1) by (simp add: unat_mod div_eq_0_iff)
      then have "unat (out mod b) \<noteq> 0" using pos by simp
      then have "out mod b \<noteq> 0" by (metis unat_0)
      then show ?thesis using True by simp
    qed (use qs(4) in simp)
    moreover have "export_loop b out ds = Some (Inr (ds @ (out mod b # qs)))"
      using True b(2) qs(1) by (subst export_loop.simps) simp
    ultimately show ?thesis using qs(3) by (intro exI [of _ "out mod b # qs"]) auto
  qed
qed

text \<open>Base 1 never ends, base 0 divides by zero.\<close>

lemma export_one: "out > 0 \<Longrightarrow> export_loop 1 out ds = None"
proof (rule ccontr)
  assume "out > 0" "export_loop 1 out ds \<noteq> None"
  moreover have "export_loop b out ds = Some r \<Longrightarrow> out > 0 \<longrightarrow> b \<noteq> 1" for b out ds r
    by (rule export_loop.raw_induct [where P = "\<lambda>b out ds r. out > 0 \<longrightarrow> b \<noteq> 1"]) (fastforce split: if_splits)
  ultimately show False by blast
qed

lemma export_zero: "out > 0 \<Longrightarrow> export_loop 0 out ds = Some (Inl Undefined)"
  by (subst export_loop.simps) simp

lemma baseconvert_converts:
  assumes "pow_exact mac" "0 \<le> b" "\<forall>d\<in>set ds. 0 \<le> d" "number_of b ds < 2 ^ 53" "1 < c" "c < 2 ^ 63"
  shows "\<exists>qs. l_baseconvert mac (map Some ds) b c = Some (Inr qs) \<and> int (number_of_rev (nat c) (map unat qs)) = number_of b ds
    \<and> (\<forall>q\<in>set qs. uint q < c) \<and> (qs \<noteq> [] \<longrightarrow> last qs \<noteq> 0)"
proof -
  have c: "uint (word_of_int c :: u64) = c" using assms(5,6) by (simp add: uint_word_of_int)
  then have c1: "1 < (word_of_int c :: u64)" and cn: "unat (word_of_int c :: u64) = nat c"
    using assms(5) by (simp_all add: word_less_def unat_eq_nat_uint)
  let ?n = "word_of_int (number_of b ds) :: u64"
  have imp: "import_loop mac b (map Some ds) 0 = Inr ?n"
    using import_exact [OF assms(1-3), of 0] assms(4) by simp
  obtain qs where qs: "export_loop (word_of_int c) ?n [] = Some (Inr qs)"
    "number_of_rev (nat c) (map unat qs) = unat ?n" "\<forall>q\<in>set qs. q < word_of_int c" "qs \<noteq> [] \<longrightarrow> last qs \<noteq> 0"
    using export_digits [OF c1, of ?n "[]"] unfolding cn by auto
  have "int (unat ?n) = number_of b ds"
    using assms(4) number_of_nonneg [OF assms(2,3)] by (simp add: uint_word_of_int)
  then have "int (number_of_rev (nat c) (map unat qs)) = number_of b ds" unfolding qs(2) .
  moreover have "\<forall>q\<in>set qs. uint q < c" using qs(3) by (simp add: word_less_def c)
  ultimately show ?thesis using qs(1,4) imp by (simp add: l_baseconvert_def)
qed

end
