(* ===== verification/Util.thy ===== *)
theory Util
  imports PArray TableFns
begin

text \<open>
  \<open>src/src/util.c\<close>: the bounded substring search and the parser of key=value lists the server uses for
  cookies and for the parameters of a header.  Before them, what the parsers of the server share: the
  relation \<open>str_is\<close> of a string buffer to its text, \<open>tab_is\<close> of a table of string buffers to an
  association list of texts, and the steps of the parsers under these relations.
\<close>

section \<open>Strings and tables of strings\<close>

definition str_is :: "str \<Rightarrow> u8 list \<Rightarrow> bool" where
  "str_is s xs \<longleftrightarrow> str_wf s \<and> str_text s = xs"

definition tab_is :: "str parray \<Rightarrow> (u8 list \<times> u8 list) list \<Rightarrow> bool" where
  "tab_is p al \<longleftrightarrow> par_wf p \<and> (\<forall>e\<in>set (par_list p). str_wf (snd e)) \<and> map (apsnd str_text) (par_list p) = al"

text \<open>The byte an expression inp + i points to, the first byte of a buffer, and a C string taken from a
  buffer.\<close>

definition push_byte :: "str \<Rightarrow> u8 \<Rightarrow> str option" where
  "push_byte s b = str_pushl s [b] 1"

definition first_byte :: "str \<Rightarrow> u8 option" where
  "first_byte s = Option.bind (c_load (s_c s) 0) (\<lambda>b. b)"

definition copy_cstr :: "str \<Rightarrow> str option" where
  "copy_cstr s = Option.bind (mem_cstr (s_c s)) str_init"

definition set_from :: "str parray \<Rightarrow> str \<Rightarrow> str \<Rightarrow> str parray option" where
  "set_from table key v = Option.bind (mem_cstr (s_c key)) (\<lambda>k. parray_set table k v)"

named_theorems str_steps \<open>operations on buffers and tables under str_is and tab_is\<close>

lemma str_empty: "\<exists>s. str_init [] = Some s \<and> str_is s []"
  using str_init_text [of "[]"] by (simp add: str_is_def)

lemma str_init_is: "\<exists>s. str_init xs = Some s \<and> str_is s xs"
  using str_init_text [of xs] by (simp add: str_is_def)

lemma push_byte_is: "str_is s xs \<Longrightarrow> \<exists>s'. push_byte s b = Some s' \<and> str_is s' (xs @ [b])"
  using str_pushl_text [of s 1 "[b]"] by (auto simp: push_byte_def str_is_def)

lemma str_clear_is: "str_is s xs \<Longrightarrow> \<exists>s'. str_clear s = Some s' \<and> str_is s' []"
  using str_clear_text [of s] by (auto simp: str_is_def)

lemma first_byte_is: "str_is s xs \<Longrightarrow> first_byte s = Some (case xs of [] \<Rightarrow> 0 | x # _ \<Rightarrow> x)"
proof -
  assume "str_is s xs"
  then obtain rest where "s_c s = map Some xs @ Some 0 # rest" unfolding str_is_def str_wf_shape by blast
  then show ?thesis by (cases xs) (simp_all add: first_byte_def c_load_def)
qed

lemma mem_cstr_str: "str_is s xs \<Longrightarrow> mem_cstr (s_c s) = Some (c_str xs)"
proof -
  assume "str_is s xs"
  then obtain rest where "s_c s = map Some xs @ Some 0 # rest" unfolding str_is_def str_wf_shape by blast
  moreover have "mem_cstr (map Some xs @ Some 0 # rest) = Some (c_str xs)"
    by (induction xs) (auto simp: c_str_def)
  ultimately show ?thesis by simp
qed

lemma copy_cstr_is: "str_is s xs \<Longrightarrow> \<exists>s'. copy_cstr s = Some s' \<and> str_is s' (c_str xs)"
  using str_init_is [of "c_str xs"] by (simp add: copy_cstr_def mem_cstr_str)

lemma update_apsnd: "map (apsnd f) (AList.update k v al) = AList.update k (f v) (map (apsnd f) al)"
  by (induction al) auto

lemma set_update_sub: "set (AList.update k v xs) \<subseteq> insert (k, v) (set xs)"
  by (induction xs) auto

lemma tab_set:
  assumes "tab_is p al" "0 \<notin> set k" "str_is v xs"
  shows "\<exists>p'. parray_set p k v = Some p' \<and> tab_is p' (AList.update k xs al)"
proof -
  obtain p' where p': "parray_set p k v = Some p'" "par_wf p'" "par_list p' = AList.update k v (par_list p)"
    using parray_set_list [of p k v] assms(1,2) by (auto simp: tab_is_def)
  have "\<forall>e\<in>set (par_list p'). str_wf (snd e)"
    using assms(1,3) set_update_sub [of k v "par_list p"] by (auto simp: p'(3) tab_is_def str_is_def)
  then have "tab_is p' (AList.update k xs al)"
    using assms(1,3) p'(2) by (simp add: tab_is_def p'(3) update_apsnd str_is_def)
  then show ?thesis using p'(1) by blast
qed

lemma set_from_is:
  assumes "tab_is p al" "str_is key ks" "str_is v xs"
  shows "\<exists>p'. set_from p key v = Some p' \<and> tab_is p' (AList.update (c_str ks) xs al)"
  using tab_set [OF assms(1) c_str_nonzero assms(3)] mem_cstr_str [OF assms(2)] by (simp add: set_from_def)

lemma tab_init: "tab_is parray_init []"
  using parray_init_wf [where 'a = str] by (simp add: tab_is_def parray_init_list)

lemma tab_get:
  assumes "tab_is p al" "0 \<notin> set k"
  shows "\<exists>r. parray_get p k = Some r \<and> map_option str_text r = map_of al k"
proof -
  have "map_of (map (apsnd f) xs) k = map_option f (map_of xs k)" for f :: "str \<Rightarrow> u8 list" and xs
    by (induction xs) auto
  then show ?thesis using assms parray_get_list [of p k] by (auto simp: tab_is_def)
qed

lemma tab_value_wf: "tab_is p al \<Longrightarrow> 0 \<notin> set k \<Longrightarrow> parray_get p k = Some (Some v) \<Longrightarrow> str_wf v"
  using parray_get_list [of p k] by (fastforce simp: tab_is_def dest: map_of_SomeD)

section \<open>strnstr\<close>

text \<open>The match of \<open>s2\<close> from its second byte on, and the places tried; the bytes of \<open>s1\<close> are read one by
  one.\<close>

function match_from :: "u8 list \<Rightarrow> u8 list \<Rightarrow> nat \<Rightarrow> nat \<Rightarrow> bool option" where
  "match_from s1 s2 at i =
     (if i \<ge> length s2 then Some True
      else Option.bind (c_load s1 (at + i)) (\<lambda>b. if b \<noteq> s2 ! i then Some False else match_from s1 s2 at (i + 1)))"
  by pat_completeness auto
termination by (relation "measure (\<lambda>(s1, s2, at, i). length s2 - i)") auto

function strnstr_loop :: "u8 list \<Rightarrow> u8 list \<Rightarrow> nat \<Rightarrow> nat \<Rightarrow> nat option option" where
  "strnstr_loop s1 s2 at n =
     (if length s2 \<le> n \<and> 0 < n then
        Option.bind (c_load s1 at) (\<lambda>b.
          if b = s2 ! 0 then Option.bind (match_from s1 s2 at 1)
            (\<lambda>m. if m then Some (Some at) else strnstr_loop s1 s2 (at + 1) (n - 1))
          else strnstr_loop s1 s2 (at + 1) (n - 1))
      else Some None)"
  by pat_completeness auto
termination by (relation "measure (\<lambda>(s1, s2, at, n). n)") auto

declare match_from.simps [simp del] strnstr_loop.simps [simp del]

definition strnstr :: "u8 list \<Rightarrow> u8 list \<Rightarrow> nat \<Rightarrow> nat option option" where
  "strnstr s1 s2 n = (if s2 = [] then Some (Some 0) else strnstr_loop s1 s2 0 n)"

lemma match_from_eq:
  "at + length s2 \<le> length s1 \<Longrightarrow> i \<le> length s2 \<Longrightarrow>
   match_from s1 s2 at i = Some (take (length s2 - i) (drop (at + i) s1) = drop i s2)"
proof (induction "length s2 - i" arbitrary: i)
  case 0
  then show ?case by (subst match_from.simps) simp
next
  case (Suc n)
  then have i: "i < length s2" "at + i < length s1" by simp_all
  have "match_from s1 s2 at (i + 1) = Some (take (length s2 - (i + 1)) (drop (at + (i + 1)) s1) = drop (i + 1) s2)"
    using Suc.prems Suc.hyps(2) by (intro Suc.hyps(1)) simp_all
  moreover have "take (length s2 - i) (drop (at + i) s1) = s1 ! (at + i) # take (length s2 - (i + 1)) (drop (at + (i + 1)) s1)"
    using i by (simp add: Cons_nth_drop_Suc [symmetric] Suc_diff_Suc [symmetric])
  moreover have "drop i s2 = s2 ! i # drop (i + 1) s2" using i by (simp add: Cons_nth_drop_Suc)
  ultimately show ?case using i by (subst match_from.simps) (simp add: c_mem)
qed

lemma strnstr_loop_eq:
  assumes "s2 \<noteq> []" "at + n \<le> length s1"
  shows "strnstr_loop s1 s2 at n = Some (List.find (\<lambda>i. take (length s2) (drop i s1) = s2) [at..<at + n + 1 - length s2])"
  using assms(2)
proof (induction n arbitrary: at)
  case 0
  then show ?case using assms(1) by (subst strnstr_loop.simps) (cases "length s2", simp_all)
next
  case (Suc n)
  show ?case
  proof (cases "length s2 \<le> Suc n")
    case False
    then show ?thesis by (subst strnstr_loop.simps) simp
  next
    case True
    have at: "at < length s1" "at + length s2 \<le> length s1" using True Suc.prems by simp_all
    have l: "1 \<le> length s2" using assms(1) by (cases s2) simp_all
    have m: "match_from s1 s2 at 1 = Some (take (length s2 - 1) (drop (at + 1) s1) = drop 1 s2)"
      using at l by (intro match_from_eq) simp_all
    have t: "take (length s2) (drop at s1) = s2 \<longleftrightarrow> s1 ! at = s2 ! 0 \<and> take (length s2 - 1) (drop (at + 1) s1) = drop 1 s2"
      using at(1) assms(1) by (cases s2) (simp_all add: Cons_nth_drop_Suc [symmetric])
    have r: "strnstr_loop s1 s2 (at + 1) n = Some (List.find (\<lambda>i. take (length s2) (drop i s1) = s2) [at + 1..<at + 1 + n + 1 - length s2])"
      using Suc.prems by (intro Suc.IH) simp
    have "[at..<at + Suc n + 1 - length s2] = at # [at + 1..<at + 1 + n + 1 - length s2]"
      using True l by (subst upt_conv_Cons) simp_all
    then show ?thesis using True at(1) m r t
      by (subst strnstr_loop.simps) (simp add: c_mem)
  qed
qed

lemma strnstr_memmem:
  assumes "s2 \<noteq> []" "n \<le> length s1"
  shows "strnstr s1 s2 n = Some (memmem (take n s1) s2)"
proof -
  have "take (length s2) (drop i (take n s1)) = take (length s2) (drop i s1)" if "i + length s2 \<le> n" for i
    using that by (simp add: drop_take min_def)
  then have "List.find (\<lambda>i. take (length s2) (drop i s1) = s2) [0..<n + 1 - length s2]
      = List.find (\<lambda>i. take (length s2) (drop i (take n s1)) = s2) [0..<n + 1 - length s2]"
    by (intro find_cong) auto
  moreover have "strnstr s1 s2 n = Some (List.find (\<lambda>i. take (length s2) (drop i s1) = s2) [0..<n + 1 - length s2])"
    using strnstr_loop_eq [OF assms(1), of 0 n s1] assms by (simp add: strnstr_def)
  moreover have "length (take n s1) = n" using assms(2) by simp
  ultimately show ?thesis unfolding memmem_def by metis
qed

section \<open>gen_parse\<close>

text \<open>state is 1 between a quote after an equals sign and the next quote; last is the key of the pair
  being read, current the text read since.\<close>

function gen_parse_loop ::
    "u8 list \<Rightarrow> nat \<Rightarrow> nat \<Rightarrow> bool \<Rightarrow> str option \<Rightarrow> str \<Rightarrow> str parray \<Rightarrow> (str option \<times> str \<times> str parray) option" where
  "gen_parse_loop inp len i quoted lst current table =
     (if i < len then
        Option.bind (c_load inp i) (\<lambda>b.
          if \<not> quoted \<and> b = 59 then
            Option.bind (case lst of None \<Rightarrow> Some table | Some l \<Rightarrow> set_from table l current) (\<lambda>table.
            Option.bind (str_init []) (\<lambda>current. gen_parse_loop inp len (i + 1) False None current table))
          else if \<not> quoted \<and> b = 61 then
            Option.bind (str_init []) (\<lambda>fresh. Option.bind (c_load inp (i + 1)) (\<lambda>b'.
              if b' = 34 then gen_parse_loop inp len (i + 2) True (Some current) fresh table
              else gen_parse_loop inp len (i + 1) quoted (Some current) fresh table))
          else if quoted \<and> b = 34 then gen_parse_loop inp len (i + 1) False lst current table
          else Option.bind (first_byte current) (\<lambda>f.
            if f \<noteq> 0 \<or> b \<noteq> 32
            then Option.bind (push_byte current b) (\<lambda>current. gen_parse_loop inp len (i + 1) quoted lst current table)
            else gen_parse_loop inp len (i + 1) quoted lst current table))
      else Some (lst, current, table))"
  by pat_completeness auto
termination by (relation "measure (\<lambda>(inp, len, i, quoted, lst, current, table). len - i)") auto

declare gen_parse_loop.simps [simp del]

definition gen_parse :: "u8 list \<Rightarrow> nat \<Rightarrow> str parray \<Rightarrow> str parray option" where
  "gen_parse inp len table = do {
     current \<leftarrow> str_init [];
     (lst, current, table) \<leftarrow> gen_parse_loop inp len 0 False None current table;
     (case lst of None \<Rightarrow> Some table | Some l \<Rightarrow> set_from table l current)
   }"

text \<open>What it computes: a function of the bytes.\<close>

definition kv_put :: "u8 list option \<Rightarrow> u8 list \<Rightarrow> (u8 list \<times> u8 list) list \<Rightarrow> (u8 list \<times> u8 list) list" where
  "kv_put lst cur al = (case lst of None \<Rightarrow> al | Some k \<Rightarrow> AList.update (c_str k) cur al)"

fun kv_parse :: "u8 list \<Rightarrow> bool \<Rightarrow> u8 list option \<Rightarrow> u8 list \<Rightarrow> (u8 list \<times> u8 list) list \<Rightarrow> (u8 list \<times> u8 list) list" where
  "kv_parse [] q lst cur al = kv_put lst cur al"
| "kv_parse (b # bs) q lst cur al =
     (if \<not> q \<and> b = 59 then kv_parse bs False None [] (kv_put lst cur al)
      else if \<not> q \<and> b = 61 then
        (if bs \<noteq> [] \<and> hd bs = 34 then kv_parse (tl bs) True (Some cur) [] al
         else kv_parse bs False (Some cur) [] al)
      else if q \<and> b = 34 then kv_parse bs False lst cur al
      else if (cur = [] \<or> hd cur = 0) \<and> b = 32 then kv_parse bs q lst cur al
      else kv_parse bs q lst (cur @ [b]) al)"

definition last_is :: "str option \<Rightarrow> u8 list option \<Rightarrow> bool" where
  "last_is lst k = (case (lst, k) of (None, None) \<Rightarrow> True | (Some s, Some xs) \<Rightarrow> str_is s xs | _ \<Rightarrow> False)"

lemma kv_put_is:
  assumes "last_is lst k" "str_is cur xs" "tab_is table al"
  shows "\<exists>t. (case lst of None \<Rightarrow> Some table | Some l \<Rightarrow> set_from table l cur) = Some t \<and> tab_is t (kv_put k xs al)"
  using assms set_from_is [OF assms(3) _ assms(2)]
  by (cases lst; cases k) (auto simp: last_is_def kv_put_def)

lemma gen_parse_loop_is:
  assumes "drop i (take len inp) = xs" "i \<le> len" "len \<le> length inp \<and> (len = length inp \<longrightarrow> inp ! (len - 1) \<noteq> 61)" "last_is lst k" "str_is current cur" "tab_is table al"
  shows "\<exists>lst' current' table'. gen_parse_loop inp len i q lst current table = Some (lst', current', table')
    \<and> (\<exists>t. (case lst' of None \<Rightarrow> Some table' | Some l \<Rightarrow> set_from table' l current') = Some t \<and> tab_is t (kv_parse xs q k cur al))"
  using assms
proof (induction xs q k cur al arbitrary: i lst current table rule: kv_parse.induct)
  case (1 q k cur al)
  then have "\<not> i < len" by auto
  then show ?case using kv_put_is [OF 1(4-6)] by (subst gen_parse_loop.simps) simp
next
  case (2 b bs q k cur al)
  have i: "i < len" using 2(7) by (cases "i < len") auto
  then have b: "inp ! i = b" and bs: "drop (i + 1) (take len inp) = bs"
    using 2(7,9) Cons_nth_drop_Suc [of i "take len inp"] by auto
  have load: "c_load inp i = Some b" using i b 2(9) by (simp add: c_load_def)
  obtain fresh where fresh: "str_init [] = Some fresh" "str_is fresh []" using str_empty by blast
  consider (semi) "\<not> q" "b = 59" | (eq) "\<not> q" "b = 61" | (quote) "q" "b = 34"
    | (other) "\<not> (\<not> q \<and> b = 59)" "\<not> (\<not> q \<and> b = 61)" "\<not> (q \<and> b = 34)" by blast
  then show ?case
  proof cases
    case semi
    obtain t where t: "(case lst of None \<Rightarrow> Some table | Some l \<Rightarrow> set_from table l current) = Some t" "tab_is t (kv_put k cur al)"
      using kv_put_is [OF 2(10-12)] by blast
    have "last_is None None" by (simp add: last_is_def)
    from 2(1) [OF _ bs _ 2(9) this fresh(2) t(2)] semi i
    show ?thesis using i load fresh(1) t(1) by (subst gen_parse_loop.simps) simp
  next
    case eq
    have l: "last_is (Some current) (Some cur)" using 2(11) by (simp add: last_is_def)
    have "i + 1 < length inp"
    proof (cases "i + 1 = len")
      case True
      then have "inp ! (len - 1) = 61" using b eq(2) by auto
      then show ?thesis using True 2(9) by (cases "len = length inp") auto
    qed (use i 2(9) in simp)
    then have load': "c_load inp (i + 1) = Some (inp ! (i + 1))" by (simp add: c_load_def)
    have bs': "bs \<noteq> [] \<longleftrightarrow> i + 1 < len" using bs 2(9) by auto
    have hd: "bs \<noteq> [] \<Longrightarrow> hd bs = inp ! (i + 1)" using bs bs' 2(9) by (auto simp: hd_drop_conv_nth)
    show ?thesis
    proof (cases "inp ! (i + 1) = 34")
      case False
      then have nq: "\<not> (bs \<noteq> [] \<and> hd bs = 34)" using hd by auto
      from 2(3) [OF _ _ nq bs _ 2(9) l fresh(2) 2(12)] eq i
      show ?thesis using i load load' fresh(1) False eq by (subst gen_parse_loop.simps) (auto simp: nq)
    next
      case True
      show ?thesis
      proof (cases "bs = []")
        case False
        then have hq: "bs \<noteq> [] \<and> hd bs = 34" using hd True by simp
        have "drop (i + 2) (take len inp) = tl bs" using bs by (metis add_2_eq_Suc' add.commute drop_Suc plus_1_eq_Suc tl_drop drop_drop)
        from 2(2) [OF _ _ hq this _ 2(9) l fresh(2) 2(12)] eq i bs' False
        show ?thesis using i load load' fresh(1) True hq eq by (subst gen_parse_loop.simps) simp
      next
        case empty: True
        then have "\<not> i + 2 < len" using bs' by simp
        then have "gen_parse_loop inp len (i + 2) True (Some current) fresh table = Some (Some current, fresh, table)"
          by (subst gen_parse_loop.simps) simp
        then show ?thesis using kv_put_is [OF l fresh(2) 2(12)] i load load' fresh(1) True eq empty
          by (subst gen_parse_loop.simps) simp
      qed
    qed
  next
    case quote
    from 2(4) [OF _ _ _ bs _ 2(9) 2(10) 2(11) 2(12)] quote i
    show ?thesis using i load by (subst gen_parse_loop.simps) simp
  next
    case other
    have f: "first_byte current = Some (case cur of [] \<Rightarrow> 0 | x # _ \<Rightarrow> x)" by (rule first_byte_is [OF 2(11)])
    have sp: "(cur = [] \<or> hd cur = 0) \<longleftrightarrow> (case cur of [] \<Rightarrow> 0 | x # _ \<Rightarrow> x) = (0 :: u8)" by (cases cur) simp_all
    show ?thesis
    proof (cases "(cur = [] \<or> hd cur = 0) \<and> b = 32")
      case True
      from 2(5) [OF other True bs _ 2(9) 2(10) 2(11) 2(12)] i
      show ?thesis using i load f other True sp by (subst gen_parse_loop.simps) auto
    next
      case False
      obtain c where c: "push_byte current b = Some c" "str_is c (cur @ [b])" using push_byte_is [OF 2(11)] by blast
      from 2(6) [OF other False bs _ 2(9) 2(10) c(2) 2(12)] i
      show ?thesis using i load f other False sp c(1) by (subst gen_parse_loop.simps) auto
    qed
  qed
qed

lemma gen_parse_is:
  assumes "len \<le> length inp \<and> (len = length inp \<longrightarrow> inp ! (len - 1) \<noteq> 61)" "tab_is table al"
  shows "\<exists>t. gen_parse inp len table = Some t \<and> tab_is t (kv_parse (take len inp) False None [] al)"
proof -
  obtain c where c: "str_init [] = Some c" "str_is c []" using str_empty by blast
  have "last_is None None" by (simp add: last_is_def)
  from gen_parse_loop_is [OF _ _ assms(1) this c(2) assms(2), of 0 "take len inp" False]
  show ?thesis using c(1) by (auto simp: gen_parse_def)
qed

text \<open>A list k=v; k=v of plain keys and values.\<close>

definition plain :: "u8 list \<Rightarrow> bool" where
  "plain xs \<longleftrightarrow> 0 \<notin> set xs \<and> 59 \<notin> set xs \<and> 61 \<notin> set xs \<and> (xs \<noteq> [] \<longrightarrow> hd xs \<noteq> 32 \<and> hd xs \<noteq> 34)"

fun kv_text :: "(u8 list \<times> u8 list) list \<Rightarrow> u8 list" where
  "kv_text [] = []"
| "kv_text [(k, v)] = k @ 61 # v"
| "kv_text ((k, v) # kvs) = k @ 61 # v @ 59 # 32 # kv_text kvs"

definition put_all :: "('k \<times> 'v) list \<Rightarrow> ('k \<times> 'v) list \<Rightarrow> ('k \<times> 'v) list" where
  "put_all kvs al = fold (\<lambda>(k, v). AList.update k v) kvs al"

lemma kv_segment:
  assumes "0 \<notin> set xs" "59 \<notin> set xs" "61 \<notin> set xs" "cur \<noteq> [] \<longrightarrow> hd cur \<noteq> 0" "cur = [] \<and> xs \<noteq> [] \<longrightarrow> hd xs \<noteq> 32"
  shows "kv_parse (xs @ ys) False lst cur al = kv_parse ys False lst (cur @ xs) al"
  using assms
proof (induction xs arbitrary: cur)
  case (Cons x xs)
  have "kv_parse (xs @ ys) False lst (cur @ [x]) al = kv_parse ys False lst ((cur @ [x]) @ xs) al"
    using Cons.prems by (intro Cons.IH) (auto simp: hd_append)
  moreover have "\<not> ((cur = [] \<or> hd cur = 0) \<and> x = 32)" "x \<noteq> 59" "x \<noteq> 61" using Cons.prems by auto
  ultimately show ?case by auto
qed simp

lemma kv_plain: "plain xs \<Longrightarrow> kv_parse (xs @ ys) False lst [] al = kv_parse ys False lst xs al"
  by (subst kv_segment) (auto simp: plain_def)

lemma kv_pair:
  assumes "plain k" "plain v" "ys = [] \<or> hd ys \<noteq> 34"
  shows "kv_parse (k @ 61 # v @ ys) False None [] al = kv_parse ys False (Some k) v al"
proof -
  have "\<not> (v @ ys \<noteq> [] \<and> hd (v @ ys) = 34)" using assms(2,3) by (cases v) (auto simp: plain_def)
  then show ?thesis using assms by (auto simp: kv_plain)
qed

lemma kv_text_parse:
  "\<forall>(k, v)\<in>set kvs. plain k \<and> plain v \<Longrightarrow> kv_parse (kv_text kvs) False None [] al = put_all kvs al"
proof (induction kvs arbitrary: al rule: kv_text.induct)
  case (2 k v)
  then have "plain k" "plain v" "0 \<notin> set k" by (simp_all add: plain_def)
  then show ?case using kv_pair [of k v "[]"] by (simp add: kv_put_def put_all_def c_str_id)
next
  case (3 k v kv kvs)
  then have "plain k" "plain v" "0 \<notin> set k" by (simp_all add: plain_def)
  then show ?case using kv_pair [of k v "59 # 32 # kv_text (kv # kvs)"] 3
    by (simp add: kv_put_def put_all_def c_str_id)
qed (simp add: kv_put_def put_all_def)

text \<open>A second equals sign in a pair throws away the key and the first part of the value.\<close>

lemma kv_parse_two_equals: "kv_parse (bytes ''a=b=c'') False None [] [] = [(bytes ''b'', bytes ''c'')]"
  by (simp add: bytes_def kv_put_def c_str_def)

end
