(* ===== verification/HttpRequest.thy ===== *)
theory HttpRequest
  imports Util
begin

text \<open>
  The request side of \<open>src/src/net/util.c\<close>: the loop that receives a header, the header parser, percent
  decoding, the parameters of a header value, and the texts of responses.  The parsers are proved
  against functions of the bytes; a request written from its parts is parsed back into them.
\<close>

section \<open>Receiving\<close>

definition MAX_HEADER_SIZE :: nat where
  "MAX_HEADER_SIZE = 1048576"

definition BUFFER_SIZE :: nat where
  "BUFFER_SIZE = 20000"

text \<open>The results of the successive calls of recv are a list: a chunk of at most BUFFER_SIZE bytes, or
  None for an error or the end of the connection.  The result is the return value, the bytes
  received and the position of the blank line; an exhausted list stands for a call that blocks.\<close>

fun recv_header_loop :: "u8 list option list \<Rightarrow> u8 list \<Rightarrow> (int \<times> u8 list \<times> nat option) option" where
  "recv_header_loop [] buffer = None"
| "recv_header_loop (None # cs) buffer = Some (-1, buffer, None)"
| "recv_header_loop (Some c # cs) buffer =
     (if c = [] then Some (-1, buffer, None)
      else
        (let len = length buffer;
             start_len = (if int len - 4 > 0 then len - 4 else len);
             search_end = (if int len - 4 > 0 then length c + 4 else length c)
         in case memmem (take search_end (drop start_len (buffer @ c))) [13, 10, 13, 10] of
              Some e \<Rightarrow> Some (int (len + length c), buffer @ c, Some (start_len + e))
            | None \<Rightarrow> if len + length c \<ge> MAX_HEADER_SIZE then Some (-2, buffer @ c, None)
                     else recv_header_loop cs (buffer @ c)))"

definition recv_header :: "u8 list option list \<Rightarrow> (int \<times> u8 list \<times> nat option) option" where
  "recv_header cs = recv_header_loop cs []"

section \<open>Header\<close>

definition max_uri_len :: nat where
  "max_uri_len = 4096"

text \<open>current->c[current->len - 1] = 0: with an empty text the index wraps.\<close>

definition cut_last :: "str \<Rightarrow> str option" where
  "cut_last s = map_option (\<lambda>c. s\<lparr>s_c := c\<rparr>) (c_store (s_c s) (size_sub (s_len s) 1) (Some 0))"

definition line_name :: "nat \<Rightarrow> u8 list" where
  "line_name item = bytes (if item = 0 then ''Request'' else if item = 1 then ''Path'' else ''Version'')"

text \<open>The first line.  The result is the table when the line is too long, or the position reached, the
  number of items read and the state.\<close>

function first_line :: "u8 list \<Rightarrow> nat \<Rightarrow> nat \<Rightarrow> nat \<Rightarrow> str \<Rightarrow> str parray
    \<Rightarrow> (str parray + (nat \<times> nat \<times> str \<times> str parray)) option" where
  "first_line buffer eof oi item current table =
     (if oi = eof then Some (Inr (oi, item, current, table))
      else Option.bind (c_load buffer oi) (\<lambda>b.
        if b = 32 \<or> b = 10 then
          Option.bind (if b = 10 then cut_last current else Some current) (\<lambda>current.
          Option.bind (if item < 3 then Option.bind (copy_cstr current) (parray_set table (line_name item)) else Some table) (\<lambda>table.
          Option.bind (str_clear current) (\<lambda>current.
            if b = 10 then Some (Inr (oi, item + 1, current, table))
            else first_line buffer eof (oi + 1) (item + 1) current table)))
        else if oi \<ge> max_uri_len then Some (Inl table)
        else Option.bind (push_byte current b) (\<lambda>current. first_line buffer eof (oi + 1) item current table)))"
  by pat_completeness auto
termination
  by (relation "measure (\<lambda>(buffer, eof, oi, item, current, table). Suc (length buffer) - oi)")
    (auto simp: c_load_def split: if_splits)

text \<open>The other lines: sw is the key of the line being read, NULL before the colon.\<close>

function header_lines :: "u8 list \<Rightarrow> nat \<Rightarrow> nat \<Rightarrow> nat \<Rightarrow> str option \<Rightarrow> str \<Rightarrow> str parray
    \<Rightarrow> (str option \<times> str \<times> str parray) option" where
  "header_lines buffer eof oi i sw current table =
     (if i = eof then Some (sw, current, table)
      else Option.bind (c_load buffer i) (\<lambda>b. Option.bind (first_byte current) (\<lambda>f.
        if b = 32 \<and> f = 0 then header_lines buffer eof oi (i + 1) sw current table
        else (case sw of
          None \<Rightarrow>
            if b = 58 then Option.bind (str_init []) (\<lambda>fresh. header_lines buffer eof oi (i + 1) (Some current) fresh table)
            else Option.bind (push_byte current b) (\<lambda>current. header_lines buffer eof oi (i + 1) None current table)
        | Some key \<Rightarrow>
            if b = 10 then
              Option.bind (c_load buffer oi) (\<lambda>ob. Option.bind (if ob = 10 then cut_last current else Some current) (\<lambda>current.
              Option.bind (copy_cstr current) (\<lambda>v. Option.bind (set_from table key v) (\<lambda>table.
              Option.bind (str_clear current) (\<lambda>current. header_lines buffer eof oi (i + 1) None current table)))))
            else Option.bind (push_byte current b) (\<lambda>current. header_lines buffer eof oi (i + 1) (Some key) current table)))))"
  by pat_completeness auto
termination
  by (relation "measure (\<lambda>(buffer, eof, oi, i, sw, current, table). Suc (length buffer) - i)")
    (auto simp: c_load_def split: if_splits)

declare first_line.simps [simp del] header_lines.simps [simp del]

definition parse_header :: "u8 list \<Rightarrow> int \<Rightarrow> (int \<times> str parray option) option" where
  "parse_header buffer header_eof =
     (if header_eof = -1 then Some (-1, None)
      else if header_eof < 0 then None
      else do {
        current \<leftarrow> str_init [];
        r \<leftarrow> first_line buffer (nat header_eof) 0 0 current parray_init;
        (case r of
           Inl table \<Rightarrow> Some (-2, Some table)
         | Inr (oi, item, current, table) \<Rightarrow>
             if item < 3 then Some (-1, Some table)
             else do {
               (sw, current, table) \<leftarrow> header_lines buffer (nat header_eof) oi (oi + 1) None current table;
               table \<leftarrow> (case sw of None \<Rightarrow> Some table
                 | Some key \<Rightarrow> Option.bind (copy_cstr current) (set_from table key));
               Some (0, Some table)
             })
      })"

section \<open>The parser on its bytes\<close>

lemma cut_last_is:
  assumes "str_is s (xs @ [x])" "length xs < 2 ^ 63"
  shows "\<exists>s'. cut_last s = Some s' \<and> str_is s' (xs @ [0])"
proof -
  obtain rest where r: "s_c s = map Some (xs @ [x]) @ Some 0 # rest" "s_len s = length (xs @ [x])" "s_bytes s = length (s_c s)"
    using assms(1) unfolding str_is_def str_wf_shape by auto
  have "size_sub (s_len s) 1 = length xs" using assms(2) r(2) by (simp add: size_sub_le)
  moreover have "length xs < length (s_c s)" by (simp add: r(1))
  moreover have "(s_c s)[length xs := Some 0] = map Some (xs @ [0]) @ Some 0 # rest"
    by (simp add: r(1) list_update_append)
  ultimately have "cut_last s = Some (s\<lparr>s_c := map Some (xs @ [0]) @ Some 0 # rest\<rparr>)" by (simp add: cut_last_def c_mem)
  moreover have "str_wf (s\<lparr>s_c := map Some (xs @ [0]) @ Some 0 # rest\<rparr>) \<and> str_text (s\<lparr>s_c := map Some (xs @ [0]) @ Some 0 # rest\<rparr>) = xs @ [0]"
    using r by (intro str_wf_build [where rest = rest]) simp_all
  ultimately show ?thesis by (simp add: str_is_def)
qed

lemma cut_last_empty: "s_len s = 0 \<Longrightarrow> length (s_c s) < 2 ^ 63 \<Longrightarrow> cut_last s = None"
  by (simp add: cut_last_def size_sub_def c_store_def)

lemma c_str_cut: "0 \<notin> set xs \<Longrightarrow> c_str (xs @ [0]) = xs"
  using c_str_text [of xs "[]"] by simp

lemma line_name_nonzero: "0 \<notin> set (line_name item)"
  by (cases "item = 0"; cases "item = 1"; simp add: line_name_def bytes_def)

lemma first_line_segment:
  assumes "\<forall>i < length seg. buffer ! (oi + i) = seg ! i" "oi + length seg \<le> eof" "eof \<le> length buffer"
    "oi + length seg \<le> max_uri_len" "32 \<notin> set seg" "10 \<notin> set seg" "str_is cur xs"
  shows "\<exists>cur'. first_line buffer eof oi item cur table = first_line buffer eof (oi + length seg) item cur' table
    \<and> str_is cur' (xs @ seg)"
  using assms
proof (induction seg arbitrary: oi cur xs)
  case (Cons b seg)
  have b: "buffer ! oi = b" "oi < eof" using Cons.prems(1,2) by force+
  obtain c where c: "push_byte cur b = Some c" "str_is c (xs @ [b])" using push_byte_is [OF Cons.prems(7)] by blast
  have "\<forall>i < length seg. buffer ! (oi + 1 + i) = seg ! i" using Cons.prems(1) by force
  then obtain cur' where cur': "first_line buffer eof (oi + 1) item c table
      = first_line buffer eof (oi + 1 + length seg) item cur' table" "str_is cur' ((xs @ [b]) @ seg)"
    using Cons.IH [of "oi + 1" c "xs @ [b]"] Cons.prems c(2) by auto
  have "first_line buffer eof oi item cur table = first_line buffer eof (oi + 1) item c table"
    using Cons.prems b c(1) by (subst first_line.simps) (simp add: c_load_def)
  then show ?case using cur' by (intro exI [of _ cur']) simp
qed auto

text \<open>A separator stores the item read; a newline drops the byte before it, and ends the line.\<close>

lemma store_item:
  assumes "str_is cur xs" "tab_is table al"
  shows "\<exists>v t cur'. copy_cstr cur = Some v \<and> parray_set table (line_name item) v = Some t \<and> str_clear cur = Some cur'
    \<and> str_is cur' [] \<and> tab_is t (AList.update (line_name item) (c_str xs) al)"
proof -
  obtain v where v: "copy_cstr cur = Some v" "str_is v (c_str xs)" using copy_cstr_is [OF assms(1)] by blast
  show ?thesis
    using str_clear_is [OF assms(1)] tab_set [OF assms(2) line_name_nonzero v(2), of item] v(1) by auto
qed

lemma first_line_space:
  assumes "buffer ! oi = 32" "oi < eof" "eof \<le> length buffer" "item < 3" "str_is cur xs" "tab_is table al"
  shows "\<exists>cur' t. first_line buffer eof oi item cur table = first_line buffer eof (oi + 1) (item + 1) cur' t
    \<and> str_is cur' [] \<and> tab_is t (AList.update (line_name item) (c_str xs) al)"
proof -
  obtain v t cur' where v: "copy_cstr cur = Some v" "parray_set table (line_name item) v = Some t" "str_clear cur = Some cur'"
    "str_is cur' []" "tab_is t (AList.update (line_name item) (c_str xs) al)"
    using store_item [OF assms(5,6), of item] by blast
  have "first_line buffer eof oi item cur table = first_line buffer eof (oi + 1) (item + 1) cur' t"
    using assms(1-4) v by (subst first_line.simps) (simp add: c_load_def)
  then show ?thesis using v(4,5) by blast
qed

lemma first_line_newline:
  assumes "buffer ! oi = 10" "oi < eof" "eof \<le> length buffer" "item < 3" "str_is cur (xs @ [x])" "tab_is table al"
    "0 \<notin> set xs" "length xs < 2 ^ 63"
  shows "\<exists>cur' t. first_line buffer eof oi item cur table = Some (Inr (oi, item + 1, cur', t))
    \<and> str_is cur' [] \<and> tab_is t (AList.update (line_name item) xs al)"
proof -
  obtain c where c: "cut_last cur = Some c" "str_is c (xs @ [0])" using cut_last_is [OF assms(5,8)] by blast
  show ?thesis
    using store_item [OF c(2) assms(6), of item] assms(1-4) c(1) c_str_cut [OF assms(7)]
    by (subst first_line.simps) (auto simp: c_load_def)
qed

lemma header_segment:
  assumes "\<forall>j < length seg. buffer ! (i + j) = seg ! j" "i + length seg \<le> eof" "eof \<le> length buffer"
    "(case sw of None \<Rightarrow> 58 | Some _ \<Rightarrow> 10) \<notin> set seg" "0 \<notin> set seg" "str_is cur xs"
    "xs \<noteq> [] \<longrightarrow> hd xs \<noteq> 0" "xs = [] \<and> seg \<noteq> [] \<longrightarrow> hd seg \<noteq> 32"
  shows "\<exists>cur'. header_lines buffer eof oi i sw cur table = header_lines buffer eof oi (i + length seg) sw cur' table
    \<and> str_is cur' (xs @ seg)"
  using assms
proof (induction seg arbitrary: i cur xs)
  case (Cons b seg)
  have b: "buffer ! i = b" "i < eof" using Cons.prems(1,2) by force+
  obtain c where c: "push_byte cur b = Some c" "str_is c (xs @ [b])" using push_byte_is [OF Cons.prems(6)] by blast
  have "\<forall>j < length seg. buffer ! (i + 1 + j) = seg ! j" using Cons.prems(1) by force
  moreover have "hd (xs @ [b]) \<noteq> 0" using Cons.prems(5,7) by (cases xs) auto
  ultimately have "\<exists>cur'. header_lines buffer eof oi (i + 1) sw c table
      = header_lines buffer eof oi (i + 1 + length seg) sw cur' table \<and> str_is cur' ((xs @ [b]) @ seg)"
    using Cons.prems c(2) by (intro Cons.IH) simp_all
  then obtain cur' where cur': "header_lines buffer eof oi (i + 1) sw c table
      = header_lines buffer eof oi (i + 1 + length seg) sw cur' table" "str_is cur' ((xs @ [b]) @ seg)" by blast
  have f: "first_byte cur = Some (case xs of [] \<Rightarrow> 0 | x # _ \<Rightarrow> x)" by (rule first_byte_is [OF Cons.prems(6)])
  have "\<not> (b = 32 \<and> (case xs of [] \<Rightarrow> 0 | x # _ \<Rightarrow> x) = 0)" using Cons.prems(7,8) by (cases xs) auto
  then have "header_lines buffer eof oi i sw cur table = header_lines buffer eof oi (i + 1) sw c table"
    using Cons.prems(3,4) b c(1) f by (subst header_lines.simps) (auto simp: c_load_def split: option.splits)
  then show ?case using cur' by (intro exI [of _ cur']) simp
qed auto

text \<open>The colon of a line, the spaces after it, and its newline.\<close>

lemma header_colon:
  assumes "buffer ! i = 58" "buffer ! (i + 1) = 32" "i + 1 < eof" "eof \<le> length buffer" "str_is cur xs"
  shows "\<exists>fresh. header_lines buffer eof oi i None cur table = header_lines buffer eof oi (i + 2) (Some cur) fresh table
    \<and> str_is fresh []"
proof -
  obtain fresh where fresh: "str_init [] = Some fresh" "str_is fresh []" using str_empty by blast
  have "header_lines buffer eof oi i None cur table = header_lines buffer eof oi (i + 1) (Some cur) fresh table"
    using assms first_byte_is [OF assms(5)] fresh(1) by (subst header_lines.simps) (simp add: c_load_def)
  also have "\<dots> = header_lines buffer eof oi (i + 2) (Some cur) fresh table"
    using assms first_byte_is [OF fresh(2)] by (subst header_lines.simps) (simp add: c_load_def)
  finally show ?thesis using fresh(2) by blast
qed

lemma header_newline:
  assumes "buffer ! i = 10" "i < eof" "eof \<le> length buffer" "buffer ! oi = 10" "oi < eof"
    "str_is cur (xs @ [x])" "0 \<notin> set xs" "x \<noteq> 0" "length xs < 2 ^ 63" "str_is key ks" "0 \<notin> set ks" "tab_is table al"
  shows "\<exists>cur' t. header_lines buffer eof oi i (Some key) cur table = header_lines buffer eof oi (i + 1) None cur' t
    \<and> str_is cur' [] \<and> tab_is t (AList.update ks xs al)"
proof -
  obtain c where c: "cut_last cur = Some c" "str_is c (xs @ [0])" using cut_last_is [OF assms(6,9)] by blast
  obtain v where v: "copy_cstr c = Some v" "str_is v xs" using copy_cstr_is [OF c(2)] c_str_cut [OF assms(7)] by auto
  obtain t where t: "set_from table key v = Some t" "tab_is t (AList.update ks xs al)"
    using set_from_is [OF assms(12,10) v(2)] c_str_id [OF assms(11)] by auto
  obtain cur' where cur': "str_clear c = Some cur'" "str_is cur' []" using str_clear_is [OF c(2)] by blast
  have f: "first_byte cur = Some (case xs @ [x] of [] \<Rightarrow> 0 | x # _ \<Rightarrow> x)" by (rule first_byte_is [OF assms(6)])
  have "header_lines buffer eof oi i (Some key) cur table = header_lines buffer eof oi (i + 1) None cur' t"
    using assms(1-5) c(1) v(1) t(1) cur'(1) f by (subst header_lines.simps) (simp add: c_load_def)
  then show ?thesis using t(2) cur'(2) by blast
qed

section \<open>Requests\<close>

text \<open>The text of a request: the three words of the first line and the lines of the header.\<close>

definition word_ok :: "u8 list \<Rightarrow> bool" where
  "word_ok xs \<longleftrightarrow> 0 \<notin> set xs \<and> 32 \<notin> set xs \<and> 10 \<notin> set xs"

definition field_ok :: "u8 list \<times> u8 list \<Rightarrow> bool" where
  "field_ok kv \<longleftrightarrow> 0 \<notin> set (fst kv) \<and> 58 \<notin> set (fst kv) \<and> (fst kv \<noteq> [] \<longrightarrow> hd (fst kv) \<noteq> 32)
     \<and> 0 \<notin> set (snd kv) \<and> 10 \<notin> set (snd kv) \<and> (snd kv \<noteq> [] \<longrightarrow> hd (snd kv) \<noteq> 32)"

fun fields_text :: "(u8 list \<times> u8 list) list \<Rightarrow> u8 list" where
  "fields_text [] = []"
| "fields_text [(k, v)] = k @ [58, 32] @ v"
| "fields_text ((k, v) # kvs) = k @ [58, 32] @ v @ [13, 10] @ fields_text kvs"

definition request_text :: "u8 list \<Rightarrow> u8 list \<Rightarrow> u8 list \<Rightarrow> (u8 list \<times> u8 list) list \<Rightarrow> u8 list" where
  "request_text m p v hs = m @ [32] @ p @ [32] @ v @ [13, 10] @ fields_text hs"

text \<open>The loop over the lines, and the pair that is still open at its end.\<close>

definition lines_done :: "(str option \<times> str \<times> str parray) option \<Rightarrow> (u8 list \<times> u8 list) list \<Rightarrow> bool" where
  "lines_done r al \<longleftrightarrow> (\<exists>sw cur table t. r = Some (sw, cur, table) \<and>
     (case sw of None \<Rightarrow> Some table | Some key \<Rightarrow> Option.bind (copy_cstr cur) (set_from table key)) = Some t \<and> tab_is t al)"

lemma nth_middle_seg: "buffer = pre @ seg @ post \<Longrightarrow> \<forall>j < length seg. buffer ! (length pre + j) = seg ! j"
  by (simp add: nth_append)

lemma header_field:
  assumes "buffer = pre @ k @ [58, 32] @ w @ post" "length pre + length k + 2 + length w \<le> eof" "eof \<le> length buffer"
    "0 \<notin> set k" "58 \<notin> set k" "k \<noteq> [] \<longrightarrow> hd k \<noteq> 32" "str_is cur []" "10 \<notin> set w" "0 \<notin> set w" "w \<noteq> [] \<longrightarrow> hd w \<noteq> 32"
  shows "\<exists>key cur'. header_lines buffer eof oi (length pre) None cur table
     = header_lines buffer eof oi (length pre + length k + 2 + length w) (Some key) cur' table
     \<and> str_is key k \<and> str_is cur' w"
proof -
  obtain key where key: "header_lines buffer eof oi (length pre) None cur table
      = header_lines buffer eof oi (length pre + length k) None key table" "str_is key k"
    using header_segment [OF nth_middle_seg [of buffer pre k], of "[58, 32] @ w @ post" eof None cur "[]" oi table] assms by auto
  have "buffer ! (length pre + length k) = 58" "buffer ! (length pre + length k + 1) = 32"
    by (simp_all add: assms(1) nth_append)
  then obtain fresh where fresh: "header_lines buffer eof oi (length pre + length k) None key table
      = header_lines buffer eof oi (length pre + length k + 2) (Some key) fresh table" "str_is fresh []"
    using header_colon [of buffer "length pre + length k" eof key k oi table] key(2) assms(2,3) by auto
  have "\<forall>j < length w. buffer ! (length (pre @ k @ [58, 32]) + j) = w ! j"
    using assms(1) by (intro nth_middle_seg) simp
  then have "\<forall>j < length w. buffer ! (length pre + length k + 2 + j) = w ! j" by (simp add: add.assoc)
  from header_segment [OF this assms(2,3) _ assms(9) fresh(2), of "Some key" oi table] assms(8,10)
  obtain cur' where "header_lines buffer eof oi (length pre + length k + 2) (Some key) fresh table
      = header_lines buffer eof oi (length pre + length k + 2 + length w) (Some key) cur' table" "str_is cur' w"
    by auto
  then show ?thesis using key fresh(1) by auto
qed

lemma header_fields:
  assumes "buffer = pre @ fields_text hs @ post" "eof = length pre + length (fields_text hs)" "\<forall>kv\<in>set hs. field_ok kv"
    "str_is cur []" "tab_is table al" "buffer ! oi = 10" "oi < eof" "length buffer < 2 ^ 63"
  shows "lines_done (header_lines buffer eof oi (length pre) None cur table) (put_all hs al)"
  using assms
proof (induction hs arbitrary: pre cur table al rule: fields_text.induct)
  case 1
  then show ?case by (subst header_lines.simps) (simp add: lines_done_def put_all_def)
next
  case (2 k v)
  from 2 have f: "buffer = pre @ k @ [58, 32] @ v @ post" "length pre + length k + 2 + length v = eof" "field_ok (k, v)" by simp_all
  obtain key cur' where l: "header_lines buffer eof oi (length pre) None cur table
      = header_lines buffer eof oi eof (Some key) cur' table" "str_is key k" "str_is cur' v"
    using header_field [OF f(1), of eof cur oi table] f 2(4) by (auto simp: field_ok_def)
  have "c_str v = v" "c_str k = k" using f(3) by (simp_all add: field_ok_def c_str_id)
  then obtain x t where "copy_cstr cur' = Some x" "set_from table key x = Some t" "tab_is t (AList.update k v al)"
    using copy_cstr_is [OF l(3)] set_from_is [OF 2(5) l(2)] by metis
  then show ?case unfolding l(1) by (subst header_lines.simps) (simp add: lines_done_def put_all_def)
next
  case (3 k v kv kvs)
  let ?i = "length pre + length k + 2 + length (v @ [13])"
  from 3 have f: "buffer = pre @ k @ [58, 32] @ (v @ [13]) @ (10 # fields_text (kv # kvs) @ post)"
    "?i < eof" "eof \<le> length buffer" "field_ok (k, v)" by simp_all
  obtain key cur' where l: "header_lines buffer eof oi (length pre) None cur table
      = header_lines buffer eof oi ?i (Some key) cur' table" "str_is key k" "str_is cur' (v @ [13])"
    using header_field [OF f(1), of eof cur oi table] f(2-4) 3(5) by (cases v) (auto simp: field_ok_def)
  have nl: "buffer ! ?i = 10" by (simp add: f(1) nth_append)
  have v: "0 \<notin> set v" "0 \<notin> set k" "length v < 2 ^ 63" using f(1,4) 3(9) by (simp_all add: field_ok_def)
  obtain cur2 t where n: "header_lines buffer eof oi ?i (Some key) cur' table = header_lines buffer eof oi (?i + 1) None cur2 t"
    "str_is cur2 []" "tab_is t (AList.update k v al)"
    using header_newline [OF nl f(2,3) 3(7,8) l(3) v(1) _ v(3) l(2) v(2) 3(6)] by auto
  have "buffer = (pre @ k @ [58, 32] @ v @ [13, 10]) @ fields_text (kv # kvs) @ post" using f(1) by simp
  from 3(1) [OF this _ _ n(2,3) 3(7,8,9)] 3(3,4)
  have "lines_done (header_lines buffer eof oi (length (pre @ k @ [58, 32] @ v @ [13, 10])) None cur2 t) (put_all (kv # kvs) (AList.update k v al))"
    by simp
  moreover have "length (pre @ k @ [58, 32] @ v @ [13, 10]) = ?i + 1" by simp
  ultimately show ?case unfolding l(1) n(1) by (simp add: put_all_def add.assoc)
qed

text \<open>The first line, up to its newline or to the end.\<close>

lemma first_words:
  assumes "buffer = m @ [32] @ p @ [32] @ w @ post" "length m + length p + 2 + length w \<le> eof" "eof \<le> length buffer"
    "length m + length p + 2 + length w \<le> max_uri_len" "word_ok m" "word_ok p" "word_ok w" "str_is cur []"
  shows "\<exists>cur' t. first_line buffer eof 0 0 cur parray_init = first_line buffer eof (length m + length p + 2 + length w) 2 cur' t
    \<and> str_is cur' w \<and> tab_is t [(line_name 0, m), (line_name 1, p)]"
proof -
  have w: "32 \<notin> set m" "10 \<notin> set m" "c_str m = m" "32 \<notin> set p" "10 \<notin> set p" "c_str p = p" "32 \<notin> set w" "10 \<notin> set w"
    using assms(5-7) by (simp_all add: word_ok_def c_str_id)
  have ne: "line_name 0 \<noteq> line_name 1" by (simp add: line_name_def bytes_def)
  obtain c1 where c1: "first_line buffer eof 0 0 cur parray_init = first_line buffer eof (length m) 0 c1 parray_init" "str_is c1 m"
    using first_line_segment [of m buffer 0 eof cur "[]" 0 parray_init] assms w nth_middle_seg [of buffer "[]" m] by auto
  have "buffer ! length m = 32" by (simp add: assms(1))
  then obtain c2 t2 where c2: "first_line buffer eof (length m) 0 c1 parray_init = first_line buffer eof (length m + 1) 1 c2 t2"
    "str_is c2 []" "tab_is t2 [(line_name 0, m)]"
    using first_line_space [of buffer "length m" eof 0 c1 m parray_init "[]"] assms(2,3) c1(2) tab_init w by auto
  have "\<forall>j < length p. buffer ! (length m + 1 + j) = p ! j"
    using nth_middle_seg [of buffer "m @ [32]" p] assms(1) by simp
  then obtain c3 where c3: "first_line buffer eof (length m + 1) 1 c2 t2 = first_line buffer eof (length m + 1 + length p) 1 c3 t2" "str_is c3 p"
    using first_line_segment [of p buffer "length m + 1" eof c2 "[]" 1 t2] assms w c2(2) by auto
  have "buffer ! (length m + 1 + length p) = 32" by (simp add: assms(1) nth_append)
  then obtain c4 t4 where c4: "first_line buffer eof (length m + 1 + length p) 1 c3 t2 = first_line buffer eof (length m + 1 + length p + 1) 2 c4 t4"
    "str_is c4 []" "tab_is t4 [(line_name 0, m), (line_name 1, p)]"
    using first_line_space [of buffer "length m + 1 + length p" eof 1 c3 p t2 "[(line_name 0, m)]"] assms(2,3) c3(2) c2(3) w ne
    by (auto simp: numeral_2_eq_2)
  have "\<forall>j < length w. buffer ! (length m + 1 + length p + 1 + j) = w ! j"
    using nth_middle_seg [of buffer "m @ [32] @ p @ [32]" w] assms(1) by (simp add: add.assoc)
  then obtain c5 where "first_line buffer eof (length m + 1 + length p + 1) 2 c4 t4 = first_line buffer eof (length m + 1 + length p + 1 + length w) 2 c5 t4"
    "str_is c5 w"
    using first_line_segment [of w buffer "length m + 1 + length p + 1" eof c4 "[]" 2 t4] assms w c4(2) by auto
  moreover have "length m + 1 + length p + 1 + length w = length m + length p + 2 + length w" by simp
  ultimately show ?thesis using c1(1) c2(1) c3(1) c4(1,3) by auto
qed

definition request_pairs :: "u8 list \<Rightarrow> u8 list \<Rightarrow> u8 list \<Rightarrow> (u8 list \<times> u8 list) list" where
  "request_pairs m p v = [(bytes ''Request'', m), (bytes ''Path'', p), (bytes ''Version'', v)]"

lemma parse_request:
  assumes "word_ok m" "word_ok p" "word_ok v" "\<forall>kv\<in>set hs. field_ok kv"
    "length m + length p + length v + 3 \<le> max_uri_len" "length (request_text m p v hs @ post) < 2 ^ 63"
  shows "\<exists>t. parse_header (request_text m p v hs @ post) (int (length (request_text m p v hs))) = Some (0, Some t)
    \<and> tab_is t (put_all hs (request_pairs m p v))"
proof -
  define buffer where "buffer = request_text m p v hs @ post"
  define eof where "eof = length (request_text m p v hs)"
  let ?w = "v @ [13]" and ?oi = "length m + length p + 2 + length (v @ [13])"
  have buffer: "buffer = m @ [32] @ p @ [32] @ ?w @ 10 # fields_text hs @ post" by (simp add: buffer_def request_text_def)
  have eof: "?oi < eof" "eof \<le> length buffer" "eof = ?oi + 1 + length (fields_text hs)"
    by (simp_all add: eof_def buffer_def request_text_def)
  have w: "word_ok ?w" using assms(3) by (simp add: word_ok_def)
  obtain cur where cur: "str_init [] = Some cur" "str_is cur []" using str_empty by blast
  have le: "?oi \<le> eof" "?oi \<le> max_uri_len" using eof(1) assms(5) by simp_all
  obtain c1 t1 where c1: "first_line buffer eof 0 0 cur parray_init = first_line buffer eof ?oi 2 c1 t1"
    "str_is c1 ?w" "tab_is t1 [(line_name 0, m), (line_name 1, p)]"
    using first_words [OF buffer le(1) eof(2) le(2) assms(1,2) w cur(2)] by blast
  have nl: "buffer ! ?oi = 10" by (simp add: buffer nth_append)
  have v: "0 \<notin> set v" "length v < 2 ^ 63" using assms(3,6) by (simp_all add: word_ok_def request_text_def)
  obtain c2 t2 where c2: "first_line buffer eof ?oi 2 c1 t1 = Some (Inr (?oi, 3, c2, t2))" "str_is c2 []"
    "tab_is t2 (AList.update (line_name 2) v [(line_name 0, m), (line_name 1, p)])"
    using first_line_newline [OF nl eof(1,2) _ c1(2,3) v, of 2] by (auto simp: numeral_3_eq_3)
  have "AList.update (line_name 2) v [(line_name 0, m), (line_name 1, p)] = request_pairs m p v"
    by (simp add: line_name_def request_pairs_def bytes_def)
  then have t2: "tab_is t2 (request_pairs m p v)" using c2(3) by simp
  let ?pre = "m @ [32] @ p @ [32] @ ?w @ [10]"
  have h: "buffer = ?pre @ fields_text hs @ post" "eof = length ?pre + length (fields_text hs)" using buffer eof(3) by simp_all
  have "length buffer < 2 ^ 63" using assms(6) by (simp add: buffer_def)
  from header_fields [OF h assms(4) c2(2) t2 nl eof(1) this]
  have "lines_done (header_lines buffer eof ?oi (length ?pre) None c2 t2) (put_all hs (request_pairs m p v))" .
  moreover have "length ?pre = ?oi + 1" by simp
  ultimately obtain sw cur' table t where "header_lines buffer eof ?oi (?oi + 1) None c2 t2 = Some (sw, cur', table)"
    "(case sw of None \<Rightarrow> Some table | Some key \<Rightarrow> Option.bind (copy_cstr cur') (set_from table key)) = Some t"
    "tab_is t (put_all hs (request_pairs m p v))"
    unfolding lines_done_def by metis
  then have "parse_header buffer (int eof) = Some (0, Some t)"
    using cur(1) c1(1) c2(1) by (simp add: parse_header_def)
  then show ?thesis using \<open>tab_is t (put_all hs (request_pairs m p v))\<close> by (auto simp: buffer_def eof_def)
qed

text \<open>A request without header lines ends at the end of its first line: it is refused.  A first line
  without a blank in its first 4096 bytes gives -2, and a blank line in front of the request makes
  the parser write in front of its buffer.\<close>

lemma parse_request_bare:
  assumes "word_ok m" "word_ok p" "word_ok v" "length m + length p + length v + 2 \<le> max_uri_len"
  shows "\<exists>t. parse_header (m @ [32] @ p @ [32] @ v @ post) (int (length m + length p + 2 + length v)) = Some (-1, Some t)"
proof -
  let ?b = "m @ [32] @ p @ [32] @ v @ post" and ?e = "length m + length p + 2 + length v"
  obtain cur where cur: "str_init [] = Some cur" "str_is cur []" using str_empty by blast
  obtain c1 t1 where "first_line ?b ?e 0 0 cur parray_init = first_line ?b ?e ?e 2 c1 t1"
    using first_words [of ?b m p v post ?e cur] assms cur(2) by auto
  moreover have "first_line ?b ?e ?e 2 c1 t1 = Some (Inr (?e, 2, c1, t1))" by (subst first_line.simps) simp
  ultimately have "first_line ?b ?e 0 0 cur parray_init = Some (Inr (?e, 2, c1, t1))" by simp
  moreover have "nat (int ?e) = ?e" "int ?e \<noteq> -1" "\<not> int ?e < 0" by linarith+
  ultimately show ?thesis using cur(1) unfolding parse_header_def by (simp del: of_nat_add)
qed

lemma parse_request_long:
  assumes "32 \<notin> set (take max_uri_len buffer)" "10 \<notin> set (take max_uri_len buffer)" "max_uri_len < eof" "eof \<le> length buffer"
    "buffer ! max_uri_len \<noteq> 32" "buffer ! max_uri_len \<noteq> 10"
  shows "\<exists>t. parse_header buffer (int eof) = Some (-2, Some t)"
proof -
  obtain cur where cur: "str_init [] = Some cur" "str_is cur []" using str_empty by blast
  have len: "length (take max_uri_len buffer) = max_uri_len" using assms(3,4) by simp
  obtain c1 where "first_line buffer eof 0 0 cur parray_init = first_line buffer eof max_uri_len 0 c1 parray_init"
    using first_line_segment [of "take max_uri_len buffer" buffer 0 eof cur "[]" 0 parray_init] assms cur(2) len by auto
  moreover have "first_line buffer eof max_uri_len 0 c1 parray_init = Some (Inl parray_init)"
    using assms(3-6) by (subst first_line.simps) (simp add: c_load_def)
  ultimately show ?thesis using cur(1) assms(3) by (auto simp: parse_header_def)
qed

lemma parse_request_blank_line:
  assumes "0 < eof" shows "parse_header (10 # rest) (int eof) = None"
proof -
  have c: "str_init [] = Some \<lparr>s_len = 0, s_bytes = 65, s_c = Some 0 # replicate 64 None\<rparr>" by code_simp
  have "cut_last \<lparr>s_len = 0, s_bytes = 65, s_c = Some 0 # replicate 64 None\<rparr> = None"
    by (rule cut_last_empty) simp_all
  then have "first_line (10 # rest) eof 0 0 \<lparr>s_len = 0, s_bytes = 65, s_c = Some 0 # replicate 64 None\<rparr> t = None" for t
    using assms by (subst first_line.simps) (simp add: c_load_def)
  then show ?thesis using c assms by (simp add: parse_header_def)
qed

section \<open>Percent decoding\<close>

text \<open>strtol with base 16 on the two bytes of a buffer made by str_initfl: blanks, a sign and the
  prefix 0x are skipped, and the digits read up to the first byte that is none.\<close>

definition hex_digit_value :: "u8 \<Rightarrow> int option" where
  "hex_digit_value b =
     (let c = uint b in if 48 \<le> c \<and> c \<le> 57 then Some (c - 48) else if 97 \<le> c \<and> c \<le> 102 then Some (c - 87)
      else if 65 \<le> c \<and> c \<le> 70 then Some (c - 55) else None)"

fun strtol_digits :: "u8 list \<Rightarrow> int \<Rightarrow> int" where
  "strtol_digits [] a = a"
| "strtol_digits (b # bs) a = (case hex_digit_value b of None \<Rightarrow> a | Some d \<Rightarrow> strtol_digits bs (16 * a + d))"

definition strtol_prefix :: "u8 list \<Rightarrow> int" where
  "strtol_prefix bs = (case bs of z # x # d # ds \<Rightarrow>
     if z = 48 \<and> (x = 120 \<or> x = 88) \<and> hex_digit_value d \<noteq> None then strtol_digits (d # ds) 0 else strtol_digits bs 0
     | _ \<Rightarrow> strtol_digits bs 0)"

definition strtol16 :: "u8 list \<Rightarrow> int" where
  "strtol16 bs = (case dropWhile (\<lambda>b. b = 32 \<or> 9 \<le> b \<and> b \<le> 13) bs of
     [] \<Rightarrow> 0
   | b # bs \<Rightarrow> if b = 45 then - strtol_prefix bs else if b = 43 then strtol_prefix bs else strtol_prefix (b # bs))"

function percent_loop :: "str \<Rightarrow> nat \<Rightarrow> str \<Rightarrow> (int \<times> str) option" where
  "percent_loop input i output =
     (if i \<le> s_len input then
        Option.bind (Option.bind (c_load (s_c input) i) (\<lambda>b. b)) (\<lambda>b.
          if b = 37 \<and> s_len input - i \<ge> 3 then
            Option.bind (Option.bind (c_load (s_c input) (i + 1)) (\<lambda>b. b)) (\<lambda>h1.
            Option.bind (Option.bind (c_load (s_c input) (i + 2)) (\<lambda>b. b)) (\<lambda>h2.
            Option.bind (str_initfl [h1, h2] 2) (\<lambda>hex. Option.bind (mem_cstr (s_c hex)) (\<lambda>digits.
              let c = strtol16 digits in
              if c = 0 then Some (1, output)
              else Option.bind (push_byte output (word_of_int c)) (\<lambda>output. percent_loop input (i + 3) output)))))
          else Option.bind (push_byte output b) (\<lambda>output. percent_loop input (i + 1) output))
      else Some (0, output))"
  by pat_completeness auto
termination by (relation "measure (\<lambda>(input, i, output). Suc (s_len input) - i)") auto

declare percent_loop.simps [simp del]

definition percent_decode :: "str \<Rightarrow> (int \<times> str) option" where
  "percent_decode input = Option.bind (str_init []) (\<lambda>output. percent_loop input 0 output)"

text \<open>What it computes on the bytes of the input and its terminator, which is decoded too.\<close>

function pct_bytes :: "u8 list \<Rightarrow> u8 list \<Rightarrow> int \<times> u8 list" where
  "pct_bytes [] out = (0, out)"
| "pct_bytes (b # r) out =
     (if b = 37 \<and> 3 \<le> length r then
        (let c = strtol16 (c_str (take 2 r)) in
         if c = 0 then (1, out) else pct_bytes (drop 2 r) (out @ [word_of_int c]))
      else pct_bytes r (out @ [b]))"
  by pat_completeness auto
termination by (relation "measure (\<lambda>(ys, out). length ys)") auto

lemma str_byte:
  assumes "str_is s xs" "i \<le> length xs"
  shows "Option.bind (c_load (s_c s) i) (\<lambda>b. b) = Some ((xs @ [0]) ! i)"
proof -
  obtain rest where "s_c s = map Some xs @ Some 0 # rest" using assms(1) unfolding str_is_def str_wf_shape by blast
  then show ?thesis using assms(2) by (simp add: c_load_def nth_append)
qed

lemma str_is_len: "str_is s xs \<Longrightarrow> s_len s = length xs"
  unfolding str_is_def str_wf_shape by blast

lemma percent_loop_is:
  assumes "str_is input xs" "drop i (xs @ [0]) = ys" "i \<le> length xs + 1" "str_is outp out"
  shows "\<exists>outp'. percent_loop input i outp = Some (fst (pct_bytes ys out), outp') \<and> str_is outp' (snd (pct_bytes ys out))"
  using assms(2-4)
proof (induction ys out arbitrary: i outp rule: pct_bytes.induct)
  case (1 out)
  then have "\<not> i \<le> s_len input" using str_is_len [OF assms(1)] by auto
  then show ?case using 1(3) by (subst percent_loop.simps) auto
next
  case (2 b r out)
  have i: "i \<le> length xs" using 2(3) by (cases "i \<le> length xs") auto
  then have il: "i \<le> s_len input" using str_is_len [OF assms(1)] by simp
  have b: "(xs @ [0]) ! i = b" and r: "drop (i + 1) (xs @ [0]) = r"
    using 2(3) Cons_nth_drop_Suc [of i "xs @ [0]"] i by auto
  have load: "Option.bind (c_load (s_c input) i) (\<lambda>b. b) = Some b" using str_byte [OF assms(1) i] b by simp
  have lr: "length r = length xs - i" using r by (metis diff_diff_left length_append_singleton length_drop diff_Suc_Suc Suc_eq_plus1)
  have esc: "s_len input - i \<ge> 3 \<longleftrightarrow> 3 \<le> length r" using lr str_is_len [OF assms(1)] by simp
  show ?case
  proof (cases "b = 37 \<and> 3 \<le> length r")
    case False
    obtain o1 where o1: "push_byte outp b = Some o1" "str_is o1 (out @ [b])" using push_byte_is [OF 2(5)] by blast
    have "percent_loop input i outp = percent_loop input (i + 1) o1"
      using False esc il load o1(1) by (subst percent_loop.simps) auto
    then show ?thesis using 2(2) [OF False r _ o1(2)] i False by auto
  next
    case True
    have i3: "i + 1 \<le> length xs" "i + 2 \<le> length xs" using lr conjunct2 [OF True] by linarith+
    obtain h1 h2 r' where rr: "r = h1 # h2 # r'"
    proof (cases r)
      case (Cons h1 t)
      then show ?thesis using True that by (cases t) auto
    qed (use True in simp)
    have nth: "(xs @ [0]) ! (i + 1 + k) = r ! k" for k
      using r nth_drop [of "i + 1" "xs @ [0]" k] i by simp
    have "(xs @ [0]) ! (i + 1) = h1" "(xs @ [0]) ! (i + 2) = h2"
      using nth [of 0] nth [of 1] rr by simp_all
    then have h: "Option.bind (c_load (s_c input) (i + 1)) (\<lambda>b. b) = Some h1"
      "Option.bind (c_load (s_c input) (i + 2)) (\<lambda>b. b) = Some h2"
      using str_byte [OF assms(1) i3(1)] str_byte [OF assms(1) i3(2)] by simp_all
    obtain hex where hex: "str_initfl [h1, h2] 2 = Some hex" "str_is hex [h1, h2]"
      using str_initfl_text [of 2 "[h1, h2]"] by (auto simp: str_is_def)
    have digits: "mem_cstr (s_c hex) = Some (c_str (take 2 r))" using mem_cstr_str [OF hex(2)] rr by simp
    let ?c = "strtol16 (c_str (take 2 r))"
    have step: "percent_loop input i outp = (if ?c = 0 then Some (1, outp)
        else Option.bind (push_byte outp (word_of_int ?c)) (\<lambda>outp. percent_loop input (i + 3) outp))"
      using True esc il load h hex(1) digits by (subst percent_loop.simps) (simp add: Let_def)
    show ?thesis
    proof (cases "?c = 0")
      case c: True
      then show ?thesis using step True 2(5) by simp
    next
      case c: False
      obtain o1 where o1: "push_byte outp (word_of_int ?c) = Some o1" "str_is o1 (out @ [word_of_int ?c])"
        using push_byte_is [OF 2(5)] by blast
      have "drop 2 (drop (i + 1) (xs @ [0])) = drop (2 + (i + 1)) (xs @ [0])" by (rule drop_drop)
      moreover have "2 + (i + 1) = i + 3" by simp
      ultimately have "drop (i + 3) (xs @ [0]) = drop 2 r" using r by metis
      then show ?thesis using 2(1) [OF True refl c _ _ o1(2), of "i + 3"] step True c o1(1) i3 by (auto simp: Let_def)
    qed
  qed
qed

text \<open>A text in which some bytes, the percent sign among them, are written as escapes.\<close>

definition percent_encode :: "(u8 \<Rightarrow> bool) \<Rightarrow> (nat \<Rightarrow> u8) \<Rightarrow> u8 list \<Rightarrow> u8 list" where
  "percent_encode esc digit xs =
     concat (map (\<lambda>b. if esc b then [37, digit (unat b div 16), digit (unat b mod 16)] else [b]) xs)"

definition hex_digits :: "(nat \<Rightarrow> u8) \<Rightarrow> bool" where
  "hex_digits digit \<longleftrightarrow> (\<forall>n<16. hex_digit_value (digit n) = Some (int n))"

lemma hex_digit_plain:
  assumes "hex_digit_value b = Some d"
  shows "b \<noteq> 0" "b \<noteq> 32" "\<not> (9 \<le> b \<and> b \<le> 13)" "b \<noteq> 45" "b \<noteq> 43"
  using assms by (auto simp: hex_digit_value_def Let_def word_le_def split: if_splits)

lemma strtol16_digits:
  assumes "hex_digit_value a = Some x" "hex_digit_value b = Some y"
  shows "strtol16 (c_str [a, b]) = 16 * x + y"
  using hex_digit_plain [OF assms(1)] hex_digit_plain(1) [OF assms(2)] assms
  by (auto simp: strtol16_def c_str_def strtol_prefix_def)

lemma pct_escape:
  assumes "hex_digits digit" "b \<noteq> 0" "r \<noteq> []"
  shows "pct_bytes (37 # digit (unat b div 16) # digit (unat b mod 16) # r) out = pct_bytes r (out @ [b])"
proof -
  have "unat b < 256" using unsigned_less [of b] by simp
  then have d: "hex_digit_value (digit (unat b div 16)) = Some (int (unat b div 16))"
    "hex_digit_value (digit (unat b mod 16)) = Some (int (unat b mod 16))"
    using assms(1) unfolding hex_digits_def by (simp_all add: less_mult_imp_div_less)
  have "16 * int (unat b div 16) + int (unat b mod 16) = int (unat b)"
    by (metis int_ops(7) of_nat_add of_nat_numeral mult_div_mod_eq)
  then have c: "strtol16 (c_str [digit (unat b div 16), digit (unat b mod 16)]) = int (unat b)"
    using strtol16_digits [OF d] by simp
  have "uint b \<noteq> 0" using assms(2) by (simp add: unsigned_eq_0_iff)
  moreover have "3 \<le> length (digit (unat b div 16) # digit (unat b mod 16) # r)" using assms(3) by (cases r) simp_all
  moreover have "take 2 (digit (unat b div 16) # digit (unat b mod 16) # r) = [digit (unat b div 16), digit (unat b mod 16)]"
    "drop 2 (digit (unat b div 16) # digit (unat b mod 16) # r) = r" by (simp_all add: numeral_2_eq_2)
  ultimately show ?thesis using c by (subst pct_bytes.simps) (simp add: Let_def del: pct_bytes.simps)
qed

lemma pct_encoded:
  assumes "hex_digits digit" "esc 37" "\<forall>b\<in>set xs. esc b \<longrightarrow> b \<noteq> 0"
  shows "pct_bytes (percent_encode esc digit xs @ [0]) out = (0, out @ xs @ [0])"
  using assms(3)
proof (induction xs arbitrary: out)
  case Nil
  then show ?case by (simp add: percent_encode_def)
next
  case (Cons b xs)
  have ih: "pct_bytes (percent_encode esc digit xs @ [0]) (out @ [b]) = (0, out @ b # xs @ [0])"
    using Cons.IH [of "out @ [b]"] Cons.prems by simp
  show ?case
  proof (cases "esc b")
    case True
    then have "percent_encode esc digit (b # xs) @ [0]
        = 37 # digit (unat b div 16) # digit (unat b mod 16) # (percent_encode esc digit xs @ [0])"
      by (simp add: percent_encode_def)
    then show ?thesis using pct_escape [OF assms(1), of b "percent_encode esc digit xs @ [0]" out] True Cons.prems ih by simp
  next
    case False
    then have "percent_encode esc digit (b # xs) @ [0] = b # (percent_encode esc digit xs @ [0])" "b \<noteq> 37"
      using assms(2) by (auto simp: percent_encode_def)
    then show ?thesis using ih by simp
  qed
qed

lemma percent_decode_is:
  assumes "str_is input xs"
  shows "\<exists>s. percent_decode input = Some (fst (pct_bytes (xs @ [0]) []), s) \<and> str_is s (snd (pct_bytes (xs @ [0]) []))"
proof -
  obtain s where s: "str_init [] = Some s" "str_is s []" using str_empty by blast
  then show ?thesis using percent_loop_is [OF assms _ _ s(2), of 0 "xs @ [0]"] by (simp add: percent_decode_def)
qed

lemma percent_decode_encoded:
  assumes "hex_digits digit" "esc 37" "\<forall>b\<in>set xs. esc b \<longrightarrow> b \<noteq> 0" "str_is input (percent_encode esc digit xs)"
  shows "\<exists>s. percent_decode input = Some (0, s) \<and> str_is s (xs @ [0])"
  using percent_decode_is [OF assms(4)] pct_encoded [OF assms(1-3), of "[]"] by simp

text \<open>An escaped zero byte, and two bytes that are no digits, end the decoding with 1.\<close>

lemma pct_zero: "pct_bytes (37 # 48 # 48 # r @ [0]) out = (1, out)"
proof -
  have "strtol16 (c_str [48, 48]) = 0" by code_simp
  moreover have "take 2 (48 # 48 # r @ [0]) = [48, 48 :: u8]" by (simp add: numeral_2_eq_2)
  ultimately show ?thesis by (subst pct_bytes.simps) simp
qed

section \<open>Receiving a request\<close>

text \<open>The end of the header is found at the first blank line, however the bytes arrive, when it does not
  lie in the first four bytes.\<close>

definition blank_line :: "u8 list" where
  "blank_line = [13, 10, 13, 10]"

definition first_at :: "u8 list \<Rightarrow> u8 list \<Rightarrow> nat \<Rightarrow> bool" where
  "first_at needle hay e \<longleftrightarrow> take (length needle) (drop e hay) = needle
     \<and> (\<forall>i<e. take (length needle) (drop i hay) \<noteq> needle)"

lemma memmem_first: "needle \<noteq> [] \<Longrightarrow> first_at needle hay e \<Longrightarrow> memmem hay needle = Some e"
proof -
  assume n: "needle \<noteq> []" "first_at needle hay e"
  then have "length (take (length needle) (drop e hay)) = length needle" by (simp add: first_at_def)
  then have "e < length [0..<length hay + 1 - length needle]" using n(1) by (cases needle) auto
  then show ?thesis using n(2) unfolding memmem_def find_Some_iff first_at_def by (intro exI [of _ e]) simp
qed

lemma take_drop_prefix:
  "take n (drop i xs) = ys \<Longrightarrow> length ys = n \<Longrightarrow> take n (drop i (xs @ zs)) = ys"
  by auto

text \<open>What was searched before is not searched again, but for the last bytes: the search from \<open>s\<close> on finds
  the first occurrence as soon as it is there.\<close>

lemma window_search:
  assumes "first_at needle (buf @ later) e" "s \<le> e" "needle \<noteq> []"
  shows "memmem (drop s buf) needle = (if e + length needle \<le> length buf then Some (e - s) else None)"
proof -
  have f: "take (length needle) (drop e (buf @ later)) = needle"
    "\<forall>i<e. take (length needle) (drop i (buf @ later)) \<noteq> needle" using assms(1) unfolding first_at_def by blast+
  have before: "\<forall>i<e. take (length needle) (drop i buf) \<noteq> needle"
    using f(2) take_drop_prefix [of "length needle" _ buf needle later] by blast
  show ?thesis
  proof (cases "e + length needle \<le> length buf")
    case True
    then have "take (length needle) (drop e buf) = needle" using f(1) by simp
    moreover have "drop (e - s) (drop s buf) = drop e buf" using assms(2) by (simp add: drop_drop)
    moreover have "take (length needle) (drop i (drop s buf)) \<noteq> needle" if "i < e - s" for i
    proof -
      have "drop i (drop s buf) = drop (i + s) buf" by (rule drop_drop)
      moreover have "i + s < e" using that by simp
      ultimately show ?thesis using before by metis
    qed
    ultimately have "first_at needle (drop s buf) (e - s)" unfolding first_at_def by metis
    then show ?thesis using True memmem_first [OF assms(3)] by simp
  next
    case False
    have "take (length needle) (drop i buf) \<noteq> needle" for i
    proof (cases "i < e")
      case False
      have "0 < length needle" using assms(3) by simp
      then have "length buf - i < length needle" using False \<open>\<not> e + length needle \<le> length buf\<close> by arith
      then have "length (take (length needle) (drop i buf)) < length needle" by simp
      then show ?thesis by (metis less_irrefl)
    qed (use before in blast)
    then have "take (length needle) (drop i (drop s buf)) \<noteq> needle" for i by (metis drop_drop)
    then have "memmem (drop s buf) needle = None" unfolding memmem_def find_None_iff by blast
    then show ?thesis using False by simp
  qed
qed

lemma recv_header_first:
  assumes "first_at blank_line (buffer @ concat cs) e" "4 \<le> e" "e + 4 \<le> MAX_HEADER_SIZE" "[] \<notin> set cs" "length buffer < e + 4"
  shows "\<exists>buf post. recv_header_loop (map Some cs @ rest) buffer = Some (int (length buf), buf, Some e)
    \<and> buffer @ concat cs = buf @ post \<and> e + 4 \<le> length buf"
  using assms
proof (induction cs arbitrary: buffer)
  case Nil
  then have "length (take 4 (drop e buffer)) = 4" by (simp add: first_at_def blank_line_def)
  then show ?case using Nil(5) by simp
next
  case (Cons c cs)
  define s where "s = (if int (length buffer) - 4 > 0 then length buffer - 4 else length buffer)"
  define n where "n = (if int (length buffer) - 4 > 0 then length c + 4 else length c)"
  have s: "s \<le> e" "n = length (drop s (buffer @ c))" using Cons.prems(2,5) by (auto simp: s_def n_def)
  have f4: "length blank_line = 4" by (simp add: blank_line_def)
  have "first_at blank_line ((buffer @ c) @ concat cs) e" using Cons.prems(1) by simp
  then have search: "memmem (drop s (buffer @ c)) blank_line = (if e + 4 \<le> length (buffer @ c) then Some (e - s) else None)"
    using window_search [OF _ s(1), of blank_line "buffer @ c" "concat cs"] f4 by (simp add: blank_line_def)
  have w: "take n (drop s (buffer @ c)) = drop s (buffer @ c)" using s(2) by simp
  have step: "recv_header_loop (map Some (c # cs) @ rest) buffer = (case memmem (drop s (buffer @ c)) blank_line of
      Some k \<Rightarrow> Some (int (length (buffer @ c)), buffer @ c, Some (s + k))
    | None \<Rightarrow> if length (buffer @ c) \<ge> MAX_HEADER_SIZE then Some (-2, buffer @ c, None)
        else recv_header_loop (map Some cs @ rest) (buffer @ c))"
    using Cons.prems(4) w unfolding s_def n_def blank_line_def by (auto simp: Let_def split: option.split)
  show ?case
  proof (cases "e + 4 \<le> length (buffer @ c)")
    case True
    then have "recv_header_loop (map Some (c # cs) @ rest) buffer = Some (int (length (buffer @ c)), buffer @ c, Some e)"
      unfolding step search using s(1) by simp
    then show ?thesis using True by (intro exI [of _ "buffer @ c"] exI [of _ "concat cs"]) simp
  next
    case False
    then have "recv_header_loop (map Some (c # cs) @ rest) buffer = recv_header_loop (map Some cs @ rest) (buffer @ c)"
      unfolding step search using Cons.prems(3) by simp
    then show ?thesis using Cons.IH [of "buffer @ c"] Cons.prems False by simp
  qed
qed

lemma recv_header_finds:
  assumes "first_at blank_line (concat cs) e" "4 \<le> e" "e + 4 \<le> MAX_HEADER_SIZE" "[] \<notin> set cs"
  shows "\<exists>buf post. recv_header (map Some cs @ rest) = Some (int (length buf), buf, Some e)
    \<and> concat cs = buf @ post \<and> e + 4 \<le> length buf"
  using recv_header_first [of "[]" cs e rest] assms by (simp add: recv_header_def)

text \<open>In the text of a request with header lines the first blank line is the one behind them.\<close>

definition no_blank :: "u8 list \<Rightarrow> bool" where
  "no_blank xs \<longleftrightarrow> (\<forall>i<length xs. take 3 (drop i (xs @ [13, 10, 13])) \<noteq> [13, 10, 13])"

lemma no_blank_plain: "13 \<notin> set xs \<Longrightarrow> no_blank xs"
  unfolding no_blank_def
proof (intro allI impI)
  fix i assume x: "13 \<notin> set xs" "i < length xs"
  then have "drop i (xs @ [13, 10, 13]) = xs ! i # drop (i + 1) xs @ [13, 10, 13]" by (simp add: Cons_nth_drop_Suc)
  moreover have "xs ! i \<noteq> 13" using x by (metis nth_mem)
  ultimately show "take 3 (drop i (xs @ [13, 10, 13])) \<noteq> [13, 10, 13]" by (simp add: numeral_3_eq_3)
qed

lemma no_blank_line:
  assumes "13 \<notin> set a" "no_blank xs" "xs \<noteq> []" "hd xs \<noteq> 13"
  shows "no_blank (a @ [13, 10] @ xs)"
  unfolding no_blank_def
proof (intro allI impI)
  fix i assume i: "i < length (a @ [13, 10] @ xs)"
  obtain y ys where xs: "xs = y # ys" "y \<noteq> 13" using assms(3,4) by (cases xs) auto
  consider "i < length a" | "i = length a" | "i = length a + 1" | "length a + 2 \<le> i" by linarith
  then show "take 3 (drop i ((a @ [13, 10] @ xs) @ [13, 10, 13])) \<noteq> [13, 10, 13]"
  proof cases
    case 1
    then have "drop i ((a @ [13, 10] @ xs) @ [13, 10, 13]) = a ! i # drop (i + 1) ((a @ [13, 10] @ xs) @ [13, 10, 13])"
      by (simp add: Cons_nth_drop_Suc)
    moreover have "a ! i \<noteq> 13" using assms(1) 1 by (metis nth_mem)
    ultimately show ?thesis by (simp add: numeral_3_eq_3)
  next
    case 2
    then show ?thesis using xs by (simp add: numeral_3_eq_3)
  next
    case 3
    then show ?thesis by (simp add: numeral_3_eq_3)
  next
    case 4
    then obtain k where "i = length a + 2 + k" using le_Suc_ex by blast
    then have "drop i ((a @ [13, 10] @ xs) @ [13, 10, 13]) = drop k (xs @ [13, 10, 13])" "k < length xs" using i by simp_all
    then show ?thesis using assms(2) unfolding no_blank_def by metis
  qed
qed

lemma no_blank_fields:
  assumes "\<forall>(k, v)\<in>set hs. k \<noteq> [] \<and> 13 \<notin> set k \<and> 13 \<notin> set v"
  shows "no_blank (fields_text hs) \<and> (hs \<noteq> [] \<longrightarrow> fields_text hs \<noteq> [] \<and> hd (fields_text hs) \<noteq> 13)"
  using assms
proof (induction hs rule: fields_text.induct)
  case 1
  then show ?case by (simp add: no_blank_plain)
next
  case (2 k v)
  then have "13 \<notin> set (k @ [58, 32] @ v)" by simp
  moreover have "hd (k @ [58, 32] @ v) \<noteq> 13" using 2 by (cases k) simp_all
  ultimately show ?case using no_blank_plain by simp
next
  case (3 k v kv kvs)
  then have k: "13 \<notin> set (k @ [58, 32] @ v)" "hd (k @ [58, 32] @ v) \<noteq> 13" by (cases k; simp)+
  have "no_blank ((k @ [58, 32] @ v) @ [13, 10] @ fields_text (kv # kvs))"
    using 3 by (intro no_blank_line [OF k(1)]) simp_all
  then show ?case using k(2) 3(2) by (cases k) simp_all
qed

lemma request_blank_line:
  assumes "13 \<notin> set m" "13 \<notin> set p" "13 \<notin> set v" "hs \<noteq> []"
    and "\<forall>(k, v)\<in>set hs. k \<noteq> [] \<and> 13 \<notin> set k \<and> 13 \<notin> set v"
  shows "first_at blank_line (request_text m p v hs @ blank_line @ post) (length (request_text m p v hs))"
proof -
  let ?t = "request_text m p v hs"
  have "no_blank ((m @ [32] @ p @ [32] @ v) @ [13, 10] @ fields_text hs)"
    using no_blank_fields [OF assms(5)] assms(1-4) by (intro no_blank_line) auto
  then have nb: "no_blank ?t" by (simp add: request_text_def)
  have "take 4 (drop i (?t @ blank_line @ post)) \<noteq> blank_line" if "i < length ?t" for i
  proof
    assume "take 4 (drop i (?t @ blank_line @ post)) = blank_line"
    then have "take 3 (take 4 (drop i (?t @ blank_line @ post))) = take 3 blank_line" by (rule arg_cong)
    moreover have "take 3 (take 4 xs) = take 3 xs" for xs :: "u8 list" by simp
    moreover have "blank_line @ post = [13, 10, 13] @ 10 # post" "take 3 blank_line = [13, 10, 13]" by (simp_all add: blank_line_def)
    ultimately have "take 3 (drop i (?t @ [13, 10, 13] @ 10 # post)) = [13, 10, 13]" by metis
    moreover have "drop i (?t @ [13, 10, 13] @ 10 # post) = drop i (?t @ [13, 10, 13]) @ 10 # post" using that by simp
    moreover have "take 3 (xs @ ys) = take 3 xs" if "3 \<le> length xs" for xs ys :: "u8 list" using that by simp
    then have "take 3 (drop i (?t @ [13, 10, 13]) @ 10 # post) = take 3 (drop i (?t @ [13, 10, 13]))"
      using that by (rule meta_mp) simp
    ultimately show False using nb that unfolding no_blank_def by metis
  qed
  moreover have "take 4 (drop (length ?t) (?t @ blank_line @ post)) = blank_line" by (simp add: blank_line_def)
  moreover have "length blank_line = 4" by (simp add: blank_line_def)
  ultimately show ?thesis unfolding first_at_def by metis
qed

lemma map_of_put_all: "k \<notin> fst ` set hs \<Longrightarrow> map_of (put_all hs al) k = map_of al k"
  by (induction hs arbitrary: al) (auto simp: put_all_def update_conv)

section \<open>Property\<close>

text \<open>C38: A request written from a method, a percent-encoded path, a version and header lines, followed
  by the blank line and any bytes, and received in any pieces, comes back from recv_header and
  parse_header as the table of its parts (a header line replaces an earlier one of its name), and
  decoding the path in that table gives the path back, followed by its terminator.\<close>
theorem request_received:
  assumes "word_ok m" and "word_ok (percent_encode esc digit q)" and "word_ok v" and "\<forall>kv\<in>set hs. field_ok kv"
    and "13 \<notin> set m" and "13 \<notin> set (percent_encode esc digit q)" and "13 \<notin> set v" and "hs \<noteq> []"
    and "\<forall>(k, v)\<in>set hs. k \<noteq> [] \<and> 13 \<notin> set k \<and> 13 \<notin> set v"
    and "length m + length (percent_encode esc digit q) + length v + 3 \<le> max_uri_len"
    and "length (request_text m (percent_encode esc digit q) v hs) + 4 \<le> MAX_HEADER_SIZE"
    and "concat cs = request_text m (percent_encode esc digit q) v hs @ blank_line @ post" and "[] \<notin> set cs"
    and "length (concat cs) < 2 ^ 63" and "bytes ''Path'' \<notin> fst ` set hs"
    and "hex_digits digit" and "esc 37" and "\<forall>b\<in>set q. esc b \<longrightarrow> b \<noteq> 0"
  shows "\<exists>buffer table path decoded.
    recv_header (map Some cs @ rest)
      = Some (int (length buffer), buffer, Some (length (request_text m (percent_encode esc digit q) v hs)))
    \<and> parse_header buffer (int (length (request_text m (percent_encode esc digit q) v hs))) = Some (0, Some table)
    \<and> tab_is table (put_all hs (request_pairs m (percent_encode esc digit q) v))
    \<and> parray_get table (bytes ''Path'') = Some (Some path)
    \<and> percent_decode path = Some (0, decoded) \<and> str_is decoded (q @ [0])"
proof -
  let ?p = "percent_encode esc digit q"
  let ?t = "request_text m ?p v hs"
  have "first_at blank_line (concat cs) (length ?t)"
    using request_blank_line [OF assms(5-9)] assms(12) by simp
  moreover have "4 \<le> length ?t" by (simp add: request_text_def)
  ultimately obtain buffer post' where b: "recv_header (map Some cs @ rest) = Some (int (length buffer), buffer, Some (length ?t))"
    "concat cs = buffer @ post'" "length ?t + 4 \<le> length buffer"
    using recv_header_finds [OF _ _ assms(11,13)] by blast
  have "buffer = take (length buffer) (?t @ blank_line @ post)" using b(2) assms(12) by (metis append_eq_conv_conj)
  then have "buffer = ?t @ take (length buffer - length ?t) (blank_line @ post)" using b(3) by simp
  then obtain rest' where buffer: "buffer = ?t @ rest'" ..
  then have "length (?t @ rest') < 2 ^ 63" using b(2) assms(14) by simp
  then obtain table where t: "parse_header buffer (int (length ?t)) = Some (0, Some table)"
    "tab_is table (put_all hs (request_pairs m ?p v))"
    using parse_request [OF assms(1-4,10)] unfolding buffer by blast
  have "map_of (put_all hs (request_pairs m ?p v)) (bytes ''Path'') = Some ?p"
    using assms(15) by (simp add: map_of_put_all request_pairs_def bytes_def)
  then obtain path where path: "parray_get table (bytes ''Path'') = Some (Some path)" "str_text path = ?p"
    using tab_get [OF t(2), of "bytes ''Path''"] by (auto simp: bytes_def)
  have "str_is path ?p" using path tab_value_wf [OF t(2) _ path(1)] by (simp add: str_is_def bytes_def)
  then show ?thesis using b(1) t path(1) percent_decode_encoded [OF assms(16-18)] by blast
qed

text \<open>The request GET /50%25, received in two pieces.\<close>

definition hex_code :: "nat \<Rightarrow> u8" where
  "hex_code n = word_of_nat (if n < 10 then 48 + n else 87 + n)"

lemma hex_digits_code: "hex_digits hex_code"
proof -
  have "\<forall>n\<in>set [0..<16]. hex_digit_value (hex_code n) = Some (int n)" by code_simp
  then show ?thesis by (simp add: hex_digits_def)
qed

definition sample_request :: "u8 list" where
  "sample_request = request_text (bytes ''GET'') (percent_encode (\<lambda>b. b = 37) hex_code (bytes ''/50%'')) (bytes ''HTTP/1.1'')
     [(bytes ''Host'', bytes ''x'')]"

lemma request_received_witness:
  "\<exists>buffer table path decoded.
    recv_header (map Some [take 9 sample_request, drop 9 sample_request @ blank_line @ bytes ''body''] @ [])
      = Some (int (length buffer), buffer, Some (length sample_request))
    \<and> parse_header buffer (int (length sample_request)) = Some (0, Some table)
    \<and> tab_is table (put_all [(bytes ''Host'', bytes ''x'')]
        (request_pairs (bytes ''GET'') (percent_encode (\<lambda>b. b = 37) hex_code (bytes ''/50%'')) (bytes ''HTTP/1.1'')))
    \<and> parray_get table (bytes ''Path'') = Some (Some path)
    \<and> percent_decode path = Some (0, decoded) \<and> str_is decoded (bytes ''/50%'' @ [0])"
  unfolding sample_request_def
proof (rule request_received [OF _ _ _ _ _ _ _ _ _ _ _ _ _ _ _ hex_digits_code])
  let ?p = "percent_encode (\<lambda>b. b = 37) hex_code (bytes ''/50%'')"
  let ?hs = "[(bytes ''Host'', bytes ''x'')]"
  show "word_ok (bytes ''GET'')" "word_ok ?p" "word_ok (bytes ''HTTP/1.1'')" by code_simp+
  show "\<forall>kv\<in>set ?hs. field_ok kv" by code_simp
  show "13 \<notin> set (bytes ''GET'')" "13 \<notin> set ?p" "13 \<notin> set (bytes ''HTTP/1.1'')" by code_simp+
  show "?hs \<noteq> []" "\<forall>(k, v)\<in>set ?hs. k \<noteq> [] \<and> 13 \<notin> set k \<and> 13 \<notin> set v" by (simp, code_simp)
  have p: "length ?p = 6" by code_simp
  show "length (bytes ''GET'') + length ?p + length (bytes ''HTTP/1.1'') + 3 \<le> max_uri_len"
    "length (request_text (bytes ''GET'') ?p (bytes ''HTTP/1.1'') ?hs) + 4 \<le> MAX_HEADER_SIZE"
    using p by (simp_all add: max_uri_len_def MAX_HEADER_SIZE_def request_text_def)
  let ?t = "request_text (bytes ''GET'') ?p (bytes ''HTTP/1.1'') ?hs"
  show "concat [take 9 ?t, drop 9 ?t @ blank_line @ bytes ''body''] = ?t @ blank_line @ bytes ''body''" by simp
  show "[] \<notin> set [take 9 ?t, drop 9 ?t @ blank_line @ bytes ''body'']"
    by (auto simp: blank_line_def request_text_def)
  show "length (concat [take 9 ?t, drop 9 ?t @ blank_line @ bytes ''body'']) < 2 ^ 63"
    using p by (simp add: request_text_def blank_line_def)
  show "bytes ''Path'' \<notin> fst ` set ?hs" by code_simp
qed (simp, code_simp)

end
