(* ===== verification/HttpResponse.thy ===== *)
theory HttpResponse
  imports HttpRequest
begin

text \<open>
  The response side of \<open>src/src/net/util.c\<close>: the reason phrases, the response header, which is printed
  into a buffer of fixed size, the error response, and the splitting of a header value into its name
  and its parameters.
\<close>

section \<open>Reason phrases\<close>

definition http_codes :: "(int \<times> string) list" where
  "http_codes = [
   (100, ''Continue''), (101, ''Switching Protocols''), (102, ''Processing''), (103, ''Early Hints''),
    (200, ''OK''), (201, ''Created''), (202, ''Accepted''), (203, ''Non-Authoritative Information''),
    (204, ''No Content''), (205, ''Reset Content''), (206, ''Partial Content''), (207, ''Multi-Status''),
    (208, ''Already Reported''), (226, ''IM Used''), (300, ''Multiple Choices''), (301, ''Moved Permanently''),
    (302, ''Found''), (303, ''See Other''), (304, ''Not Modified''), (307, ''Temporary Redirect''),
    (308, ''Permanent Redirect''), (400, ''Bad Request''), (401, ''Unauthorized''),
    (402, ''Payment Required''), (403, ''Forbidden''), (404, ''Not Found''), (405, ''Method Not Allowed''),
    (406, ''Not Acceptable''), (407, ''Proxy Authentication Required''), (408, ''Request Timeout''),
    (409, ''Conflict''), (410, ''Gone''), (411, ''Length Required''), (412, ''Precondition Failed''),
    (413, ''Content Too Large''), (414, ''URI Too Long''), (415, ''Unsupported Media Type''),
    (416, ''Range Not Satisfiable''), (417, ''Expectation Failed''), (418, ''I'' @ CHR 0x27 # ''m a teapot''),
    (421, ''Misdirected Request''), (422, ''Unprocessable Content''), (423, ''Locked''),
    (424, ''Failed Dependency''), (425, ''Too Early''), (426, ''Upgrade Required''),
    (428, ''Precondition Required''), (429, ''Too Many Requests''), (431, ''Request Header Fields Too Large''),
    (451, ''Unavailable For Legal Reasons''), (500, ''Internal Server Error''), (501, ''Not Implemented''),
    (502, ''Bad Gateway''), (503, ''Service Unavailable''), (504, ''Gateway Timeout''),
    (505, ''HTTP Version Not Supported''), (506, ''Variant Also Negotiates''), (507, ''Insufficient Storage''),
    (508, ''Loop Detected''), (510, ''Not Extended''), (511, ''Network Authentication Required'')]"

definition http_code :: "int \<Rightarrow> u8 list" where
  "http_code code = bytes (case map_of http_codes code of Some s \<Rightarrow> s | None \<Rightarrow> ''unknown'')"

definition client_fd_errors :: "int \<Rightarrow> string option" where
  "client_fd_errors client_fd =
     (if client_fd \<ge> 0 then None
      else if client_fd = -1 then Some ''client fd already closed''
      else if client_fd = -2 then Some ''request was partial''
      else Some ''unknown negative client_fd value'')"

section \<open>Responses\<close>

definition HTTP_BUFFER_SIZE :: nat where
  "HTTP_BUFFER_SIZE = 4098"

text \<open>The conversion \<open>%i\<close> on any int, and sprintf into a buffer of \<open>room\<close> bytes, which must hold the text
  and its terminator.\<close>

definition fmt_signed :: "int \<Rightarrow> u8 list" where
  "fmt_signed k = bytes (if k < 0 then CHR ''-'' # fmt_i (nat (- k)) else fmt_i (nat k))"

definition c_sprintf :: "nat \<Rightarrow> u8 list \<Rightarrow> u8 list option" where
  "c_sprintf room txt = (if length txt < room then Some txt else None)"

definition crlf :: "u8 list" where
  "crlf = [13, 10]"

definition http_build :: "int \<Rightarrow> u8 list \<Rightarrow> u8 list \<Rightarrow> u8 list \<Rightarrow> nat \<Rightarrow> str option" where
  "http_build code code_det header_vs content len =
     Option.bind (c_sprintf HTTP_BUFFER_SIZE
       (bytes ''HTTP/1.1 '' @ fmt_signed code @ [32] @ c_str code_det @ crlf @ c_str header_vs @ crlf))
       (\<lambda>text. Option.bind (str_init text) (\<lambda>dest. str_pushl dest content len))"

text \<open>The text that is sent, and the result.\<close>

definition net_error :: "int \<Rightarrow> (u8 list \<times> int) option" where
  "net_error code =
     map_option (\<lambda>text. (text, 0)) (c_sprintf 512 (bytes ''HTTP/1.1 '' @ fmt_signed code @ [32] @ http_code code @ [10, 10]))"

section \<open>Parameters of a header value\<close>

text \<open>The bytes of a buffer with its terminator.  content_disposition returns its result and the table
  it stores through its second argument, None where it leaves that unset.\<close>

definition str_bytes :: "str \<Rightarrow> u8 list option" where
  "str_bytes s = (let m = take (s_len s + 1) (s_c s) in if None \<in> set m then None else Some (map the m))"

definition content_disposition :: "str \<Rightarrow> (int \<times> str parray option) option" where
  "content_disposition src =
     Option.bind (str_bytes src) (\<lambda>mem. Option.bind (strnstr mem [59] (s_len src)) (\<lambda>found.
       case found of
         None \<Rightarrow> Option.bind (copy_cstr src) (\<lambda>v.
                 Option.bind (parray_set parray_init (bytes ''form-data'') v) (\<lambda>dest. Some (0, None)))
       | Some e \<Rightarrow> Option.bind (str_init []) (\<lambda>temp. Option.bind (str_pushl temp mem e) (\<lambda>temp.
                   Option.bind (parray_set parray_init (bytes ''form-data'') temp) (\<lambda>dest.
                   Option.bind (gen_parse (drop (e + 1) mem) (s_len src - e) dest) (\<lambda>dest. Some (1, Some dest)))))))"

section \<open>Texts\<close>

lemma http_build_text:
  assumes "0 \<notin> set code_det" "0 \<notin> set header_vs" "len \<le> length content"
    and "length (fmt_signed code) + length code_det + length header_vs + 14 < HTTP_BUFFER_SIZE"
  shows "\<exists>s. http_build code code_det header_vs content len = Some s
    \<and> str_is s (bytes ''HTTP/1.1 '' @ fmt_signed code @ [32] @ code_det @ crlf @ header_vs @ crlf @ take len content)"
proof -
  let ?h = "bytes ''HTTP/1.1 '' @ fmt_signed code @ [32] @ code_det @ crlf @ header_vs @ crlf"
  obtain d where d: "str_init ?h = Some d" "str_is d ?h" using str_init_is by blast
  have "str_wf d" "str_text d = ?h" using d(2) unfolding str_is_def by blast+
  then obtain s where "str_pushl d content len = Some s" "str_is s (?h @ take len content)"
    using str_pushl_text [OF _ assms(3), of d] by (auto simp: str_is_def)
  moreover have "c_sprintf HTTP_BUFFER_SIZE ?h = Some ?h" using assms(4) by (simp add: c_sprintf_def crlf_def)
  ultimately show ?thesis using assms(1,2) d(1) by (simp add: http_build_def c_str_id)
qed

text \<open>Header lines longer than the buffer are printed past its end.\<close>

lemma http_build_overflow:
  assumes "0 \<notin> set header_vs" "HTTP_BUFFER_SIZE \<le> length header_vs"
  shows "http_build code code_det header_vs content len = None"
  using assms by (simp add: http_build_def c_sprintf_def c_str_id)

lemma fmt_i_length: "n < 10 ^ k \<Longrightarrow> 0 < k \<Longrightarrow> length (fmt_i n) \<le> k"
proof (induction k arbitrary: n)
  case (Suc k)
  show ?case
  proof (cases "n < 10")
    case False
    then have "0 < k" using Suc.prems by (cases k) simp_all
    moreover have "n div 10 < 10 ^ k" using Suc.prems(1) by (simp add: less_mult_imp_div_less mult.commute)
    ultimately show ?thesis using Suc.IH [of "n div 10"] False by (subst fmt_i.simps) simp
  qed (subst fmt_i.simps, simp)
qed simp

lemma fmt_signed_length: "\<bar>k\<bar> \<le> 2 ^ 31 \<Longrightarrow> length (fmt_signed k) \<le> 11"
proof -
  assume "\<bar>k\<bar> \<le> 2 ^ 31"
  then have "nat \<bar>k\<bar> < 10 ^ 10" by simp
  then have "length (fmt_i (nat \<bar>k\<bar>)) \<le> 10" by (rule fmt_i_length) simp
  then show ?thesis by (cases "k < 0") (simp_all add: fmt_signed_def)
qed

lemma http_code_length: "length (http_code code) \<le> 31"
proof -
  have "\<forall>e\<in>set http_codes. length (snd e) \<le> 31" by (simp add: http_codes_def)
  moreover have "map_of http_codes code = Some s \<Longrightarrow> (code, s) \<in> set http_codes" for s by (rule map_of_SomeD)
  ultimately show ?thesis by (cases "map_of http_codes code") (fastforce simp: http_code_def)+
qed

lemma net_error_fits:
  assumes "\<bar>code\<bar> \<le> 2 ^ 31"
  shows "net_error code = Some (bytes ''HTTP/1.1 '' @ fmt_signed code @ [32] @ http_code code @ [10, 10], 0)"
  using fmt_signed_length [OF assms] http_code_length [of code] by (simp add: net_error_def c_sprintf_def)

lemma str_bytes_is: "str_is s xs \<Longrightarrow> str_bytes s = Some (xs @ [0])"
proof -
  assume s: "str_is s xs"
  obtain rest where "s_c s = map Some xs @ Some 0 # rest" using s unfolding str_is_def str_wf_shape by blast
  then show ?thesis using str_is_len [OF s] by (auto simp: str_bytes_def Let_def)
qed

lemma memmem_one:
  shows memmem_one_none: "b \<notin> set xs \<Longrightarrow> memmem xs [b] = None"
    and memmem_one_first: "b \<notin> set xs \<Longrightarrow> memmem (xs @ b # ys) [b] = Some (length xs)"
proof -
  have t: "take (length [b]) (drop i zs) = [b] \<longleftrightarrow> i < length zs \<and> zs ! i = b" for i and zs :: "u8 list"
    by (cases "drop i zs") (auto simp: nth_via_drop Cons_nth_drop_Suc [symmetric] dest: arg_cong [where f = length])
  assume b: "b \<notin> set xs"
  show "memmem xs [b] = None" using b unfolding memmem_def find_None_iff t by auto
  show "memmem (xs @ b # ys) [b] = Some (length xs)"
    using b unfolding memmem_def find_Some_iff t by (auto simp: nth_append in_set_conv_nth intro!: exI [of _ "length xs"])
qed

lemma content_disposition_bare:
  assumes "str_is src xs" "59 \<notin> set xs"
  shows "content_disposition src = Some (0, None)"
proof -
  obtain v where "copy_cstr src = Some v" "str_is v (c_str xs)" using copy_cstr_is [OF assms(1)] by blast
  moreover from this obtain t where "parray_set parray_init (bytes ''form-data'') v = Some t"
    using tab_set [OF tab_init, of "bytes ''form-data''" v] by (auto simp: bytes_def)
  moreover have "strnstr (xs @ [0]) [59] (length xs) = Some None"
    using strnstr_memmem [of "[59]" "length xs" "xs @ [0]"] memmem_one_none [OF assms(2)] by simp
  ultimately show ?thesis using str_bytes_is [OF assms(1)] str_is_len [OF assms(1)] by (simp add: content_disposition_def)
qed

lemma content_disposition_params:
  assumes "str_is src (ty @ 59 # ps)" "59 \<notin> set ty"
  shows "\<exists>t. content_disposition src = Some (1, Some t)
    \<and> tab_is t (kv_parse (ps @ [0]) False None [] [(bytes ''form-data'', ty)])"
proof -
  let ?mem = "(ty @ 59 # ps) @ [0]"
  obtain v where v: "str_init [] = Some v" "str_is v []" using str_empty by blast
  then obtain v' where v': "str_pushl v ?mem (length ty) = Some v'" "str_is v' ty"
    using str_pushl_text [of v "length ty" ?mem] by (auto simp: str_is_def)
  obtain d where d: "parray_set parray_init (bytes ''form-data'') v' = Some d" "tab_is d [(bytes ''form-data'', ty)]"
    using tab_set [OF tab_init _ v'(2), of "bytes ''form-data''"] by (auto simp: bytes_def)
  have "strnstr ?mem [59] (length (ty @ 59 # ps)) = Some (Some (length ty))"
    using strnstr_memmem [of "[59]" "length (ty @ 59 # ps)" ?mem] memmem_one_first [OF assms(2)] by simp
  moreover obtain t where "gen_parse (ps @ [0]) (length ps + 1) d = Some t"
    "tab_is t (kv_parse (ps @ [0]) False None [] [(bytes ''form-data'', ty)])"
    using gen_parse_is [OF _ d(2), of "length ps + 1" "ps @ [0]"] by (auto simp: nth_append)
  ultimately show ?thesis using v(1) v'(1) d(1) str_bytes_is [OF assms(1)] str_is_len [OF assms(1)]
    by (simp add: content_disposition_def)
qed

end
