(* ===== verification/Routes.thy ===== *)
theory Routes
  imports HttpRequest LArray
begin

text \<open>
  The router of \<open>src/src/net/util.c\<close>: the match of a route with wildcards and named parameters against
  the path of a request, and the list of the routes that match with the parameters of each.  A route
  is read as a list of tokens, and the matcher is proved against their recursive meaning.
\<close>

section \<open>Model\<close>

datatype mp_step = NORMAL | GET_KEY | GET_VALUE

text \<open>The variables of match_param; index is -1, None here, until a star is met.  The values are C
  strings.\<close>

record mp_state =
  mp_step :: mp_step
  mp_pi :: nat
  mp_mi :: nat
  mp_index :: "nat option"
  mp_imatch :: nat
  mp_start :: nat
  mp_name :: "u8 list"
  mp_arr :: "u8 list parray"

text \<open>The loop; the left result is the return from inside it.  The name of a parameter and its value are
  copied between two positions of a string.\<close>

definition copy_between :: "u8 list \<Rightarrow> nat \<Rightarrow> nat \<Rightarrow> u8 list" where
  "copy_between xs a b = c_str (take (b - a) (drop a xs))"

partial_function (option) mp_loop :: "u8 list \<Rightarrow> u8 list \<Rightarrow> mp_state \<Rightarrow> (u8 list parray + mp_state) option" where
  "mp_loop path m st = Option.bind (c_load m (mp_mi st)) (\<lambda>b.
     if b \<noteq> 0 \<or> mp_step st = GET_KEY then
       (if mp_step st = NORMAL then
          Option.bind (c_load path (mp_pi st)) (\<lambda>p.
            if p = 123 then mp_loop path m (st\<lparr>mp_step := GET_KEY, mp_start := mp_pi st, mp_pi := mp_pi st + 1\<rparr>)
            else if p = 42 then mp_loop path m (st\<lparr>mp_index := Some (mp_pi st), mp_imatch := mp_mi st, mp_pi := mp_pi st + 1\<rparr>)
            else if p \<noteq> b then
              (case mp_index st of
                 None \<Rightarrow> Some (Inl (mp_arr st))
               | Some index \<Rightarrow> mp_loop path m (st\<lparr>mp_pi := index + 1, mp_imatch := mp_imatch st + 1, mp_mi := mp_imatch st + 1\<rparr>))
            else mp_loop path m (st\<lparr>mp_mi := mp_mi st + 1, mp_pi := mp_pi st + 1\<rparr>))
        else if mp_step st = GET_KEY then
          Option.bind (c_load path (mp_pi st)) (\<lambda>p.
            if p = 125
            then mp_loop path m (st\<lparr>mp_step := GET_VALUE, mp_name := copy_between path (mp_start st + 1) (mp_pi st),
                                    mp_start := mp_mi st, mp_pi := mp_pi st + 1\<rparr>)
            else mp_loop path m (st\<lparr>mp_pi := mp_pi st + 1\<rparr>))
        else if b = 47 then
          Option.bind (parray_set (mp_arr st) (mp_name st) (copy_between m (mp_start st) (mp_mi st)))
            (\<lambda>arr. mp_loop path m (st\<lparr>mp_step := NORMAL, mp_arr := arr\<rparr>))
        else mp_loop path m (st\<lparr>mp_mi := mp_mi st + 1\<rparr>))
     else Some (Inr st))"

function skip_stars :: "u8 list \<Rightarrow> nat \<Rightarrow> nat option" where
  "skip_stars path i = Option.bind (c_load path i) (\<lambda>p. if p = 42 then skip_stars path (i + 1) else Some i)"
  by pat_completeness auto
termination by (relation "measure (\<lambda>(path, i). length path - i)") (auto simp: c_load_def split: if_splits)

declare skip_stars.simps [simp del]

definition mp_end :: "u8 list \<Rightarrow> u8 list \<Rightarrow> (u8 list parray + mp_state) \<Rightarrow> (bool \<times> u8 list parray) option" where
  "mp_end path m r = (case r of
     Inl arr \<Rightarrow> Some (False, arr)
   | Inr st \<Rightarrow> do {
       arr \<leftarrow> (if mp_step st = GET_VALUE
              then parray_set (mp_arr st) (mp_name st) (copy_between m (mp_start st) (mp_mi st)) else Some (mp_arr st));
       p \<leftarrow> c_load path (mp_pi st);
       i \<leftarrow> (if p \<noteq> 0 then skip_stars path (mp_pi st) else Some (mp_pi st));
       p \<leftarrow> c_load path i;
       b \<leftarrow> c_load m (mp_mi st);
       Some (p = 0 \<and> b = 0, arr)
     })"

definition match_param :: "u8 list \<Rightarrow> u8 list \<Rightarrow> u8 list parray \<Rightarrow> (bool \<times> u8 list parray) option" where
  "match_param path m arr = Option.bind (mp_loop path m
     \<lparr>mp_step = NORMAL, mp_pi = 0, mp_mi = 0, mp_index = None, mp_imatch = 0, mp_start = 0, mp_name = [], mp_arr = arr\<rparr>)
     (mp_end path m)"

text \<open>The routes whose key matches, in order, and the table of parameters of each at its place.\<close>

function route_loop :: "'r parray \<Rightarrow> u8 list \<Rightarrow> nat \<Rightarrow> 'r parray \<Rightarrow> u8 list parray larray
    \<Rightarrow> ('r parray \<times> u8 list parray larray) option" where
  "route_loop paths request i found params =
     (if i < pa_len paths then
        Option.bind (pa_at (pa_P paths) i) (\<lambda>e. Option.bind (mem_cstr (s_c (pe_key e))) (\<lambda>key.
        Option.bind (match_param (key @ [0]) (request @ [0]) parray_init) (\<lambda>(matches, temp).
          if matches then
            Option.bind (c_store (pa_P found) (pa_len found) (Some e)) (\<lambda>P.
            Option.bind (larray_set params (of_nat (pa_len found)) temp) (\<lambda>(params, _).
              route_loop paths request (i + 1) (found\<lparr>pa_P := P, pa_len := pa_len found + 1\<rparr>) params))
          else route_loop paths request (i + 1) found params)))
      else Some (found, params))"
  by pat_completeness auto
termination by (relation "measure (\<lambda>(paths, request, i, found, params). pa_len paths - i)") auto

declare route_loop.simps [simp del]

definition route_match :: "'r parray \<Rightarrow> u8 list \<Rightarrow> u8 list parray larray \<Rightarrow> ('r parray \<times> u8 list parray larray) option" where
  "route_match paths request params =
     route_loop paths request 0 ((parray_initl (pa_len paths * 2))\<lparr>pa_len := 0\<rparr>) params"

section \<open>Tokens\<close>

datatype ptok = Lit u8 | Star | Var "u8 list"

function ptoks :: "u8 list \<Rightarrow> ptok list option" where
  "ptoks [] = Some []"
| "ptoks (c # p) =
     (if c = 123 then
        (if 125 \<in> set p
         then map_option ((#) (Var (takeWhile (\<lambda>b. b \<noteq> 125) p))) (ptoks (drop (length (takeWhile (\<lambda>b. b \<noteq> 125) p) + 1) p))
         else None)
      else map_option ((#) (if c = 42 then Star else Lit c)) (ptoks p))"
  by pat_completeness auto
termination by (relation "measure length") auto

declare ptoks.simps(2) [simp del]

text \<open>What a list of tokens matches: a star any piece, a name the bytes up to the next slash, unless the
  path is at its end.\<close>

fun pm :: "ptok list \<Rightarrow> u8 list \<Rightarrow> bool" where
  "pm [] s = (s = [])"
| "pm (Lit c # ts) s = (case s of [] \<Rightarrow> False | b # s' \<Rightarrow> b = c \<and> pm ts s')"
| "pm (Star # ts) s = (\<exists>k\<le>length s. pm ts (drop k s))"
| "pm (Var n # ts) s = (s \<noteq> [] \<and> pm ts (dropWhile (\<lambda>b. b \<noteq> 47) s))"

text \<open>The parameters a route without stars reads.\<close>

fun pbinds :: "ptok list \<Rightarrow> u8 list \<Rightarrow> (u8 list \<times> u8 list) list" where
  "pbinds (Lit c # ts) (b # s) = (if b = c then pbinds ts s else [])"
| "pbinds (Var n # ts) (b # s) = (n, takeWhile (\<lambda>b. b \<noteq> 47) (b # s)) # pbinds ts (dropWhile (\<lambda>b. b \<noteq> 47) (b # s))"
| "pbinds _ _ = []"

text \<open>The rest a piece without stars leaves.\<close>

fun prun :: "ptok list \<Rightarrow> u8 list \<Rightarrow> u8 list option" where
  "prun [] s = Some s"
| "prun (Lit c # ts) (b # s) = (if b = c then prun ts s else None)"
| "prun (Var n # ts) (b # s) = prun ts (dropWhile (\<lambda>b. b \<noteq> 47) (b # s))"
| "prun _ _ = None"

lemma prun_append: "prun (ts @ us) s = Option.bind (prun ts s) (prun us)"
  by (induction ts s rule: prun.induct) auto

lemma drop_dropWhile: "\<exists>j. dropWhile P (drop k s) = drop j (dropWhile P s)"
proof (induction s arbitrary: k)
  case (Cons x s)
  show ?case
  proof (cases k)
    case 0
    then show ?thesis by (intro exI [of _ 0]) simp
  next
    case (Suc k')
    show ?thesis
    proof (cases "P x")
      case True
      then show ?thesis using Cons.IH [of k'] Suc by simp
    next
      case False
      have "dropWhile P (drop k' s) = drop (length (takeWhile P (drop k' s)) + k') s"
        by (metis dropWhile_eq_drop drop_drop)
      then show ?thesis using False Suc by (intro exI [of _ "Suc (length (takeWhile P (drop k' s)) + k')"]) simp
    qed
  qed
qed simp

lemma prun_later:
  assumes "prun seg s = Some r" "pm (seg @ ts) (drop k s)"
  shows "\<exists>j. pm ts (drop j r)"
  using assms
proof (induction seg s arbitrary: k rule: prun.induct)
  case (1 s)
  then show ?case by auto
next
  case (2 c seg b s)
  then obtain b' u where u: "drop k (b # s) = b' # u" "pm (seg @ ts) u" by (auto split: list.splits)
  have "tl (drop k (b # s)) = drop k s" by (simp add: tl_drop)
  then have "u = drop k s" using u(1) by simp
  then show ?case using 2 u(2) by (auto split: if_splits)
next
  case (3 n seg b s)
  obtain j where "dropWhile (\<lambda>b. b \<noteq> 47) (drop k (b # s)) = drop j (dropWhile (\<lambda>b. b \<noteq> 47) (b # s))"
    using drop_dropWhile by blast
  moreover have "pm (seg @ ts) (dropWhile (\<lambda>b. b \<noteq> 47) (drop k (b # s)))" using 3(3) by simp
  moreover have "prun seg (dropWhile (\<lambda>b. b \<noteq> 47) (b # s)) = Some r" using 3(2) by simp
  ultimately show ?case using 3(1) by metis
qed simp_all

lemma pm_star: "pm (Star # ts) s \<longleftrightarrow> (\<exists>k. pm ts (drop k s))"
proof
  assume "\<exists>k. pm ts (drop k s)"
  then obtain k where "pm ts (drop k s)" ..
  then have "pm ts (drop (min k (length s)) s)" by (cases "k \<le> length s") (simp_all add: min_def)
  then show "pm (Star # ts) s" by (auto intro!: exI [of _ "min k (length s)"])
qed auto

lemma pm_nil: "ptoks p = Some ts \<Longrightarrow> pm ts [] \<longleftrightarrow> (\<forall>c\<in>set p. c = 42)"
  by (induction p arbitrary: ts rule: ptoks.induct) (auto simp: ptoks.simps split: if_splits)

section \<open>The loop\<close>

text \<open>The texts are \<open>pb\<close> and \<open>mb\<close>, followed by their terminators.\<close>

lemma nul_load:
  "i \<le> length xs \<Longrightarrow> c_load (xs @ [0]) i = Some (if i < length xs then xs ! i else (0 :: u8))"
  by (auto simp: c_load_def nth_append)

lemma skip_stars_end:
  "i \<le> length pb \<Longrightarrow> 0 \<notin> set pb \<Longrightarrow>
   \<exists>j\<le>length pb. skip_stars (pb @ [0]) i = Some j \<and> ((pb @ [0]) ! j = 0 \<longleftrightarrow> (\<forall>c\<in>set (drop i pb). c = 42))"
proof (induction "length pb - i" arbitrary: i)
  case 0
  then show ?case by (subst skip_stars.simps) (auto simp: nul_load nth_append)
next
  case (Suc n)
  then have i: "i < length pb" "drop i pb = pb ! i # drop (i + 1) pb" by (simp_all add: Cons_nth_drop_Suc)
  show ?case
  proof (cases "pb ! i = 42")
    case True
    have "\<exists>j\<le>length pb. skip_stars (pb @ [0]) (i + 1) = Some j \<and> ((pb @ [0]) ! j = 0 \<longleftrightarrow> (\<forall>c\<in>set (drop (i + 1) pb). c = 42))"
      using Suc.hyps(2) Suc.prems i(1) by (intro Suc.hyps(1)) simp_all
    then show ?thesis using True i by (subst skip_stars.simps) (simp add: nul_load)
  next
    case False
    have "pb ! i \<noteq> 0" using i(1) Suc.prems(2) by (metis nth_mem)
    then show ?thesis using False i by (subst skip_stars.simps) (auto simp: nul_load nth_append intro!: exI [of _ i])
  qed
qed

lemma mp_end_normal:
  assumes "mp_step st = NORMAL" "mp_mi st = length mb" "mp_pi st \<le> length pb" "0 \<notin> set pb" "ptoks (drop (mp_pi st) pb) = Some ts"
  shows "mp_end (pb @ [0]) (mb @ [0]) (Inr st) = Some (pm ts [], mp_arr st)"
proof -
  obtain j where j: "j \<le> length pb" "skip_stars (pb @ [0]) (mp_pi st) = Some j"
    "(pb @ [0]) ! j = 0 \<longleftrightarrow> (\<forall>c\<in>set (drop (mp_pi st) pb). c = 42)"
    using skip_stars_end [OF assms(3,4)] by blast
  have l: "c_load (pb @ [0]) i = Some ((pb @ [0]) ! i)" if "i \<le> length pb" for i using that by (simp add: c_load_def)
  have m: "c_load (mb @ [0]) (mp_mi st) = Some 0" using assms(2) by (simp add: nul_load)
  show ?thesis
  proof (cases "(pb @ [0]) ! mp_pi st = 0")
    case True
    then have "drop (mp_pi st) pb = []"
      using assms(3,4) by (cases "mp_pi st < length pb") (auto simp: nth_append dest: nth_mem)
    then have "pm ts []" using pm_nil [OF assms(5)] by simp
    then show ?thesis using True m l [OF assms(3)] assms(1) by (simp add: mp_end_def)
  next
    case False
    then show ?thesis using j(2) m l [OF assms(3)] l [OF j(1)] assms(1)
      unfolding pm_nil [OF assms(5)] j(3) [symmetric] by (simp add: mp_end_def)
  qed
qed

lemma mp_get_key:
  assumes "mp_step st = GET_KEY" "125 \<in> set (drop (mp_pi st) pb)" "mp_mi st \<le> length mb"
  shows "mp_loop (pb @ [0]) (mb @ [0]) st = mp_loop (pb @ [0]) (mb @ [0])
    (st\<lparr>mp_step := GET_VALUE,
        mp_name := copy_between (pb @ [0]) (mp_start st + 1) (mp_pi st + length (takeWhile (\<lambda>b. b \<noteq> 125) (drop (mp_pi st) pb))),
        mp_start := mp_mi st, mp_pi := mp_pi st + length (takeWhile (\<lambda>b. b \<noteq> 125) (drop (mp_pi st) pb)) + 1\<rparr>)"
  using assms
proof (induction "length pb - mp_pi st" arbitrary: st)
  case (Suc n)
  have i: "mp_pi st < length pb" "drop (mp_pi st) pb = pb ! mp_pi st # drop (mp_pi st + 1) pb"
    using Suc.hyps(2) by (simp_all add: Cons_nth_drop_Suc)
  have load: "c_load (pb @ [0]) (mp_pi st) = Some (pb ! mp_pi st)" using i(1) by (simp add: nul_load)
  show ?case
  proof (cases "pb ! mp_pi st = 125")
    case True
    then show ?thesis using Suc.prems i load by (subst mp_loop.simps) (simp add: nul_load)
  next
    case False
    let ?st = "st\<lparr>mp_pi := mp_pi st + 1\<rparr>"
    have "mp_loop (pb @ [0]) (mb @ [0]) st = mp_loop (pb @ [0]) (mb @ [0]) ?st"
      using False Suc.prems load by (subst mp_loop.simps) (simp add: nul_load)
    moreover have "125 \<in> set (drop (mp_pi ?st) pb)" using Suc.prems(2) i(2) False by simp
    ultimately show ?thesis using Suc.hyps(1) [of ?st] Suc.hyps(2) Suc.prems i False by simp
  qed
qed simp

lemma mp_get_value:
  assumes "mp_step st = GET_VALUE" "mp_mi st \<le> length mb" "0 \<notin> set mb"
  shows "mp_loop (pb @ [0]) (mb @ [0]) st =
    (let j = mp_mi st + length (takeWhile (\<lambda>b. b \<noteq> 47) (drop (mp_mi st) mb)) in
     if j < length mb
     then Option.bind (parray_set (mp_arr st) (mp_name st) (copy_between (mb @ [0]) (mp_start st) j))
       (\<lambda>arr. mp_loop (pb @ [0]) (mb @ [0]) (st\<lparr>mp_step := NORMAL, mp_mi := j, mp_arr := arr\<rparr>))
     else Some (Inr (st\<lparr>mp_mi := length mb\<rparr>)))"
  using assms
proof (induction "length mb - mp_mi st" arbitrary: st)
  case 0
  then show ?case by (subst mp_loop.simps) (simp add: nul_load)
next
  case (Suc n)
  have i: "mp_mi st < length mb" "drop (mp_mi st) mb = mb ! mp_mi st # drop (mp_mi st + 1) mb"
    using Suc.hyps(2) by (simp_all add: Cons_nth_drop_Suc)
  have load: "c_load (mb @ [0]) (mp_mi st) = Some (mb ! mp_mi st)" using i(1) by (simp add: nul_load)
  have nz: "mb ! mp_mi st \<noteq> 0" using i(1) Suc.prems(3) by (metis nth_mem)
  show ?case
  proof (cases "mb ! mp_mi st = 47")
    case True
    then show ?thesis using Suc.prems i load by (subst mp_loop.simps) simp
  next
    case False
    let ?st = "st\<lparr>mp_mi := mp_mi st + 1\<rparr>"
    have "mp_loop (pb @ [0]) (mb @ [0]) st = mp_loop (pb @ [0]) (mb @ [0]) ?st"
      using False Suc.prems load nz by (subst mp_loop.simps) simp
    then show ?thesis using Suc.hyps(1) [of ?st] Suc.hyps(2) Suc.prems i False by (simp add: Let_def)
  qed
qed

text \<open>One parameter: the name is set to the piece up to the next slash.\<close>

lemma takeWhile_less: "x \<in> set xs \<Longrightarrow> \<not> P x \<Longrightarrow> length (takeWhile P xs) < length xs"
  by (induction xs) auto

lemma copy_between_drop:
  assumes "b \<le> length xs" "a \<le> b" "0 \<notin> set xs"
  shows "copy_between (xs @ [0]) a b = take (b - a) (drop a xs)"
proof -
  have "take (b - a) (drop a (xs @ [0])) = take (b - a) (drop a xs)" using assms(1,2) by simp
  moreover have "0 \<notin> set (take (b - a) (drop a xs))" using assms(3) by (meson in_set_dropD in_set_takeD)
  ultimately show ?thesis unfolding copy_between_def by (metis c_str_id)
qed

lemma mp_var:
  assumes "mp_step st = NORMAL" "mp_pi st < length pb" "pb ! mp_pi st = 123" "125 \<in> set (drop (mp_pi st + 1) pb)"
    "mp_mi st < length mb" "0 \<notin> set pb" "0 \<notin> set mb" "par_wf (mp_arr st)"
  defines "n \<equiv> takeWhile (\<lambda>b. b \<noteq> 125) (drop (mp_pi st + 1) pb)"
    and "v \<equiv> takeWhile (\<lambda>b. b \<noteq> 47) (drop (mp_mi st) mb)"
  shows "\<exists>arr st'. par_wf arr \<and> par_list arr = AList.update n v (par_list (mp_arr st))
    \<and> Option.bind (mp_loop (pb @ [0]) (mb @ [0]) st) (mp_end (pb @ [0]) (mb @ [0]))
      = Option.bind (mp_loop (pb @ [0]) (mb @ [0]) st') (mp_end (pb @ [0]) (mb @ [0]))
    \<and> mp_step st' = NORMAL \<and> mp_pi st' = mp_pi st + length n + 2 \<and> mp_mi st' = mp_mi st + length v
    \<and> mp_index st' = mp_index st \<and> mp_imatch st' = mp_imatch st \<and> mp_arr st' = arr"
proof -
  let ?path = "pb @ [0]" and ?m = "mb @ [0]"
  let ?j = "mp_pi st + 1 + length n" and ?k = "mp_mi st + length v"
  define st1 where "st1 = st\<lparr>mp_step := GET_KEY, mp_start := mp_pi st, mp_pi := mp_pi st + 1\<rparr>"
  define st2 where "st2 = st\<lparr>mp_step := GET_VALUE, mp_name := copy_between ?path (mp_pi st + 1) ?j,
    mp_start := mp_mi st, mp_pi := ?j + 1\<rparr>"
  have n: "length n < length pb - (mp_pi st + 1)"
    using takeWhile_less [OF assms(4), of "\<lambda>b. b \<noteq> 125"] by (simp add: n_def)
  have v: "length v \<le> length mb - mp_mi st"
    using length_takeWhile_le [of _ "drop (mp_mi st) mb"] by (simp add: v_def)
  have name: "copy_between ?path (mp_pi st + 1) ?j = n"
    using n assms(2,6) copy_between_drop [of ?j pb "mp_pi st + 1"] takeWhile_eq_take [of "\<lambda>b. b \<noteq> 125" "drop (mp_pi st + 1) pb"]
    by (simp add: n_def)
  have val: "copy_between ?m (mp_mi st) ?k = v"
    using v assms(5,7) copy_between_drop [of ?k mb "mp_mi st"] takeWhile_eq_take [of "\<lambda>b. b \<noteq> 47" "drop (mp_mi st) mb"]
    by (simp add: v_def)
  have "0 \<notin> set n" using assms(6) unfolding n_def by (meson in_set_dropD set_takeWhileD)
  then obtain arr where arr: "parray_set (mp_arr st) n v = Some arr" "par_wf arr"
    "par_list arr = AList.update n v (par_list (mp_arr st))"
    using parray_set_list [OF assms(8)] by blast
  have "mb ! mp_mi st \<noteq> 0" using assms(5,7) by (metis nth_mem)
  then have "mp_loop ?path ?m st = mp_loop ?path ?m st1"
    using assms(1-3,5) unfolding st1_def by (subst mp_loop.simps) (simp add: nul_load)
  also have "\<dots> = mp_loop ?path ?m st2"
    using mp_get_key [of st1 pb mb] assms(4,5) by (simp add: st1_def st2_def n_def add.assoc)
  finally have start: "mp_loop ?path ?m st = mp_loop ?path ?m st2" .
  have reads: "mp_loop ?path ?m st2 =
      (if ?k < length mb then Option.bind (parray_set (mp_arr st) n v) (\<lambda>arr. mp_loop ?path ?m (st2\<lparr>mp_step := NORMAL, mp_mi := ?k, mp_arr := arr\<rparr>))
       else Some (Inr (st2\<lparr>mp_mi := length mb\<rparr>)))"
    using mp_get_value [of st2 mb pb] assms(5,7) name val by (simp add: st2_def v_def Let_def)
  show ?thesis
  proof (cases "?k < length mb")
    case True
    then show ?thesis using start reads arr
      by (intro exI [of _ arr] exI [of _ "st2\<lparr>mp_step := NORMAL, mp_mi := ?k, mp_arr := arr\<rparr>"]) (simp add: st2_def)
  next
    case False
    then have k: "?k = length mb" using v assms(5) by simp
    let ?st = "st2\<lparr>mp_step := NORMAL, mp_mi := length mb, mp_arr := arr\<rparr>"
    have "mp_loop ?path ?m ?st = Some (Inr ?st)" by (subst mp_loop.simps) (simp add: nul_load)
    moreover have "mp_end ?path ?m (Inr (st2\<lparr>mp_mi := length mb\<rparr>)) = mp_end ?path ?m (Inr ?st)"
      using arr(1) name val k by (simp add: mp_end_def st2_def cong: if_cong)
    ultimately show ?thesis using start reads arr False k
      by (intro exI [of _ arr] exI [of _ ?st]) (simp add: st2_def)
  qed
qed

text \<open>What the loop knows of the last star: the piece of the route since then took the path from the
  place of the star to the current one.\<close>

definition mp_ok :: "u8 list \<Rightarrow> u8 list \<Rightarrow> mp_state \<Rightarrow> ptok list \<Rightarrow> bool" where
  "mp_ok pb mb st ts \<longleftrightarrow> mp_step st = NORMAL \<and> mp_pi st \<le> length pb \<and> mp_mi st \<le> length mb
     \<and> ptoks (drop (mp_pi st) pb) = Some ts \<and> par_wf (mp_arr st)
     \<and> (case mp_index st of None \<Rightarrow> True | Some ix \<Rightarrow> ix < mp_pi st \<and> mp_imatch st \<le> mp_mi st \<and>
        (\<exists>seg. ptoks (drop (ix + 1) pb) = Some (seg @ ts) \<and> prun seg (drop (mp_imatch st) mb) = Some (drop (mp_mi st) mb)))"

definition mp_retry :: "u8 list \<Rightarrow> u8 list \<Rightarrow> mp_state \<Rightarrow> bool" where
  "mp_retry pb mb st = (case mp_index st of None \<Rightarrow> False | Some ix \<Rightarrow>
     \<exists>k. pm (the (ptoks (drop (ix + 1) pb))) (drop k (drop (mp_imatch st + 1) mb)))"

definition mp_done :: "u8 list \<Rightarrow> u8 list \<Rightarrow> mp_state \<Rightarrow> ptok list \<Rightarrow> bool" where
  "mp_done pb mb st ts \<longleftrightarrow> (\<exists>arr.
     Option.bind (mp_loop (pb @ [0]) (mb @ [0]) st) (mp_end (pb @ [0]) (mb @ [0]))
       = Some (pm ts (drop (mp_mi st) mb) \<or> mp_retry pb mb st, arr) \<and> par_wf arr
     \<and> (mp_index st = None \<and> Star \<notin> set ts \<longrightarrow> par_list arr = put_all (pbinds ts (drop (mp_mi st) mb)) (par_list (mp_arr st))))"

lemma mp_retry_later:
  assumes "mp_ok pb mb st ts" "mp_retry pb mb st"
  shows "\<exists>j. pm ts (drop j (drop (mp_mi st) mb))"
proof -
  obtain ix seg k where ix: "mp_index st = Some ix" "ptoks (drop (ix + 1) pb) = Some (seg @ ts)"
    "prun seg (drop (mp_imatch st) mb) = Some (drop (mp_mi st) mb)"
    "pm (seg @ ts) (drop k (drop (mp_imatch st + 1) mb))"
    using assms by (auto simp: mp_ok_def mp_retry_def split: option.splits)
  have "drop k (drop (mp_imatch st + 1) mb) = drop (k + 1) (drop (mp_imatch st) mb)"
    by (simp add: drop_drop add.commute add.left_commute)
  then show ?thesis using prun_later [OF ix(3)] ix(4) by metis
qed

text \<open>A step on one token, the same for literals and parameters.\<close>

lemma mp_step_done:
  assumes ok: "mp_ok pb mb st (t # ts)" and ok': "mp_done pb mb st' ts"
    and same: "Option.bind (mp_loop (pb @ [0]) (mb @ [0]) st) (mp_end (pb @ [0]) (mb @ [0]))
      = Option.bind (mp_loop (pb @ [0]) (mb @ [0]) st') (mp_end (pb @ [0]) (mb @ [0]))"
    and fields: "mp_index st' = mp_index st" "mp_imatch st' = mp_imatch st"
    and pm: "pm (t # ts) (drop (mp_mi st) mb) = pm ts (drop (mp_mi st') mb)"
    and arr: "par_list (mp_arr st') = put_all b (par_list (mp_arr st))"
    and binds: "t \<noteq> Star \<Longrightarrow> pbinds (t # ts) (drop (mp_mi st) mb) = b @ pbinds ts (drop (mp_mi st') mb)"
  shows "mp_done pb mb st (t # ts)"
proof -
  have "mp_retry pb mb st' = mp_retry pb mb st" unfolding mp_retry_def fields ..
  moreover have "put_all (a @ c) al = put_all c (put_all a al)" for a c :: "(u8 list \<times> u8 list) list" and al
    by (simp add: put_all_def)
  ultimately show ?thesis using ok' same fields(1) pm arr binds unfolding mp_done_def by auto
qed

lemma ptoks_step:
  assumes "i < length pb" "ptoks (drop i pb) = Some ts"
  shows "pb ! i = 123 \<Longrightarrow> \<exists>us. 125 \<in> set (drop (i + 1) pb)
      \<and> ts = Var (takeWhile (\<lambda>b. b \<noteq> 125) (drop (i + 1) pb)) # us
      \<and> ptoks (drop (i + length (takeWhile (\<lambda>b. b \<noteq> 125) (drop (i + 1) pb)) + 2) pb) = Some us"
    and "pb ! i = 42 \<Longrightarrow> \<exists>us. ts = Star # us \<and> ptoks (drop (i + 1) pb) = Some us"
    and "pb ! i \<noteq> 123 \<Longrightarrow> pb ! i \<noteq> 42 \<Longrightarrow> \<exists>us. ts = Lit (pb ! i) # us \<and> ptoks (drop (i + 1) pb) = Some us"
proof -
  let ?n = "takeWhile (\<lambda>b. b \<noteq> 125) (drop (i + 1) pb)"
  have d: "drop i pb = pb ! i # drop (i + 1) pb" using assms(1) by (simp add: Cons_nth_drop_Suc)
  have "drop (length ?n + 1) (drop (i + 1) pb) = drop (i + length ?n + 2) pb" by (simp add: drop_drop ac_simps)
  then show "pb ! i = 123 \<Longrightarrow> \<exists>us. 125 \<in> set (drop (i + 1) pb) \<and> ts = Var ?n # us \<and> ptoks (drop (i + length ?n + 2) pb) = Some us"
    using assms(2) unfolding d ptoks.simps by (auto split: if_splits)
  show "pb ! i = 42 \<Longrightarrow> \<exists>us. ts = Star # us \<and> ptoks (drop (i + 1) pb) = Some us"
    "pb ! i \<noteq> 123 \<Longrightarrow> pb ! i \<noteq> 42 \<Longrightarrow> \<exists>us. ts = Lit (pb ! i) # us \<and> ptoks (drop (i + 1) pb) = Some us"
    using assms(2) unfolding d ptoks.simps by auto
qed

lemma mp_ok_step:
  assumes "mp_ok pb mb st (t # ts)" "t \<noteq> Star"
    "mp_step st' = NORMAL" "mp_pi st < mp_pi st'" "mp_pi st' \<le> length pb" "mp_mi st \<le> mp_mi st'" "mp_mi st' \<le> length mb"
    "ptoks (drop (mp_pi st') pb) = Some ts" "par_wf (mp_arr st')" "mp_index st' = mp_index st" "mp_imatch st' = mp_imatch st"
    "prun [t] (drop (mp_mi st) mb) = Some (drop (mp_mi st') mb)"
  shows "mp_ok pb mb st' ts"
proof (cases "mp_index st")
  case (Some ix)
  then obtain seg where seg: "ix < mp_pi st" "mp_imatch st \<le> mp_mi st" "ptoks (drop (ix + 1) pb) = Some (seg @ t # ts)"
    "prun seg (drop (mp_imatch st) mb) = Some (drop (mp_mi st) mb)"
    using assms(1) by (auto simp: mp_ok_def)
  have "prun (seg @ [t]) (drop (mp_imatch st) mb) = Some (drop (mp_mi st') mb)"
    using seg(4) assms(12) by (simp add: prun_append)
  moreover have "ptoks (drop (ix + 1) pb) = Some ((seg @ [t]) @ ts)" using seg(3) by simp
  ultimately have "\<exists>seg. ptoks (drop (ix + 1) pb) = Some (seg @ ts)
      \<and> prun seg (drop (mp_imatch st) mb) = Some (drop (mp_mi st') mb)" by blast
  then show ?thesis using assms(3-11) seg(1,2) Some by (simp add: mp_ok_def)
qed (use assms in \<open>simp add: mp_ok_def\<close>)

lemma pm_mismatch: "t = Lit c \<Longrightarrow> b \<noteq> c \<Longrightarrow> \<not> pm (t # ts) (b # s)"
  by simp

lemma mp_loop_done:
  assumes "0 \<notin> set pb" "0 \<notin> set mb" "mp_ok pb mb st ts"
  shows "mp_done pb mb st ts"
  using assms(3)
proof (induction st arbitrary: ts rule: wf_induct_rule [OF wf_measures [of
    "[\<lambda>st :: mp_state. case mp_index st of None \<Rightarrow> length pb + 1 | Some ix \<Rightarrow> length pb - ix,
      \<lambda>st. length mb - mp_imatch st, \<lambda>st. length mb - mp_mi st, \<lambda>st. length pb - mp_pi st]"]])
  case (1 st)
  note IH = 1(1) and ok = 1(2)
  let ?path = "pb @ [0]" and ?m = "mb @ [0]" and ?s = "drop (mp_mi st) mb"
  from ok have n: "mp_step st = NORMAL" "mp_pi st \<le> length pb" "mp_mi st \<le> length mb"
    "ptoks (drop (mp_pi st) pb) = Some ts" "par_wf (mp_arr st)" by (simp_all add: mp_ok_def)
  show ?case
  proof (cases "mp_mi st = length mb")
    case True
    have "mp_loop ?path ?m st = Some (Inr st)" using True n(1) by (subst mp_loop.simps) (simp add: nul_load)
    moreover have "mp_retry pb mb st \<longrightarrow> pm ts ?s" using mp_retry_later [OF ok] True by auto
    moreover have "pbinds ts [] = []" by (cases "(ts, [] :: u8 list)" rule: pbinds.cases) auto
    ultimately show ?thesis
      using mp_end_normal [OF n(1) True n(2) assms(1) n(4)] n(5) True by (auto simp: mp_done_def put_all_def)
  next
    case False
    then have mi: "mp_mi st < length mb" using n(3) by simp
    then have b: "c_load ?m (mp_mi st) = Some (mb ! mp_mi st)" "mb ! mp_mi st \<noteq> 0" "?s = mb ! mp_mi st # drop (mp_mi st + 1) mb"
      using assms(2) by (auto simp: nul_load Cons_nth_drop_Suc dest: nth_mem)
    have p: "c_load ?path (mp_pi st) = Some (if mp_pi st < length pb then pb ! mp_pi st else 0)"
      using n(2) by (rule nul_load)
    consider (var) "mp_pi st < length pb" "pb ! mp_pi st = 123" | (star) "mp_pi st < length pb" "pb ! mp_pi st = 42"
      | (lit) "mp_pi st < length pb" "pb ! mp_pi st \<noteq> 123" "pb ! mp_pi st \<noteq> 42" "pb ! mp_pi st = mb ! mp_mi st"
      | (fail) "mp_pi st < length pb \<longrightarrow> pb ! mp_pi st \<noteq> 123 \<and> pb ! mp_pi st \<noteq> 42 \<and> pb ! mp_pi st \<noteq> mb ! mp_mi st"
      by blast
    then show ?thesis
    proof cases
      case var
      let ?n = "takeWhile (\<lambda>b. b \<noteq> 125) (drop (mp_pi st + 1) pb)" and ?v = "takeWhile (\<lambda>b. b \<noteq> 47) ?s"
      obtain us where us: "125 \<in> set (drop (mp_pi st + 1) pb)" "ts = Var ?n # us"
        "ptoks (drop (mp_pi st + length ?n + 2) pb) = Some us"
        using ptoks_step(1) [OF var(1) n(4) var(2)] by blast
      obtain arr st' where st': "par_wf arr" "par_list arr = AList.update ?n ?v (par_list (mp_arr st))"
        "Option.bind (mp_loop ?path ?m st) (mp_end ?path ?m) = Option.bind (mp_loop ?path ?m st') (mp_end ?path ?m)"
        "mp_step st' = NORMAL" "mp_pi st' = mp_pi st + length ?n + 2" "mp_mi st' = mp_mi st + length ?v"
        "mp_index st' = mp_index st" "mp_imatch st' = mp_imatch st" "mp_arr st' = arr"
        using mp_var [OF n(1) var us(1) mi assms(1,2) n(5)] by blast
      have rest: "dropWhile (\<lambda>b. b \<noteq> 47) ?s = drop (mp_mi st') mb"
        unfolding dropWhile_eq_drop st'(6) by (simp add: drop_drop add.commute)
      have le: "mp_pi st' \<le> length pb" "mp_mi st' \<le> length mb"
        using takeWhile_less [OF us(1), of "\<lambda>b. b \<noteq> 125"] length_takeWhile_le [of "\<lambda>b. b \<noteq> 47" ?s] mi st'(5,6) by simp_all
      have "prun [Var ?n] ?s = Some (drop (mp_mi st') mb)" using b(3) rest by simp
      then have "mp_ok pb mb st' us"
        using le st' us(3) by (intro mp_ok_step [OF ok [unfolded us(2)]]) simp_all
      then have "mp_done pb mb st' us" using le var(1) st'(5-8) by (intro IH) (auto split: option.splits)
      moreover have "pm (Var ?n # us) ?s = pm us (drop (mp_mi st') mb)" using b(3) rest by simp
      moreover have "pbinds (Var ?n # us) ?s = [(?n, ?v)] @ pbinds us (drop (mp_mi st') mb)"
        using rest unfolding b(3) by (simp only: pbinds.simps append.simps)
      ultimately show ?thesis using ok st'(2,3,7,8,9) unfolding us(2)
        by (intro mp_step_done [where st' = st' and b = "[(?n, ?v)]"]) (simp_all add: put_all_def)
    next
      case star
      obtain us where us: "ts = Star # us" "ptoks (drop (mp_pi st + 1) pb) = Some us"
        using ptoks_step(2) [OF star(1) n(4) star(2)] by blast
      let ?st = "st\<lparr>mp_index := Some (mp_pi st), mp_imatch := mp_mi st, mp_pi := mp_pi st + 1\<rparr>"
      have "mp_ok pb mb ?st us" using n us(2) star(1) unfolding mp_ok_def by (simp add: exI [of _ "[]"])
      moreover have "(?st, st) \<in> measures [\<lambda>st :: mp_state. case mp_index st of None \<Rightarrow> length pb + 1 | Some ix \<Rightarrow> length pb - ix,
          \<lambda>st. length mb - mp_imatch st, \<lambda>st. length mb - mp_mi st, \<lambda>st. length pb - mp_pi st]"
        using ok star(1) by (auto simp: mp_ok_def split: option.splits)
      ultimately have "mp_done pb mb ?st us" by (intro IH)
      moreover have "mp_loop ?path ?m st = mp_loop ?path ?m ?st"
        using star n(1) b p by (subst mp_loop.simps) simp
      moreover have "pm ts ?s \<or> mp_retry pb mb st \<longleftrightarrow> pm us ?s \<or> mp_retry pb mb ?st"
      proof -
        have r: "mp_retry pb mb ?st \<longleftrightarrow> (\<exists>k. pm us (drop (k + 1) ?s))"
          using us(2) by (simp add: mp_retry_def drop_drop ac_simps)
        have "pm ts ?s \<longleftrightarrow> pm us ?s \<or> mp_retry pb mb ?st"
          unfolding us(1) pm_star r by (metis Suc_eq_plus1 drop0 not0_implies_Suc)
        moreover have "mp_retry pb mb st \<Longrightarrow> pm ts ?s"
          using mp_retry_later [OF ok] unfolding us(1) pm_star by (metis drop_drop)
        ultimately show ?thesis by blast
      qed
      ultimately show ?thesis using us(1) by (auto simp: mp_done_def)
    next
      case lit
      obtain us where us: "ts = Lit (pb ! mp_pi st) # us" "ptoks (drop (mp_pi st + 1) pb) = Some us"
        using ptoks_step(3) [OF lit(1) n(4) lit(2,3)] by blast
      let ?st = "st\<lparr>mp_mi := mp_mi st + 1, mp_pi := mp_pi st + 1\<rparr>"
      have "mp_ok pb mb ?st us" using n us(2) lit mi b(3) ok
        by (intro mp_ok_step [OF ok [unfolded us(1)]]) simp_all
      then have "mp_done pb mb ?st us" using mi diff_less_mono2 [of "mp_mi st" "mp_mi st + 1" "length mb"] by (intro IH) simp_all
      moreover have "mp_loop ?path ?m st = mp_loop ?path ?m ?st"
        using lit n(1) b p by (subst mp_loop.simps) simp
      ultimately show ?thesis using ok lit(4) b(3) unfolding us(1)
        by (intro mp_step_done [where st' = ?st and b = "[]"]) (simp_all add: put_all_def)
    next
      case fail
      have ts: "ts = [] \<or> (\<exists>us. ts = Lit (pb ! mp_pi st) # us \<and> pb ! mp_pi st \<noteq> mb ! mp_mi st)"
        using ptoks_step(3) [OF _ n(4)] n(2,4) fail by (cases "mp_pi st < length pb") auto
      then have no: "\<not> pm ts ?s" "pbinds ts ?s = []" using b(3) by auto
      show ?thesis
      proof (cases "mp_index st")
        case None
        then have "mp_loop ?path ?m st = Some (Inl (mp_arr st))"
          using fail n(1) b p by (subst mp_loop.simps) auto
        then show ?thesis using None no n(5) by (simp add: mp_done_def mp_end_def mp_retry_def put_all_def)
      next
        case (Some ix)
        let ?st = "st\<lparr>mp_pi := ix + 1, mp_imatch := mp_imatch st + 1, mp_mi := mp_imatch st + 1\<rparr>"
        obtain ats where ats: "ix < mp_pi st" "mp_imatch st \<le> mp_mi st" "ptoks (drop (ix + 1) pb) = Some ats"
          using ok Some by (auto simp: mp_ok_def)
        have "mp_ok pb mb ?st ats" using n ats Some mi unfolding mp_ok_def by (simp add: exI [of _ "[]"])
        then have "mp_done pb mb ?st ats" using ats(2) mi Some diff_less_mono2 [of "mp_imatch st" "mp_imatch st + 1" "length mb"] by (intro IH) simp_all
        moreover have "mp_loop ?path ?m st = mp_loop ?path ?m ?st"
          using fail Some n(1) b p by (subst mp_loop.simps) auto
        moreover have "mp_retry pb mb st \<longleftrightarrow> pm ats (drop (mp_imatch st + 1) mb) \<or> mp_retry pb mb ?st"
        proof -
          have "mp_retry pb mb ?st \<longleftrightarrow> (\<exists>k. pm ats (drop (k + 1) (drop (mp_imatch st + 1) mb)))"
            using ats(3) Some by (simp add: mp_retry_def drop_drop ac_simps)
          moreover have "mp_retry pb mb st \<longleftrightarrow> (\<exists>k. pm ats (drop k (drop (mp_imatch st + 1) mb)))"
            using ats(3) Some by (simp add: mp_retry_def)
          ultimately show ?thesis by (metis Suc_eq_plus1 drop0 not0_implies_Suc)
        qed
        ultimately show ?thesis using Some no by (auto simp: mp_done_def)
      qed
    qed
  qed
qed

lemma match_param_is:
  assumes "0 \<notin> set pb" "0 \<notin> set mb" "ptoks pb = Some ts" "par_wf arr"
  shows "\<exists>arr'. match_param (pb @ [0]) (mb @ [0]) arr = Some (pm ts mb, arr') \<and> par_wf arr'
    \<and> (Star \<notin> set ts \<longrightarrow> par_list arr' = put_all (pbinds ts mb) (par_list arr))"
proof -
  let ?st = "\<lparr>mp_step = NORMAL, mp_pi = 0, mp_mi = 0, mp_index = None, mp_imatch = 0, mp_start = 0, mp_name = [], mp_arr = arr\<rparr>"
  have "mp_ok pb mb ?st ts" using assms(3,4) by (simp add: mp_ok_def)
  from mp_loop_done [OF assms(1,2) this] show ?thesis by (simp add: mp_done_def mp_retry_def match_param_def)
qed

section \<open>Routing\<close>

definition route_ok :: "'r pelem \<Rightarrow> bool" where
  "route_ok e \<longleftrightarrow> ptoks (fst (par_pair e)) \<noteq> None"

definition route_toks :: "'r pelem \<Rightarrow> ptok list" where
  "route_toks e = the (ptoks (fst (par_pair e)))"

definition route_params :: "u8 list \<Rightarrow> 'r pelem \<Rightarrow> u8 list parray" where
  "route_params request e = snd (the (match_param (fst (par_pair e) @ [0]) (request @ [0]) parray_init))"

definition route_hits :: "u8 list \<Rightarrow> 'r pelem list \<Rightarrow> 'r pelem list" where
  "route_hits request es = filter (\<lambda>e. pm (route_toks e) request) es"

text \<open>The sets of the tables of parameters, from the place \<open>n\<close> on.\<close>

definition numbered :: "nat \<Rightarrow> 'v list \<Rightarrow> (u64 \<times> 'v) list" where
  "numbered n vs = zip (map of_nat [n..<n + length vs]) vs"

lemma numbered_simps: "numbered n [] = []" "numbered n (v # vs) = (of_nat n, v) # numbered (n + 1) vs"
proof -
  have "[n..<n + length (v # vs)] = n # [n + 1..<n + 1 + length vs]" by (simp add: upt_conv_Cons del: upt_Suc)
  then show "numbered n (v # vs) = (of_nat n, v) # numbered (n + 1) vs" unfolding numbered_def by simp
qed (simp add: numbered_def)

lemma route_match_param:
  assumes "key_ok e" "route_ok e" "0 \<notin> set request"
  shows "match_param (fst (par_pair e) @ [0]) (request @ [0]) parray_init = Some (pm (route_toks e) request, route_params request e)"
    and "par_wf (route_params request e)"
    and "Star \<notin> set (route_toks e) \<Longrightarrow> par_list (route_params request e) = put_all (pbinds (route_toks e) request) []"
proof -
  obtain ts where ts: "ptoks (fst (par_pair e)) = Some ts" using assms(2) by (auto simp: route_ok_def)
  have "0 \<notin> set (fst (par_pair e))" using assms(1) by (simp add: key_ok_def par_pair_def)
  from match_param_is [OF this assms(3) ts parray_init_wf]
  obtain arr where "match_param (fst (par_pair e) @ [0]) (request @ [0]) parray_init = Some (pm ts request, arr)" "par_wf arr"
    "Star \<notin> set ts \<longrightarrow> par_list arr = put_all (pbinds ts request) []" by (auto simp: parray_init_list)
  then show "match_param (fst (par_pair e) @ [0]) (request @ [0]) parray_init = Some (pm (route_toks e) request, route_params request e)"
    "par_wf (route_params request e)"
    "Star \<notin> set (route_toks e) \<Longrightarrow> par_list (route_params request e) = put_all (pbinds (route_toks e) request) []"
    using ts by (simp_all add: route_toks_def route_params_def)
qed

lemma route_loop_is:
  assumes "par_wf paths" "\<forall>e\<in>set (par_elems paths). route_ok e" "0 \<notin> set request"
    "i \<le> pa_len paths" "pa_P found = map Some es @ replicate k None" "pa_len found = length es"
    "pa_len paths - i \<le> k"
  shows "\<exists>P. route_loop paths request i found params = map_option
     (Pair \<lparr>pa_P = map Some (es @ route_hits request (drop i (par_elems paths))) @ P,
            pa_len = length (es @ route_hits request (drop i (par_elems paths)))\<rparr>)
     (larray.set_all (numbered (length es) (map (route_params request) (route_hits request (drop i (par_elems paths))))) params)"
  using assms(4-7)
proof (induction "pa_len paths - i" arbitrary: i found es k params)
  case 0
  have "length (par_elems paths) = pa_len paths" using par_wfE [OF assms(1)] by metis
  then have "drop i (par_elems paths) = []" using 0 by simp
  then show ?case using 0 by (subst route_loop.simps) (auto simp: route_hits_def numbered_simps intro!: exI [of _ "replicate k None"])
next
  case (Suc n)
  have len: "length (par_elems paths) = pa_len paths" using par_wfE [OF assms(1)] by metis
  let ?e = "par_elems paths ! i"
  have i: "i < pa_len paths" using Suc.hyps(2) by simp
  then have e: "drop i (par_elems paths) = ?e # drop (i + 1) (par_elems paths)" "?e \<in> set (par_elems paths)"
    using len by (simp_all add: Cons_nth_drop_Suc)
  then have ok: "key_ok ?e" "route_ok ?e" using assms(1,2) by (simp_all add: par_wf_def)
  note m = route_match_param(1) [OF ok assms(3)]
  have step: "route_loop paths request i found params = (if pm (route_toks ?e) request then
        Option.bind (c_store (pa_P found) (pa_len found) (Some ?e)) (\<lambda>P.
        Option.bind (larray_set params (of_nat (pa_len found)) (route_params request ?e)) (\<lambda>(params, _).
          route_loop paths request (i + 1) (found\<lparr>pa_P := P, pa_len := pa_len found + 1\<rparr>) params))
      else route_loop paths request (i + 1) found params)"
    using i m pa_at_elem [OF assms(1) i] key_cstr [OF ok(1)] by (subst route_loop.simps) simp
  have n': "n = pa_len paths - (i + 1)" and k': "pa_len paths - (i + 1) \<le> k" "pa_len paths - (i + 1) < k"
    using Suc.hyps(2) Suc.prems(4) by linarith+
  show ?case
  proof (cases "pm (route_toks ?e) request")
    case False
    have "\<exists>P. route_loop paths request (i + 1) found params = map_option
        (Pair \<lparr>pa_P = map Some (es @ route_hits request (drop (i + 1) (par_elems paths))) @ P,
               pa_len = length (es @ route_hits request (drop (i + 1) (par_elems paths)))\<rparr>)
        (larray.set_all (numbered (length es) (map (route_params request) (route_hits request (drop (i + 1) (par_elems paths))))) params)"
      using Suc.prems(2,3) i n' k'(1) by (intro Suc.hyps(1)) simp_all
    then show ?thesis using False e(1) unfolding step by (simp add: route_hits_def)
  next
    case True
    obtain k' where k: "k = Suc k'" using Suc.prems(4) Suc.hyps(2) by (cases k) simp_all
    then have k'': "pa_len paths - (i + 1) \<le> k'" using k'(2) by linarith
    let ?f = "\<lparr>pa_P = map Some (es @ [?e]) @ replicate k' None, pa_len = length es + 1\<rparr>"
    have store: "c_store (pa_P found) (pa_len found) (Some ?e) = Some (pa_P ?f)"
      using Suc.prems(2,3) k by (simp add: c_store_def list_update_append)
    show ?thesis
    proof (cases "larray_set params (of_nat (length es)) (route_params request ?e)")
      case None
      then show ?thesis using True e(1) store Suc.prems(3) unfolding step by (simp add: route_hits_def numbered_simps)
    next
      case (Some r)
      obtain params' j where r: "r = (params', j)" by (cases r)
      have "\<exists>P. route_loop paths request (i + 1) ?f params' = map_option
          (Pair \<lparr>pa_P = map Some ((es @ [?e]) @ route_hits request (drop (i + 1) (par_elems paths))) @ P,
                 pa_len = length ((es @ [?e]) @ route_hits request (drop (i + 1) (par_elems paths)))\<rparr>)
          (larray.set_all (numbered (length (es @ [?e])) (map (route_params request) (route_hits request (drop (i + 1) (par_elems paths))))) params')"
        using i n' k'' by (intro Suc.hyps(1)) simp_all
      moreover have "route_loop paths request i found params = route_loop paths request (i + 1) ?f params'"
        using True store Suc.prems(3) Some r unfolding step by (cases found) simp
      ultimately show ?thesis using True e(1) Some r by (simp add: route_hits_def numbered_simps)
    qed
  qed
qed

text \<open>An unclosed brace is read past the end of the route.\<close>

lemma match_param_unclosed:
  assumes "0 \<notin> set mb" "mb \<noteq> []" "0 \<notin> set pb" "125 \<notin> set pb"
  shows "match_param (123 # pb @ [0]) (mb @ [0]) arr = None"
proof -
  have key: "mp_loop (123 # pb @ [0]) (mb @ [0]) st = None" if "mp_step st = GET_KEY" "mp_mi st = 0" "mp_pi st \<le> length (123 # pb @ [0])" for st
    using that
  proof (induction "length (123 # pb @ [0]) - mp_pi st" arbitrary: st)
    case 0
    then show ?case by (subst mp_loop.simps) (simp add: c_load_def)
  next
    case (Suc n)
    then have i: "mp_pi st < length (123 # pb @ [0])" by linarith
    then have "(123 # pb @ [0]) ! mp_pi st \<in> set (123 # pb @ [0])" by (rule nth_mem)
    then have "(123 # pb @ [0]) ! mp_pi st \<noteq> 125" using assms(4) by auto
    moreover have "mp_loop (123 # pb @ [0]) (mb @ [0]) (st\<lparr>mp_pi := mp_pi st + 1\<rparr>) = None"
      using Suc.hyps(2) Suc.prems i by (intro Suc.hyps(1)) simp_all
    ultimately show ?case using i Suc.prems by (subst mp_loop.simps) (simp add: c_load_def)
  qed
  have "hd mb \<noteq> 0" using assms(1,2) by (cases mb) auto
  then show ?thesis using assms(2) key unfolding match_param_def
    by (subst mp_loop.simps) (cases mb, simp_all add: c_load_def)
qed

text \<open>The routes found are the hits, at the front of the array, and the tables of parameters are set under
  their places.\<close>

lemma route_match_hits:
  assumes "par_wf paths" "\<forall>e\<in>set (par_elems paths). route_ok e" "0 \<notin> set request"
  shows "\<exists>P. route_match paths request params = map_option
      (Pair \<lparr>pa_P = map Some (route_hits request (par_elems paths)) @ P, pa_len = length (route_hits request (par_elems paths))\<rparr>)
      (larray.set_all (numbered 0 (map (route_params request) (route_hits request (par_elems paths)))) params)"
  using route_loop_is [OF assms, of 0 "\<lparr>pa_P = replicate (pa_len paths * 2) None, pa_len = 0\<rparr>" "[]" "pa_len paths * 2" params]
  by (auto simp: route_match_def parray_initl_def)

section \<open>Property\<close>

text \<open>C39: When the braces of the routes are closed, matching ends inside its strings: route_match
  returns, in their order, exactly the routes whose key matches the path of the request (a star any
  piece, a name in braces the bytes up to the next slash), and sets the parameters at 0, 1, 2, and
  on to the tables of those routes; and the table of a route without stars holds the pieces of the
  path under their names.\<close>
theorem routes_matched:
  assumes "par_wf paths" and "\<forall>e\<in>set (par_elems paths). route_ok e" and "0 \<notin> set request"
  shows "\<exists>found. pa_len found = length (par_elems found) \<and> par_elems found = route_hits request (par_elems paths)
      \<and> route_match paths request params = map_option (Pair found)
          (larray.set_all (numbered 0 (map (route_params request) (par_elems found))) params)
      \<and> (\<forall>e\<in>set (par_elems found). par_wf (route_params request e) \<and> (Star \<notin> set (route_toks e) \<longrightarrow>
          par_list (route_params request e) = put_all (pbinds (route_toks e) request) []))"
proof -
  let ?hits = "route_hits request (par_elems paths)"
  obtain P where r: "route_match paths request params = map_option
      (Pair \<lparr>pa_P = map Some ?hits @ P, pa_len = length ?hits\<rparr>)
      (larray.set_all (numbered 0 (map (route_params request) ?hits)) params)"
    using route_match_hits [OF assms] by blast
  have "\<forall>e\<in>set ?hits. key_ok e \<and> route_ok e" using assms(1,2) by (auto simp: route_hits_def par_wf_def)
  then have "\<forall>e\<in>set ?hits. par_wf (route_params request e) \<and> (Star \<notin> set (route_toks e) \<longrightarrow>
      par_list (route_params request e) = put_all (pbinds (route_toks e) request) [])"
    using route_match_param(2,3) [OF _ _ assms(3)] by blast
  moreover have "par_elems \<lparr>pa_P = map Some ?hits @ P, pa_len = length ?hits\<rparr> = ?hits" by (simp add: par_elems_def o_def)
  ultimately show ?thesis using r by (intro exI [of _ "\<lparr>pa_P = map Some ?hits @ P, pa_len = length ?hits\<rparr>"]) simp
qed

lemma routes_matched_witness:
  "\<exists>paths found t. parray_set parray_init (bytes ''/u/{id}/x'') (7 :: nat) = Some paths
     \<and> route_match paths (bytes ''/u/42/x'') larray_init = map_option (Pair found) (larray.set_all [(0, t)] larray_init)
     \<and> map pe_value (par_elems found) = [7] \<and> par_list t = [(bytes ''id'', bytes ''42'')]"
proof -
  let ?k = "bytes ''/u/{id}/x''" and ?r = "bytes ''/u/42/x''"
  have z: "0 \<notin> set ?k" "0 \<notin> set ?r" by code_simp+
  obtain paths where p: "parray_set parray_init ?k (7 :: nat) = Some paths" "par_wf paths" "par_list paths = [(?k, 7)]"
    using parray_set_list [OF parray_init_wf z(1), of "7 :: nat"] by (auto simp: parray_init_list)
  then obtain e where e: "par_elems paths = [e]" "par_pair e = (?k, 7)" by (auto simp: par_list_def)
  have toks: "ptoks ?k = Some [Lit 47, Lit 117, Lit 47, Var (bytes ''id''), Lit 47, Lit 120]" by code_simp
  have pm: "pm [Lit 47, Lit 117, Lit 47, Var (bytes ''id''), Lit 47, Lit 120] ?r" by code_simp
  have binds: "put_all (pbinds [Lit 47, Lit 117, Lit 47, Var (bytes ''id''), Lit 47, Lit 120] ?r) [] = [(bytes ''id'', bytes ''42'')]"
    by code_simp
  have "\<forall>e\<in>set (par_elems paths). route_ok e" using e toks by (simp add: route_ok_def)
  from routes_matched [OF p(2) this z(2), of larray_init] e toks pm
  obtain found where f: "par_elems found = [e]" "par_list (route_params ?r e) = [(bytes ''id'', bytes ''42'')]"
    "route_match paths ?r larray_init = map_option (Pair found) (larray.set_all (numbered 0 [route_params ?r e]) larray_init)"
    by (auto simp: route_hits_def route_toks_def binds)
  have "pe_value e = 7" using e(2) by (simp add: par_pair_def)
  then show ?thesis using p(1) f
    by (intro exI [of _ paths] exI [of _ found] exI [of _ "route_params ?r e"]) (simp add: numbered_def)
qed

end
