(* ===== verification/WebSocket.thy ===== *)
theory WebSocket
  imports HttpRequest
begin

text \<open>
  The frames of the WebSocket client of \<open>src/src/net.c\<close> (i_ws_read, i_ws_write).  The connection is what
  the calls of SSL_read will meet: pieces of bytes, from the first of which a call takes what fits in its
  buffer, and failures (None), on which it returns a negative number; it returns 0 when nothing is left.
\<close>

section \<open>Model\<close>

type_synonym ws_conn = "u8 list option list"

datatype ws_error = SSL_read_error | Undefined

definition BUFFER_LEN :: nat where
  "BUFFER_LEN = 4096"

definition ssl_read :: "nat \<Rightarrow> ws_conn \<Rightarrow> u8 list option \<times> ws_conn" where
  "ssl_read n conn = (case conn of [] \<Rightarrow> (Some [], []) | None # ps \<Rightarrow> (None, ps)
     | Some p # ps \<Rightarrow> (Some (take n p), if length p \<le> n then ps else Some (drop n p) # ps))"

text \<open>Reading until \<open>want\<close> bytes are there, the connection ends or a call fails; the buffer was cleared before.\<close>

function ws_fill :: "nat \<Rightarrow> u8 list \<Rightarrow> ws_conn \<Rightarrow> (ws_error + u8 list) \<times> ws_conn" where
  "ws_fill want got conn =
     (case ssl_read (want - length got) conn of
        (None, conn') \<Rightarrow> (Inl SSL_read_error, conn')
      | (Some bs, conn') \<Rightarrow>
          if bs = [] then (Inr got, conn')
          else if length (got @ bs) \<ge> want then (Inr (got @ bs), conn')
          else ws_fill want (got @ bs) conn')"
  by pat_completeness auto
termination
  by (relation "measure (\<lambda>(want, got, conn). sum_list (map (case_option 0 length) conn))")
    (auto simp: ssl_read_def split: list.splits if_splits option.splits)

declare ws_fill.simps [simp del]

record ws_frame_info =
  wf_fin :: bool
  wf_rsv1 :: bool
  wf_rsv2 :: bool
  wf_rsv3 :: bool
  wf_opcode :: nat
  wf_mask :: bool
  wf_payload :: nat

definition buffer_byte :: "u8 list \<Rightarrow> nat \<Rightarrow> u8" where
  "buffer_byte got i = (if i < length got then got ! i else 0)"

definition ws_header :: "u8 list \<Rightarrow> ws_frame_info" where
  "ws_header got = \<lparr>wf_fin = bit (buffer_byte got 0) 7, wf_rsv1 = bit (buffer_byte got 0) 6,
     wf_rsv2 = bit (buffer_byte got 0) 5, wf_rsv3 = bit (buffer_byte got 0) 4,
     wf_opcode = unat (buffer_byte got 0 AND 15), wf_mask = bit (buffer_byte got 1) 7,
     wf_payload = unat (buffer_byte got 1 AND 127)\<rparr>"

text \<open>The length behind the header.  In the long form the byte 4 is shifted as an int, which overflows
  from 128 on.\<close>

definition be_number :: "u8 list \<Rightarrow> nat" where
  "be_number bs = foldl (\<lambda>n b. n * 256 + unat b) 0 bs"

definition ws_length :: "ws_frame_info \<Rightarrow> ws_conn \<Rightarrow> (ws_error + nat) \<times> ws_conn" where
  "ws_length info conn =
     (if wf_payload info \<le> 125 then (Inr (wf_payload info), conn)
      else if wf_payload info = 126 then
        (case ws_fill 2 [] conn of
           (Inl e, conn) \<Rightarrow> (Inl e, conn)
         | (Inr got, conn) \<Rightarrow> (Inr (be_number (map (buffer_byte got) [0..<2])), conn))
      else
        (case ws_fill 8 [] conn of
           (Inl e, conn) \<Rightarrow> (Inl e, conn)
         | (Inr got, conn) \<Rightarrow>
             (if unat (buffer_byte got 4) \<ge> 128 then Inl Undefined
              else Inr (be_number (map (buffer_byte got) [0..<8])), conn)))"

function ws_body :: "nat \<Rightarrow> str \<Rightarrow> ws_conn \<Rightarrow> (ws_error + str) \<times> ws_conn" where
  "ws_body payload message conn =
     (if s_len message \<noteq> payload then
        (case ssl_read (min (payload - s_len message) BUFFER_LEN) conn of
           (None, conn') \<Rightarrow> (Inl SSL_read_error, conn')
         | (Some bs, conn') \<Rightarrow>
             if bs = [] then (Inr message, conn')
             else (case str_pushl message bs (length bs) of
                     None \<Rightarrow> (Inl Undefined, conn')
                   | Some message \<Rightarrow> ws_body payload message conn'))
      else (Inr message, conn))"
  by pat_completeness auto
termination
  by (relation "measure (\<lambda>(payload, message, conn). sum_list (map (case_option 0 length) conn))")
    (auto simp: ssl_read_def split: list.splits if_splits option.splits)

declare ws_body.simps [simp del]

text \<open>The content and the opcode, and what is left of the connection.\<close>

definition i_ws_read :: "ws_conn \<Rightarrow> (ws_error + str \<times> nat) \<times> ws_conn" where
  "i_ws_read conn =
     (case ws_fill 2 [] conn of
        (Inl e, conn) \<Rightarrow> (Inl e, conn)
      | (Inr got, conn) \<Rightarrow>
          let info = ws_header got in
          case ws_length info conn of
            (Inl e, conn) \<Rightarrow> (Inl e, conn)
          | (Inr payload, conn) \<Rightarrow>
              case str_init [] of
                None \<Rightarrow> (Inl Undefined, conn)
              | Some message \<Rightarrow>
                  case ws_body payload message conn of
                    (Inl e, conn) \<Rightarrow> (Inl e, conn)
                  | (Inr message, conn) \<Rightarrow> (Inr (message, wf_opcode info), conn))"

definition i_ws_write :: "u8 list \<Rightarrow> str option" where
  "i_ws_write content = do {
     let clen = length content;
     d \<leftarrow> str_init [];
     d \<leftarrow> str_pushl d [129] 1;
     d \<leftarrow> (if clen \<le> 125 then str_pushl d [128 OR of_nat clen] 1
          else if clen \<le> 65535 then str_pushl d [254, of_nat (clen div 2 ^ 8), of_nat clen] 3
          else str_pushl d (255 # map (\<lambda>k. of_nat (clen div 2 ^ (8 * k))) [7, 6, 5, 4, 3, 2, 1, 0]) 9);
     d \<leftarrow> str_pushl d [0, 0, 0, 0] 4;
     str_pushl d content clen
   }"

section \<open>Reading a frame\<close>

lemma ssl_read_pieces:
  assumes "[] \<notin> set ps" "ps \<noteq> []" "0 < n"
  shows "\<exists>bs ps'. ssl_read n (map Some ps) = (Some bs, map Some ps') \<and> concat ps = bs @ concat ps' \<and> length bs \<le> n
    \<and> bs \<noteq> [] \<and> [] \<notin> set ps'"
proof (cases ps)
  case (Cons p qs)
  show ?thesis
  proof (cases "length p \<le> n")
    case True
    then show ?thesis using Cons assms by (intro exI [of _ p] exI [of _ qs]) (auto simp: ssl_read_def)
  next
    case False
    then show ?thesis using Cons assms
      by (intro exI [of _ "take n p"] exI [of _ "drop n p # qs"]) (auto simp: ssl_read_def)
  qed
qed (use assms in simp)

text \<open>The pieces never matter: what is read are the next bytes.\<close>

lemma ws_fill_reads:
  assumes "[] \<notin> set ps" "length got < want" "want \<le> length got + length (concat ps)"
  shows "\<exists>ps'. ws_fill want got (map Some ps) = (Inr (take want (got @ concat ps)), map Some ps')
    \<and> concat ps' = drop (want - length got) (concat ps) \<and> [] \<notin> set ps'"
  using assms
proof (induction "want - length got" arbitrary: got ps rule: less_induct)
  case less
  have "ps \<noteq> []" using less.prems(2,3) by auto
  then obtain bs ps' where r: "ssl_read (want - length got) (map Some ps) = (Some bs, map Some ps')" "concat ps = bs @ concat ps'"
    "length bs \<le> want - length got" "bs \<noteq> []" "[] \<notin> set ps'"
    using ssl_read_pieces [of ps "want - length got"] less.prems by auto
  show ?case
  proof (cases "length (got @ bs) \<ge> want")
    case True
    then have "length bs = want - length got" using r(3) by simp
    then show ?thesis using True r less.prems(2) by (subst ws_fill.simps) auto
  next
    case False
    have "want - length (got @ bs) < want - length got" using r(4) False by (cases bs) auto
    moreover have "length (got @ bs) < want" using False by simp
    moreover have "want \<le> length (got @ bs) + length (concat ps')" using less.prems(3) r(2) by simp
    ultimately obtain qs where "ws_fill want (got @ bs) (map Some ps') = (Inr (take want ((got @ bs) @ concat ps')), map Some qs)"
      "concat qs = drop (want - length (got @ bs)) (concat ps')" "[] \<notin> set qs"
      using less.hyps [of "got @ bs" ps'] r(5) by blast
    then show ?thesis using False r less.prems(2)
      by (subst ws_fill.simps) (auto simp: le_diff_conv ac_simps)
  qed
qed

lemma ws_body_reads:
  assumes "[] \<notin> set ps" "str_is message got" "length got \<le> payload" "payload \<le> length got + length (concat ps)"
  shows "\<exists>message' ps'. ws_body payload message (map Some ps) = (Inr message', map Some ps')
    \<and> str_is message' (take payload (got @ concat ps)) \<and> concat ps' = drop (payload - length got) (concat ps)
    \<and> [] \<notin> set ps'"
  using assms
proof (induction "payload - length got" arbitrary: message got ps rule: less_induct)
  case less
  have len: "s_len message = length got" by (rule str_is_len [OF less.prems(2)])
  show ?case
  proof (cases "length got = payload")
    case True
    then show ?thesis using less.prems len by (subst ws_body.simps) auto
  next
    case False
    let ?n = "min (payload - length got) BUFFER_LEN"
    have "ps \<noteq> []" "0 < ?n" using less.prems(3,4) False by (auto simp: BUFFER_LEN_def)
    then obtain bs ps' where r: "ssl_read ?n (map Some ps) = (Some bs, map Some ps')" "concat ps = bs @ concat ps'"
      "length bs \<le> ?n" "bs \<noteq> []" "[] \<notin> set ps'"
      using ssl_read_pieces [of ps ?n] less.prems(1) by blast
    have "str_wf message" "str_text message = got" using less.prems(2) by (simp_all add: str_is_def)
    then obtain m where m: "str_pushl message bs (length bs) = Some m" "str_is m (got @ bs)"
      using str_pushl_text [of message "length bs" bs] by (auto simp: str_is_def)
    have "payload - length (got @ bs) < payload - length got" using r(4) False less.prems(3) by (cases bs) auto
    moreover have "length (got @ bs) \<le> payload" using r(3) less.prems(3) by (simp add: le_diff_conv2 add.commute)
    moreover have "payload \<le> length (got @ bs) + length (concat ps')" using less.prems(4) r(2) by simp
    ultimately obtain m' qs where "ws_body payload m (map Some ps') = (Inr m', map Some qs)"
      "str_is m' (take payload ((got @ bs) @ concat ps'))" "concat qs = drop (payload - length (got @ bs)) (concat ps')" "[] \<notin> set qs"
      using less.hyps [of "got @ bs" ps' m] r(5) m(2) by blast
    then show ?thesis using r m(1) len False by (subst ws_body.simps) (auto simp: ac_simps)
  qed
qed

text \<open>A failure of SSL_read while a frame is read is an error, as long as it meets the header.\<close>

lemma i_ws_read_failure: "i_ws_read (None # conn) = (Inl SSL_read_error, conn)"
  by (simp add: i_ws_read_def ws_fill.simps [of 2 "[]" "None # conn"] ssl_read_def)

section \<open>Frames\<close>

text \<open>A frame of one message, as RFC 6455 has it: the final bit and the opcode, the length in the shortest
  form, the mask if there is one, and the content under the mask.\<close>

definition ws_size :: "u8 \<Rightarrow> nat \<Rightarrow> u8 list" where
  "ws_size m n = (if n \<le> 125 then [m OR of_nat n]
     else if n \<le> 65535 then [m OR 126, of_nat (n div 2 ^ 8), of_nat n]
     else (m OR 127) # map (\<lambda>k. of_nat (n div 2 ^ (8 * k))) [7, 6, 5, 4, 3, 2, 1, 0])"

definition ws_unmasked :: "nat \<Rightarrow> u8 list \<Rightarrow> u8 list" where
  "ws_unmasked opcode content = of_nat (128 + opcode) # ws_size 0 (length content) @ content"

definition ws_masked :: "nat \<Rightarrow> (nat \<Rightarrow> u8) \<Rightarrow> u8 list \<Rightarrow> u8 list" where
  "ws_masked opcode key content = of_nat (128 + opcode) # ws_size 128 (length content)
     @ map key [0..<4] @ map (\<lambda>i. content ! i XOR key (i mod 4)) [0..<length content]"

lemma be_number_Cons: "be_number (b # bs) = unat b * 256 ^ length bs + be_number bs"
proof -
  have "foldl (\<lambda>n b. n * 256 + unat b) a bs = a * 256 ^ length bs + foldl (\<lambda>n b. n * 256 + unat b) 0 bs" for a
  proof (induction bs arbitrary: a)
    case (Cons b bs)
    show ?case using Cons.IH [of "a * 256 + unat b"] Cons.IH [of "unat b"] by (simp add: algebra_simps)
  qed simp
  from this [of "unat b"] show ?thesis by (simp add: be_number_def)
qed

lemma be_number_bytes: "be_number (map (\<lambda>k. of_nat (n div 2 ^ (8 * k))) (rev [0..<m])) = n mod 256 ^ m"
proof (induction m)
  case (Suc m)
  have p: "(2 :: nat) ^ (8 * m) = 256 ^ m" by (simp add: power_mult)
  have "unat (of_nat (n div 2 ^ (8 * m)) :: u8) = n div 256 ^ m mod 256" by (simp add: unat_of_nat p)
  moreover have "n mod 256 ^ Suc m = 256 ^ m * (n div 256 ^ m mod 256) + n mod 256 ^ m"
    unfolding power_Suc2 by (rule mod_mult2_eq)
  ultimately show ?case using Suc.IH by (simp add: be_number_Cons)
qed (simp add: be_number_def)

lemma rev_upto: "[7, 6, 5, 4, 3, 2, 1, 0] = rev [0..<8 :: nat]" "[1, 0] = rev [0..<2 :: nat]"
  by code_simp+

lemma low_bits: "n < 128 \<Longrightarrow> unat ((128 OR of_nat n :: u8) AND 127) = n" "n < 128 \<Longrightarrow> unat ((0 OR of_nat n :: u8) AND 127) = n"
proof -
  assume n: "n < 128"
  have m: "(127 :: u8) = mask 7" by (simp add: mask_eq_exp_minus_1)
  have "(128 :: u8) AND mask 7 = 0" by (simp add: mask_eq_exp_minus_1)
  then have "(128 OR of_nat n :: u8) AND 127 = of_nat n AND mask 7" unfolding m by (simp add: bit.conj_disj_distrib2)
  moreover have "unat (of_nat n AND mask 7 :: u8) = n"
    using n by (simp add: take_bit_eq_mask [symmetric] unsigned_take_bit_eq unat_of_nat take_bit_nat_eq_self)
  ultimately show "unat ((128 OR of_nat n :: u8) AND 127) = n" "unat ((0 OR of_nat n :: u8) AND 127) = n"
    unfolding m by simp_all
qed

lemma opcode_bits: "n < 16 \<Longrightarrow> unat (of_nat (128 + n) AND 15 :: u8) = n"
proof -
  assume "n < 16"
  then have "n \<in> set [0..<16]" by simp
  moreover have "\<forall>n\<in>set [0..<16]. unat (of_nat (128 + n) AND 15 :: u8) = n" by code_simp
  ultimately show ?thesis by blast
qed

lemma buffer_bytes: "map (buffer_byte got) [0..<length got] = got"
  by (rule nth_equalityI) (simp_all add: buffer_byte_def)

lemma ws_length_reads:
  assumes "[] \<notin> set ps" "concat ps = tl (ws_size 0 n) @ rest" "n < 2 ^ 31"
    and "wf_payload info = unat (hd (ws_size 0 n) AND 127)"
  shows "\<exists>ps'. ws_length info (map Some ps) = (Inr n, map Some ps') \<and> concat ps' = rest \<and> [] \<notin> set ps'"
proof -
  consider (short) "n \<le> 125" | (mid) "125 < n" "n \<le> 65535" | (long) "65535 < n" by linarith
  then show ?thesis
  proof cases
    case short
    then have "wf_payload info = n" using assms(4) low_bits(2) [of n] by (simp add: ws_size_def)
    then show ?thesis using short assms(1,2) by (auto simp: ws_length_def ws_size_def)
  next
    case mid
    let ?ext = "map (\<lambda>k. of_nat (n div 2 ^ (8 * k)) :: u8) (rev [0..<2])"
    have e: "tl (ws_size 0 n) = ?ext" using mid by (simp add: ws_size_def rev_upto(2) [symmetric])
    have "wf_payload info = 126" using assms(4) mid low_bits(2) [of 126] by (simp add: ws_size_def)
    moreover obtain ps' where f: "ws_fill 2 [] (map Some ps) = (Inr (take 2 (concat ps)), map Some ps')" "concat ps' = drop 2 (concat ps)"
      "[] \<notin> set ps'" using ws_fill_reads [OF assms(1), of "[]" 2] assms(2) e by auto
    moreover have "be_number (map (buffer_byte ?ext) [0..<2]) = n"
      using buffer_bytes [of ?ext] be_number_bytes [of n 2] mid by simp
    moreover have "take 2 (concat ps) = ?ext" "drop 2 (concat ps) = rest" using assms(2) e by simp_all
    ultimately show ?thesis by (auto simp: ws_length_def)
  next
    case long
    let ?ext = "map (\<lambda>k. of_nat (n div 2 ^ (8 * k)) :: u8) (rev [0..<8])"
    have e: "tl (ws_size 0 n) = ?ext" using long by (simp add: ws_size_def rev_upto(1) [symmetric])
    have "wf_payload info = 127" using assms(4) long low_bits(2) [of 127] by (simp add: ws_size_def)
    moreover obtain ps' where f: "ws_fill 8 [] (map Some ps) = (Inr (take 8 (concat ps)), map Some ps')" "concat ps' = drop 8 (concat ps)"
      "[] \<notin> set ps'" using ws_fill_reads [OF assms(1), of "[]" 8] assms(2) e by auto
    moreover have "n < 256 ^ 8" using assms(3) by simp
    then have "be_number (map (buffer_byte ?ext) [0..<8]) = n"
      using buffer_bytes [of ?ext] be_number_bytes [of n 8] by simp
    moreover have "take 8 (concat ps) = ?ext" "drop 8 (concat ps) = rest" using assms(2) e by simp_all
    moreover have "n div 2 ^ 24 < 128" using assms(3) by (simp add: less_mult_imp_div_less)
    then have "unat (buffer_byte ?ext 4) < 128" by (simp add: buffer_byte_def rev_nth unat_of_nat)
    ultimately show ?thesis by (auto simp: ws_length_def)
  qed
qed

lemma i_ws_read_frame:
  assumes "[] \<notin> set ps" "concat ps = ws_unmasked opcode content @ rest" "opcode < 16" "length content < 2 ^ 31"
  shows "\<exists>s ps'. i_ws_read (map Some ps) = (Inr (s, opcode), map Some ps') \<and> str_is s content \<and> concat ps' = rest \<and> [] \<notin> set ps'"
proof -
  let ?n = "length content"
  have ne: "ws_size 0 ?n = hd (ws_size 0 ?n) # tl (ws_size 0 ?n)" by (simp add: ws_size_def)
  then have c: "concat ps = of_nat (128 + opcode) # hd (ws_size 0 ?n) # tl (ws_size 0 ?n) @ content @ rest"
    using assms(2) unfolding ws_unmasked_def by (metis append_Cons append_assoc)
  then obtain ps1 where f: "ws_fill 2 [] (map Some ps) = (Inr [of_nat (128 + opcode), hd (ws_size 0 ?n)], map Some ps1)"
    "concat ps1 = tl (ws_size 0 ?n) @ content @ rest" "[] \<notin> set ps1"
    using ws_fill_reads [OF assms(1), of "[]" 2] by auto
  let ?info = "ws_header [of_nat (128 + opcode), hd (ws_size 0 ?n)]"
  have info: "wf_payload ?info = unat (hd (ws_size 0 ?n) AND 127)" "wf_opcode ?info = opcode"
    using opcode_bits [OF assms(3)] by (simp_all add: ws_header_def buffer_byte_def)
  obtain ps2 where l: "ws_length ?info (map Some ps1) = (Inr ?n, map Some ps2)" "concat ps2 = content @ rest" "[] \<notin> set ps2"
    using ws_length_reads [OF f(3,2) assms(4) info(1)] by blast
  obtain m where m: "str_init [] = Some m" "str_is m []" using str_empty by blast
  obtain m' ps3 where "ws_body ?n m (map Some ps2) = (Inr m', map Some ps3)" "str_is m' (take ?n ([] @ concat ps2))"
    "concat ps3 = drop (?n - length []) (concat ps2)" "[] \<notin> set ps3"
    using ws_body_reads [OF l(3) m(2), of ?n] l(2) by auto
  then show ?thesis using f(1) l m(1) info(2) by (auto simp: i_ws_read_def)
qed

lemma str_pushl_is: "str_is s xs \<Longrightarrow> l \<le> length ys \<Longrightarrow> \<exists>s'. str_pushl s ys l = Some s' \<and> str_is s' (xs @ take l ys)"
  using str_pushl_text [of s l ys] by (auto simp: str_is_def)

lemma str_pushl_all: "str_is s xs \<Longrightarrow> length ys = l \<Longrightarrow> \<exists>s'. str_pushl s ys l = Some s' \<and> str_is s' (xs @ ys)"
  using str_pushl_is [of s xs l ys] by simp

lemma ws_size_pushed:
  assumes "str_is s xs"
  shows "\<exists>s'. (if n \<le> 125 then str_pushl s [128 OR of_nat n] 1
    else if n \<le> 65535 then str_pushl s [254, of_nat (n div 2 ^ 8), of_nat n] 3
    else str_pushl s (255 # map (\<lambda>k. of_nat (n div 2 ^ (8 * k))) [7, 6, 5, 4, 3, 2, 1, 0]) 9) = Some s'
    \<and> str_is s' (xs @ ws_size 128 n)"
proof -
  have b: "(254 :: u8) = 128 OR 126" "(255 :: u8) = 128 OR 127" by simp_all
  consider (short) "n \<le> 125" | (mid) "\<not> n \<le> 125" "n \<le> 65535" | (long) "\<not> n \<le> 125" "\<not> n \<le> 65535" by linarith
  then show ?thesis
  proof cases
    case short
    show ?thesis unfolding ws_size_def if_P [OF short] by (rule str_pushl_all [OF assms]) simp
  next
    case mid
    show ?thesis unfolding ws_size_def if_not_P [OF mid(1)] if_P [OF mid(2)] b(1)
      by (rule str_pushl_all [OF assms]) (simp only: list.size)
  next
    case long
    show ?thesis unfolding ws_size_def if_not_P [OF long(1)] if_not_P [OF long(2)] b(2)
      by (rule str_pushl_all [OF assms]) (simp only: list.size length_map)
  qed
qed

lemma i_ws_write_frame: "\<exists>s. i_ws_write content = Some s \<and> str_is s (ws_masked 1 (\<lambda>_. 0) content)"
proof -
  let ?n = "length content"
  obtain d0 where d0: "str_init [] = Some d0" "str_is d0 []" using str_empty by blast
  obtain d1 where d1: "str_pushl d0 [129] 1 = Some d1" "str_is d1 [129]" using str_pushl_all [OF d0(2), of "[129]" 1] by auto
  obtain d2 where d2: "(if ?n \<le> 125 then str_pushl d1 [128 OR of_nat ?n] 1
    else if ?n \<le> 65535 then str_pushl d1 [254, of_nat (?n div 2 ^ 8), of_nat ?n] 3
    else str_pushl d1 (255 # map (\<lambda>k. of_nat (?n div 2 ^ (8 * k))) [7, 6, 5, 4, 3, 2, 1, 0]) 9) = Some d2"
    "str_is d2 ([129] @ ws_size 128 ?n)"
    using ws_size_pushed [OF d1(2), of ?n] by blast
  obtain d3 where d3: "str_pushl d2 [0, 0, 0, 0] 4 = Some d3" "str_is d3 (([129] @ ws_size 128 ?n) @ [0, 0, 0, 0])"
    using str_pushl_all [OF d2(2), of "[0, 0, 0, 0]" 4] by auto
  obtain d4 where d4: "str_pushl d3 content ?n = Some d4" "str_is d4 ((([129] @ ws_size 128 ?n) @ [0, 0, 0, 0]) @ content)"
    using str_pushl_all [OF d3(2), of content ?n] by auto
  have "i_ws_write content = Some d4"
    using d0(1) d1(1) d2(1) d3(1) d4(1) unfolding i_ws_write_def Let_def by (simp only: Option.bind.bind_lunit)
  moreover have "map (\<lambda>_. 0 :: u8) [0..<4] = [0, 0, 0, 0]" by code_simp
  then have "ws_masked 1 (\<lambda>_. 0) content = (([129] @ ws_size 128 ?n) @ [0, 0, 0, 0]) @ content"
    by (simp add: ws_masked_def map_nth)
  ultimately show ?thesis using d4(2) by simp
qed

section \<open>A conversation\<close>

text \<open>The client reads \<open>n\<close> times; each message is its content and its opcode.\<close>

fun ws_reads :: "nat \<Rightarrow> ws_conn \<Rightarrow> (u8 list \<times> nat) list option" where
  "ws_reads 0 conn = Some []"
| "ws_reads (Suc n) conn =
     (case i_ws_read conn of
        (Inl e, conn) \<Rightarrow> None
      | (Inr (message, opcode), conn) \<Rightarrow> map_option (\<lambda>ms. (str_text message, opcode) # ms) (ws_reads n conn))"

text \<open>C14: The frames a server sends are read as its messages, with their opcodes and in order, into
  whatever pieces the connection cuts them, as long as every content is shorter than 2 GiB; and a message
  is written as one masked text frame with the mask 0, its length in the shortest form.\<close>
theorem ws_frames:
  assumes "[] \<notin> set ps"
    and "concat ps = concat (map (\<lambda>(content, opcode). ws_unmasked opcode content) messages) @ rest"
    and "\<forall>(content, opcode)\<in>set messages. opcode < 16 \<and> length content < 2 ^ 31"
  shows "ws_reads (length messages) (map Some ps) = Some messages
    \<and> (\<exists>s. i_ws_write content = Some s \<and> str_is s (ws_masked 1 (\<lambda>_. 0) content))"
proof
  show "ws_reads (length messages) (map Some ps) = Some messages"
    using assms
  proof (induction messages arbitrary: ps)
    case (Cons m messages)
    obtain content opcode where m: "m = (content, opcode)" by (cases m)
    let ?rest = "concat (map (\<lambda>(content, opcode). ws_unmasked opcode content) messages) @ rest"
    have "concat ps = ws_unmasked opcode content @ ?rest" "opcode < 16" "length content < 2 ^ 31"
      using Cons.prems(2,3) m by auto
    then obtain s ps' where "i_ws_read (map Some ps) = (Inr (s, opcode), map Some ps')" "str_is s content" "concat ps' = ?rest"
      "[] \<notin> set ps'" using i_ws_read_frame [OF Cons.prems(1)] by blast
    then show ?case using Cons.IH [of ps'] Cons.prems(3) m by (simp add: str_is_def)
  qed simp
qed (rule i_ws_write_frame)

lemma ws_frames_witness:
  "ws_reads 2 [Some [129], Some [2, 72, 105, 137], Some [1, 33]] = Some [([72, 105], 1), ([33], 9)]"
proof -
  have "ws_reads (length [([72, 105 :: u8], 1 :: nat), ([33], 9)]) (map Some [[129], [2, 72, 105, 137], [1, 33]])
      = Some [([72, 105], 1), ([33], 9)]
    \<and> (\<exists>s. i_ws_write [] = Some s \<and> str_is s (ws_masked 1 (\<lambda>_. 0) []))"
    by (rule ws_frames [of _ _ "[]"]) (simp_all add: ws_unmasked_def ws_size_def)
  then show ?thesis by (simp add: numeral_2_eq_2)
qed

end
