(* ===== verification/HttpClient.thy ===== *)
theory HttpClient
  imports WebSocket HttpResponse
begin

text \<open>
  The HTTP client of \<open>src/src/net.c\<close>: parse_url, the text of a request, the loop of _request that reads up
  to the end of the header, the table made of the header, and the stream of the content
  (_srequest_read), which goes through chunked_encoding_round when the server sends chunks.
\<close>

section \<open>Chunked content\<close>

record chunked_encoding_state =
  reading_length :: bool
  chunk_length :: int
  ch_buffer :: str
  ch_content :: str

text \<open>The loaded byte of a buffer, the test for a line end in the last two bytes, and strtoll with base 16
  on a C string; the length is stored in an int.\<close>

definition s_byte :: "str \<Rightarrow> nat \<Rightarrow> u8 option" where
  "s_byte s i = Option.bind (c_load (s_c s) i) (\<lambda>b. b)"

definition ends_crlf :: "str \<Rightarrow> bool option" where
  "ends_crlf s =
     (if s_len s \<ge> 2 then do {
        a \<leftarrow> s_byte s (s_len s - 2);
        b \<leftarrow> s_byte s (s_len s - 1);
        Some (a = 13 \<and> b = 10)
      } else Some False)"

definition strtoll16 :: "u8 list \<Rightarrow> int" where
  "strtoll16 xs = max (- (2 ^ 63)) (min (2 ^ 63 - 1) (strtol16 xs))"

definition read_chunk_length :: "str \<Rightarrow> int option" where
  "read_chunk_length s = map_option (\<lambda>xs. signed_take_bit 31 (strtoll16 xs)) (mem_cstr (s_c s))"

text \<open>str_pushl of a whole other buffer.\<close>

definition push_str :: "str \<Rightarrow> str \<Rightarrow> str option" where
  "push_str dst src =
     (if s_len src \<le> length (s_c src) \<and> None \<notin> set (take (s_len src) (s_c src))
      then str_pushl dst (str_text src) (s_len src) else None)"

text \<open>One piece of input.  The sizes are size_t, so a negative chunk length is a huge one; after the bytes of
  a chunk the loop leaves out the next byte of the piece.\<close>

function chunked_encoding_round :: "u8 list \<Rightarrow> chunked_encoding_state \<Rightarrow> chunked_encoding_state option" where
  "chunked_encoding_round [] st = Some st"
| "chunked_encoding_round (x # xs) st =
     (if reading_length st then do {
        buffer \<leftarrow> push_byte (ch_buffer st) x;
        crlf \<leftarrow> ends_crlf buffer;
        if crlf then do {
          buffer \<leftarrow> str_popb buffer 2;
          n \<leftarrow> read_chunk_length buffer;
          buffer \<leftarrow> str_clear buffer;
          chunked_encoding_round xs (st\<lparr>chunk_length := n, ch_buffer := buffer, reading_length := (n = 0)\<rparr>)
        } else chunked_encoding_round xs (st\<lparr>ch_buffer := buffer\<rparr>)
      } else do {
        let size = nat (chunk_length st mod 2 ^ 64);
        let len = min (size_sub size (int (s_len (ch_buffer st)))) (length (x # xs));
        buffer \<leftarrow> str_pushl (ch_buffer st) (x # xs) len;
        if s_len buffer \<ge> size then do {
          content \<leftarrow> push_str (ch_content st) buffer;
          buffer \<leftarrow> str_clear buffer;
          chunked_encoding_round (drop (len + 1) (x # xs)) (st\<lparr>reading_length := True, ch_content := content, ch_buffer := buffer\<rparr>)
        } else chunked_encoding_round (drop (len + 1) (x # xs)) (st\<lparr>ch_buffer := buffer\<rparr>)
      })"
  by pat_completeness auto
termination by (relation "measure (\<lambda>(xs, st). length xs)") auto

declare chunked_encoding_round.simps(2) [simp del]

subsection \<open>The pieces of the stream\<close>

text \<open>Chunks as a server writes them: a line whose leading hexadecimal number is the length of the data
  behind it, which may be followed by an extension, and at the end a line with the number 0.\<close>

fun chunk_text :: "u8 list \<Rightarrow> (u8 list \<times> u8 list) list \<Rightarrow> u8 list" where
  "chunk_text ending [] = ending @ [13, 10, 13, 10]"
| "chunk_text ending ((line, data) # cs) = line @ [13, 10] @ data @ [13, 10] @ chunk_text ending cs"

definition line_clean :: "u8 list \<Rightarrow> bool" where
  "line_clean L \<longleftrightarrow> 13 \<notin> set L \<and> length L + 2 < 2 ^ 63"

definition chunk_ok :: "u8 list \<times> u8 list \<Rightarrow> bool" where
  "chunk_ok c \<longleftrightarrow> line_clean (10 # fst c) \<and> strtol16 (c_str (fst c)) = int (length (snd c))
     \<and> snd c \<noteq> [] \<and> length (snd c) < 2 ^ 31"

definition ending_ok :: "u8 list \<Rightarrow> bool" where
  "ending_ok ending \<longleftrightarrow> line_clean (10 # ending) \<and> strtol16 (c_str ending) = 0"

text \<open>What can follow a line L, and what the state with an empty buffer waits for.\<close>

definition after_line :: "u8 list \<Rightarrow> u8 list \<Rightarrow> u8 list \<Rightarrow> (u8 list \<times> u8 list) list \<Rightarrow> bool" where
  "after_line ending L R cs \<longleftrightarrow>
     strtol16 (c_str L) = 0 \<and> (R = chunk_text ending cs \<or> cs = [] \<and> (R = [] \<or> R = [13, 10]))
   \<or> (\<exists>line data cs'. cs = (line, data) # cs' \<and> strtol16 (c_str L) = int (length data)
        \<and> R = data @ [13, 10] @ chunk_text ending cs')"

definition awaits :: "u8 list \<Rightarrow> u8 list \<Rightarrow> (u8 list \<times> u8 list) list \<Rightarrow> bool" where
  "awaits ending rem cs \<longleftrightarrow> rem = [] \<and> cs = []
   \<or> (\<exists>L R. line_clean L \<and> rem = L @ [13, 10] @ R \<and> after_line ending L R cs)"

definition chunk_inv :: "u8 list \<Rightarrow> chunked_encoding_state \<Rightarrow> u8 list \<Rightarrow> (u8 list \<times> u8 list) list \<Rightarrow> u8 list \<Rightarrow> bool" where
  "chunk_inv ending st rem cs acc \<longleftrightarrow> (\<exists>b. str_is (ch_buffer st) b \<and> str_is (ch_content st) acc \<and>
     (if reading_length st
      then b = [] \<and> rem = [] \<and> cs = []
        \<or> (\<exists>L R tl. line_clean L \<and> tl \<noteq> [] \<and> b @ tl = L @ [13, 10] \<and> rem = tl @ R \<and> after_line ending L R cs)
      else (\<exists>line data cs'. cs = (line, data) # cs' \<and> chunk_length st = int (length data) \<and> length b < length data
        \<and> b = take (length b) data \<and> rem = drop (length b) data @ [13, 10] @ chunk_text ending cs')))"

lemma line_clean_lf: "line_clean (10 # L) \<Longrightarrow> line_clean L" "line_clean []"
  by (simp_all add: line_clean_def)

lemma strtol16_blank: "strtol16 (c_str (10 # L)) = strtol16 (c_str L)"
  by (simp add: strtol16_def c_str_def)

lemma awaits_text: "ending_ok ending \<Longrightarrow> \<forall>c\<in>set cs. chunk_ok c \<Longrightarrow> awaits ending (chunk_text ending cs) cs"
proof (cases cs)
  case Nil
  assume "ending_ok ending"
  then show ?thesis using Nil unfolding awaits_def after_line_def ending_ok_def
    by (intro disjI2 exI [of _ ending] exI [of _ "[13, 10]"]) (simp add: line_clean_lf)
next
  case (Cons c cs')
  obtain line data where c: "c = (line, data)" by (cases c)
  assume "\<forall>c\<in>set cs. chunk_ok c"
  then show ?thesis using Cons c unfolding awaits_def after_line_def chunk_ok_def
    by (intro disjI2 exI [of _ line] exI [of _ "data @ [13, 10] @ chunk_text ending cs'"]) (simp add: line_clean_lf)
qed

lemma awaits_crlf: "awaits ending ([13, 10] @ chunk_text ending cs) cs"
  unfolding awaits_def after_line_def
  by (intro disjI2 exI [of _ "[]"] exI [of _ "chunk_text ending cs"]) (simp add: strtol16_def c_str_def line_clean_lf)

lemma awaits_lf:
  assumes "ending_ok ending" "\<forall>c\<in>set cs. chunk_ok c"
  shows "awaits ending (10 # chunk_text ending cs) cs"
proof (cases cs)
  case Nil
  then show ?thesis using assms(1) unfolding awaits_def after_line_def ending_ok_def
    by (intro disjI2 exI [of _ "10 # ending"] exI [of _ "[13, 10]"]) (simp add: strtol16_blank)
next
  case (Cons c cs')
  obtain line data where c: "c = (line, data)" by (cases c)
  then show ?thesis using assms(2) Cons unfolding awaits_def after_line_def chunk_ok_def
    by (intro disjI2 exI [of _ "10 # line"] exI [of _ "data @ [13, 10] @ chunk_text ending cs'"]) (simp add: strtol16_blank)
qed

lemma awaits_after:
  assumes "after_line ending L R cs" "strtol16 (c_str L) = 0" "ending_ok ending" "\<forall>c\<in>set cs. chunk_ok c"
  shows "awaits ending R cs"
proof -
  consider "R = chunk_text ending cs" | "cs = []" "R = []" | "cs = []" "R = [13, 10]"
    using assms(1,2,4) unfolding after_line_def chunk_ok_def by fastforce
  then show ?thesis
  proof cases
    case 1
    then show ?thesis using awaits_text [OF assms(3,4)] by simp
  next
    case 2
    then show ?thesis by (simp add: awaits_def)
  next
    case 3
    then show ?thesis unfolding awaits_def after_line_def
      by (intro disjI2 exI [of _ "[]"] exI [of _ "[]"]) (simp add: strtol16_def c_str_def line_clean_lf)
  qed
qed

lemma chunk_inv_awaits:
  assumes "awaits ending rem cs" "reading_length st" "str_is (ch_buffer st) []" "str_is (ch_content st) acc"
  shows "chunk_inv ending st rem cs acc"
proof -
  consider "rem = []" "cs = []" | L R where "line_clean L" "rem = L @ [13, 10] @ R" "after_line ending L R cs"
    using assms(1) unfolding awaits_def by blast
  then show ?thesis
  proof cases
    case 2
    then have "\<exists>L R tl. line_clean L \<and> tl \<noteq> [] \<and> [] @ tl = L @ [13, 10] \<and> rem = tl @ R \<and> after_line ending L R cs"
      by (intro exI [of _ L] exI [of _ R] exI [of _ "L @ [13, 10]"]) simp
    then show ?thesis using assms(2-4) unfolding chunk_inv_def by (intro exI [of _ "[]"]) simp
  qed (use assms(2-4) in \<open>auto simp: chunk_inv_def\<close>)
qed

text \<open>The two bytes at the end of the buffer, and the parts of a step, under str_is.\<close>

lemma s_byte_is: "str_is s xs \<Longrightarrow> i < length xs \<Longrightarrow> s_byte s i = Some (xs ! i)"
proof -
  assume "str_is s xs" "i < length xs"
  then obtain rest where "s_c s = map Some xs @ Some 0 # rest" unfolding str_is_def str_wf_shape by blast
  then show ?thesis using \<open>i < length xs\<close> by (simp add: s_byte_def c_load_def nth_append)
qed

lemma ends_crlf_is: "str_is s xs \<Longrightarrow> ends_crlf s = Some (\<exists>ys. xs = ys @ [13, 10])"
proof (cases "length xs \<ge> 2")
  case True
  assume s: "str_is s xs"
  define ys where "ys = take (length xs - 2) xs"
  have "xs = ys @ drop (length xs - 2) xs" by (simp add: ys_def)
  moreover have "\<exists>a b. zs = [a, b]" if "length zs = 2" for zs :: "u8 list"
    using that by (auto simp: numeral_2_eq_2 length_Suc_conv)
  then obtain a b where "drop (length xs - 2) xs = [a, b]" using True by (metis diff_diff_cancel length_drop)
  ultimately have xs: "xs = ys @ [a, b]" by simp
  then show ?thesis using s_byte_is [OF s] str_is_len [OF s] by (auto simp: ends_crlf_def nth_append)
next
  case False
  assume "str_is s xs"
  then show ?thesis using False str_is_len [of s xs] by (auto simp: ends_crlf_def)
qed

lemma str_popb_is: "str_is s (xs @ ys) \<Longrightarrow> length (xs @ ys) < 2 ^ 63 \<Longrightarrow> \<exists>s'. str_popb s (int (length ys)) = Some s' \<and> str_is s' xs"
  using str_popb_short [of s "length ys"] by (auto simp: str_is_def)

lemma push_str_is: "str_is dst xs \<Longrightarrow> str_is src ys \<Longrightarrow> \<exists>s'. push_str dst src = Some s' \<and> str_is s' (xs @ ys)"
proof -
  assume a: "str_is dst xs" "str_is src ys"
  then obtain rest where "s_c src = map Some ys @ Some 0 # rest" "s_len src = length ys" unfolding str_is_def str_wf_shape by auto
  then have "push_str dst src = str_pushl dst ys (length ys)" using a(2) by (auto simp: push_str_def str_is_def)
  then show ?thesis using str_pushl_all [OF a(1), of ys] by simp
qed

lemma chunk_length_read:
  assumes "str_is s L" "strtol16 (c_str L) = int n" "n < 2 ^ 31"
  shows "read_chunk_length s = Some (int n)"
proof -
  have "strtoll16 (c_str L) = int n" using assms(2,3) by (simp add: strtoll16_def)
  moreover have "signed_take_bit 31 (int n) = int n" using assms(3) by (simp add: signed_take_bit_int_eq_self)
  ultimately show ?thesis using mem_cstr_str [OF assms(1)] by (simp add: read_chunk_length_def)
qed

text \<open>One byte of a length line.\<close>

lemma line_step:
  assumes "reading_length st" "chunk_inv ending st (x # rem) cs acc" "ending_ok ending" "\<forall>c\<in>set cs. chunk_ok c"
  shows "\<exists>st'. (\<forall>xs. chunked_encoding_round (x # xs) st = chunked_encoding_round xs st') \<and> chunk_inv ending st' rem cs acc"
proof -
  obtain b L R tl where s: "str_is (ch_buffer st) b" "str_is (ch_content st) acc"
    and L: "line_clean L" "tl \<noteq> []" "b @ tl = L @ [13, 10]" "x # rem = tl @ R" "after_line ending L R cs"
    using assms(1,2) unfolding chunk_inv_def by auto
  obtain t where t: "tl = x # t" "rem = t @ R" using L(2,4) by (cases tl) auto
  obtain p where p: "push_byte (ch_buffer st) x = Some p" "str_is p (b @ [x])" using push_byte_is [OF s(1)] by blast
  have bx: "(b @ [x]) @ t = L @ [13, 10]" using L(3) t(1) by simp
  show ?thesis
  proof (cases t)
    case Nil
    then have b: "b @ [x] = L @ [13, 10]" using bx by simp
    obtain q where q: "str_popb p 2 = Some q" "str_is q L"
      using str_popb_is [of p L "[13, 10]"] p(2) L(1) unfolding b by (auto simp: line_clean_def)
    obtain r where r: "str_clear q = Some r" "str_is r []" using str_clear_is [OF q(2)] by blast
    have "strtol16 (c_str L) = 0 \<or> (\<exists>line data cs'. cs = (line, data) # cs' \<and> strtol16 (c_str L) = int (length data)
        \<and> R = data @ [13, 10] @ chunk_text ending cs')" using L(5) unfolding after_line_def by blast
    then show ?thesis
    proof
      assume z: "strtol16 (c_str L) = 0"
      let ?st = "st\<lparr>chunk_length := 0, ch_buffer := r, reading_length := True\<rparr>"
      have "read_chunk_length q = Some 0" using chunk_length_read [OF q(2), of 0] z by simp
      then have "\<forall>xs. chunked_encoding_round (x # xs) st = chunked_encoding_round xs ?st"
        using assms(1) p q(1) r(1) ends_crlf_is [OF p(2)] b by (simp add: chunked_encoding_round.simps(2))
      moreover have "chunk_inv ending ?st rem cs acc"
        using chunk_inv_awaits [OF awaits_after [OF L(5) z assms(3,4)]] r(2) s(2) t(2) Nil by simp
      ultimately show ?thesis by blast
    next
      assume "\<exists>line data cs'. cs = (line, data) # cs' \<and> strtol16 (c_str L) = int (length data)
        \<and> R = data @ [13, 10] @ chunk_text ending cs'"
      then obtain line data cs' where c: "cs = (line, data) # cs'" "strtol16 (c_str L) = int (length data)"
        "R = data @ [13, 10] @ chunk_text ending cs'" by blast
      let ?st = "st\<lparr>chunk_length := int (length data), ch_buffer := r, reading_length := False\<rparr>"
      have d: "data \<noteq> []" "length data < 2 ^ 31" using assms(4) c(1) by (simp_all add: chunk_ok_def)
      then have "\<forall>xs. chunked_encoding_round (x # xs) st = chunked_encoding_round xs ?st"
        using assms(1) p q(1) r(1) ends_crlf_is [OF p(2)] b chunk_length_read [OF q(2) c(2) d(2)]
        by (simp add: chunked_encoding_round.simps(2))
      moreover have "chunk_inv ending ?st rem cs acc"
        unfolding chunk_inv_def using r(2) s(2) c(1,3) d(1) t(2) Nil by (intro exI [of _ "[]"]) simp
      ultimately show ?thesis by blast
    qed
  next
    case (Cons y t')
    let ?st = "st\<lparr>ch_buffer := p\<rparr>"
    have no: "\<nexists>ys. b @ [x] = ys @ [13, 10]"
    proof
      assume "\<exists>ys. b @ [x] = ys @ [13, 10]"
      then obtain ys where "ys @ 13 # 10 # t = L @ [13, 10]" using bx by auto
      moreover have "t = butlast t @ [List.last t]" using Cons by simp
      ultimately have "(ys @ 13 # 10 # butlast t) @ [List.last t] = (L @ [13]) @ [10]" by (metis append.assoc append_Cons append_Nil)
      then have "ys @ 13 # 10 # butlast t = L @ [13]" by simp
      moreover have "13 # 10 # butlast t = butlast (13 # 10 # butlast t) @ [List.last (13 # 10 # butlast t)]" by simp
      ultimately have "(ys @ butlast (13 # 10 # butlast t)) @ [List.last (13 # 10 # butlast t)] = L @ [13]" by simp
      then have "ys @ butlast (13 # 10 # butlast t) = L" by blast
      then have "13 \<in> set L" by auto
      then show False using L(1) by (simp add: line_clean_def)
    qed
    then have "ends_crlf p = Some False" using ends_crlf_is [OF p(2)] by simp
    then have "\<forall>xs. chunked_encoding_round (x # xs) st = chunked_encoding_round xs ?st"
      using assms(1) p(1) by (simp add: chunked_encoding_round.simps(2))
    moreover have "\<exists>L R tl. line_clean L \<and> tl \<noteq> [] \<and> (b @ [x]) @ tl = L @ [13, 10] \<and> rem = tl @ R \<and> after_line ending L R cs"
      using L(1,5) bx t(2) Cons by blast
    then have "chunk_inv ending ?st rem cs acc"
      unfolding chunk_inv_def using assms(1) p(2) s(2) by (intro exI [of _ "b @ [x]"]) simp
    ultimately show ?thesis by blast
  qed
qed

text \<open>What is left of a piece inside the data of a chunk: it ends there, or the chunk does.\<close>

lemma data_step:
  assumes "\<not> reading_length st" "chunk_inv ending st ((x # xs) @ rem) cs acc" "ending_ok ending" "\<forall>c\<in>set cs. chunk_ok c"
  shows "\<exists>st' xs' cs' acc'. chunked_encoding_round (x # xs) st = chunked_encoding_round xs' st' \<and> length xs' < length (x # xs)
    \<and> chunk_inv ending st' (xs' @ rem) cs' acc' \<and> (\<forall>c\<in>set cs'. chunk_ok c)
    \<and> acc' @ concat (map snd cs') = acc @ concat (map snd cs)"
proof -
  obtain b line data cs' where s: "str_is (ch_buffer st) b" "str_is (ch_content st) acc"
    and d: "cs = (line, data) # cs'" "chunk_length st = int (length data)" "length b < length data" "b = take (length b) data"
      "(x # xs) @ rem = drop (length b) data @ [13, 10] @ chunk_text ending cs'"
    using assms(1,2) unfolding chunk_inv_def by auto
  have ok: "length data < 2 ^ 31" "\<forall>c\<in>set cs'. chunk_ok c" using assms(4) d(1) by (simp_all add: chunk_ok_def)
  have size: "nat (chunk_length st mod 2 ^ 64) = length data" "s_len (ch_buffer st) = length b"
    using d(2) ok(1) str_is_len [OF s(1)] by simp_all
  define len where "len = min (length data - length b) (length (x # xs))"
  have len': "min (length data - length b) (Suc (length xs)) = len" by (simp add: len_def)
  have sub: "size_sub (length data) (int (length b)) = length data - length b" using d(3) ok(1) by (simp add: size_sub_le)
  have "len \<le> length (x # xs)" by (simp add: len_def)
  then obtain p where p: "str_pushl (ch_buffer st) (x # xs) len = Some p" "str_is p (b @ take len (x # xs))"
    using str_pushl_is [OF s(1)] by blast
  have "take len ((x # xs) @ rem) = take len (drop (length b) data @ [13, 10] @ chunk_text ending cs')" by (simp only: d(5))
  moreover have "take len (us @ vs) = take len us" if "len \<le> length us" for us vs :: "u8 list" using that by simp
  moreover have "len \<le> length (drop (length b) data)" by (simp add: len_def)
  ultimately have tk: "take len (x # xs) = take len (drop (length b) data)" using \<open>len \<le> length (x # xs)\<close> by metis
  have bt: "b @ take len (x # xs) = take (length b + len) data" unfolding tk using d(4) by (metis take_add)
  have lp: "s_len p = length b + len" using str_is_len [OF p(2)] by (simp add: len_def)
  show ?thesis
  proof (cases "length b + len \<ge> length data")
    case True
    then have len: "len = length data - length b" "len \<le> length (x # xs)" by (simp_all add: len_def)
    then have "b @ take len (x # xs) = data" using bt d(3) by simp
    then have "str_is p data" using p(2) by simp
    then obtain c where c: "push_str (ch_content st) p = Some c" "str_is c (acc @ data)" using push_str_is [OF s(2)] by blast
    obtain r where r: "str_clear p = Some r" "str_is r []" using str_clear_is [OF p(2)] by blast
    let ?st = "st\<lparr>reading_length := True, ch_content := c, ch_buffer := r\<rparr>"
    have step: "chunked_encoding_round (x # xs) st = chunked_encoding_round (drop (len + 1) (x # xs)) ?st"
      using assms(1) p(1) c(1) r(1) lp True size sub
      by (simp add: chunked_encoding_round.simps(2) Let_def len' del: drop_Suc_Cons)
    have "drop len ((x # xs) @ rem) = drop len (drop (length b) data @ [13, 10] @ chunk_text ending cs')" by (simp only: d(5))
    moreover have "drop len (us @ vs) = drop len us @ vs" if "len \<le> length us" for us vs :: "u8 list" using that by simp
    moreover have "drop len (us @ vs) = vs" if "len = length us" for us vs :: "u8 list" using that by simp
    moreover have "len = length (drop (length b) data)" using len(1) by simp
    ultimately have rest: "drop len (x # xs) @ rem = [13, 10] @ chunk_text ending cs'" using len(2) by metis
    have "awaits ending (drop (len + 1) (x # xs) @ rem) cs'"
    proof (cases "drop len (x # xs)")
      case Nil
      then show ?thesis using rest awaits_crlf [of ending cs'] by simp
    next
      case (Cons y ys)
      then have "drop (len + 1) (x # xs) = ys" by (metis drop_drop add.commute drop0 drop_Suc_Cons One_nat_def)
      then show ?thesis using Cons rest awaits_lf [OF assms(3) ok(2)] by simp
    qed
    then have "chunk_inv ending ?st (drop (len + 1) (x # xs) @ rem) cs' (acc @ data)"
      using chunk_inv_awaits c(2) r(2) by simp
    then show ?thesis using step ok(2) d(1)
      by (intro exI [of _ ?st] exI [of _ "drop (len + 1) (x # xs)"] exI [of _ cs'] exI [of _ "acc @ data"]) simp
  next
    case False
    then have len: "len = length (x # xs)" by (simp add: len_def)
    let ?st = "st\<lparr>ch_buffer := p\<rparr>"
    have step: "chunked_encoding_round (x # xs) st = chunked_encoding_round [] ?st"
      using assms(1) p(1) lp False size sub len by (simp add: chunked_encoding_round.simps(2) Let_def len')
    have "drop len ((x # xs) @ rem) = drop len (drop (length b) data @ [13, 10] @ chunk_text ending cs')" by (simp only: d(5))
    moreover have "drop len (drop (length b) data) = drop (length b + len) data" by (simp add: add.commute)
    moreover have "len \<le> length (drop (length b) data)" using False by simp
    ultimately have "rem = drop (length b + len) data @ [13, 10] @ chunk_text ending cs'" by (simp add: len)
    then have "chunk_inv ending ?st rem cs acc"
      unfolding chunk_inv_def using assms(1) s(2) p(2) d(1,2) bt False len
      by (intro exI [of _ "take (length b + len) data"]) simp
    then show ?thesis using step assms(4)
      by (intro exI [of _ ?st] exI [of _ "[]"] exI [of _ cs] exI [of _ acc]) simp
  qed
qed

lemma round_keeps:
  assumes "chunk_inv ending st (xs @ rem) cs acc" "ending_ok ending" "\<forall>c\<in>set cs. chunk_ok c"
  shows "\<exists>st' cs' acc'. chunked_encoding_round xs st = Some st' \<and> chunk_inv ending st' rem cs' acc'
    \<and> (\<forall>c\<in>set cs'. chunk_ok c) \<and> acc' @ concat (map snd cs') = acc @ concat (map snd cs)"
  using assms
proof (induction "length xs" arbitrary: xs st cs acc rule: less_induct)
  case less
  show ?case
  proof (cases xs)
    case Nil
    then show ?thesis using less.prems by auto
  next
    case (Cons x ys)
    show ?thesis
    proof (cases "reading_length st")
      case True
      have "chunk_inv ending st (x # (ys @ rem)) cs acc" using less.prems(1) Cons by simp
      then obtain st' where "\<forall>xs. chunked_encoding_round (x # xs) st = chunked_encoding_round xs st'"
        "chunk_inv ending st' (ys @ rem) cs acc" using line_step [OF True _ less.prems(2,3)] by blast
      then show ?thesis using less.hyps [of ys st' cs acc] less.prems(2,3) Cons by simp
    next
      case False
      then obtain st' xs' cs' acc' where "chunked_encoding_round xs st = chunked_encoding_round xs' st'" "length xs' < length xs"
        "chunk_inv ending st' (xs' @ rem) cs' acc'" "\<forall>c\<in>set cs'. chunk_ok c" "acc' @ concat (map snd cs') = acc @ concat (map snd cs)"
        using data_step [OF False _ less.prems(2,3)] less.prems(1) Cons by blast
      then show ?thesis using less.hyps [of xs' st' cs' acc'] less.prems(2) by auto
    qed
  qed
qed

lemma chunk_inv_end: "chunk_inv ending st [] cs acc \<Longrightarrow> cs = [] \<and> str_is (ch_content st) acc"
  by (auto simp: chunk_inv_def split: if_splits)

section \<open>The stream of the content\<close>

text \<open>A state of a request keeps the connection, the bytes that came with the header, and the state of the
  chunks when there are chunks.  \<open>_request_read\<close> is SSL_read or read.\<close>

record request_state =
  rq_conn :: ws_conn
  rq_buffer :: "str option"
  rq_state :: "chunked_encoding_state option"

definition request_read :: "request_state \<Rightarrow> u8 list option \<times> request_state" where
  "request_read state = (case ssl_read BUFFER_LEN (rq_conn state) of (r, conn) \<Rightarrow> (r, state\<lparr>rq_conn := conn\<rparr>))"

text \<open>The loop of _srequest_read.  Its length is unsigned, so a failure is a huge length: as the length of
  chunked_encoding_round, an int, it is negative and nothing is read, in str_pushl it is undefined.\<close>

lemma ssl_read_less:
  "ssl_read n conn = (r, conn') \<Longrightarrow> r \<noteq> Some [] \<Longrightarrow>
   sum_list (map (case_option 1 Suc) (map (map_option length) conn')) < sum_list (map (case_option 1 Suc) (map (map_option length) conn))"
  by (auto simp: ssl_read_def split: list.splits option.splits if_splits)

function srequest_loop :: "request_state \<Rightarrow> str \<Rightarrow> (request_state \<times> str) option" where
  "srequest_loop state out =
     (case request_read state of
        (r, state') \<Rightarrow>
          if r = Some [] then Some (state', out)
          else (case rq_state state of
            Some chunks \<Rightarrow> Option.bind (chunked_encoding_round (case r of Some bs \<Rightarrow> bs | None \<Rightarrow> []) chunks)
              (\<lambda>chunks. srequest_loop (state'\<lparr>rq_state := Some chunks\<rparr>) out)
          | None \<Rightarrow> (case r of None \<Rightarrow> None
              | Some bs \<Rightarrow> Option.bind (str_pushl out bs (length bs)) (\<lambda>out. srequest_loop state' out))))"
  by pat_completeness auto
termination
  by (relation "measure (\<lambda>(state, out). sum_list (map (case_option 1 Suc) (map (map_option length) (rq_conn state))))")
    (auto simp: request_read_def split: prod.splits dest!: ssl_read_less)

declare srequest_loop.simps [simp del]

definition srequest_read :: "request_state \<Rightarrow> str \<Rightarrow> (request_state \<times> str) option" where
  "srequest_read state out = do {
     (state, out) \<leftarrow> (case rq_buffer state of None \<Rightarrow> Some (state, out)
       | Some b \<Rightarrow> map_option (\<lambda>out. (state\<lparr>rq_buffer := None\<rparr>, out)) (push_str out b));
     (state, out) \<leftarrow> srequest_loop state out;
     (case rq_state state of None \<Rightarrow> Some (state, out)
       | Some chunks \<Rightarrow> do {
           out \<leftarrow> push_str out (ch_content chunks);
           content \<leftarrow> str_clear (ch_content chunks);
           Some (state\<lparr>rq_state := Some (chunks\<lparr>ch_content := content\<rparr>)\<rparr>, out)
         })
   }"

lemma request_read_pieces:
  assumes "rq_conn state = map Some ps" "[] \<notin> set ps" "ps \<noteq> []"
  shows "\<exists>bs ps'. request_read state = (Some bs, state\<lparr>rq_conn := map Some ps'\<rparr>) \<and> concat ps = bs @ concat ps'
    \<and> bs \<noteq> [] \<and> [] \<notin> set ps'"
proof -
  have "0 < BUFFER_LEN" by (simp add: BUFFER_LEN_def)
  then obtain bs ps' where "ssl_read BUFFER_LEN (map Some ps) = (Some bs, map Some ps')" "concat ps = bs @ concat ps'"
    "bs \<noteq> []" "[] \<notin> set ps'" using ssl_read_pieces [OF assms(2,3)] by blast
  then show ?thesis using assms(1) by (auto simp: request_read_def)
qed

lemma request_read_end: "rq_conn state = [] \<Longrightarrow> request_read state = (Some [], state)"
  by (simp add: request_read_def ssl_read_def)

lemma srequest_loop_plain:
  assumes "rq_conn state = map Some ps" "[] \<notin> set ps" "rq_state state = None" "str_is out xs"
  shows "\<exists>out'. srequest_loop state out = Some (state\<lparr>rq_conn := []\<rparr>, out') \<and> str_is out' (xs @ concat ps)"
  using assms
proof (induction "length (concat ps)" arbitrary: state ps out xs rule: less_induct)
  case less
  show ?case
  proof (cases "ps = []")
    case True
    then show ?thesis using less.prems request_read_end [of state] by (subst srequest_loop.simps) simp
  next
    case False
    obtain bs ps' where r: "request_read state = (Some bs, state\<lparr>rq_conn := map Some ps'\<rparr>)" "concat ps = bs @ concat ps'"
      "bs \<noteq> []" "[] \<notin> set ps'" using request_read_pieces [OF less.prems(1,2) False] by blast
    obtain p where p: "str_pushl out bs (length bs) = Some p" "str_is p (xs @ bs)" using str_pushl_all [OF less.prems(4)] by blast
    have "length (concat ps') < length (concat ps)" using r(2,3) by simp
    then obtain out' where "srequest_loop (state\<lparr>rq_conn := map Some ps'\<rparr>) p = Some (state\<lparr>rq_conn := []\<rparr>, out')"
      "str_is out' ((xs @ bs) @ concat ps')"
      using less.hyps [of ps' "state\<lparr>rq_conn := map Some ps'\<rparr>" p "xs @ bs"] r(4) p(2) less.prems(3) by auto
    then show ?thesis using r(1-3) p(1) less.prems(3) by (subst srequest_loop.simps) simp
  qed
qed

lemma srequest_loop_chunks:
  assumes "rq_conn state = map Some ps" "[] \<notin> set ps" "rq_state state = Some chunks" "ending_ok ending"
    and "chunk_inv ending chunks (concat ps) cs acc" "\<forall>c\<in>set cs. chunk_ok c"
  shows "\<exists>chunks'. srequest_loop state out = Some (state\<lparr>rq_conn := [], rq_state := Some chunks'\<rparr>, out)
    \<and> str_is (ch_content chunks') (acc @ concat (map snd cs))"
  using assms
proof (induction "length (concat ps)" arbitrary: state ps chunks cs acc rule: less_induct)
  case less
  show ?case
  proof (cases "ps = []")
    case True
    then have c: "cs = []" "str_is (ch_content chunks) acc" using chunk_inv_end [of ending chunks cs acc] less.prems(5) by simp_all
    have "state = state\<lparr>rq_conn := [], rq_state := Some chunks\<rparr>" using True less.prems(1,3) by (cases state) simp
    then show ?thesis using c True less.prems(1) request_read_end [of state]
      by (subst srequest_loop.simps) (auto intro: exI [of _ chunks])
  next
    case False
    obtain bs ps' where r: "request_read state = (Some bs, state\<lparr>rq_conn := map Some ps'\<rparr>)" "concat ps = bs @ concat ps'"
      "bs \<noteq> []" "[] \<notin> set ps'" using request_read_pieces [OF less.prems(1,2) False] by blast
    obtain ch cs' acc' where c: "chunked_encoding_round bs chunks = Some ch" "chunk_inv ending ch (concat ps') cs' acc'"
      "\<forall>c\<in>set cs'. chunk_ok c" "acc' @ concat (map snd cs') = acc @ concat (map snd cs)"
      using round_keeps [OF less.prems(5) [unfolded r(2)] less.prems(4,6)] by blast
    have "length (concat ps') < length (concat ps)" using r(2,3) by simp
    then obtain chunks' where "srequest_loop (state\<lparr>rq_conn := map Some ps', rq_state := Some ch\<rparr>) out
        = Some (state\<lparr>rq_conn := [], rq_state := Some chunks'\<rparr>, out)"
      "str_is (ch_content chunks') (acc' @ concat (map snd cs'))"
      using less.hyps [of ps' "state\<lparr>rq_conn := map Some ps', rq_state := Some ch\<rparr>" ch cs' acc'] r(4) c(2,3) less.prems(4) by auto
    then show ?thesis using r(1,3) c(1,4) less.prems(3)
      by (subst srequest_loop.simps) (auto intro: exI [of _ chunks'])
  qed
qed

lemma srequest_read_plain:
  assumes "rq_conn state = map Some ps" "[] \<notin> set ps" "rq_state state = None" "rq_buffer state = Some b" "str_is b ys" "str_is out xs"
  shows "\<exists>state' out'. srequest_read state out = Some (state', out') \<and> str_is out' (xs @ ys @ concat ps)"
proof -
  obtain o1 where o1: "push_str out b = Some o1" "str_is o1 (xs @ ys)" using push_str_is [OF assms(6,5)] by blast
  obtain o2 where "srequest_loop (state\<lparr>rq_buffer := None\<rparr>) o1 = Some (state\<lparr>rq_buffer := None, rq_conn := []\<rparr>, o2)"
    "str_is o2 ((xs @ ys) @ concat ps)"
    using srequest_loop_plain [of "state\<lparr>rq_buffer := None\<rparr>" ps o1 "xs @ ys"] assms(1-3) o1(2) by auto
  then show ?thesis using assms(3,4) o1(1) by (simp add: srequest_read_def)
qed

lemma srequest_read_chunks:
  assumes "rq_conn state = map Some ps" "[] \<notin> set ps" "rq_state state = Some chunks" "rq_buffer state = Some b" "str_is b []"
    and "str_is out xs" "ending_ok ending" "chunk_inv ending chunks (concat ps) cs acc" "\<forall>c\<in>set cs. chunk_ok c"
  shows "\<exists>state' out'. srequest_read state out = Some (state', out') \<and> str_is out' (xs @ acc @ concat (map snd cs))"
proof -
  obtain o1 where o1: "push_str out b = Some o1" "str_is o1 xs" using push_str_is [OF assms(6,5)] by auto
  obtain chunks' where c: "srequest_loop (state\<lparr>rq_buffer := None\<rparr>) o1
      = Some (state\<lparr>rq_buffer := None, rq_conn := [], rq_state := Some chunks'\<rparr>, o1)"
    "str_is (ch_content chunks') (acc @ concat (map snd cs))"
    using srequest_loop_chunks [of "state\<lparr>rq_buffer := None\<rparr>" ps chunks ending cs acc o1] assms(1-3,7-9) by auto
  obtain o2 where "push_str o1 (ch_content chunks') = Some o2" "str_is o2 (xs @ acc @ concat (map snd cs))"
    using push_str_is [OF o1(2) c(2)] by blast
  moreover obtain r where "str_clear (ch_content chunks') = Some r" using str_clear_is [OF c(2)] by blast
  ultimately show ?thesis using assms(4) o1(1) c(1) by (simp add: srequest_read_def)
qed

section \<open>Receiving a response\<close>

text \<open>The value in a Lua table, and the loops over the pairs of the header.\<close>

datatype lua_field = L_string "u8 list" | L_int int

function fields_loop :: "str parray \<Rightarrow> nat \<Rightarrow> (u8 list \<Rightarrow> lua_field option) \<Rightarrow> (u8 list \<Rightarrow> lua_field option) option" where
  "fields_loop p i m =
     (if i = pa_len p then Some m
      else Option.bind (pa_at (pa_P p) i) (\<lambda>e.
        Option.bind (mem_cstr (s_c (pe_key e))) (\<lambda>k.
        Option.bind (mem_cstr (s_c (pe_value e))) (\<lambda>v. fields_loop p (i + 1) (m(k := Some (L_string v)))))))"
  by pat_completeness auto
termination
  by (relation "measure (\<lambda>(p, i, m). Suc (length (pa_P p)) - i)") (auto simp: pa_at_def c_load_def split: if_splits)

declare fields_loop.simps [simp del]

definition luaI_treplk :: "u8 list \<Rightarrow> u8 list \<Rightarrow> (u8 list \<Rightarrow> lua_field option) \<Rightarrow> (u8 list \<Rightarrow> lua_field option)" where
  "luaI_treplk k nk m = (m(nk := m k))(k := None)"

text \<open>atoi, which is the conversion of strtol cut to an int.\<close>

fun dec_digits :: "u8 list \<Rightarrow> int \<Rightarrow> int" where
  "dec_digits [] a = a"
| "dec_digits (b # bs) a = (if 48 \<le> b \<and> b \<le> 57 then dec_digits bs (10 * a + (uint b - 48)) else a)"

definition atoi :: "u8 list \<Rightarrow> int" where
  "atoi xs = (let k = (case dropWhile (\<lambda>b. b = 32 \<or> 9 \<le> b \<and> b \<le> 13) xs of
       [] \<Rightarrow> 0
     | b # bs \<Rightarrow> if b = 45 then - dec_digits bs 0 else if b = 43 then dec_digits bs 0 else dec_digits (b # bs) 0)
     in signed_take_bit 31 (max (- (2 ^ 63)) (min (2 ^ 63 - 1) k)))"

definition response_fields :: "str parray \<Rightarrow> (u8 list \<Rightarrow> lua_field option) option" where
  "response_fields owo = do {
     m \<leftarrow> fields_loop owo 0 Map.empty;
     let m = luaI_treplk (bytes ''Path'') (bytes ''code'') m;
     let m = luaI_treplk (bytes ''Request'') (bytes ''version'') m;
     let m = luaI_treplk (bytes ''Version'') (bytes ''code-name'') m;
     (case m (bytes ''code'') of
        Some (L_string code) \<Rightarrow> Some (m(bytes ''code'' := Some (L_int (atoi code))))
      | _ \<Rightarrow> None)
   }"

datatype request_error = Read_error | Header_error

text \<open>The loop up to the blank line: the bytes read and the position of the blank line, if it came.\<close>

function header_loop :: "request_state \<Rightarrow> str \<Rightarrow> (request_state \<times> (request_error + str \<times> nat option)) option" where
  "header_loop state a =
     (case request_read state of
        (None, state') \<Rightarrow> Some (state', Inl Read_error)
      | (Some bs, state') \<Rightarrow>
          if bs = [] then Some (state', Inr (a, None))
          else
            (let blen = s_len a;
                 off = (if blen \<ge> 4 then 4 else blen)
             in Option.bind (str_pushl a bs (length bs)) (\<lambda>a.
                case memmem (take (length bs + off) (drop (blen - off) (str_text a))) [13, 10, 13, 10] of
                  Some e \<Rightarrow> Some (state', Inr (a, Some (blen - off + e)))
                | None \<Rightarrow> header_loop state' a)))"
  by pat_completeness auto
termination
  by (relation "measure (\<lambda>(state, a). sum_list (map (case_option 1 Suc) (map (map_option length) (rq_conn state))))")
    (auto simp: request_read_def split: prod.splits dest!: ssl_read_less)

declare header_loop.simps [simp del]

text \<open>How the content is to be read: \<open>extra\<close> are the bytes that came behind the header.\<close>

definition content_state :: "u8 list \<Rightarrow> str option \<Rightarrow> request_state \<Rightarrow> request_state option" where
  "content_state extra encoding state =
     (case encoding of
        Some v \<Rightarrow> Option.bind (mem_cstr (s_c v)) (\<lambda>v.
          if v = bytes ''chunked'' then do {
            buffer \<leftarrow> str_init [];
            content \<leftarrow> str_init [];
            chunks \<leftarrow> chunked_encoding_round extra
              \<lparr>reading_length = True, chunk_length = 0, ch_buffer = buffer, ch_content = content\<rparr>;
            b \<leftarrow> str_init [];
            Some (state\<lparr>rq_buffer := Some b, rq_state := Some chunks\<rparr>)
          } else Some state)
      | None \<Rightarrow> map_option (\<lambda>b. state\<lparr>rq_buffer := Some b\<rparr>) (str_initl (extra @ [0]) (length extra)))"

text \<open>What _request does with the answer.  The assertion on the result of the parser stops the program.\<close>

definition request_answer ::
  "request_state \<Rightarrow> (request_error + (u8 list \<Rightarrow> lua_field option) \<times> request_state) option" where
  "request_answer state = do {
     a \<leftarrow> str_init [];
     (state, r) \<leftarrow> header_loop state a;
     (case r of
        Inl e \<Rightarrow> Some (Inl e)
      | Inr (a, None) \<Rightarrow> Some (Inl Header_error)
      | Inr (a, Some header_eof) \<Rightarrow> do {
          (err, table) \<leftarrow> parse_header (str_text a) (int header_eof);
          owo \<leftarrow> (if err = 0 then table else None);
          fields \<leftarrow> response_fields owo;
          encoding \<leftarrow> parray_get owo (bytes ''Transfer-Encoding'');
          state \<leftarrow> content_state (drop (header_eof + 4) (str_text a)) encoding state;
          Some (Inr (fields, state))
        })
   }"

lemma tab_len: "tab_is p al \<Longrightarrow> pa_len p = length al \<and> length (par_elems p) = length al"
  by (auto simp: tab_is_def par_list_def par_elems_def par_wf_def)

lemma tab_elem:
  assumes "tab_is p al" "i < length al"
  shows "\<exists>e. pa_at (pa_P p) i = Some e \<and> mem_cstr (s_c (pe_key e)) = Some (fst (al ! i))
    \<and> mem_cstr (s_c (pe_value e)) = Some (c_str (snd (al ! i)))"
proof -
  have wf: "par_wf p" "\<forall>e\<in>set (par_list p). str_wf (snd e)" "map (apsnd str_text) (par_list p) = al"
    using assms(1) unfolding tab_is_def by blast+
  have len: "pa_len p = length al" "length (par_elems p) = length al" using tab_len [OF assms(1)] by simp_all
  let ?e = "par_elems p ! i"
  have e: "?e \<in> set (par_elems p)" using assms(2) len(2) by simp
  then have k: "str_is (pe_key ?e) (str_text (pe_key ?e))" "0 \<notin> set (str_text (pe_key ?e))"
    using wf(1) unfolding par_wf_def key_ok_def str_is_def by blast+
  have "par_pair ?e \<in> set (par_list p)" using e unfolding par_list_def by simp
  then have v: "str_is (pe_value ?e) (str_text (pe_value ?e))" using wf(2) by (auto simp: par_pair_def str_is_def)
  have "map (apsnd str_text) (map par_pair (par_elems p)) ! i = apsnd str_text (par_pair ?e)" using assms(2) len(2) by simp
  then have al: "al ! i = (str_text (pe_key ?e), str_text (pe_value ?e))"
    using wf(3) by (simp add: par_list_def par_pair_def)
  have "mem_cstr (s_c (pe_key ?e)) = Some (str_text (pe_key ?e))" using mem_cstr_str [OF k(1)] k(2) by (simp add: c_str_id)
  then show ?thesis using pa_at_elem [OF wf(1)] assms(2) len(1) mem_cstr_str [OF v] al by auto
qed

lemma fields_loop_list:
  assumes "tab_is p al" "i \<le> length al"
  shows "fields_loop p i m = Some (m ++ map_of (rev (map (\<lambda>(k, v). (k, L_string (c_str v))) (drop i al))))"
  using assms(2)
proof (induction "length al - i" arbitrary: i m)
  case 0
  then show ?case using tab_len [OF assms(1)] by (subst fields_loop.simps) simp
next
  case (Suc n)
  have i: "i < length al" using Suc.hyps(2) by simp
  obtain e where e: "pa_at (pa_P p) i = Some e" "mem_cstr (s_c (pe_key e)) = Some (fst (al ! i))"
    "mem_cstr (s_c (pe_value e)) = Some (c_str (snd (al ! i)))" using tab_elem [OF assms(1) i] by blast
  have ne: "i \<noteq> pa_len p" using i tab_len [OF assms(1)] by simp
  let ?m = "m(fst (al ! i) := Some (L_string (c_str (snd (al ! i)))))"
  have "fields_loop p i m = fields_loop p (i + 1) ?m"
    by (subst fields_loop.simps) (simp only: ne if_False e Option.bind.bind_lunit)
  also have "\<dots> = Some (?m ++ map_of (rev (map (\<lambda>(k, v). (k, L_string (c_str v))) (drop (i + 1) al))))"
    using Suc.hyps(2) i by (intro Suc.hyps(1)) simp_all
  also have "?m ++ map_of (rev (map (\<lambda>(k, v). (k, L_string (c_str v))) (drop (i + 1) al)))
    = m ++ map_of (rev (map (\<lambda>(k, v). (k, L_string (c_str v))) (drop i al)))"
  proof -
    have "drop i al = al ! i # drop (Suc i) al" using i by (rule Cons_nth_drop_Suc [symmetric])
    then show ?thesis by (cases "al ! i") simp
  qed
  finally show ?case .
qed

lemma header_loop_finds:
  assumes "rq_conn state = map Some ps" "[] \<notin> set ps" "str_is a buf"
    and "first_at blank_line (buf @ concat ps) e" "length buf < e + 4"
  shows "\<exists>ps' a' buf'. header_loop state a = Some (state\<lparr>rq_conn := map Some ps'\<rparr>, Inr (a', Some e)) \<and> [] \<notin> set ps'
    \<and> str_is a' buf' \<and> buf' @ concat ps' = buf @ concat ps \<and> e + 4 \<le> length buf'"
  using assms
proof (induction "length (concat ps)" arbitrary: state ps a buf rule: less_induct)
  case less
  have f4: "length blank_line = 4" by (simp add: blank_line_def)
  show ?case
  proof (cases "ps = []")
    case True
    then have "take (length blank_line) (drop e buf) = blank_line" using less.prems(4) by (simp only: first_at_def concat.simps append_Nil2)
    then have "length (take (length blank_line) (drop e buf)) = 4" by (simp only: f4)
    then show ?thesis using less.prems(5) f4 by simp
  next
    case False
    obtain bs ps' where r: "request_read state = (Some bs, state\<lparr>rq_conn := map Some ps'\<rparr>)" "concat ps = bs @ concat ps'"
      "bs \<noteq> []" "[] \<notin> set ps'" using request_read_pieces [OF less.prems(1,2) False] by blast
    obtain p where p: "str_pushl a bs (length bs) = Some p" "str_is p (buf @ bs)" using str_pushl_all [OF less.prems(3)] by blast
    define off where "off = (if length buf \<ge> 4 then 4 else length buf)"
    have s: "length buf - off \<le> e" "off \<le> length buf" using less.prems(5) by (auto simp: off_def)
    have first: "first_at blank_line ((buf @ bs) @ concat ps') e" using less.prems(4) r(2) by simp
    have search: "memmem (drop (length buf - off) (buf @ bs)) blank_line
        = (if e + 4 \<le> length (buf @ bs) then Some (e - (length buf - off)) else None)"
      using window_search [OF first s(1)] f4 by (simp add: blank_line_def)
    have w: "take (length bs + off) (drop (length buf - off) (buf @ bs)) = drop (length buf - off) (buf @ bs)" using s(2) by simp
    have ptext: "str_text p = buf @ bs" using p(2) by (simp add: str_is_def)
    have step: "header_loop state a = (case memmem (drop (length buf - off) (buf @ bs)) blank_line of
        Some k \<Rightarrow> Some (state\<lparr>rq_conn := map Some ps'\<rparr>, Inr (p, Some (length buf - off + k)))
      | None \<Rightarrow> header_loop (state\<lparr>rq_conn := map Some ps'\<rparr>) p)"
      using r(1,3) p(1) str_is_len [OF less.prems(3)] w
      by (subst header_loop.simps) (simp add: Let_def ptext off_def [symmetric] blank_line_def [symmetric] del: take_append drop_append split del: if_split,
        simp only: off_def)
    show ?thesis
    proof (cases "e + 4 \<le> length (buf @ bs)")
      case True
      then have "header_loop state a = Some (state\<lparr>rq_conn := map Some ps'\<rparr>, Inr (p, Some e))" unfolding step search using s(1) by simp
      then show ?thesis using r(2,4) p(2) True by (intro exI [of _ ps'] exI [of _ p] exI [of _ "buf @ bs"]) simp
    next
      case F: False
      have "length (concat ps') < length (concat ps)" using r(2,3) by simp
      then obtain qs a' buf' where "header_loop (state\<lparr>rq_conn := map Some ps'\<rparr>) p
          = Some (state\<lparr>rq_conn := map Some ps', rq_conn := map Some qs\<rparr>, Inr (a', Some e))" "[] \<notin> set qs"
        "str_is a' buf'" "buf' @ concat qs = (buf @ bs) @ concat ps'" "e + 4 \<le> length buf'"
        using less.hyps [of ps' "state\<lparr>rq_conn := map Some ps'\<rparr>" p "buf @ bs"] r(4) p(2) first F by auto
      then show ?thesis unfolding step search using F r(2)
        by (intro exI [of _ qs] exI [of _ a'] exI [of _ buf']) simp
    qed
  qed
qed

text \<open>The fields of a response whose header was parsed.\<close>

lemma map_of_fields:
  assumes "distinct (map fst al)"
  shows "map_of (rev (map (\<lambda>(k, v). (k, L_string (c_str v))) al)) k = map_option (\<lambda>v. L_string (c_str v)) (map_of al k)"
  using assms
proof (induction al)
  case (Cons a al)
  obtain k' v where a: "a = (k', v)" by (cases a)
  have "k' \<notin> dom (map_of al)" using Cons.prems a by (simp add: dom_map_of_conv_image_fst)
  then have "map_of al k' = None" by (simp add: domIff)
  then show ?case using Cons a by (cases "map_of al k") (auto simp: map_add_def)
qed simp

lemma tab_distinct: "tab_is p al \<Longrightarrow> distinct (map fst al)"
  by (auto simp: tab_is_def par_wf_def)

lemma treplk_names:
  "code \<notin> {pth, req, ver, vers, cname} \<Longrightarrow> luaI_treplk vers cname (luaI_treplk req ver (luaI_treplk pth code m)) code = m pth"
  "k \<notin> {pth, req, vers, code, ver, cname} \<Longrightarrow> luaI_treplk vers cname (luaI_treplk req ver (luaI_treplk pth code m)) k = m k"
  by (auto simp: luaI_treplk_def)

lemma response_fields_is:
  assumes "tab_is owo al" "map_of al (bytes ''Path'') = Some code"
  shows "\<exists>fields. response_fields owo = Some fields \<and> fields (bytes ''code'') = Some (L_int (atoi (c_str code)))
    \<and> (\<forall>k. k \<notin> {bytes ''Path'', bytes ''Request'', bytes ''Version'', bytes ''code'', bytes ''version'', bytes ''code-name''}
        \<longrightarrow> fields k = map_option (\<lambda>v. L_string (c_str v)) (map_of al k))"
proof -
  define m where "m = (\<lambda>k. map_option (\<lambda>v. L_string (c_str v)) (map_of al k))"
  define m' where "m' = luaI_treplk (bytes ''Version'') (bytes ''code-name'') (luaI_treplk (bytes ''Request'') (bytes ''version'')
    (luaI_treplk (bytes ''Path'') (bytes ''code'') m))"
  have loop: "fields_loop owo 0 Map.empty = Some m"
    using fields_loop_list [OF assms(1), of 0 Map.empty] map_of_fields [OF tab_distinct [OF assms(1)]] by (simp add: m_def fun_eq_iff)
  have "bytes ''code'' \<notin> {bytes ''Path'', bytes ''Request'', bytes ''version'', bytes ''Version'', bytes ''code-name''}" by code_simp
  then have code: "m' (bytes ''code'') = m (bytes ''Path'')" unfolding m'_def by (rule treplk_names(1))
  also have "\<dots> = Some (L_string (c_str code))" by (simp only: m_def assms(2) option.map)
  finally have "response_fields owo = Some (m'(bytes ''code'' := Some (L_int (atoi (c_str code)))))"
    unfolding response_fields_def Let_def loop m'_def by (simp only: Option.bind.bind_lunit option.case lua_field.case)
  moreover have "m' k = map_option (\<lambda>v. L_string (c_str v)) (map_of al k)"
    if "k \<notin> {bytes ''Path'', bytes ''Request'', bytes ''Version'', bytes ''code'', bytes ''version'', bytes ''code-name''}" for k
    using treplk_names(2) [OF that, of m] unfolding m'_def m_def .
  ultimately show ?thesis by (auto simp del: insert_iff)
qed

lemma map_of_put: "map_of (put_all hs al) k = (case map_of (rev hs) k of Some v \<Rightarrow> Some v | None \<Rightarrow> map_of al k)"
proof (induction hs arbitrary: al)
  case (Cons h hs)
  obtain k' v where h: "h = (k', v)" by (cases h)
  then show ?case using Cons.IH [of "AList.update k' v al"]
    by (auto simp: put_all_def update_conv' map_add_def split: option.splits)
qed (simp add: put_all_def)

section \<open>From the bytes of a response to its content\<close>

definition transfer_encoding :: "u8 list" where
  "transfer_encoding = bytes ''Transfer-Encoding''"

text \<open>How the body carries the content: as chunks, or as it is when the header names no encoding.\<close>

definition body_carries :: "(u8 list \<times> u8 list) list \<Rightarrow> u8 list \<Rightarrow> u8 list \<Rightarrow> bool" where
  "body_carries hs body content \<longleftrightarrow>
     map_of (rev hs) transfer_encoding = None \<and> body = content
   \<or> map_of (rev hs) transfer_encoding = Some (bytes ''chunked'')
       \<and> (\<exists>ending cs. ending_ok ending \<and> (\<forall>c\<in>set cs. chunk_ok c) \<and> body = chunk_text ending cs \<and> content = concat (map snd cs))"

definition start_request :: "u8 list list \<Rightarrow> request_state" where
  "start_request ps = \<lparr>rq_conn = map Some ps, rq_buffer = None, rq_state = None\<rparr>"

lemma header_names: "0 \<notin> set transfer_encoding" "bytes ''Path'' \<noteq> transfer_encoding"
  "map_of (request_pairs m p v) transfer_encoding = None" "map_of (request_pairs m p v) (bytes ''Path'') = Some p"
  by (simp_all add: transfer_encoding_def request_pairs_def bytes_def)

lemma request_answer_state:
  assumes "word_ok m" "word_ok p" "word_ok v" "\<forall>kv\<in>set hs. field_ok kv"
    and "13 \<notin> set m" "13 \<notin> set p" "13 \<notin> set v" "hs \<noteq> []" "\<forall>(k, v)\<in>set hs. k \<noteq> [] \<and> 13 \<notin> set k \<and> 13 \<notin> set v"
    and "length m + length p + length v + 3 \<le> max_uri_len" "length (concat ps) < 2 ^ 63"
    and "concat ps = request_text m p v hs @ blank_line @ body" "[] \<notin> set ps"
  shows "\<exists>owo fields ps' extra. body = extra @ concat ps' \<and> [] \<notin> set ps'
    \<and> tab_is owo (put_all hs (request_pairs m p v)) \<and> response_fields owo = Some fields
    \<and> request_answer (start_request ps) = Option.bind (parray_get owo transfer_encoding) (\<lambda>encoding.
        map_option (\<lambda>state. Inr (fields, state)) (content_state extra encoding (start_request ps')))"
proof -
  let ?t = "request_text m p v hs"
  have first: "first_at blank_line ([] @ concat ps) (length ?t)"
    using request_blank_line [OF assms(5-9)] assms(12) by simp
  obtain a where a: "str_init [] = Some a" "str_is a []" using str_empty by blast
  obtain ps' a' buf where h: "header_loop (start_request ps) a = Some (start_request ps', Inr (a', Some (length ?t)))" "[] \<notin> set ps'"
    "str_is a' buf" "buf @ concat ps' = concat ps" "length ?t + 4 \<le> length buf"
    using header_loop_finds [OF _ assms(13) a(2) first, of "start_request ps"] by (auto simp: start_request_def)
  have "buf = take (length buf) (?t @ blank_line @ body)" using h(4) assms(12) by (metis append_eq_conv_conj)
  then obtain post where post: "buf = ?t @ blank_line @ post"
    using h(5) by (auto simp: blank_line_def take_Cons' split: if_splits)
  then have body: "body = post @ concat ps'" using h(4) assms(12) by simp
  have "length (?t @ blank_line @ post) < 2 ^ 63" using h(4) post assms(11) by (metis length_append trans_less_add1 le_add1 le_less_trans)
  then obtain owo where owo: "parse_header buf (int (length ?t)) = Some (0, Some owo)" "tab_is owo (put_all hs (request_pairs m p v))"
    using parse_request [OF assms(1-4,10)] unfolding post by blast
  have "\<exists>c. map_of (put_all hs (request_pairs m p v)) (bytes ''Path'') = Some c"
    by (cases "map_of (rev hs) (bytes ''Path'')") (simp_all add: map_of_put header_names)
  then obtain fields where "response_fields owo = Some fields" using response_fields_is [OF owo(2)] by blast
  moreover have "drop (length ?t + 4) buf = post" using post by (simp add: blank_line_def)
  moreover have "str_text a' = buf" using h(3) by (simp add: str_is_def)
  ultimately show ?thesis using body h(1,2) a(1) owo
    by (intro exI [of _ owo] exI [of _ fields] exI [of _ ps'] exI [of _ post]) (simp add: request_answer_def transfer_encoding_def map_conv_bind_option o_def)
qed

lemma field_values: "\<forall>kv\<in>set hs. field_ok kv \<Longrightarrow> map_of (rev hs) k = Some v \<Longrightarrow> c_str v = v"
  by (force simp: field_ok_def intro: c_str_id dest!: map_of_SomeD)

lemma chunk_inv_start:
  assumes "ending_ok ending" "\<forall>c\<in>set cs. chunk_ok c" "str_is b []" "str_is c []"
  shows "chunk_inv ending \<lparr>reading_length = True, chunk_length = 0, ch_buffer = b, ch_content = c\<rparr> (chunk_text ending cs) cs []"
  using assms by (intro chunk_inv_awaits awaits_text) simp_all

lemma content_read:
  assumes "map_option str_text r = map_of (rev hs) transfer_encoding" "\<forall>v. r = Some v \<longrightarrow> str_wf v"
    and "body_carries hs (extra @ concat ps) content" "[] \<notin> set ps" "str_is out xs"
  shows "\<exists>state state' out'. content_state extra r (start_request ps) = Some state
    \<and> srequest_read state out = Some (state', out') \<and> str_is out' (xs @ content)"
proof -
  have st: "rq_conn (start_request ps) = map Some ps" "rq_state (start_request ps) = None" by (simp_all add: start_request_def)
  show ?thesis
  proof (cases "map_of (rev hs) transfer_encoding")
    case None
    then have plain: "map_of (rev hs) transfer_encoding = None" "extra @ concat ps = content"
      using assms(3) by (simp_all add: body_carries_def)
    obtain e where e: "str_initl (extra @ [0]) (length extra) = Some e" "str_is e extra"
      using str_initl_text [of "length extra" "extra @ [0]"] by (auto simp: str_is_def nth_append)
    have "content_state extra r (start_request ps) = Some (start_request ps\<lparr>rq_buffer := Some e\<rparr>)"
      using assms(1) plain(1) e(1) by (simp add: content_state_def)
    moreover obtain state' out' where "srequest_read (start_request ps\<lparr>rq_buffer := Some e\<rparr>) out = Some (state', out')"
      "str_is out' (xs @ extra @ concat ps)"
      using srequest_read_plain [of "start_request ps\<lparr>rq_buffer := Some e\<rparr>", OF _ assms(4) _ _ e(2) assms(5)] st by auto
    ultimately show ?thesis using plain(2) by metis
  next
    case (Some enc)
    then obtain ending cs where chunks: "map_of (rev hs) transfer_encoding = Some (bytes ''chunked'')" "ending_ok ending"
      "\<forall>c\<in>set cs. chunk_ok c" "extra @ concat ps = chunk_text ending cs" "content = concat (map snd cs)"
      using assms(3) unfolding body_carries_def by (elim disjE conjE exE) (simp, blast)
    obtain v where v: "r = Some v" "str_text v = bytes ''chunked''" using assms(1) chunks(1) by auto
    have "str_is v (bytes ''chunked'')" using assms(2) v by (simp add: str_is_def)
    then have vc: "mem_cstr (s_c v) = Some (bytes ''chunked'')" using mem_cstr_str by (simp add: bytes_def c_str_def)
    obtain e where e: "str_init [] = Some e" "str_is e []" using str_empty by blast
    let ?st = "\<lparr>reading_length = True, chunk_length = 0, ch_buffer = e, ch_content = e\<rparr>"
    have "chunk_inv ending ?st (extra @ concat ps) cs []"
      unfolding chunks(4) by (rule chunk_inv_start [OF chunks(2,3) e(2) e(2)])
    then obtain ch cs' acc where ch: "chunked_encoding_round extra ?st = Some ch" "chunk_inv ending ch (concat ps) cs' acc"
      "\<forall>c\<in>set cs'. chunk_ok c" "acc @ concat (map snd cs') = content"
      using round_keeps [OF _ chunks(2,3)] chunks(5) by fastforce
    let ?s = "start_request ps\<lparr>rq_buffer := Some e, rq_state := Some ch\<rparr>"
    have "content_state extra r (start_request ps) = Some ?s" using v(1) vc e(1) ch(1) by (simp add: content_state_def)
    moreover obtain state' out' where "srequest_read ?s out = Some (state', out')" "str_is out' (xs @ acc @ concat (map snd cs'))"
      using srequest_read_chunks [of ?s, OF _ assms(4) _ _ e(2) assms(5) chunks(2) ch(2,3)] st by auto
    ultimately show ?thesis using ch(4) by metis
  qed
qed

text \<open>The fields of the table, by the values of the header lines.\<close>

lemma answer_fields:
  assumes "\<forall>kv\<in>set hs. field_ok kv" "bytes ''Path'' \<notin> fst ` set hs" "word_ok code"
    and "tab_is owo (put_all hs (request_pairs version code phrase))" "response_fields owo = Some fs"
  shows "fs (bytes ''code'') = Some (L_int (atoi code))"
    and "map_of (rev hs) k = Some v \<Longrightarrow>
      k \<notin> {bytes ''Request'', bytes ''Version'', bytes ''code'', bytes ''version'', bytes ''code-name''} \<Longrightarrow> fs k = Some (L_string v)"
proof -
  have path: "map_of (rev hs) (bytes ''Path'') = None" using assms(2) unfolding map_of_eq_None_iff by simp
  have "map_of (put_all hs (request_pairs version code phrase)) (bytes ''Path'') = Some code"
    by (simp only: map_of_put path header_names option.case)
  moreover have "c_str code = code" using assms(3) by (simp add: word_ok_def c_str_id)
  ultimately have f: "fs (bytes ''code'') = Some (L_int (atoi code))"
    "\<forall>k. k \<notin> {bytes ''Path'', bytes ''Request'', bytes ''Version'', bytes ''code'', bytes ''version'', bytes ''code-name''}
      \<longrightarrow> fs k = map_option (\<lambda>v. L_string (c_str v)) (map_of (put_all hs (request_pairs version code phrase)) k)"
    using response_fields_is [OF assms(4)] assms(5) by (metis option.inject)+
  show "fs (bytes ''code'') = Some (L_int (atoi code))" by (rule f(1))
  assume k: "map_of (rev hs) k = Some v"
    "k \<notin> {bytes ''Request'', bytes ''Version'', bytes ''code'', bytes ''version'', bytes ''code-name''}"
  then have "k \<noteq> bytes ''Path''" using path by auto
  then have "fs k = map_option (\<lambda>v. L_string (c_str v)) (map_of (put_all hs (request_pairs version code phrase)) k)"
    using f(2) k(2) by blast
  then show "fs k = Some (L_string v)" using k(1) field_values [OF assms(1) k(1)] by (simp add: map_of_put)
qed


text \<open>The content hi! in two chunks.\<close>

definition sample_chunks :: "u8 list" where
  "sample_chunks = chunk_text (bytes ''0'') [(bytes ''2'', bytes ''hi''), (bytes ''1;x'', bytes ''!'')]"

definition sample_response :: "u8 list" where
  "sample_response = request_text (bytes ''HTTP/1.1'') (bytes ''200'') (bytes ''OK'') [(bytes ''Transfer-Encoding'', bytes ''chunked'')]
     @ blank_line @ sample_chunks"

lemma sample_body: "body_carries [(bytes ''Transfer-Encoding'', bytes ''chunked'')] sample_chunks (bytes ''hi!'')"
proof -
  have "ending_ok (bytes ''0'')" "\<forall>c\<in>set [(bytes ''2'', bytes ''hi''), (bytes ''1;x'', bytes ''!'')]. chunk_ok c"
    unfolding ending_ok_def chunk_ok_def line_clean_def
    by (auto simp: bytes_def strtol16_def c_str_def strtol_prefix_def hex_digit_value_def Let_def)
  moreover have "bytes ''hi!'' = concat (map snd [(bytes ''2'', bytes ''hi''), (bytes ''1;x'', bytes ''!'')])" by code_simp
  ultimately show ?thesis unfolding body_carries_def transfer_encoding_def sample_chunks_def
    by (intro disjI2 conjI exI [of _ "bytes ''0''"] exI [of _ "[(bytes ''2'', bytes ''hi''), (bytes ''1;x'', bytes ''!'')]"])
      (simp_all add: bytes_def)
qed


end
