(* ===== verification/Urls.thy ===== *)
theory Urls
  imports HttpResponse
begin

text \<open>
  Addresses in \<open>src/src/net.c\<close>: parse_url, which takes a URL apart for the client, the target and the text
  of a request of _request, and path_parse, which takes the path of a request apart for the server.
\<close>

section \<open>parse_url\<close>

record url =
  u_proto :: "str option"
  u_domain :: "str option"
  u_port :: "str option"
  u_path :: "str option"

definition no_url :: url where
  "no_url = \<lparr>u_proto = None, u_domain = None, u_port = None, u_path = None\<rparr>"

text \<open>The loop: \<open>rd\<close> is 0 in the domain, 1 in the port and 2 in the path; the slash that ends the domain or the
  port is looked at twice.\<close>

function url_loop :: "u8 list \<Rightarrow> nat \<Rightarrow> nat \<Rightarrow> url \<Rightarrow> str \<Rightarrow> (nat \<times> url \<times> str) option" where
  "url_loop u i rd awa buffer =
     (if i = length u then Some (rd, awa, buffer)
      else Option.bind (c_load u i) (\<lambda>b.
        if b = 58 then
          (if u_proto awa = None \<and> i + 2 < length u \<and> u ! (i + 1) = 47 \<and> u ! (i + 2) = 47 then
             Option.bind (str_init []) (\<lambda>fresh. url_loop u (i + 3) rd (awa\<lparr>u_proto := Some buffer\<rparr>) fresh)
           else if u_port awa = None then
             Option.bind (str_init []) (\<lambda>fresh. url_loop u (i + 1) 1 (awa\<lparr>u_domain := Some buffer\<rparr>) fresh)
           else url_loop u (i + 1) rd awa buffer)
        else if rd \<noteq> 2 \<and> b = 47 then
          Option.bind (str_init []) (\<lambda>fresh.
            url_loop u i 2 (if rd = 1 then awa\<lparr>u_port := Some buffer\<rparr> else awa\<lparr>u_domain := Some buffer\<rparr>) fresh)
        else Option.bind (push_byte buffer b) (\<lambda>buffer. url_loop u (i + 1) rd awa buffer)))"
  by pat_completeness auto
termination
  by (relation "measures [\<lambda>(u, i, rd, awa, buffer). length u - i, \<lambda>(u, i, rd, awa, buffer). if rd = 2 then 0 else 1]")
    (auto simp: c_load_def split: if_splits)

declare url_loop.simps [simp del]

definition url_end :: "nat \<times> url \<times> str \<Rightarrow> url" where
  "url_end r = (case r of (rd, awa, buffer) \<Rightarrow>
     if rd = 0 then awa\<lparr>u_domain := Some buffer\<rparr>
     else if rd = 1 then awa\<lparr>u_port := Some buffer\<rparr>
     else awa\<lparr>u_path := Some buffer\<rparr>)"

definition parse_url :: "u8 list \<Rightarrow> url option" where
  "parse_url u = Option.bind (str_init []) (\<lambda>buffer. map_option url_end (url_loop u 0 0 no_url buffer))"

text \<open>A URL from its parts.\<close>

definition url_text :: "u8 list option \<Rightarrow> u8 list \<Rightarrow> u8 list option \<Rightarrow> u8 list option \<Rightarrow> u8 list" where
  "url_text proto domain port path =
     (case proto of None \<Rightarrow> [] | Some p \<Rightarrow> p @ [58, 47, 47]) @ domain
     @ (case port of None \<Rightarrow> [] | Some p \<Rightarrow> 58 # p) @ (case path of None \<Rightarrow> [] | Some p \<Rightarrow> p)"

definition plain_part :: "u8 list \<Rightarrow> bool" where
  "plain_part xs \<longleftrightarrow> 58 \<notin> set xs \<and> 47 \<notin> set xs"

definition path_ok :: "u8 list \<Rightarrow> bool" where
  "path_ok xs \<longleftrightarrow> xs \<noteq> [] \<and> hd xs = 47 \<and> 58 \<notin> set xs"

lemma url_plain:
  assumes "u = pre @ w @ post" "str_is buffer xs" "58 \<notin> set w" "rd = 2 \<or> 47 \<notin> set w"
  shows "\<exists>buffer'. url_loop u (length pre) rd awa buffer = url_loop u (length (pre @ w)) rd awa buffer' \<and> str_is buffer' (xs @ w)"
  using assms
proof (induction w arbitrary: pre buffer xs)
  case (Cons b w)
  obtain p where p: "push_byte buffer b = Some p" "str_is p (xs @ [b])" using push_byte_is [OF Cons.prems(2)] by blast
  have "c_load u (length pre) = Some b" "length pre \<noteq> length u" using Cons.prems(1) by (simp_all add: c_load_def)
  then have "url_loop u (length pre) rd awa buffer = url_loop u (length (pre @ [b])) rd awa p"
    using Cons.prems(3,4) p(1) by (subst url_loop.simps) auto
  then show ?case using Cons.IH [of "pre @ [b]" p "xs @ [b]"] Cons.prems p(2) by auto
qed auto

text \<open>The path, if there is one, behind the domain or the port.\<close>

lemma url_path:
  assumes "u = pre @ (case path of None \<Rightarrow> [] | Some p \<Rightarrow> p)" "str_is buffer w" "rd < 2" "\<forall>p. path = Some p \<longrightarrow> path_ok p" "u_path awa = None"
  shows "\<exists>r. url_loop u (length pre) rd awa buffer = Some r \<and> u_proto (url_end r) = u_proto awa
    \<and> rel_option str_is (u_path (url_end r)) path
    \<and> (if rd = 1 then rel_option str_is (u_port (url_end r)) (Some w) \<and> u_domain (url_end r) = u_domain awa
       else rel_option str_is (u_domain (url_end r)) (Some w) \<and> u_port (url_end r) = u_port awa)"
proof (cases path)
  case None
  then have "url_loop u (length pre) rd awa buffer = Some (rd, awa, buffer)" using assms(1) by (subst url_loop.simps) simp
  then show ?thesis using None assms(2,3,5) by (auto simp: url_end_def)
next
  case (Some p)
  have p: "p \<noteq> []" "hd p = 47" "58 \<notin> set p" using assms(4) Some by (simp_all add: path_ok_def)
  have load: "c_load u (length pre) = Some 47" "length pre \<noteq> length u" using assms(1) Some p(1,2) by (cases p; simp add: c_load_def)+
  obtain f where f: "str_init [] = Some f" "str_is f []" using str_empty by blast
  let ?awa = "if rd = 1 then awa\<lparr>u_port := Some buffer\<rparr> else awa\<lparr>u_domain := Some buffer\<rparr>"
  have "url_loop u (length pre) rd awa buffer = url_loop u (length pre) 2 ?awa f"
    using load assms(3) f(1) by (subst url_loop.simps) simp
  moreover obtain b where "url_loop u (length pre) 2 ?awa f = url_loop u (length (pre @ p)) 2 ?awa b" "str_is b p"
    using url_plain [of u pre p "[]" f "[]" 2 ?awa] assms(1) Some f(2) p(3) by auto
  moreover have "url_loop u (length (pre @ p)) 2 ?awa b = Some (2, ?awa, b)"
    using assms(1) Some by (subst url_loop.simps) simp
  ultimately show ?thesis using Some assms(2,3) by (auto simp: url_end_def)
qed

lemma url_authority:
  assumes "u = pre @ domain @ (case port of None \<Rightarrow> [] | Some p \<Rightarrow> 58 # p) @ (case path of None \<Rightarrow> [] | Some p \<Rightarrow> p)"
    and "str_is buffer []" "plain_part domain" "\<forall>p. port = Some p \<longrightarrow> plain_part p \<and> p \<noteq> []" "\<forall>p. path = Some p \<longrightarrow> path_ok p"
    and "u_path awa = None" "u_port awa = None" "u_domain awa = None"
  shows "\<exists>r. url_loop u (length pre) 0 awa buffer = Some r \<and> u_proto (url_end r) = u_proto awa
    \<and> rel_option str_is (u_domain (url_end r)) (Some domain) \<and> rel_option str_is (u_port (url_end r)) port
    \<and> rel_option str_is (u_path (url_end r)) path"
proof -
  obtain b where b: "url_loop u (length pre) 0 awa buffer = url_loop u (length (pre @ domain)) 0 awa b" "str_is b domain"
    using url_plain [OF assms(1,2)] assms(3) by (auto simp: plain_part_def)
  show ?thesis
  proof (cases port)
    case None
    then obtain r where "url_loop u (length (pre @ domain)) 0 awa b = Some r" "u_proto (url_end r) = u_proto awa"
      "rel_option str_is (u_path (url_end r)) path" "rel_option str_is (u_domain (url_end r)) (Some domain)"
      "u_port (url_end r) = u_port awa"
      using url_path [of u "pre @ domain" path b domain 0 awa] assms(1,5,6) b(2) by auto
    then show ?thesis using b(1) None assms(7) by auto
  next
    case (Some q)
    have q: "plain_part q" "q \<noteq> []" using assms(4) Some by simp_all
    let ?pre = "pre @ domain @ [58]"
    obtain f where f: "str_init [] = Some f" "str_is f []" using str_empty by blast
    have u: "u = ?pre @ q @ (case path of None \<Rightarrow> [] | Some p \<Rightarrow> p)" using assms(1) Some by simp
    have "c_load u (length (pre @ domain)) = Some 58" "length (pre @ domain) \<noteq> length u" by (simp_all add: u c_load_def)
    moreover have "u ! (length (pre @ domain) + 1) \<noteq> 47" using q by (cases q) (auto simp: u nth_append plain_part_def)
    ultimately have "url_loop u (length (pre @ domain)) 0 awa b = url_loop u (length ?pre) 1 (awa\<lparr>u_domain := Some b\<rparr>) f"
      using f(1) assms(7) by (subst url_loop.simps) simp
    moreover obtain c where c: "url_loop u (length ?pre) 1 (awa\<lparr>u_domain := Some b\<rparr>) f
        = url_loop u (length (?pre @ q)) 1 (awa\<lparr>u_domain := Some b\<rparr>) c" "str_is c q"
      using url_plain [OF u f(2)] q(1) by (auto simp: plain_part_def)
    moreover obtain r where "url_loop u (length (?pre @ q)) 1 (awa\<lparr>u_domain := Some b\<rparr>) c = Some r" "u_proto (url_end r) = u_proto awa"
      "rel_option str_is (u_path (url_end r)) path" "rel_option str_is (u_port (url_end r)) (Some q)"
      "u_domain (url_end r) = Some b"
      using url_path [of u "?pre @ q" path c q 1 "awa\<lparr>u_domain := Some b\<rparr>"] u assms(5,6) c(2) by auto
    ultimately show ?thesis using b Some by auto
  qed
qed

lemma parse_url_parts:
  assumes "\<forall>p. proto = Some p \<longrightarrow> plain_part p" "plain_part domain" "\<forall>p. port = Some p \<longrightarrow> plain_part p \<and> p \<noteq> []" "\<forall>p. path = Some p \<longrightarrow> path_ok p"
  shows "\<exists>awa. parse_url (url_text proto domain port path) = Some awa \<and> rel_option str_is (u_proto awa) proto
    \<and> rel_option str_is (u_domain awa) (Some domain) \<and> rel_option str_is (u_port awa) port \<and> rel_option str_is (u_path awa) path"
proof -
  let ?rest = "domain @ (case port of None \<Rightarrow> [] | Some p \<Rightarrow> 58 # p) @ (case path of None \<Rightarrow> [] | Some p \<Rightarrow> p)"
  obtain e where e: "str_init [] = Some e" "str_is e []" using str_empty by blast
  show ?thesis
  proof (cases proto)
    case None
    then show ?thesis
      using url_authority [of "url_text proto domain port path" "[]" domain port path e no_url] assms(2-4) e
      by (auto simp: url_text_def no_url_def parse_url_def)
  next
    case (Some p)
    let ?u = "url_text proto domain port path"
    have u: "?u = [] @ p @ [58, 47, 47] @ ?rest" by (simp add: url_text_def Some)
    obtain b where b: "url_loop ?u (length ([] :: u8 list)) 0 no_url e = url_loop ?u (length ([] @ p)) 0 no_url b" "str_is b ([] @ p)"
      using url_plain [OF u e(2), of 0 no_url] assms(1) Some by (auto simp: plain_part_def)
    have "c_load ?u (length p) = Some 58" "length p + 2 < length ?u" "?u ! (length p + 1) = 47" "?u ! (length p + 2) = 47"
      unfolding u by (simp_all add: c_load_def nth_append)
    then have "url_loop ?u (length p) 0 no_url b = url_loop ?u (length (p @ [58, 47, 47])) 0 (no_url\<lparr>u_proto := Some b\<rparr>) e"
      using e(1) by (subst url_loop.simps) (simp add: no_url_def numeral_3_eq_3)
    moreover obtain r where "url_loop ?u (length (p @ [58, 47, 47])) 0 (no_url\<lparr>u_proto := Some b\<rparr>) e = Some r"
      "u_proto (url_end r) = Some b" "rel_option str_is (u_domain (url_end r)) (Some domain)"
      "rel_option str_is (u_port (url_end r)) port" "rel_option str_is (u_path (url_end r)) path"
      using url_authority [of ?u "p @ [58, 47, 47]" domain port path e "no_url\<lparr>u_proto := Some b\<rparr>"] u assms(2-4) e(2)
      by (auto simp: no_url_def)
    ultimately show ?thesis using e(1) b Some by (auto simp: parse_url_def)
  qed
qed

text \<open>A colon in a path ends it: the path becomes the domain and what follows the port.\<close>

lemma parse_url_colon_in_path:
  "map_option (\<lambda>awa. (map_option str_text (u_domain awa), map_option str_text (u_port awa), map_option str_text (u_path awa)))
     (parse_url (bytes ''a.org/b:c'')) = Some (Some (bytes ''/b''), Some (bytes ''c''), None)"
  by code_simp

section \<open>The request of the client\<close>

text \<open>Where _request connects to, and what it sends; \<open>secure\<close> is the choice of l_request and l_srequest, which
  the protocol of the URL overrules.\<close>

record request_target =
  rt_secure :: bool
  rt_host :: "u8 list"
  rt_port :: "u8 list"
  rt_path :: "u8 list"

definition or_default :: "str option \<Rightarrow> u8 list \<Rightarrow> u8 list option" where
  "or_default s d = (case s of None \<Rightarrow> Some d | Some s \<Rightarrow> mem_cstr (s_c s))"

definition target_of :: "bool \<Rightarrow> u8 list \<Rightarrow> request_target option" where
  "target_of secure request_url = do {
     awa \<leftarrow> parse_url request_url;
     proto \<leftarrow> or_default (u_proto awa) [];
     let secure = (if u_proto awa \<noteq> None \<and> proto = bytes ''http'' then False
       else if u_proto awa \<noteq> None \<and> proto = bytes ''https'' then True else secure);
     host \<leftarrow> or_default (u_domain awa) (c_str request_url);
     port \<leftarrow> or_default (u_port awa) (bytes (if secure then ''443'' else ''80''));
     path \<leftarrow> or_default (u_path awa) [47];
     Some \<lparr>rt_secure = secure, rt_host = host, rt_port = port, rt_path = path\<rparr>
   }"

text \<open>The header lines are the pairs of a Lua table in the order of lua_next, as C strings.\<close>

fun request_lines :: "str \<Rightarrow> (u8 list \<times> u8 list) list \<Rightarrow> str option" where
  "request_lines header [] = Some header"
| "request_lines header ((k, v) # kvs) = do {
     header \<leftarrow> str_push header [13, 10];
     header \<leftarrow> str_push header k;
     header \<leftarrow> str_push header [58, 32];
     header \<leftarrow> str_push header v;
     request_lines header kvs
   }"

definition request_message :: "u8 list \<Rightarrow> u8 list \<Rightarrow> u8 list \<Rightarrow> (u8 list \<times> u8 list) list \<Rightarrow> u8 list \<Rightarrow> u8 list option" where
  "request_message action path host kvs cont = do {
     header \<leftarrow> str_init [];
     header \<leftarrow> request_lines header kvs;
     lines \<leftarrow> mem_cstr (s_c header);
     c_sprintf (length cont + s_len header + length host + length path + 512)
       (action @ [32] @ path @ bytes '' HTTP/1.1'' @ crlf @ bytes ''Host: '' @ host @ crlf @ bytes ''Connection: Close'' @ lines
         @ crlf @ crlf @ c_str cont)
   }"

definition cstring :: "u8 list \<Rightarrow> bool" where
  "cstring xs \<longleftrightarrow> 0 \<notin> set xs"

fun lines_text :: "(u8 list \<times> u8 list) list \<Rightarrow> u8 list" where
  "lines_text [] = []"
| "lines_text ((k, v) # kvs) = [13, 10] @ k @ [58, 32] @ v @ lines_text kvs"

lemma str_push_is: "str_is s xs \<Longrightarrow> 0 \<notin> set xs \<Longrightarrow> \<exists>s'. str_push s ys = Some s' \<and> str_is s' (xs @ ys)"
  using str_push_text [of s ys] by (auto simp: str_is_def)

lemma request_lines_is:
  assumes "str_is header xs" "0 \<notin> set xs" "\<forall>(k, v)\<in>set kvs. cstring k \<and> cstring v"
  shows "\<exists>header'. request_lines header kvs = Some header' \<and> str_is header' (xs @ lines_text kvs) \<and> 0 \<notin> set (xs @ lines_text kvs)"
  using assms
proof (induction kvs arbitrary: header xs rule: lines_text.induct)
  case (2 k v kvs)
  then have z: "0 \<notin> set k" "0 \<notin> set v" by (auto simp: cstring_def)
  obtain a where a: "str_push header [13, 10] = Some a" "str_is a (xs @ [13, 10])" using str_push_is [OF 2(2,3)] by blast
  obtain b where b: "str_push a k = Some b" "str_is b ((xs @ [13, 10]) @ k)" using str_push_is [OF a(2)] 2(3) by auto
  obtain c where c: "str_push b [58, 32] = Some c" "str_is c (((xs @ [13, 10]) @ k) @ [58, 32])" using str_push_is [OF b(2)] 2(3) z by auto
  obtain d where d: "str_push c v = Some d" "str_is d ((((xs @ [13, 10]) @ k) @ [58, 32]) @ v)" using str_push_is [OF c(2)] 2(3) z by auto
  then show ?case using 2(1) [OF d(2)] 2(3,4) a(1) b(1) c(1) z by simp
qed simp

lemma fields_lines:
  "kv \<noteq> [] \<Longrightarrow> fields_text (kvs @ kv) = (if kvs = [] then fields_text kv else fields_text kvs @ lines_text kv)"
proof (induction kvs rule: fields_text.induct)
  case (2 k v)
  have "[13, 10] @ fields_text kv = lines_text kv" using 2 by (induction kv rule: fields_text.induct) simp_all
  then show ?case using 2 by (cases kv) simp_all
next
  case (3 k v k' kvs)
  then show ?case by simp
qed simp

text \<open>The message is a request in the form the server parses.\<close>

lemma request_message_text:
  assumes "\<forall>(k, v)\<in>set kvs. cstring k \<and> cstring v" "cstring cont" "length action \<le> 400"
  shows "request_message action path host kvs cont
    = Some (request_text action path (bytes ''HTTP/1.1'') ([(bytes ''Host'', host), (bytes ''Connection'', bytes ''Close'')] @ kvs)
        @ blank_line @ cont)"
proof -
  obtain h0 where h0: "str_init [] = Some h0" "str_is h0 []" using str_empty by blast
  obtain h where h: "request_lines h0 kvs = Some h" "str_is h (lines_text kvs)" "0 \<notin> set (lines_text kvs)"
    using request_lines_is [OF h0(2) _ assms(1)] by auto
  have "mem_cstr (s_c h) = Some (lines_text kvs)" using mem_cstr_str [OF h(2)] h(3) by (simp add: c_str_id)
  moreover have "fields_text ([(bytes ''Host'', host), (bytes ''Connection'', bytes ''Close'')] @ kvs)
      = bytes ''Host: '' @ host @ crlf @ bytes ''Connection: Close'' @ lines_text kvs"
  proof (cases "kvs = []")
    case True
    then show ?thesis by (simp add: crlf_def bytes_def)
  next
    case False
    then show ?thesis
      using fields_lines [of kvs "[(bytes ''Host'', host), (bytes ''Connection'', bytes ''Close'')]"] by (simp add: crlf_def bytes_def)
  qed
  moreover have "c_str cont = cont" using assms(2) by (simp add: cstring_def c_str_id)
  ultimately show ?thesis using h0(1) h(1) str_is_len [OF h(2)] assms(3)
    by (simp add: request_message_def c_sprintf_def request_text_def blank_line_def crlf_def bytes_def)
qed

text \<open>A method longer than the reserve is printed past the end of the buffer.\<close>

lemma request_message_overflow:
  assumes "512 \<le> length action" "cstring cont"
  shows "request_message action path host [] cont = None"
proof -
  obtain h0 where h0: "str_init [] = Some h0" "str_is h0 []" using str_empty by blast
  have "c_str cont = cont" using assms(2) by (simp add: cstring_def c_str_id)
  moreover have "mem_cstr (s_c h0) = Some []" using mem_cstr_str [OF h0(2)] by (simp add: c_str_def)
  ultimately show ?thesis using h0(1) str_is_len [OF h0(2)] assms(1) by (simp add: request_message_def c_sprintf_def)
qed

section \<open>path_parse\<close>

datatype path_reading = R_path | R_key | R_value

record path_state =
  ps_path :: str
  ps_query :: "str parray"
  ps_key :: str
  ps_value :: str
  ps_reading :: path_reading

definition raw_byte :: "str \<Rightarrow> nat \<Rightarrow> u8 option" where
  "raw_byte raw i = Option.bind (c_load (s_c raw) i) (\<lambda>b. b)"

text \<open>The switch on a separator, which is not the last byte; \<open>&\<close> goes on with the case of \<open>?\<close>.\<close>

definition path_switch :: "u8 \<Rightarrow> path_state \<Rightarrow> (path_state \<times> bool) option" where
  "path_switch b st =
     (if b = 38 then do {
        query \<leftarrow> set_from (ps_query st) (ps_key st) (ps_value st);
        key \<leftarrow> str_clear (ps_key st);
        v \<leftarrow> str_init [];
        Some (st\<lparr>ps_query := query, ps_key := key, ps_value := v, ps_reading := R_key\<rparr>, True)
      } else if b = 63 then Some (st\<lparr>ps_reading := R_key\<rparr>, True)
      else if b = 61 then Some (st\<lparr>ps_reading := R_value\<rparr>, True)
      else Some (st, False))"

definition path_push :: "path_state \<Rightarrow> u8 \<Rightarrow> path_state option" where
  "path_push st b = (case ps_reading st of
       R_path \<Rightarrow> map_option (\<lambda>s. st\<lparr>ps_path := s\<rparr>) (push_byte (ps_path st) b)
     | R_key \<Rightarrow> map_option (\<lambda>s. st\<lparr>ps_key := s\<rparr>) (push_byte (ps_key st) b)
     | R_value \<Rightarrow> map_option (\<lambda>s. st\<lparr>ps_value := s\<rparr>) (push_byte (ps_value st) b))"

function path_loop :: "str \<Rightarrow> nat \<Rightarrow> path_state \<Rightarrow> path_state option" where
  "path_loop raw i st =
     (if i \<le> s_len raw then
        Option.bind (if s_len raw - i > 1 then Option.bind (raw_byte raw i) (\<lambda>b. path_switch b st) else Some (st, False)) (\<lambda>(st, skip).
          let i = (if skip then i + 1 else i) in
          Option.bind (raw_byte raw i) (\<lambda>b. Option.bind (path_push st b) (\<lambda>st. path_loop raw (i + 1) st)))
      else Some st)"
  by pat_completeness auto
termination by (relation "measure (\<lambda>(raw, i, st). Suc (s_len raw) - i)") auto

declare path_loop.simps [simp del]

definition path_parse :: "str \<Rightarrow> (str \<times> str parray) option" where
  "path_parse raw = do {
     pth \<leftarrow> str_init [];
     key \<leftarrow> str_init [];
     v \<leftarrow> str_init [];
     st \<leftarrow> path_loop raw 0 \<lparr>ps_path = pth, ps_query = parray_init, ps_key = key, ps_value = v, ps_reading = R_path\<rparr>;
     query \<leftarrow> (if ps_reading st = R_value then set_from (ps_query st) (ps_key st) (ps_value st) else Some (ps_query st));
     Some (ps_path st, query)
   }"

text \<open>A state by the texts of its strings.\<close>

definition pst_is :: "path_state \<Rightarrow> u8 list \<Rightarrow> (u8 list \<times> u8 list) list \<Rightarrow> u8 list \<Rightarrow> u8 list \<Rightarrow> path_reading \<Rightarrow> bool" where
  "pst_is st p al k v r \<longleftrightarrow> str_is (ps_path st) p \<and> tab_is (ps_query st) al \<and> str_is (ps_key st) k \<and> str_is (ps_value st) v \<and> ps_reading st = r"

fun pushed :: "path_reading \<Rightarrow> u8 list \<Rightarrow> u8 list \<times> u8 list \<times> u8 list \<Rightarrow> u8 list \<times> u8 list \<times> u8 list" where
  "pushed R_path w (p, k, v) = (p @ w, k, v)"
| "pushed R_key w (p, k, v) = (p, k @ w, v)"
| "pushed R_value w (p, k, v) = (p, k, v @ w)"

definition separator :: "u8 \<Rightarrow> bool" where
  "separator b \<longleftrightarrow> b = 38 \<or> b = 63 \<or> b = 61"

lemma raw_byte_is: "str_is s xs \<Longrightarrow> i \<le> length xs \<Longrightarrow> raw_byte s i = Some ((xs @ [0]) ! i)"
proof -
  assume "str_is s xs" "i \<le> length xs"
  then obtain rest where "s_c s = map Some xs @ Some 0 # rest" unfolding str_is_def str_wf_shape by blast
  then show ?thesis using \<open>i \<le> length xs\<close> by (auto simp: raw_byte_def c_load_def nth_append)
qed

lemma path_push_is:
  assumes "pst_is st p al k v r" "pushed r [b] (p, k, v) = (p', k', v')"
  shows "\<exists>st'. path_push st b = Some st' \<and> pst_is st' p' al k' v' r"
proof (cases r)
  case R_path
  then show ?thesis using assms push_byte_is [of "ps_path st" p b] by (auto simp: pst_is_def path_push_def)
next
  case R_key
  then show ?thesis using assms push_byte_is [of "ps_key st" k b] by (auto simp: pst_is_def path_push_def)
next
  case R_value
  then show ?thesis using assms push_byte_is [of "ps_value st" v b] by (auto simp: pst_is_def path_push_def)
qed

lemma path_plain:
  assumes "str_is raw (pre @ w @ post)" "pst_is st p al k v r" "\<forall>b\<in>set w. \<not> separator b" "pushed r w (p, k, v) = (p', k', v')"
  shows "\<exists>st'. path_loop raw (length pre) st = path_loop raw (length (pre @ w)) st' \<and> pst_is st' p' al k' v' r"
  using assms
proof (induction w arbitrary: pre st p k v)
  case Nil
  then show ?case by (cases r) auto
next
  case (Cons b w)
  obtain p1 k1 v1 where one: "pushed r [b] (p, k, v) = (p1, k1, v1)" by (cases "pushed r [b] (p, k, v)")
  then obtain st1 where st1: "path_push st b = Some st1" "pst_is st1 p1 al k1 v1 r" using path_push_is [OF Cons.prems(2)] by blast
  have len: "s_len raw = length (pre @ (b # w) @ post)" by (rule str_is_len [OF Cons.prems(1)])
  have rb: "raw_byte raw (length pre) = Some b" using raw_byte_is [OF Cons.prems(1), of "length pre"] by (simp add: nth_append)
  have "path_switch b st = Some (st, False)" using Cons.prems(3) by (simp add: path_switch_def separator_def)
  then have "path_loop raw (length pre) st = path_loop raw (length (pre @ [b])) st1"
    using len rb st1(1) by (subst path_loop.simps) simp
  moreover have "pushed r w (p1, k1, v1) = (p', k', v')" using Cons.prems(4) one by (cases r) auto
  ultimately show ?case using Cons.IH [of "pre @ [b]" st1 p1 k1 v1] Cons.prems(1,3) st1(2) by auto
qed

text \<open>A separator with the byte behind it, which is not looked at.\<close>

lemma path_separator:
  assumes "str_is raw (pre @ [s, b] @ post)" "path_switch s st = Some (st1, True)" "pst_is st1 p al k v r"
    and "pushed r [b] (p, k, v) = (p', k', v')"
  shows "\<exists>st'. path_loop raw (length pre) st = path_loop raw (length (pre @ [s, b])) st' \<and> pst_is st' p' al k' v' r"
proof -
  obtain st' where st': "path_push st1 b = Some st'" "pst_is st' p' al k' v' r" using path_push_is [OF assms(3,4)] by blast
  have len: "s_len raw = length (pre @ [s, b] @ post)" by (rule str_is_len [OF assms(1)])
  have "raw_byte raw (length pre) = Some s" "raw_byte raw (length pre + 1) = Some b"
    using raw_byte_is [OF assms(1), of "length pre"] raw_byte_is [OF assms(1), of "length pre + 1"] by (simp_all add: nth_append)
  then have "path_loop raw (length pre) st = path_loop raw (length (pre @ [s, b])) st'"
    using len assms(2) st'(1) by (subst path_loop.simps) simp
  then show ?thesis using st'(2) by blast
qed

lemma path_end:
  assumes "str_is raw xs" "pst_is st p al k v r" "pushed r [0] (p, k, v) = (p', k', v')"
  shows "\<exists>st'. path_loop raw (length xs) st = Some st' \<and> pst_is st' p' al k' v' r"
proof -
  obtain st' where st': "path_push st 0 = Some st'" "pst_is st' p' al k' v' r" using path_push_is [OF assms(2,3)] by blast
  have "raw_byte raw (length xs) = Some 0" using raw_byte_is [OF assms(1), of "length xs"] by simp
  then have "path_loop raw (length xs) st = path_loop raw (length xs + 1) st'"
    using str_is_len [OF assms(1)] st'(1) by (subst path_loop.simps) simp
  also have "\<dots> = Some st'" using str_is_len [OF assms(1)] by (subst path_loop.simps) simp
  finally show ?thesis using st'(2) by blast
qed

text \<open>Queries: names and values are not empty; their first byte may be anything.  The last value gets the
  terminator of the path.\<close>

fun query_text :: "(u8 list \<times> u8 list) list \<Rightarrow> u8 list" where
  "query_text [] = []"
| "query_text [(k, v)] = k @ [61] @ v"
| "query_text ((k, v) # kvs) = k @ [61] @ v @ [38] @ query_text kvs"

fun last_marked :: "(u8 list \<times> u8 list) list \<Rightarrow> (u8 list \<times> u8 list) list" where
  "last_marked [] = []"
| "last_marked [(k, v)] = [(k, v @ [0])]"
| "last_marked (kv # kvs) = kv # last_marked kvs"

definition query_ok :: "u8 list \<times> u8 list \<Rightarrow> bool" where
  "query_ok kv \<longleftrightarrow> fst kv \<noteq> [] \<and> snd kv \<noteq> [] \<and> 0 \<notin> set (fst kv)
     \<and> (\<forall>b\<in>set (tl (fst kv)) \<union> set (tl (snd kv)). \<not> separator b)"

lemma query_pair:
  assumes "str_is raw (pre @ [s] @ k @ [61] @ v @ post)" "path_switch s st = Some (st1, True)" "pst_is st1 p al [] [] R_key"
    and "query_ok (k, v)"
  shows "\<exists>st'. path_loop raw (length pre) st = path_loop raw (length (pre @ [s] @ k @ [61] @ v)) st' \<and> pst_is st' p al k v R_value"
proof -
  obtain a as b bs where kv: "k = a # as" "v = b # bs" using assms(4) by (auto simp: query_ok_def neq_Nil_conv)
  have plain: "\<forall>b\<in>set as. \<not> separator b" "\<forall>b\<in>set bs. \<not> separator b" using assms(4) by (auto simp: query_ok_def kv)
  have r: "str_is raw (pre @ [s, a] @ (as @ [61] @ v @ post))" "str_is raw ((pre @ [s, a]) @ as @ ([61] @ v @ post))"
    "str_is raw (((pre @ [s, a]) @ as) @ [61, b] @ (bs @ post))" "str_is raw ((((pre @ [s, a]) @ as) @ [61, b]) @ bs @ post)"
    using assms(1) kv by simp_all
  obtain s1 where s1: "path_loop raw (length pre) st = path_loop raw (length (pre @ [s, a])) s1" "pst_is s1 p al ([] @ [a]) [] R_key"
    using path_separator [OF r(1) assms(2,3) pushed.simps(2)] by blast
  obtain s2 where s2: "path_loop raw (length (pre @ [s, a])) s1 = path_loop raw (length ((pre @ [s, a]) @ as)) s2"
    "pst_is s2 p al (([] @ [a]) @ as) [] R_key"
    using path_plain [OF r(2) s1(2) plain(1) pushed.simps(2)] by blast
  have "path_switch 61 s2 = Some (s2\<lparr>ps_reading := R_value\<rparr>, True)" by (simp add: path_switch_def)
  moreover have "pst_is (s2\<lparr>ps_reading := R_value\<rparr>) p al k [] R_value" using s2(2) kv by (simp add: pst_is_def)
  ultimately obtain s3 where s3: "path_loop raw (length ((pre @ [s, a]) @ as)) s2 = path_loop raw (length (((pre @ [s, a]) @ as) @ [61, b])) s3"
    "pst_is s3 p al k ([] @ [b]) R_value"
    using path_separator [OF r(3) _ _ pushed.simps(3)] by blast
  obtain s4 where "path_loop raw (length (((pre @ [s, a]) @ as) @ [61, b])) s3 = path_loop raw (length ((((pre @ [s, a]) @ as) @ [61, b]) @ bs)) s4"
    "pst_is s4 p al k (([] @ [b]) @ bs) R_value"
    using path_plain [OF r(4) s3(2) plain(2) pushed.simps(3)] by blast
  then show ?thesis using s1(1) s2(1) s3(1) kv by auto
qed

lemma query_run:
  assumes "str_is raw (pre @ [s] @ query_text kvs)" "path_switch s st = Some (st1, True)" "pst_is st1 p al [] [] R_key"
    and "\<forall>kv\<in>set kvs. query_ok kv" "kvs \<noteq> []"
  shows "\<exists>st' al' k v. path_loop raw (length pre) st = Some st' \<and> pst_is st' p al' k v R_value \<and> 0 \<notin> set k
    \<and> AList.update k v al' = put_all (last_marked kvs) al"
  using assms
proof (induction kvs arbitrary: pre s st st1 al rule: query_text.induct)
  case (2 k v)
  have ok: "query_ok (k, v)" using 2(4) by simp
  obtain st' where st': "path_loop raw (length pre) st = path_loop raw (length (pre @ [s] @ k @ [61] @ v)) st'" "pst_is st' p al k v R_value"
    using query_pair [of raw pre s k v "[]", OF _ 2(2,3) ok] 2(1) by auto
  obtain st'' where "path_loop raw (length (pre @ [s] @ k @ [61] @ v)) st' = Some st''" "pst_is st'' p al k (v @ [0]) R_value"
    using path_end [OF 2(1) st'(2) pushed.simps(3)] by auto
  then show ?case using st'(1) ok by (auto simp: put_all_def query_ok_def)
next
  case (3 k v kv kvs)
  have ok: "query_ok (k, v)" using 3(5) by simp
  let ?pre = "pre @ [s] @ k @ [61] @ v"
  obtain st' where st': "path_loop raw (length pre) st = path_loop raw (length ?pre) st'" "pst_is st' p al k v R_value"
    using query_pair [of raw pre s k v "[38] @ query_text (kv # kvs)", OF _ 3(3,4) ok] 3(2) by auto
  have s: "tab_is (ps_query st') al" "str_is (ps_key st') k" "str_is (ps_value st') v" "str_is (ps_path st') p"
    using st'(2) by (simp_all add: pst_is_def)
  obtain q where q: "set_from (ps_query st') (ps_key st') (ps_value st') = Some q" "tab_is q (AList.update (c_str k) v al)"
    using set_from_is [OF s(1-3)] by blast
  obtain c where c: "str_clear (ps_key st') = Some c" "str_is c []" using str_clear_is [OF s(2)] by blast
  obtain e where e: "str_init [] = Some e" "str_is e []" using str_empty by blast
  let ?st = "st'\<lparr>ps_query := q, ps_key := c, ps_value := e, ps_reading := R_key\<rparr>"
  have sw: "path_switch 38 st' = Some (?st, True)" using q(1) c(1) e(1) by (simp add: path_switch_def)
  have ck: "c_str k = k" using ok by (simp add: query_ok_def c_str_id)
  have "pst_is ?st p (AList.update k v al) [] [] R_key" using s(4) q(2) c(2) e(2) by (simp add: pst_is_def ck)
  then have "\<exists>st'' al' k' v'. path_loop raw (length ?pre) st' = Some st'' \<and> pst_is st'' p al' k' v' R_value \<and> 0 \<notin> set k'
      \<and> AList.update k' v' al' = put_all (last_marked (kv # kvs)) (AList.update k v al)"
    using 3(1) [of ?pre 38 st' ?st "AList.update k v al"] 3(2,5) sw by simp
  then show ?case using st'(1) by (simp add: put_all_def)
qed simp

lemma path_parse_query:
  assumes "str_is raw (pth @ [63] @ query_text kvs)" "\<forall>b\<in>set pth. \<not> separator b" "\<forall>kv\<in>set kvs. query_ok kv" "kvs \<noteq> []"
  shows "\<exists>p query. path_parse raw = Some (p, query) \<and> str_is p pth \<and> tab_is query (put_all (last_marked kvs) [])"
proof -
  obtain e where e: "str_init [] = Some e" "str_is e []" using str_empty by blast
  let ?st = "\<lparr>ps_path = e, ps_query = parray_init, ps_key = e, ps_value = e, ps_reading = R_path\<rparr>"
  have start: "pst_is ?st [] [] [] [] R_path" using e(2) tab_init by (simp add: pst_is_def)
  obtain st1 where st1: "path_loop raw 0 ?st = path_loop raw (length pth) st1" "pst_is st1 pth [] [] [] R_path"
    using path_plain [of raw "[]" pth "[63] @ query_text kvs" ?st, OF _ start assms(2) pushed.simps(1)] assms(1) by auto
  have sw: "path_switch 63 st1 = Some (st1\<lparr>ps_reading := R_key\<rparr>, True)" by (simp add: path_switch_def)
  have st2: "pst_is (st1\<lparr>ps_reading := R_key\<rparr>) pth [] [] [] R_key" using st1(2) by (simp add: pst_is_def)
  obtain st' al' k v where st': "path_loop raw (length pth) st1 = Some st'" "pst_is st' pth al' k v R_value" "0 \<notin> set k"
    "AList.update k v al' = put_all (last_marked kvs) []"
    using query_run [OF assms(1) sw st2 assms(3,4)] by blast
  then obtain q where "set_from (ps_query st') (ps_key st') (ps_value st') = Some q" "tab_is q (AList.update (c_str k) v al')"
    using set_from_is [of "ps_query st'" al' "ps_key st'" k "ps_value st'" v] by (auto simp: pst_is_def)
  then show ?thesis using st' st1(1) e(1) by (simp add: path_parse_def pst_is_def c_str_id)
qed

lemma path_parse_plain:
  assumes "str_is raw pth" "\<forall>b\<in>set pth. \<not> separator b"
  shows "\<exists>p query. path_parse raw = Some (p, query) \<and> str_is p (pth @ [0]) \<and> tab_is query []"
proof -
  obtain e where e: "str_init [] = Some e" "str_is e []" using str_empty by blast
  let ?st = "\<lparr>ps_path = e, ps_query = parray_init, ps_key = e, ps_value = e, ps_reading = R_path\<rparr>"
  have start: "pst_is ?st [] [] [] [] R_path" using e(2) tab_init by (simp add: pst_is_def)
  obtain st1 where st1: "path_loop raw 0 ?st = path_loop raw (length pth) st1" "pst_is st1 pth [] [] [] R_path"
    using path_plain [of raw "[]" pth "[]" ?st, OF _ start assms(2) pushed.simps(1)] assms(1) by auto
  then obtain st' where "path_loop raw (length pth) st1 = Some st'" "pst_is st' (pth @ [0]) [] [] [] R_path"
    using path_end [OF assms(1) st1(2) pushed.simps(1)] by auto
  then show ?thesis using st1(1) e(1) by (simp add: path_parse_def pst_is_def)
qed

text \<open>A name without a value at the end is dropped, and an empty value swallows the separator behind it.\<close>

lemma path_parse_edges:
  "map_option (\<lambda>(p, q). map (apsnd str_text) (par_list q)) (Option.bind (str_init (bytes ''/?a'')) path_parse) = Some []"
  "map_option (\<lambda>(p, q). map (apsnd str_text) (par_list q)) (Option.bind (str_init (bytes ''/?a=&b=1'')) path_parse)
    = Some [(bytes ''a'', bytes ''&b1'' @ [0])]"
  by code_simp+

section \<open>From a URL to the table of the server\<close>

definition url_secure :: "bool \<Rightarrow> u8 list option \<Rightarrow> bool" where
  "url_secure secure proto = (if proto = Some (bytes ''http'') then False else if proto = Some (bytes ''https'') then True else secure)"

lemma or_default_is:
  "rel_option str_is s t \<Longrightarrow> (\<forall>xs. t = Some xs \<longrightarrow> cstring xs) \<Longrightarrow> or_default s d = Some (case t of None \<Rightarrow> d | Some xs \<Rightarrow> xs)"
  by (cases s; cases t) (auto simp: or_default_def cstring_def mem_cstr_str c_str_id)

lemma target_of_parts:
  assumes "\<forall>p. proto = Some p \<longrightarrow> plain_part p \<and> cstring p" "plain_part domain" "cstring domain"
    and "\<forall>p. port = Some p \<longrightarrow> plain_part p \<and> p \<noteq> [] \<and> cstring p" "\<forall>p. path = Some p \<longrightarrow> path_ok p \<and> cstring p"
  shows "target_of secure (url_text proto domain port path) = Some \<lparr>rt_secure = url_secure secure proto, rt_host = domain,
    rt_port = (case port of None \<Rightarrow> bytes (if url_secure secure proto then ''443'' else ''80'') | Some p \<Rightarrow> p),
    rt_path = (case path of None \<Rightarrow> [47] | Some p \<Rightarrow> p)\<rparr>"
proof -
  obtain awa where awa: "parse_url (url_text proto domain port path) = Some awa" "rel_option str_is (u_proto awa) proto"
    "rel_option str_is (u_domain awa) (Some domain)" "rel_option str_is (u_port awa) port" "rel_option str_is (u_path awa) path"
    using parse_url_parts [of proto domain port path] assms by blast
  have d: "or_default (u_proto awa) d = Some (case proto of None \<Rightarrow> d | Some xs \<Rightarrow> xs)"
    "or_default (u_domain awa) d = Some (case Some domain of None \<Rightarrow> d | Some xs \<Rightarrow> xs)"
    "or_default (u_port awa) d = Some (case port of None \<Rightarrow> d | Some xs \<Rightarrow> xs)"
    "or_default (u_path awa) d = Some (case path of None \<Rightarrow> d | Some xs \<Rightarrow> xs)" for d
    using assms(1,3-5) awa(2-5) by (blast intro: or_default_is option.inject [THEN iffD1])+
  have "u_proto awa \<noteq> None \<longleftrightarrow> proto \<noteq> None" using awa(2) by (cases "u_proto awa"; cases proto) auto
  then have "(if u_proto awa \<noteq> None \<and> (case proto of None \<Rightarrow> [] | Some xs \<Rightarrow> xs) = bytes ''http'' then False
       else if u_proto awa \<noteq> None \<and> (case proto of None \<Rightarrow> [] | Some xs \<Rightarrow> xs) = bytes ''https'' then True else secure)
     = url_secure secure proto"
    unfolding url_secure_def by (cases proto) simp_all
  then show ?thesis using awa(1) by (simp add: target_of_def d Let_def)
qed

text \<open>C33: A URL written from its parts gives the client the host, the port and the path to use, with the
  defaults for what is missing; the message sent for a path with a query is a request in the form that
  recv_header and parse_header take apart, with the lines Host and Connection before those of the caller;
  and on that path the server finds the path proper and the table of the query, whose last value
  carries a terminator.\<close>
theorem urls_to_queries:
  assumes "\<forall>p. proto = Some p \<longrightarrow> plain_part p \<and> cstring p" and "plain_part domain" and "cstring domain"
    and "\<forall>p. port = Some p \<longrightarrow> plain_part p \<and> p \<noteq> [] \<and> cstring p"
    and "path = pth @ [63] @ query_text query" and "path_ok path" and "cstring path"
    and "\<forall>b\<in>set pth. \<not> separator b" and "\<forall>kv\<in>set query. query_ok kv" and "query \<noteq> []"
    and "\<forall>(k, v)\<in>set hs. cstring k \<and> cstring v" and "cstring cont" and "length action \<le> 400"
  shows "target_of secure (url_text proto domain port (Some path)) = Some \<lparr>rt_secure = url_secure secure proto, rt_host = domain,
      rt_port = (case port of None \<Rightarrow> bytes (if url_secure secure proto then ''443'' else ''80'') | Some p \<Rightarrow> p), rt_path = path\<rparr>
    \<and> request_message action path domain hs cont
      = Some (request_text action path (bytes ''HTTP/1.1'') ([(bytes ''Host'', domain), (bytes ''Connection'', bytes ''Close'')] @ hs)
          @ blank_line @ cont)
    \<and> (\<exists>raw p table. str_init path = Some raw \<and> path_parse raw = Some (p, table)
        \<and> str_is p pth \<and> tab_is table (put_all (last_marked query) []))"
proof (intro conjI)
  show "target_of secure (url_text proto domain port (Some path)) = Some \<lparr>rt_secure = url_secure secure proto, rt_host = domain,
      rt_port = (case port of None \<Rightarrow> bytes (if url_secure secure proto then ''443'' else ''80'') | Some p \<Rightarrow> p), rt_path = path\<rparr>"
    using target_of_parts [OF assms(1-4), of "Some path" secure] assms(6,7) by simp
  show "request_message action path domain hs cont
      = Some (request_text action path (bytes ''HTTP/1.1'') ([(bytes ''Host'', domain), (bytes ''Connection'', bytes ''Close'')] @ hs)
          @ blank_line @ cont)"
    by (rule request_message_text [OF assms(11-13)])
  obtain raw where "str_init path = Some raw" "str_is raw path" using str_init_is by blast
  then show "\<exists>raw p table. str_init path = Some raw \<and> path_parse raw = Some (p, table)
        \<and> str_is p pth \<and> tab_is table (put_all (last_marked query) [])"
    using path_parse_query [of raw pth query] assms(5,8-10) by blast
qed

lemma urls_to_queries_witness:
  "target_of True (bytes ''http://a.org/x?q=1'') = Some \<lparr>rt_secure = False, rt_host = bytes ''a.org'', rt_port = bytes ''80'',
      rt_path = bytes ''/x?q=1''\<rparr>
    \<and> (\<exists>raw p table. str_init (bytes ''/x?q=1'') = Some raw \<and> path_parse raw = Some (p, table)
        \<and> str_is p (bytes ''/x'') \<and> tab_is table [(bytes ''q'', bytes ''1'' @ [0])])"
proof -
  have "target_of True (url_text (Some (bytes ''http'')) (bytes ''a.org'') None (Some (bytes ''/x?q=1'')))
      = Some \<lparr>rt_secure = url_secure True (Some (bytes ''http'')), rt_host = bytes ''a.org'',
          rt_port = (case None of None \<Rightarrow> bytes (if url_secure True (Some (bytes ''http'')) then ''443'' else ''80'') | Some p \<Rightarrow> p),
          rt_path = bytes ''/x?q=1''\<rparr>
    \<and> request_message (bytes ''GET'') (bytes ''/x?q=1'') (bytes ''a.org'') [] []
      = Some (request_text (bytes ''GET'') (bytes ''/x?q=1'') (bytes ''HTTP/1.1'')
          ([(bytes ''Host'', bytes ''a.org''), (bytes ''Connection'', bytes ''Close'')] @ []) @ blank_line @ [])
    \<and> (\<exists>raw p table. str_init (bytes ''/x?q=1'') = Some raw \<and> path_parse raw = Some (p, table)
        \<and> str_is p (bytes ''/x'') \<and> tab_is table (put_all (last_marked [(bytes ''q'', bytes ''1'')]) []))"
    by (rule urls_to_queries)
      (simp_all add: plain_part_def cstring_def path_ok_def separator_def query_ok_def bytes_def)
  moreover have "url_text (Some (bytes ''http'')) (bytes ''a.org'') None (Some (bytes ''/x?q=1'')) = bytes ''http://a.org/x?q=1''" by code_simp
  moreover have "put_all (last_marked [(bytes ''q'', bytes ''1'')]) [] = [(bytes ''q'', bytes ''1'' @ [0])]" by code_simp
  moreover have "url_secure True (Some (bytes ''http'')) = False" by code_simp
  ultimately show ?thesis by simp
qed

end
