(* ===== verification/Server.thy ===== *)
theory Server
  imports Routes HttpClient Urls
begin

text \<open>
  The server behind the parser: the functions of a response (\<open>src/src/net/lua.c\<close> with i_write_header of
  \<open>src/src/net/luai.c\<close>), the table of handlers that l_req_com fills, and the loops of handle_client in
  \<open>src/src/net.c\<close> that run the handlers of a request.  A handler is a Lua function: an argument \<open>run\<close> of the
  definitions, which may do anything to the response.
\<close>

section \<open>Responses\<close>

text \<open>The Lua table of a response: the descriptor of its connection, the method of the request, the table
  of header fields in the order in which lua_next visits them, and the mark of res:stop.  A field is a string
  or an integer.\<close>

record response =
  rs_client_fd :: int
  rs_request :: "u8 list"
  rs_header :: "(u8 list \<times> lua_field) list"
  rs_stop :: bool

datatype net_event = Sent int "u8 list" | Closed int

definition field_text :: "lua_field \<Rightarrow> u8 list" where
  "field_text f = (case f of L_string s \<Rightarrow> c_str s | L_int k \<Rightarrow> fmt_signed k)"

fun print_fields :: "str \<Rightarrow> (u8 list \<times> lua_field) list \<Rightarrow> str option" where
  "print_fields vs [] = Some vs"
| "print_fields vs ((k, f) # fs) =
     (if c_str k = bytes ''Code'' then print_fields vs fs
      else do {
        vs \<leftarrow> str_push vs (c_str k);
        vs \<leftarrow> str_push vs (bytes '': '');
        vs \<leftarrow> str_push vs (field_text f);
        vs \<leftarrow> str_push vs crlf;
        print_fields vs fs
      })"

text \<open>The code is an int; a table without one raises an error in Lua, None here.\<close>

definition i_write_header :: "(u8 list \<times> lua_field) list \<Rightarrow> u8 list \<Rightarrow> nat \<Rightarrow> str option" where
  "i_write_header header content len = do {
     vs \<leftarrow> str_init [];
     vs \<leftarrow> print_fields vs header;
     code \<leftarrow> (case map_of header (bytes ''Code'') of Some (L_int c) \<Rightarrow> Some (signed_take_bit 31 c) | _ \<Rightarrow> None);
     header_vs \<leftarrow> mem_cstr (s_c vs);
     http_build code (http_code code) header_vs content len
   }"

text \<open>The operations: Inl is the message with which the process exits.\<close>

definition on_open :: "response \<Rightarrow> (response \<times> net_event list) option \<Rightarrow> (string + response \<times> net_event list) option" where
  "on_open res r = (case client_fd_errors (rs_client_fd res) of Some m \<Rightarrow> Some (Inl m) | None \<Rightarrow> map_option Inr r)"

definition is_head :: "response \<Rightarrow> bool" where
  "is_head res = (c_str (rs_request res) = bytes ''HEAD'')"

definition l_write :: "u8 list \<Rightarrow> response \<Rightarrow> (string + response \<times> net_event list) option" where
  "l_write content res = on_open res
     (if map_of (rs_header res) (bytes ''_sent'') = None then do {
        resp \<leftarrow> (if is_head res then i_write_header (rs_header res) [] 0
                 else i_write_header (rs_header res) content (length content));
        Some (res\<lparr>rs_header := AList.update (bytes ''_sent'') (L_int 1) (rs_header res)\<rparr>, [Sent (rs_client_fd res) (str_text resp)])
      } else if is_head res then Some (res, [])
      else do {
        resp \<leftarrow> str_init (c_str content);
        Some (res, [Sent (rs_client_fd res) (str_text resp)])
      })"

definition l_send :: "u8 list \<Rightarrow> response \<Rightarrow> (string + response \<times> net_event list) option" where
  "l_send content res = on_open res (do {
     resp \<leftarrow> (if is_head res then i_write_header (rs_header res) [] 0
              else i_write_header (rs_header res) content (length content));
     Some (res\<lparr>rs_client_fd := -1\<rparr>, [Sent (rs_client_fd res) (str_text resp), Closed (rs_client_fd res)])
   })"

definition l_close :: "response \<Rightarrow> (string + response \<times> net_event list) option" where
  "l_close res = on_open res (Some (res\<lparr>rs_client_fd := -1\<rparr>, [Closed (rs_client_fd res)]))"

definition l_stop :: "response \<Rightarrow> (string + response \<times> net_event list) option" where
  "l_stop res = Some (Inr (res\<lparr>rs_stop := True\<rparr>, []))"

subsection \<open>What a response sends\<close>

datatype response_op = Op_write "u8 list" | Op_send "u8 list" | Op_close | Op_stop

fun response_step :: "response_op \<Rightarrow> response \<Rightarrow> (string + response \<times> net_event list) option" where
  "response_step (Op_write c) res = l_write c res"
| "response_step (Op_send c) res = l_send c res"
| "response_step Op_close res = l_close res"
| "response_step Op_stop res = l_stop res"

text \<open>The operations a handler calls one after another: what was sent, and the message of the exit when one
  of them ends the process.\<close>

fun response_run :: "response_op list \<Rightarrow> response \<Rightarrow> (response \<times> net_event list \<times> string option) option" where
  "response_run [] res = Some (res, [], None)"
| "response_run (op # ops) res = Option.bind (response_step op res) (\<lambda>r. case r of
       Inl m \<Rightarrow> Some (res, [], Some m)
     | Inr (res, es) \<Rightarrow> map_option (\<lambda>(res, es', m). (res, es @ es', m)) (response_run ops res))"

lemma on_open_cases:
  "on_open res r = Some x \<Longrightarrow> (rs_client_fd res < 0 \<and> (\<exists>m. x = Inl m)) \<or> (0 \<le> rs_client_fd res \<and> (\<exists>y. r = Some y \<and> x = Inr y))"
  by (auto simp: on_open_def client_fd_errors_def split: if_splits option.splits)

lemma response_step_events:
  assumes "response_step op res = Some (Inr (res', es))" "0 \<le> rs_client_fd res"
  shows "(\<exists>ms. es = map (Sent (rs_client_fd res)) ms \<and> rs_client_fd res' = rs_client_fd res)
    \<or> (\<exists>ms. es = map (Sent (rs_client_fd res)) ms @ [Closed (rs_client_fd res)] \<and> rs_client_fd res' = -1)"
proof (cases op)
  case (Op_write c)
  then have "\<exists>y. (if map_of (rs_header res) (bytes ''_sent'') = None then do {
        resp \<leftarrow> (if is_head res then i_write_header (rs_header res) [] 0
                 else i_write_header (rs_header res) c (length c));
        Some (res\<lparr>rs_header := AList.update (bytes ''_sent'') (L_int 1) (rs_header res)\<rparr>, [Sent (rs_client_fd res) (str_text resp)])
      } else if is_head res then Some (res, [])
      else do {
        resp \<leftarrow> str_init (c_str c);
        Some (res, [Sent (rs_client_fd res) (str_text resp)])
      }) = Some y \<and> (res', es) = y"
    using on_open_cases assms by (fastforce simp: l_write_def)
  then have "(\<exists>t. es = [Sent (rs_client_fd res) t] \<or> es = []) \<and> rs_client_fd res' = rs_client_fd res"
    by (auto split: if_splits Option.bind_splits)
  then show ?thesis by (metis list.map)
next
  case (Op_send c)
  then have "\<exists>t. es = [Sent (rs_client_fd res) t, Closed (rs_client_fd res)] \<and> rs_client_fd res' = -1"
    using assms on_open_cases by (fastforce simp: l_send_def split: Option.bind_splits)
  then show ?thesis by (metis append_Cons append_Nil list.map)
next
  case Op_close
  then have "es = [Closed (rs_client_fd res)] \<and> rs_client_fd res' = -1"
    using assms on_open_cases by (fastforce simp: l_close_def)
  then show ?thesis by (metis append_Nil list.map(1))
next
  case Op_stop
  then show ?thesis using assms by (auto simp: l_stop_def)
qed

text \<open>After the end of the connection the next call of write, send or close ends the process.\<close>

lemma response_step_closed:
  "rs_client_fd res = -1 \<Longrightarrow> response_step op res = Some (Inr (res', es)) \<Longrightarrow> es = [] \<and> rs_client_fd res' = -1"
  by (cases op) (auto simp: l_write_def l_send_def l_close_def l_stop_def on_open_def client_fd_errors_def)

lemma response_run_closed:
  "rs_client_fd res = -1 \<Longrightarrow> response_run ops res = Some (res', es, m) \<Longrightarrow> es = [] \<and> rs_client_fd res' = -1"
proof (induction ops arbitrary: res es)
  case (Cons op ops)
  obtain r where r: "response_step op res = Some r" using Cons.prems(2) by (auto split: Option.bind_splits)
  show ?case
  proof (cases r)
    case (Inr p)
    obtain res1 es1 where p: "p = (res1, es1)" by (cases p)
    then obtain es2 where "response_run ops res1 = Some (res', es2, m)" "es = es1 @ es2" using Cons.prems(2) r Inr by auto
    then show ?thesis using response_step_closed [OF Cons.prems(1), of op res1 es1] r Inr p Cons.IH [of res1 es2] by simp
  qed (use r Cons.prems in auto)
qed simp

lemma response_run_events:
  assumes "response_run ops res = Some (res', es, m)" "0 \<le> rs_client_fd res"
  shows "(\<exists>ms. es = map (Sent (rs_client_fd res)) ms \<and> rs_client_fd res' = rs_client_fd res)
    \<or> (\<exists>ms. es = map (Sent (rs_client_fd res)) ms @ [Closed (rs_client_fd res)] \<and> rs_client_fd res' = -1)"
  using assms
proof (induction ops arbitrary: res es)
  case (Cons op ops)
  obtain r where r: "response_step op res = Some r" using Cons.prems(1) by (auto split: Option.bind_splits)
  show ?case
  proof (cases r)
    case (Inl m')
    then show ?thesis using r Cons.prems by auto
  next
    case (Inr p)
    obtain res1 es1 where p: "p = (res1, es1)" by (cases p)
    then obtain es2 where run: "response_run ops res1 = Some (res', es2, m)" "es = es1 @ es2"
      using Cons.prems(1) r Inr by auto
    have "response_step op res = Some (Inr (res1, es1))" using r Inr p by simp
    from response_step_events [OF this Cons.prems(2)] show ?thesis
    proof (elim disjE exE conjE)
      fix ms assume s: "es1 = map (Sent (rs_client_fd res)) ms" "rs_client_fd res1 = rs_client_fd res"
      from Cons.IH [OF run(1)] s Cons.prems(2) run(2) show ?thesis by (auto simp flip: map_append)
    next
      fix ms assume s: "es1 = map (Sent (rs_client_fd res)) ms @ [Closed (rs_client_fd res)]" "rs_client_fd res1 = -1"
      from response_run_closed [OF s(2) run(1)] s(1) run(2) show ?thesis by auto
    qed
  qed
qed simp

text \<open>The text of a header, and the runs of a handler that answers.\<close>

definition fields_print :: "(u8 list \<times> lua_field) list \<Rightarrow> u8 list" where
  "fields_print fs = concat (map (\<lambda>(k, f). if c_str k = bytes ''Code'' then [] else c_str k @ bytes '': '' @ field_text f @ crlf) fs)"

definition header_print :: "int \<Rightarrow> (u8 list \<times> lua_field) list \<Rightarrow> u8 list" where
  "header_print code fs = bytes ''HTTP/1.1 '' @ fmt_signed code @ [32] @ http_code code @ crlf @ fields_print fs @ crlf"

definition header_fits :: "int \<Rightarrow> (u8 list \<times> lua_field) list \<Rightarrow> bool" where
  "header_fits code fs \<longleftrightarrow> map_of fs (bytes ''Code'') = Some (L_int code) \<and> \<bar>code\<bar> < 2 ^ 31
     \<and> length (fields_print fs) + 56 < HTTP_BUFFER_SIZE"

lemma bytes_nonzero: "0 \<notin> set (bytes cs) \<longleftrightarrow> (\<forall>c\<in>set cs. (of_char c :: u8) \<noteq> 0)"
  by (auto simp: bytes_def)

lemma digit_nonzero: "k < 10 \<Longrightarrow> (of_char (char_of (48 + k :: nat)) :: u8) \<noteq> 0"
proof -
  assume "k < 10"
  then have "k \<in> set [0..<10]" by simp
  moreover have "\<forall>k\<in>set [0..<10]. (of_char (char_of (48 + k :: nat)) :: u8) \<noteq> 0" by code_simp
  ultimately show ?thesis by blast
qed

lemma fmt_i_nonzero: "0 \<notin> set (bytes (fmt_i n))"
proof (induction n rule: fmt_i.induct)
  case (1 n)
  show ?case
  proof (cases "n < 10")
    case True
    then show ?thesis using digit_nonzero [OF True] by (subst fmt_i.simps) (auto simp: bytes_def)
  next
    case False
    then show ?thesis using 1 [OF False] digit_nonzero [of "n mod 10"] by (subst fmt_i.simps) (auto simp: bytes_def)
  qed
qed

lemma fmt_signed_nonzero: "0 \<notin> set (fmt_signed k)"
  using fmt_i_nonzero [of "nat k"] fmt_i_nonzero [of "nat (- k)"] by (auto simp: fmt_signed_def bytes_def)

lemma field_text_nonzero: "0 \<notin> set (field_text f)"
  by (cases f) (simp_all add: field_text_def c_str_nonzero fmt_signed_nonzero)

lemma http_code_nonzero: "0 \<notin> set (http_code code)"
proof -
  have "\<forall>e\<in>set http_codes. 0 \<notin> set (bytes (snd e))" by code_simp
  moreover have "map_of http_codes code = Some s \<Longrightarrow> (code, s) \<in> set http_codes" for s by (rule map_of_SomeD)
  moreover have "0 \<notin> set (bytes ''unknown'')" by code_simp
  ultimately show ?thesis by (cases "map_of http_codes code") (fastforce simp: http_code_def)+
qed

lemma fields_print_nonzero: "0 \<notin> set (fields_print fs)"
  by (auto simp: fields_print_def c_str_nonzero field_text_nonzero crlf_def bytes_def split: if_splits)

lemma print_fields_is:
  assumes "str_is vs xs" "0 \<notin> set xs"
  shows "\<exists>vs'. print_fields vs fs = Some vs' \<and> str_is vs' (xs @ fields_print fs)"
  using assms
proof (induction fs arbitrary: vs xs)
  case (Cons kf fs)
  obtain k f where kf: "kf = (k, f)" by (cases kf)
  show ?case
  proof (cases "c_str k = bytes ''Code''")
    case True
    then show ?thesis using Cons kf by (simp add: fields_print_def)
  next
    case False
    have z: "0 \<notin> set (c_str k)" "0 \<notin> set (bytes '': '')" "0 \<notin> set (field_text f)" "0 \<notin> set crlf"
      by (simp_all add: c_str_nonzero field_text_nonzero bytes_def crlf_def)
    obtain a where a: "str_push vs (c_str k) = Some a" "str_is a (xs @ c_str k)" using str_push_is [OF Cons.prems] by blast
    obtain b where b: "str_push a (bytes '': '') = Some b" "str_is b ((xs @ c_str k) @ bytes '': '')"
      using str_push_is [OF a(2)] z(1) Cons.prems(2) by auto
    obtain c where c: "str_push b (field_text f) = Some c" "str_is c (((xs @ c_str k) @ bytes '': '') @ field_text f)"
      using str_push_is [OF b(2)] z(1,2) Cons.prems(2) by auto
    obtain d where d: "str_push c crlf = Some d" "str_is d ((((xs @ c_str k) @ bytes '': '') @ field_text f) @ crlf)"
      using str_push_is [OF c(2)] z(1-3) Cons.prems(2) by auto
    have "0 \<notin> set ((((xs @ c_str k) @ bytes '': '') @ field_text f) @ crlf)" using z Cons.prems(2) by auto
    then obtain e where "print_fields d fs = Some e" "str_is e (((((xs @ c_str k) @ bytes '': '') @ field_text f) @ crlf) @ fields_print fs)"
      using Cons.IH [OF d(2)] by blast
    then show ?thesis using kf False a(1) b(1) c(1) d(1) by (simp add: fields_print_def)
  qed
qed (simp add: fields_print_def)

lemma i_write_header_is:
  assumes "header_fits code fs" "len \<le> length content"
  shows "\<exists>s. i_write_header fs content len = Some s \<and> str_is s (header_print code fs @ take len content)"
proof -
  obtain v0 where v0: "str_init [] = Some v0" "str_is v0 []" using str_empty by blast
  obtain v where v: "print_fields v0 fs = Some v" "str_is v (fields_print fs)" using print_fields_is [OF v0(2), of fs] by auto
  have "mem_cstr (s_c v) = Some (fields_print fs)" using mem_cstr_str [OF v(2)] fields_print_nonzero by (simp add: c_str_id)
  moreover have code: "map_of fs (bytes ''Code'') = Some (L_int code)" "\<bar>code\<bar> < 2 ^ 31" using assms(1) by (simp_all add: header_fits_def)
  then have "signed_take_bit 31 code = code" by (intro signed_take_bit_int_eq_self) simp_all
  moreover have "length (fmt_signed code) \<le> 11" using code(2) by (intro fmt_signed_length) simp
  then have n: "length (fmt_signed code) + length (http_code code) + length (fields_print fs) + 14 < HTTP_BUFFER_SIZE"
    using http_code_length [of code] assms(1) by (simp add: header_fits_def)
  moreover obtain s where "http_build code (http_code code) (fields_print fs) content len = Some s"
    "str_is s (header_print code fs @ take len content)"
    using http_build_text [OF http_code_nonzero fields_print_nonzero assms(2) n] by (auto simp: header_print_def)
  moreover note \<open>str_is s (header_print code fs @ take len content)\<close>
  ultimately show ?thesis using v0(1) v(1) code(1) by (simp add: i_write_header_def)
qed

lemma writes_after:
  assumes "0 \<le> rs_client_fd res" "map_of (rs_header res) (bytes ''_sent'') \<noteq> None"
  shows "response_run (map Op_write cs) res
    = Some (res, if is_head res then [] else map (\<lambda>c. Sent (rs_client_fd res) (c_str c)) cs, None)"
proof (induction cs)
  case (Cons c cs)
  obtain s where "str_init (c_str c) = Some s" "str_text s = c_str c" using str_init_is [of "c_str c"] by (auto simp: str_is_def)
  then have "l_write c res = Some (Inr (res, if is_head res then [] else [Sent (rs_client_fd res) (c_str c)]))"
    using assms by (auto simp: l_write_def on_open_def client_fd_errors_def)
  then show ?case using Cons by auto
qed simp

lemma first_write:
  assumes "0 \<le> rs_client_fd res" "map_of (rs_header res) (bytes ''_sent'') = None" "header_fits code (rs_header res)"
  shows "l_write c res = Some (Inr (res\<lparr>rs_header := AList.update (bytes ''_sent'') (L_int 1) (rs_header res)\<rparr>,
    [Sent (rs_client_fd res) (header_print code (rs_header res) @ (if is_head res then [] else c))]))"
proof -
  obtain s where s: "i_write_header (rs_header res) (if is_head res then [] else c) (length (if is_head res then [] else c)) = Some s"
    "str_is s (header_print code (rs_header res) @ (if is_head res then [] else c))"
    using i_write_header_is [OF assms(3), of "length (if is_head res then [] else c)" "if is_head res then [] else c"] by auto
  then have "str_text s = header_print code (rs_header res) @ (if is_head res then [] else c)" by (simp add: str_is_def)
  then show ?thesis using s(1) assms(1,2) by (cases "is_head res") (simp_all add: l_write_def on_open_def client_fd_errors_def)
qed

lemma send_once:
  assumes "0 \<le> rs_client_fd res" "header_fits code (rs_header res)"
  shows "l_send c res = Some (Inr (res\<lparr>rs_client_fd := -1\<rparr>,
    [Sent (rs_client_fd res) (header_print code (rs_header res) @ (if is_head res then [] else c)), Closed (rs_client_fd res)]))"
proof -
  obtain s where s: "i_write_header (rs_header res) (if is_head res then [] else c) (length (if is_head res then [] else c)) = Some s"
    "str_is s (header_print code (rs_header res) @ (if is_head res then [] else c))"
    using i_write_header_is [OF assms(2), of "length (if is_head res then [] else c)" "if is_head res then [] else c"] by auto
  then have "str_text s = header_print code (rs_header res) @ (if is_head res then [] else c)" by (simp add: str_is_def)
  then show ?thesis using s(1) assms(1) by (cases "is_head res") (simp_all add: l_send_def on_open_def client_fd_errors_def)
qed

text \<open>A send after a write prints the header a second time, with the mark of the first as a field.\<close>

lemma send_after_write:
  assumes "0 \<le> rs_client_fd res" "header_fits code ((bytes ''_sent'', L_int 1) # rs_header res)"
  shows "l_send c (res\<lparr>rs_header := (bytes ''_sent'', L_int 1) # rs_header res\<rparr>) = Some (Inr (res\<lparr>rs_header := (bytes ''_sent'', L_int 1) # rs_header res,
      rs_client_fd := -1\<rparr>,
    [Sent (rs_client_fd res) (header_print code ((bytes ''_sent'', L_int 1) # rs_header res) @ (if is_head res then [] else c)), Closed (rs_client_fd res)]))"
  using send_once [of "res\<lparr>rs_header := (bytes ''_sent'', L_int 1) # rs_header res\<rparr>" code c] assms by (simp add: is_head_def)

section \<open>Handlers\<close>

text \<open>A registered handler (struct lchar) and the array of handlers of one route (struct sarray_t), in a table
  with the key of the port and the path.\<close>

record lchar =
  lc_req :: "u8 list"
  lc_fun :: "u8 list"

definition route_key :: "int \<Rightarrow> u8 list \<Rightarrow> u8 list option" where
  "route_key port pth = do {
     portc \<leftarrow> c_sprintf 10 (fmt_signed port);
     portss \<leftarrow> str_init portc;
     portss \<leftarrow> str_push portss (c_str pth);
     mem_cstr (s_c portss)
   }"

definition l_req_com :: "int \<Rightarrow> u8 list \<Rightarrow> u8 list \<Rightarrow> u8 list \<Rightarrow> lchar list parray \<Rightarrow> lchar list parray option" where
  "l_req_com port pth req f paths = do {
     key \<leftarrow> route_key port pth;
     old_paths \<leftarrow> parray_get paths key;
     let cs = (case old_paths of None \<Rightarrow> [] | Some cs \<Rightarrow> cs) @ [\<lparr>lc_req = req, lc_fun = f\<rparr>];
     parray_set paths key cs
   }"

fun register :: "(int \<times> u8 list \<times> u8 list \<times> u8 list) list \<Rightarrow> lchar list parray \<Rightarrow> lchar list parray option" where
  "register [] paths = Some paths"
| "register ((port, pth, req, f) # rs) paths = Option.bind (l_req_com port pth req f paths) (register rs)"

text \<open>Which handlers a method reaches.\<close>

definition req_matches :: "u8 list \<Rightarrow> u8 list \<Rightarrow> bool" where
  "req_matches req method = (req = bytes ''all'' \<or> req = method \<or> (method = bytes ''HEAD'' \<and> req = bytes ''GET''))"

text \<open>The state while handlers run: the response and what was sent.  \<open>run f params\<close> is the call of the function
  f with the table of parameters; it says whether lua_pcall failed.\<close>

type_synonym served = "response \<times> net_event list"

definition call_failed :: "int \<Rightarrow> served \<Rightarrow> served option" where
  "call_failed client_fd s =
     (if client_fd \<ge> 0 then map_option (\<lambda>(t, _). (fst s, snd s @ [Sent client_fd t])) (net_error 500) else Some s)"

fun call_handlers :: "(u8 list \<Rightarrow> u8 list parray \<Rightarrow> served \<Rightarrow> served \<times> bool) \<Rightarrow> u8 list \<Rightarrow> int \<Rightarrow> u8 list parray \<Rightarrow> lchar list \<Rightarrow> served
    \<Rightarrow> (served \<times> bool) option" where
  "call_handlers run method client_fd params [] s = Some (s, False)"
| "call_handlers run method client_fd params (w # ws) s =
     (if req_matches (lc_req w) method then
        (let (s, failed) = run (lc_fun w) params s
         in if failed then map_option (\<lambda>s. (s, True)) (call_failed client_fd s)
            else if rs_stop (fst s) then Some (s, True)
            else call_handlers run method client_fd params ws s)
      else call_handlers run method client_fd params ws s)"

definition param_table :: "u8 list parray larray \<Rightarrow> nat \<Rightarrow> u8 list parray option" where
  "param_table params i = do {
     r \<leftarrow> larray_geti params (of_nat i);
     it \<leftarrow> (if r < 0 then None else c_load (la_arr params) (nat r));
     map_option li_value it
   }"

function dispatch :: "(u8 list \<Rightarrow> u8 list parray \<Rightarrow> served \<Rightarrow> served \<times> bool) \<Rightarrow> u8 list \<Rightarrow> int \<Rightarrow> lchar list parray
    \<Rightarrow> u8 list parray larray \<Rightarrow> nat \<Rightarrow> served \<Rightarrow> served option" where
  "dispatch run method client_fd owo params i s =
     (if i = pa_len owo then Some s
      else Option.bind (pa_at (pa_P owo) i) (\<lambda>awa. Option.bind (param_table params i) (\<lambda>par.
        Option.bind (call_handlers run method client_fd par (pe_value awa) s) (\<lambda>(s, ended).
          if ended then Some s else dispatch run method client_fd owo params (i + 1) s))))"
  by pat_completeness auto
termination
  by (relation "measure (\<lambda>(run, method, client_fd, owo, params, i, s). Suc (length (pa_P owo)) - i)")
    (auto simp: pa_at_def c_load_def split: if_splits)

declare dispatch.simps [simp del]

text \<open>From the port and the decoded path of a request to the handlers.\<close>

definition serve :: "(u8 list \<Rightarrow> u8 list parray \<Rightarrow> served \<Rightarrow> served \<times> bool) \<Rightarrow> lchar list parray \<Rightarrow> int \<Rightarrow> u8 list \<Rightarrow> u8 list
    \<Rightarrow> int \<Rightarrow> served \<Rightarrow> served option" where
  "serve run paths port pth method client_fd s = do {
     aa \<leftarrow> route_key port pth;
     (owo, params) \<leftarrow> route_match paths aa larray_init;
     dispatch run method client_fd owo params 0 s
   }"

text \<open>What handle_client does with the path of a request: the start response has the code 200; a path that
  cannot be decoded, or a server without handlers, is answered by an error; at the end the connection is
  closed unless a handler did it.\<close>

definition fresh_response :: "int \<Rightarrow> u8 list \<Rightarrow> response" where
  "fresh_response client_fd method = \<lparr>rs_client_fd = client_fd, rs_request = method,
     rs_header = [(bytes ''Code'', L_int 200)], rs_stop = False\<rparr>"

definition handle_path :: "(u8 list \<Rightarrow> u8 list parray \<Rightarrow> served \<Rightarrow> served \<times> bool) \<Rightarrow> lchar list parray option \<Rightarrow> int \<Rightarrow> str \<Rightarrow> u8 list
    \<Rightarrow> int \<Rightarrow> net_event list option" where
  "handle_path run paths port raw method client_fd = do {
     (pth, query) \<leftarrow> path_parse raw;
     (decoded_err, decoded) \<leftarrow> percent_decode pth;
     (case (if decoded_err = 1 then None else paths) of
        None \<Rightarrow> do {
          (t, _) \<leftarrow> net_error 400;
          Some [Sent client_fd t, Closed client_fd]
        }
      | Some paths \<Rightarrow> do {
          p \<leftarrow> mem_cstr (s_c decoded);
          (res, es) \<leftarrow> serve run paths port p method client_fd (fresh_response client_fd method, []);
          Some (es @ (if rs_client_fd res \<noteq> -1 then [Closed (rs_client_fd res)] else []))
        })
   }"

subsection \<open>The handlers a request reaches\<close>

definition full_key :: "int \<Rightarrow> u8 list \<Rightarrow> u8 list" where
  "full_key port pth = fmt_signed port @ c_str pth"

definition add_route :: "int \<times> u8 list \<times> u8 list \<times> u8 list \<Rightarrow> (u8 list \<times> lchar list) list \<Rightarrow> (u8 list \<times> lchar list) list" where
  "add_route r al = (case r of (port, pth, req, f) \<Rightarrow>
     AList.update (full_key port pth)
       ((case map_of al (full_key port pth) of None \<Rightarrow> [] | Some cs \<Rightarrow> cs) @ [\<lparr>lc_req = req, lc_fun = f\<rparr>]) al)"

definition port_ok :: "int \<Rightarrow> bool" where
  "port_ok port \<longleftrightarrow> length (fmt_signed port) < 10"

lemma full_key_nonzero: "0 \<notin> set (full_key port pth)"
  by (simp add: full_key_def fmt_signed_nonzero c_str_nonzero)

lemma route_key_is: "port_ok port \<Longrightarrow> route_key port pth = Some (full_key port pth)"
proof -
  assume p: "port_ok port"
  obtain a where a: "str_init (fmt_signed port) = Some a" "str_is a (fmt_signed port)" using str_init_is by blast
  obtain b where b: "str_push a (c_str pth) = Some b" "str_is b (full_key port pth)"
    using str_push_is [OF a(2) fmt_signed_nonzero] by (auto simp: full_key_def)
  then show ?thesis using p a(1) mem_cstr_str [OF b(2)] full_key_nonzero
    by (simp add: route_key_def port_ok_def c_sprintf_def c_str_id)
qed

lemma register_list:
  assumes "par_wf paths" "\<forall>(port, pth, req, f)\<in>set rs. port_ok port"
  shows "\<exists>paths'. register rs paths = Some paths' \<and> par_wf paths' \<and> par_list paths' = fold add_route rs (par_list paths)"
  using assms
proof (induction rs arbitrary: paths)
  case (Cons r rs)
  obtain port pth req f where r: "r = (port, pth, req, f)" by (cases r)
  have p: "port_ok port" using Cons.prems(2) r by simp
  obtain paths' where paths': "l_req_com port pth req f paths = Some paths'" "par_wf paths'"
    "par_list paths' = add_route r (par_list paths)"
    using parray_set_list [OF Cons.prems(1) full_key_nonzero] parray_get_list [OF Cons.prems(1) full_key_nonzero]
    by (fastforce simp: l_req_com_def route_key_is [OF p] Let_def add_route_def r)
  then show ?case using Cons.IH [OF paths'(2)] Cons.prems(2) r by simp
qed simp

text \<open>Calls one after another, up to a failure or a stop.\<close>

fun run_calls :: "(u8 list \<Rightarrow> u8 list parray \<Rightarrow> served \<Rightarrow> served \<times> bool) \<Rightarrow> int \<Rightarrow> (u8 list \<times> u8 list parray) list \<Rightarrow> served \<Rightarrow> served option" where
  "run_calls run client_fd [] s = Some s"
| "run_calls run client_fd ((f, p) # cs) s =
     (let (s, failed) = run f p s
      in if failed then call_failed client_fd s else if rs_stop (fst s) then Some s else run_calls run client_fd cs s)"

definition handler_calls :: "u8 list \<Rightarrow> lchar list \<Rightarrow> u8 list parray \<Rightarrow> (u8 list \<times> u8 list parray) list" where
  "handler_calls method ws p = map (\<lambda>w. (lc_fun w, p)) (filter (\<lambda>w. req_matches (lc_req w) method) ws)"

lemma call_handlers_run:
  "run_calls run client_fd (handler_calls method ws p @ cs) s
   = Option.bind (call_handlers run method client_fd p ws s) (\<lambda>(s, ended). if ended then Some s else run_calls run client_fd cs s)"
proof (induction ws arbitrary: s)
  case (Cons w ws)
  show ?case
  proof (cases "req_matches (lc_req w) method")
    case True
    obtain s' failed where r: "run (lc_fun w) p s = (s', failed)" by (cases "run (lc_fun w) p s")
    then show ?thesis using True Cons.IH [of s'] by (cases "call_failed client_fd s'") (simp_all add: handler_calls_def)
  next
    case False
    then show ?thesis using Cons.IH [of s] by (simp add: handler_calls_def)
  qed
qed (simp add: handler_calls_def)

lemma param_table_get: "larray_wf params \<Longrightarrow> larray_map params (of_nat i) = Some p \<Longrightarrow> param_table params i = Some p"
proof -
  assume a: "larray_wf params" "larray_map params (of_nat i) = Some p"
  obtain r where r: "larray_geti params (of_nat i) = Some r" "0 \<le> r"
    using larray_geti_ends [OF a(1), of "of_nat i"] a(2) by auto
  then show ?thesis using larray_get_map [OF a(1), of "of_nat i"] a(2)
    by (auto simp: larray_get_def param_table_def split: Option.bind_splits)
qed

lemma dispatch_run:
  assumes "owo = \<lparr>pa_P = map Some hits @ P, pa_len = length hits\<rparr>" "i \<le> length hits"
    and "\<And>j. j < length hits \<Longrightarrow> param_table params j = Some (tables ! j)" "length tables = length hits"
  shows "dispatch run method client_fd owo params i s
    = run_calls run client_fd (concat (map (\<lambda>(e, p). handler_calls method (pe_value e) p) (drop i (zip hits tables)))) s"
  using assms(2)
proof (induction "length hits - i" arbitrary: i s)
  case 0
  then show ?case using assms(1,4) by (subst dispatch.simps) simp
next
  case (Suc n)
  then have i: "i < length hits" by simp
  have at: "pa_at (pa_P owo) i = Some (hits ! i)" using i by (simp add: assms(1) pa_at_def c_load_def nth_append)
  have ne: "i \<noteq> pa_len owo" using i by (simp add: assms(1))
  have "drop i (zip hits tables) = (hits ! i, tables ! i) # drop (Suc i) (zip hits tables)"
    using i assms(4) by (simp add: Cons_nth_drop_Suc [symmetric])
  then have "run_calls run client_fd (concat (map (\<lambda>(e, p). handler_calls method (pe_value e) p) (drop i (zip hits tables)))) s
      = Option.bind (call_handlers run method client_fd (tables ! i) (pe_value (hits ! i)) s) (\<lambda>(s, ended).
          if ended then Some s
          else run_calls run client_fd (concat (map (\<lambda>(e, p). handler_calls method (pe_value e) p) (drop (Suc i) (zip hits tables)))) s)"
    by (simp add: call_handlers_run)
  also have "\<dots> = Option.bind (call_handlers run method client_fd (tables ! i) (pe_value (hits ! i)) s) (\<lambda>(s, ended).
          if ended then Some s else dispatch run method client_fd owo params (Suc i) s)"
    using Suc.hyps(1) [of "Suc i"] Suc.hyps(2) i by (simp cong: if_cong)
  also have "\<dots> = dispatch run method client_fd owo params i s"
    by (subst (2) dispatch.simps) (simp only: ne if_False at assms(3) [OF i] Option.bind.bind_lunit Suc_eq_plus1)
  finally show ?case by (rule sym)
qed

text \<open>The tables of parameters of the hits, under their places.\<close>

lemma map_of_rev: "distinct (map fst xs) \<Longrightarrow> map_of (rev xs) = map_of xs"
proof (induction xs)
  case (Cons x xs)
  then have "fst x \<notin> dom (map_of xs)" by (simp add: dom_map_of_conv_image_fst)
  then show ?case using Cons by (auto simp: map_add_def fun_eq_iff domIff split: option.split)
qed simp

lemma numbered_at:
  assumes "larray.set_all (numbered 0 ts) larray_init = Some params" "length ts < 2 ^ 64" "j < length ts"
  shows "param_table params j = Some (ts ! j)"
proof -
  have w: "larray_wf params" "larray_map params = larray_map larray_init ++ map_of (rev (numbered 0 ts))"
    using larray.set_all_contents [OF _ larray_init_wf(1) assms(1)] by simp_all
  have inj: "inj_on (of_nat :: nat \<Rightarrow> u64) (set [0..<length ts])"
  proof (rule inj_onI)
    fix x y assume xy: "x \<in> set [0..<length ts]" "y \<in> set [0..<length ts]" "(of_nat x :: u64) = of_nat y"
    then have "unat (of_nat x :: u64) = unat (of_nat y :: u64)" by simp
    moreover have "x < 2 ^ 64" "y < 2 ^ 64" using xy(1,2) assms(2) by simp_all
    ultimately show "x = y" by (simp add: unat_of_nat)
  qed
  then have d: "distinct (map (of_nat :: nat \<Rightarrow> u64) [0..<length ts])" by (simp add: distinct_map)
  have "map_of (zip (map of_nat [0..<length ts]) ts) ((map (of_nat :: nat \<Rightarrow> u64) [0..<length ts]) ! j) = Some (ts ! j)"
    by (rule map_of_zip_nth) (use d assms(3) in simp_all)
  then have "map_of (numbered 0 ts) (of_nat j) = Some (ts ! j)" using assms(3) by (simp add: numbered_def)
  moreover have "distinct (map fst (numbered 0 ts))" using d by (simp add: numbered_def)
  then have "map_of (rev (numbered 0 ts)) = map_of (numbered 0 ts)" by (rule map_of_rev)
  ultimately have "larray_map params (of_nat j) = Some (ts ! j)" unfolding w(2) by simp
  then show ?thesis using param_table_get [OF w(1)] by blast
qed

definition route_table :: "u8 list \<Rightarrow> u8 list \<Rightarrow> u8 list parray" where
  "route_table request k = snd (the (match_param (k @ [0]) (request @ [0]) parray_init))"

definition route_matches :: "u8 list \<Rightarrow> u8 list \<times> lchar list \<Rightarrow> bool" where
  "route_matches request kw = pm (the (ptoks (fst kw))) request"

lemma serve_run:
  assumes "par_wf paths" "\<forall>k\<in>fst ` set (par_list paths). ptoks k \<noteq> None" "port_ok port"
    and "length (filter (route_matches (full_key port p)) (par_list paths)) < 2 ^ 64"
    and "larray.set_all (numbered 0 (map (\<lambda>kw. route_table (full_key port p) (fst kw)) (filter (route_matches (full_key port p)) (par_list paths))))
      larray_init \<noteq> None"
  shows "serve run paths port p method client_fd s = run_calls run client_fd
    (concat (map (\<lambda>kw. handler_calls method (snd kw) (route_table (full_key port p) (fst kw)))
      (filter (route_matches (full_key port p)) (par_list paths)))) s"
proof -
  let ?r = "full_key port p"
  let ?hits = "route_hits ?r (par_elems paths)"
  have hits: "map par_pair ?hits = filter (route_matches ?r) (par_list paths)"
    by (simp add: route_hits_def par_list_def filter_map o_def route_matches_def route_toks_def)
  have "route_params ?r e = route_table ?r (fst (par_pair e))" for e :: "lchar list pelem"
    by (simp add: route_params_def route_table_def)
  then have tables: "map (route_params ?r) ?hits = map (\<lambda>kw. route_table ?r (fst kw)) (filter (route_matches ?r) (par_list paths))"
    by (simp add: hits [symmetric])
  have "\<forall>e\<in>set (par_elems paths). route_ok e" using assms(2) by (auto simp: route_ok_def par_list_def)
  then obtain P where r: "route_match paths ?r larray_init = map_option (Pair \<lparr>pa_P = map Some ?hits @ P, pa_len = length ?hits\<rparr>)
      (larray.set_all (numbered 0 (map (route_params ?r) ?hits)) larray_init)"
    using route_match_hits [OF assms(1) _ full_key_nonzero] by blast
  obtain params where params: "larray.set_all (numbered 0 (map (route_params ?r) ?hits)) larray_init = Some params"
    using assms(5) unfolding tables by blast
  have len: "length ?hits = length (filter (route_matches ?r) (par_list paths))" by (simp add: hits [symmetric])
  have at: "param_table params j = Some (map (route_params ?r) ?hits ! j)" if "j < length ?hits" for j
    using numbered_at [OF params, of j] assms(4) len that by simp
  have "serve run paths port p method client_fd s
      = dispatch run method client_fd \<lparr>pa_P = map Some ?hits @ P, pa_len = length ?hits\<rparr> params 0 s"
    unfolding serve_def route_key_is [OF assms(3)] by (simp add: r params)
  also have "\<dots> = run_calls run client_fd
      (concat (map (\<lambda>(e, p). handler_calls method (pe_value e) p) (drop 0 (zip ?hits (map (route_params ?r) ?hits))))) s"
    by (rule dispatch_run [OF refl _ at]) simp_all
  also have "concat (map (\<lambda>(e, p). handler_calls method (pe_value e) p) (drop 0 (zip ?hits (map (route_params ?r) ?hits))))
      = concat (map (\<lambda>kw. handler_calls method (snd kw) (route_table ?r (fst kw))) (map par_pair ?hits))"
    by (simp add: zip_map2 zip_same_conv_map o_def par_pair_def route_params_def route_table_def)
  finally show ?thesis unfolding hits .
qed

section \<open>Properties\<close>



text \<open>C13: When handlers were registered with l_req_com, a request for a path, percent-encoded and with or
  without a query, runs exactly the handlers that are registered for its method (or for all, or for GET
  when the method is HEAD) on a route that matches the port and the path, route by route and in the
  order of registration, each with the parameters of its route, up to a failing handler or one that
  stops; then the connection is closed unless a handler did.\<close>
theorem requests_reach_handlers:
  fixes regs port q
  defines "hits \<equiv> filter (route_matches (full_key port q)) (fold add_route regs [])"
  assumes "\<forall>(port, pth, req, f)\<in>set regs. port_ok port" and "port_ok port"
    and "\<forall>k\<in>fst ` set (fold add_route regs []). ptoks k \<noteq> None"
    and "length hits < 2 ^ 64"
    and "larray.set_all (numbered 0 (map (\<lambda>kw. route_table (full_key port q) (fst kw)) hits)) larray_init \<noteq> None"
    and "hex_digits digit" and "esc 37" and "\<not> esc 0" and "\<forall>b\<in>set (percent_encode esc digit q). \<not> separator b" and "0 \<notin> set q"
    and "\<forall>kv\<in>set query. query_ok kv"
    and "str_is raw (percent_encode esc digit q @ (if query = [] then [] else 63 # query_text query))"
  shows "\<exists>paths. register regs parray_init = Some paths
    \<and> handle_path run (Some paths) port raw method client_fd
      = map_option (\<lambda>(res, es). es @ (if rs_client_fd res \<noteq> -1 then [Closed (rs_client_fd res)] else []))
          (run_calls run client_fd
            (concat (map (\<lambda>kw. handler_calls method (snd kw) (route_table (full_key port q) (fst kw))) hits))
            (fresh_response client_fd method, []))"
proof -
  obtain paths where paths: "register regs parray_init = Some paths" "par_wf paths" "par_list paths = fold add_route regs []"
    using register_list [OF parray_init_wf assms(2)] by (auto simp: parray_init_list)
  let ?e = "percent_encode esc digit q"
  obtain p query' z where p: "path_parse raw = Some (p, query')" "str_is p (?e @ z)" "z = [] \<or> z = [0]"
  proof (cases "query = []")
    case True
    then have "str_is raw ?e" using assms(13) by simp
    from path_parse_plain [OF this assms(10)] that show ?thesis by blast
  next
    case False
    then have "str_is raw (?e @ [63] @ query_text query)" using assms(13) by simp
    from path_parse_query [OF this assms(10,12) False] that [of _ _ "[]"] show ?thesis by auto
  qed
  have "?e @ z = percent_encode esc digit (q @ z)" using p(3) assms(9) by (auto simp: percent_encode_def)
  moreover have "\<forall>b\<in>set (q @ z). esc b \<longrightarrow> b \<noteq> 0" using assms(9) by auto
  ultimately obtain d where d: "percent_decode p = Some (0, d)" "str_is d ((q @ z) @ [0])"
    using percent_decode_encoded [where esc = esc and digit = digit and xs = "q @ z" and input = p] assms(7,8) p(2) by metis
  have "c_str (z @ [0]) = []" using p(3) by (auto simp: c_str_def)
  then have "c_str ((q @ z) @ [0]) = q" using c_str_append_nonzero [OF assms(11), of "z @ [0]"] by simp
  then have m: "mem_cstr (s_c d) = Some q" using mem_cstr_str [OF d(2)] by simp
  have "serve run paths port q method client_fd s = run_calls run client_fd
      (concat (map (\<lambda>kw. handler_calls method (snd kw) (route_table (full_key port q) (fst kw))) hits)) s" for s
    using serve_run [OF paths(2) _ assms(3), of q run "method" client_fd s] assms(4-6) unfolding hits_def paths(3) by blast
  then have "handle_path run (Some paths) port raw method client_fd
      = map_option (\<lambda>(res, es). es @ (if rs_client_fd res \<noteq> -1 then [Closed (rs_client_fd res)] else []))
          (run_calls run client_fd
            (concat (map (\<lambda>kw. handler_calls method (snd kw) (route_table (full_key port q) (fst kw))) hits))
            (fresh_response client_fd method, []))"
    using p(1) d(1) m by (simp add: handle_path_def map_conv_bind_option o_def split_def)
  then show ?thesis using paths(1) by blast
qed

text \<open>Three handlers, two of which a request GET /a reaches; each only sends its name.\<close>

definition sample_run :: "u8 list \<Rightarrow> u8 list parray \<Rightarrow> served \<Rightarrow> served \<times> bool" where
  "sample_run f params s = ((fst s, snd s @ [Sent (rs_client_fd (fst s)) f]), False)"

definition sample_regs :: "(int \<times> u8 list \<times> u8 list \<times> u8 list) list" where
  "sample_regs = [(80, bytes ''/*'', bytes ''all'', bytes ''f''), (80, bytes ''/b'', bytes ''GET'', bytes ''g''),
     (80, bytes ''/a'', bytes ''GET'', bytes ''h'')]"

definition sample_hits :: "(u8 list \<times> lchar list) list" where
  "sample_hits = [(bytes ''80/*'', [\<lparr>lc_req = bytes ''all'', lc_fun = bytes ''f''\<rparr>]),
     (bytes ''80/a'', [\<lparr>lc_req = bytes ''GET'', lc_fun = bytes ''h''\<rparr>])]"

lemma sample_reached: "filter (route_matches (full_key 80 (bytes ''/a''))) (fold add_route sample_regs []) = sample_hits"
  by code_simp

lemma two_tables: "larray.set_all [(0, t), (1, u)] larray_init \<noteq> None"
  unfolding larray.set_all.simps by code_simp

lemma requests_reach_handlers_witness:
  "\<exists>raw paths. str_init (bytes ''/a'') = Some raw \<and> register sample_regs parray_init = Some paths
    \<and> handle_path sample_run (Some paths) 80 raw (bytes ''GET'') 5 = Some [Sent 5 (bytes ''f''), Sent 5 (bytes ''h''), Closed 5]"
proof -
  let ?hits = "filter (route_matches (full_key 80 (bytes ''/a''))) (fold add_route sample_regs [])"
  obtain raw where raw: "str_init (bytes ''/a'') = Some raw" "str_is raw (bytes ''/a'')" using str_init_is by blast
  have ports: "\<forall>(port, pth, req, f)\<in>set sample_regs. port_ok port" "port_ok 80"
    "\<forall>k\<in>fst ` set (fold add_route sample_regs []). ptoks k \<noteq> None" by code_simp+
  have len: "length ?hits < 2 ^ 64" unfolding sample_reached by (simp add: sample_hits_def)
  have tables: "larray.set_all (numbered 0 (map (\<lambda>kw. route_table (full_key 80 (bytes ''/a'')) (fst kw)) ?hits)) larray_init \<noteq> None"
    unfolding sample_reached using two_tables by (simp add: sample_hits_def numbered_def upt_rec del: larray.set_all.simps)
  have z: "\<not> ((0 :: u8) = 37)" by simp
  have enc: "percent_encode (\<lambda>b. b = 37) hex_code (bytes ''/a'') = bytes ''/a''" by code_simp
  have q: "\<forall>b\<in>set (percent_encode (\<lambda>b. b = 37) hex_code (bytes ''/a'')). \<not> separator b" "0 \<notin> set (bytes ''/a'')"
    "\<forall>kv\<in>set []. query_ok kv" by code_simp+
  have r: "str_is raw (percent_encode (\<lambda>b. b = 37) hex_code (bytes ''/a'') @ (if [] = [] then [] else 63 # query_text []))"
    using raw(2) by (simp add: enc)
  obtain paths where paths: "register sample_regs parray_init = Some paths"
    "handle_path sample_run (Some paths) 80 raw (bytes ''GET'') 5
      = map_option (\<lambda>(res, es). es @ (if rs_client_fd res \<noteq> -1 then [Closed (rs_client_fd res)] else []))
          (run_calls sample_run 5
            (concat (map (\<lambda>kw. handler_calls (bytes ''GET'') (snd kw) (route_table (full_key 80 (bytes ''/a'')) (fst kw))) ?hits))
            (fresh_response 5 (bytes ''GET''), []))"
    using requests_reach_handlers [OF ports(1,2,3) len tables hex_digits_code refl z q r, of sample_run "bytes ''GET''" 5] by blast
  have m: "req_matches (bytes ''all'') (bytes ''GET'')" "req_matches (bytes ''GET'') (bytes ''GET'')" by code_simp+
  have "handle_path sample_run (Some paths) 80 raw (bytes ''GET'') 5 = Some [Sent 5 (bytes ''f''), Sent 5 (bytes ''h''), Closed 5]"
    unfolding paths(2) sample_reached
    by (simp add: sample_hits_def handler_calls_def m sample_run_def fresh_response_def)
  then show ?thesis using raw(1) paths(1) by blast
qed

end
