(* ===== verification/Threads.thy ===== *)
theory Threads
  imports LArray
begin

text \<open>
  The locks of \<open>src/src/thread.c\<close>: llby.thread.lock and unlock take the mutex of an index from a table
  that all threads share.  The table is guarded by thread_lock_lock; a thread that waits for the mutex
  of an index holds thread_priority_lock.  The threads are a step relation whose steps are the calls
  on mutexes, with what a thread does between two of them.
\<close>

section \<open>Model\<close>

text \<open>Where a thread is: in l_tlock (\<open>L\<close>) or l_tunlock (\<open>U\<close>) with the index, the slot of the table and the
  address of the mutex, or outside of both.\<close>

datatype tpc = Idle
  | L_lock u64 | L_find u64 | L_prio u64 nat nat | L_release u64 nat nat | L_wait u64 nat nat
  | L_relock u64 nat nat | L_unprio u64 nat nat | L_store u64 nat nat | L_done u64
  | U_lock u64 | U_find u64 | U_done u64

text \<open>A mutex is held by a thread or free.  \<open>ls_in\<close> is not in the code: the indices a thread has locked and
  not asked to unlock since.\<close>

record lsys =
  ls_table :: "nat larray option"
  ls_lk :: "nat option"
  ls_prio :: "nat option"
  ls_mx :: "nat \<Rightarrow> nat option"
  ls_fresh :: nat
  ls_pc :: "nat \<Rightarrow> tpc"
  ls_in :: "nat \<Rightarrow> u64 set"

definition ls_init :: lsys where
  "ls_init = \<lparr>ls_table = None, ls_lk = None, ls_prio = None, ls_mx = (\<lambda>_. None), ls_fresh = 0,
     ls_pc = (\<lambda>_. Idle), ls_in = (\<lambda>_. {})\<rparr>"

definition ls_go :: "nat \<Rightarrow> tpc \<Rightarrow> lsys \<Rightarrow> lsys" where
  "ls_go t pc s = s\<lparr>ls_pc := (ls_pc s)(t := pc)\<rparr>"

text \<open>Reading and writing arr[i].value.\<close>

definition slot_value :: "'v larray \<Rightarrow> nat \<Rightarrow> 'v option" where
  "slot_value l i = Option.bind (c_load (la_arr l) i) (map_option li_value)"

definition slot_put :: "'v larray \<Rightarrow> nat \<Rightarrow> 'v \<Rightarrow> 'v larray option" where
  "slot_put l i v = Option.bind (c_load (la_arr l) i) (\<lambda>it.
     map_option (\<lambda>arr. l\<lparr>la_arr := arr\<rparr>) (c_store (la_arr l) i
       (Some (case it of None \<Rightarrow> \<lparr>li_idx = 0, li_value = v, li_used = False\<rparr> | Some e \<Rightarrow> e\<lparr>li_value := v\<rparr>))))"

definition tlock_find :: "nat \<Rightarrow> u64 \<Rightarrow> lsys \<Rightarrow> lsys option" where
  "tlock_find t idx s =
     (let table = (case ls_table s of None \<Rightarrow> larray_init | Some l \<Rightarrow> l)
      in Option.bind (larray_geti table idx) (\<lambda>i.
        if i = -1 then Option.bind (larray_set table idx (ls_fresh s)) (\<lambda>(table, _).
          Some (ls_go t (L_done idx) (s\<lparr>ls_table := Some table, ls_mx := (ls_mx s)(ls_fresh s := Some t), ls_fresh := ls_fresh s + 1\<rparr>)))
        else Option.bind (slot_value table (nat i)) (\<lambda>m.
          Some (ls_go t (L_prio idx (nat i) m) (s\<lparr>ls_table := Some table\<rparr>)))))"

definition tunlock_find :: "nat \<Rightarrow> u64 \<Rightarrow> lsys \<Rightarrow> lsys option" where
  "tunlock_find t idx s = (case ls_table s of
       None \<Rightarrow> Some (ls_go t (U_done idx) s)
     | Some table \<Rightarrow> Option.bind (larray_geti table idx) (\<lambda>i.
         if i = -1 then Some (ls_go t (U_done idx) s)
         else Option.bind (slot_value table (nat i)) (\<lambda>m. Option.bind (slot_put table (nat i) m) (\<lambda>table.
           Some (ls_go t (U_done idx) (s\<lparr>ls_mx := (ls_mx s)(m := None), ls_table := Some table\<rparr>))))))"

text \<open>The next step of a thread; None when it waits for a mutex or is outside.\<close>

fun lt_step :: "nat \<Rightarrow> tpc \<Rightarrow> lsys \<Rightarrow> lsys option" where
  "lt_step t Idle s = None"
| "lt_step t (L_lock idx) s = (if ls_lk s = None then Some (ls_go t (L_find idx) (s\<lparr>ls_lk := Some t\<rparr>)) else None)"
| "lt_step t (L_find idx) s = tlock_find t idx s"
| "lt_step t (L_prio idx i m) s = (if ls_prio s = None then Some (ls_go t (L_release idx i m) (s\<lparr>ls_prio := Some t\<rparr>)) else None)"
| "lt_step t (L_release idx i m) s = Some (ls_go t (L_wait idx i m) (s\<lparr>ls_lk := None\<rparr>))"
| "lt_step t (L_wait idx i m) s =
     (if ls_mx s m = None then Some (ls_go t (L_relock idx i m) (s\<lparr>ls_mx := (ls_mx s)(m := Some t)\<rparr>)) else None)"
| "lt_step t (L_relock idx i m) s = (if ls_lk s = None then Some (ls_go t (L_unprio idx i m) (s\<lparr>ls_lk := Some t\<rparr>)) else None)"
| "lt_step t (L_unprio idx i m) s = Some (ls_go t (L_store idx i m) (s\<lparr>ls_prio := None\<rparr>))"
| "lt_step t (L_store idx i m) s = (case ls_table s of None \<Rightarrow> None
     | Some table \<Rightarrow> map_option (\<lambda>table. ls_go t (L_done idx) (s\<lparr>ls_table := Some table\<rparr>)) (slot_put table i m))"
| "lt_step t (L_done idx) s = Some (ls_go t Idle (s\<lparr>ls_lk := None, ls_in := (ls_in s)(t := insert idx (ls_in s t))\<rparr>))"
| "lt_step t (U_lock idx) s = (if ls_lk s = None then Some (ls_go t (U_find idx) (s\<lparr>ls_lk := Some t\<rparr>)) else None)"
| "lt_step t (U_find idx) s = tunlock_find t idx s"
| "lt_step t (U_done idx) s = Some (ls_go t Idle (s\<lparr>ls_lk := None\<rparr>))"

text \<open>A thread may lock any index, and unlock one it has locked.\<close>

inductive lstep :: "lsys \<Rightarrow> lsys \<Rightarrow> bool" where
  call_lock: "ls_pc s t = Idle \<Longrightarrow> lstep s (ls_go t (L_lock idx) s)"
| call_unlock: "ls_pc s t = Idle \<Longrightarrow> idx \<in> ls_in s t \<Longrightarrow>
     lstep s (ls_go t (U_lock idx) (s\<lparr>ls_in := (ls_in s)(t := ls_in s t - {idx})\<rparr>))"
| inner: "lt_step t (ls_pc s t) s = Some s' \<Longrightarrow> lstep s s'"

inductive lreach :: "lsys \<Rightarrow> bool" where
  lreach_init: "lreach ls_init"
| lreach_step: "lreach s \<Longrightarrow> lstep s s' \<Longrightarrow> lreach s'"

text \<open>The runs in which the table keeps its first size.\<close>

definition ls_size :: "lsys \<Rightarrow> nat" where
  "ls_size s = (case ls_table s of None \<Rightarrow> 4 | Some l \<Rightarrow> la_size l)"

inductive lcalm :: "lsys \<Rightarrow> bool" where
  lcalm_init: "lcalm ls_init"
| lcalm_step: "lcalm s \<Longrightarrow> lstep s s' \<Longrightarrow> ls_size s' = ls_size s \<Longrightarrow> lcalm s'"

section \<open>Who holds the two locks\<close>

fun has_lk :: "tpc \<Rightarrow> bool" where
  "has_lk (L_find _) = True" | "has_lk (L_prio _ _ _) = True" | "has_lk (L_release _ _ _) = True"
| "has_lk (L_unprio _ _ _) = True" | "has_lk (L_store _ _ _) = True" | "has_lk (L_done _) = True"
| "has_lk (U_find _) = True" | "has_lk (U_done _) = True" | "has_lk _ = False"

fun has_prio :: "tpc \<Rightarrow> bool" where
  "has_prio (L_release _ _ _) = True" | "has_prio (L_wait _ _ _) = True" | "has_prio (L_relock _ _ _) = True"
| "has_prio (L_unprio _ _ _) = True" | "has_prio _ = False"

definition owners :: "lsys \<Rightarrow> bool" where
  "owners s \<longleftrightarrow> (\<forall>t. ls_lk s = Some t \<longleftrightarrow> has_lk (ls_pc s t)) \<and> (\<forall>t. ls_prio s = Some t \<longleftrightarrow> has_prio (ls_pc s t))"

lemmas go_simps = ls_go_def tlock_find_def tunlock_find_def

lemma owners_inner:
  assumes "owners s" "lt_step t (ls_pc s t) s = Some s'"
  shows "owners s'"
proof -
  have lk: "ls_lk s = Some u \<longleftrightarrow> has_lk (ls_pc s u)" and pr: "ls_prio s = Some u \<longleftrightarrow> has_prio (ls_pc s u)" for u
    using assms(1) by (simp_all add: owners_def)
  have lkN: "ls_lk s = None \<Longrightarrow> \<not> has_lk (ls_pc s u)" and prN: "ls_prio s = None \<Longrightarrow> \<not> has_prio (ls_pc s u)" for u
    using lk [of u] pr [of u] by auto
  have lkt: "has_lk (ls_pc s t) \<Longrightarrow> u \<noteq> t \<Longrightarrow> \<not> has_lk (ls_pc s u)"
    and prt: "has_prio (ls_pc s t) \<Longrightarrow> u \<noteq> t \<Longrightarrow> \<not> has_prio (ls_pc s u)" for u
    using lk pr by (metis option.inject)+
  show ?thesis
    using assms(2) lk pr lkN prN lkt prt lk [of t] pr [of t]
    by (cases "ls_pc s t")
      (auto simp: owners_def go_simps Let_def split: if_splits option.splits Option.bind_splits)
qed

lemma owners_step: "lstep s s' \<Longrightarrow> owners s \<Longrightarrow> owners s'"
proof (induction rule: lstep.induct)
  case (call_lock s t idx)
  then have "\<not> has_lk (ls_pc s t)" "\<not> has_prio (ls_pc s t)" by simp_all
  then show ?case using call_lock(2) by (auto simp: owners_def ls_go_def)
next
  case (call_unlock s t idx)
  then have "\<not> has_lk (ls_pc s t)" "\<not> has_prio (ls_pc s t)" by simp_all
  then show ?case using call_unlock(3) by (auto simp: owners_def ls_go_def)
next
  case (inner t s s')
  then show ?case by (blast intro: owners_inner)
qed

lemma lreach_owners: "lreach s \<Longrightarrow> owners s"
proof (induction rule: lreach.induct)
  case lreach_init
  show ?case by (simp add: owners_def ls_init_def)
qed (blast intro: owners_step)

section \<open>The table while it keeps its size\<close>

lemma expand_items_size:
  assumes "\<And>l k v l' j. f l k v = Some (l', j) \<Longrightarrow> la_size l \<le> la_size l'" "expand_items f items r = Some r'"
  shows "la_size r \<le> la_size r'"
  using assms(2)
proof (induction items arbitrary: r)
  case (Cons it items)
  then show ?case using assms(1) by (force split: option.splits if_splits Option.bind_splits)
qed simp

lemma larray_go_size: "larray_go n e l idx v = Some (l', j) \<Longrightarrow> la_size l \<le> la_size l'"
proof (induction n arbitrary: e l idx v l' j)
  case (Suc n)
  have "la_size l \<le> la_size l'" if bound: "Option.bind (larray_expand (larray_go n False) l) (\<lambda>l. larray_go n True l idx v) = Some (l', j)"
  proof -
    obtain r where r: "larray_expand (larray_go n False) l = Some r" "larray_go n True r idx v = Some (l', j)"
      using bound by (auto simp: bind_eq_Some_conv)
    have "la_size (larray_initl (la_size l * 4) :: 'a larray) \<le> la_size r"
      using r(1) by (intro expand_items_size [OF Suc.IH]) (auto simp: larray_expand_def split: if_splits)
    then show ?thesis using Suc.IH [OF r(2)] by (simp add: larray_initl_def)
  qed
  then show ?case using Suc.prems by (auto simp: Let_def larray_store_def split: if_splits probe.splits)
qed simp

text \<open>Setting a new index without growing changes no slot in use.\<close>

lemma larray_set_keeps:
  assumes "larray_wf l" "larray_map l idx = None" "larray_set l idx v = Some (l', j)" "la_size l' = la_size l"
    and "c_load (la_arr l) k = Some (Some it)" "li_used it"
  shows "c_load (la_arr l') k = Some (Some it)"
proof -
  have size: "la_size l = length (la_arr l)" and wf: "oa_wf unat (item_slots (la_arr l))" and ok: "larray_ok l idx"
    using assms(1) by (simp_all add: larray_wf_def larray_ok_def)
  have k: "k < length (la_arr l)" "la_arr l ! k = Some it" using assms(5) by (simp_all add: c_load_def split: if_splits)
  have pos: "0 < la_size l" using k(1) size by linarith
  let ?probe = "larray_probe 11 l idx (unat idx mod la_size l) (unat idx mod la_size l)"
  have "Option.bind (larray_expand (larray_go 15 False) l) (\<lambda>l. larray_go 15 True l idx v) \<noteq> Some (l', j)"
  proof
    assume "Option.bind (larray_expand (larray_go 15 False) l) (\<lambda>l. larray_go 15 True l idx v) = Some (l', j)"
    then obtain r where r: "larray_expand (larray_go 15 False) l = Some r" "larray_go 15 True r idx v = Some (l', j)"
      by (auto simp: bind_eq_Some_conv)
    have "la_size (larray_initl (la_size l * 4) :: 'a larray) \<le> la_size r"
      using r(1) by (intro expand_items_size [OF larray_go_size]) (auto simp: larray_expand_def split: if_splits)
    then show False using larray_go_size [OF r(2)] assms(4) pos by (simp add: larray_initl_def)
  qed
  moreover have "larray_go (Suc 15) False l idx v = Some (l', j)" using assms(3) by (simp add: larray_set_def)
  ultimately have "?probe = Slot j \<and> l' = larray_store l j idx v"
    unfolding larray_go.simps(2) by (auto simp: Let_def split: if_splits probe.splits)
  moreover from this obtain d where "j = oa_pos unat (item_slots (la_arr l)) idx d" "j < length (la_arr l)"
      "item_slots (la_arr l) ! j = None \<or> (\<exists>w. item_slots (la_arr l) ! j = Some (idx, w))"
    using larray_probe_Slot [OF ok pos] slot_inside by metis
  moreover have "item_slots (la_arr l) ! j \<noteq> Some (idx, w)" if "j < length (la_arr l)" for w
    using that assms(2) nth_mem [of j "item_slots (la_arr l)"] by (metis larray_map_def length_slots oa_map_None)
  ultimately have "l' = larray_store l j idx v" "item_slots (la_arr l) ! j = None" "j < length (la_arr l)" by auto
  moreover from this have "j \<noteq> k" using k assms(6) by (auto simp: nth_slots split: if_splits)
  ultimately show ?thesis using k by (simp add: larray_store_def c_mem)
qed

section \<open>Mutual exclusion\<close>

fun pc_owns :: "tpc \<Rightarrow> u64 \<Rightarrow> bool" where
  "pc_owns (L_relock x _ _) idx = (x = idx)" | "pc_owns (L_unprio x _ _) idx = (x = idx)"
| "pc_owns (L_store x _ _) idx = (x = idx)" | "pc_owns (L_done x) idx = (x = idx)"
| "pc_owns (U_lock x) idx = (x = idx)" | "pc_owns (U_find x) idx = (x = idx)" | "pc_owns _ idx = False"

fun pc_slot :: "tpc \<Rightarrow> (u64 \<times> nat \<times> nat) option" where
  "pc_slot (L_prio x i m) = Some (x, i, m)" | "pc_slot (L_release x i m) = Some (x, i, m)"
| "pc_slot (L_wait x i m) = Some (x, i, m)" | "pc_slot (L_relock x i m) = Some (x, i, m)"
| "pc_slot (L_unprio x i m) = Some (x, i, m)" | "pc_slot (L_store x i m) = Some (x, i, m)" | "pc_slot _ = None"

definition item_at :: "nat larray \<Rightarrow> u64 \<Rightarrow> nat \<Rightarrow> nat \<Rightarrow> bool" where
  "item_at tab idx i m \<longleftrightarrow> c_load (la_arr tab) i = Some (Some \<lparr>li_idx = idx, li_value = m, li_used = True\<rparr>)"

text \<open>A thread owns an index while it holds the mutex the table has for it.\<close>

definition wants :: "lsys \<Rightarrow> nat \<Rightarrow> u64 \<Rightarrow> bool" where
  "wants s t idx \<longleftrightarrow> idx \<in> ls_in s t \<or> pc_owns (ls_pc s t) idx"

definition holds_mutex :: "lsys \<Rightarrow> nat \<Rightarrow> u64 \<Rightarrow> bool" where
  "holds_mutex s t idx \<longleftrightarrow> (\<exists>tab m. ls_table s = Some tab \<and> larray_map tab idx = Some m \<and> ls_mx s m = Some t)"

definition table_ok :: "nat larray \<Rightarrow> nat \<Rightarrow> bool" where
  "table_ok tab fresh \<longleftrightarrow> larray_wf tab \<and> (\<forall>i m. larray_map tab i = Some m \<longrightarrow> m < fresh)
     \<and> (\<forall>i j m. larray_map tab i = Some m \<and> larray_map tab j = Some m \<longrightarrow> i = j)"

definition calm_inv :: "lsys \<Rightarrow> bool" where
  "calm_inv s \<longleftrightarrow> owners s \<and> (\<forall>tab. ls_table s = Some tab \<longrightarrow> table_ok tab (ls_fresh s))
     \<and> (\<forall>t idx i m. pc_slot (ls_pc s t) = Some (idx, i, m) \<longrightarrow> (\<exists>tab. ls_table s = Some tab \<and> item_at tab idx i m))
     \<and> (\<forall>t idx. wants s t idx \<longrightarrow> holds_mutex s t idx)
     \<and> (\<forall>t idx. ls_pc s t = U_lock idx \<or> ls_pc s t = U_find idx \<longrightarrow> idx \<notin> ls_in s t)"

lemma calm_invD:
  assumes "calm_inv s"
  shows "owners s" "ls_table s = Some tab \<Longrightarrow> table_ok tab (ls_fresh s)"
    "pc_slot (ls_pc s t) = Some (idx, i, m) \<Longrightarrow> \<exists>tab. ls_table s = Some tab \<and> item_at tab idx i m"
    "wants s t idx \<Longrightarrow> holds_mutex s t idx"
    "ls_pc s t = U_lock idx \<or> ls_pc s t = U_find idx \<Longrightarrow> idx \<notin> ls_in s t"
  using assms unfolding calm_inv_def by blast+

lemma calm_invI:
  assumes "owners s" "\<And>tab. ls_table s = Some tab \<Longrightarrow> table_ok tab (ls_fresh s)"
    "\<And>t idx i m. pc_slot (ls_pc s t) = Some (idx, i, m) \<Longrightarrow> \<exists>tab. ls_table s = Some tab \<and> item_at tab idx i m"
    "\<And>t idx. wants s t idx \<Longrightarrow> holds_mutex s t idx"
    "\<And>t idx. ls_pc s t = U_lock idx \<or> ls_pc s t = U_find idx \<Longrightarrow> idx \<notin> ls_in s t"
  shows "calm_inv s"
  using assms unfolding calm_inv_def by blast

lemma item_map:
  assumes "larray_wf tab" "item_at tab idx i m"
  shows "larray_map tab idx = Some m"
proof -
  have i: "i < length (la_arr tab)" "la_arr tab ! i = Some \<lparr>li_idx = idx, li_value = m, li_used = True\<rparr>"
    using assms(2) by (simp_all add: item_at_def c_load_def split: if_splits)
  then have "item_slots (la_arr tab) ! i = Some (idx, m)" by (simp add: nth_slots)
  then have "Some (idx, m) \<in> set (item_slots (la_arr tab))" using i(1) nth_mem [of i "item_slots (la_arr tab)"] by simp
  moreover have "oa_wf unat (item_slots (la_arr tab))" using assms(1) by (simp add: larray_wf_def)
  ultimately show ?thesis unfolding larray_map_def by (simp add: oa_wf_keys)
qed

lemma item_found:
  assumes "larray_wf tab" "larray_geti tab idx = Some i" "i \<noteq> -1"
  shows "\<exists>m. larray_map tab idx = Some m \<and> item_at tab idx (nat i) m \<and> slot_value tab (nat i) = Some m"
proof -
  obtain m where m: "larray_map tab idx = Some m" "nat i < length (la_arr tab)" "item_slots (la_arr tab) ! nat i = Some (idx, m)"
    using larray_geti_ends [OF assms(1), of idx] assms(2,3) by (auto split: option.splits)
  then obtain it where "la_arr tab ! nat i = Some it" "li_used it" "li_idx it = idx" "li_value it = m"
    by (auto simp: nth_slots split: option.splits if_splits)
  then have "la_arr tab ! nat i = Some \<lparr>li_idx = idx, li_value = m, li_used = True\<rparr>" by (cases it) simp
  then show ?thesis using m by (simp add: item_at_def slot_value_def c_mem)
qed

lemma slot_put_same: "item_at tab idx i m \<Longrightarrow> slot_put tab i m = Some tab"
  by (cases tab) (auto simp: item_at_def slot_put_def c_load_def c_store_def list_update_same_conv split: if_splits)

lemma calm_frame:
  assumes "calm_inv s" "owners s'" "ls_table s' = ls_table s" "ls_mx s' = ls_mx s" "ls_fresh s' = ls_fresh s"
    "\<And>u. u \<noteq> t \<Longrightarrow> ls_pc s' u = ls_pc s u" "\<And>u. u \<noteq> t \<Longrightarrow> ls_in s' u = ls_in s u"
    "pc_slot (ls_pc s' t) = None \<or> pc_slot (ls_pc s' t) = pc_slot (ls_pc s t)"
    "\<And>idx. wants s' t idx \<Longrightarrow> wants s t idx"
    "\<And>idx. ls_pc s' t = U_lock idx \<or> ls_pc s' t = U_find idx \<Longrightarrow> idx \<notin> ls_in s' t"
  shows "calm_inv s'"
proof (rule calm_invI)
  fix u idx i m tab
  show "ls_table s' = Some tab \<Longrightarrow> table_ok tab (ls_fresh s')" using calm_invD(2) [OF assms(1)] assms(3,5) by simp
  assume "pc_slot (ls_pc s' u) = Some (idx, i, m)"
  then have "pc_slot (ls_pc s u) = Some (idx, i, m)" using assms(6,8) by (cases "u = t") auto
  then show "\<exists>tab. ls_table s' = Some tab \<and> item_at tab idx i m" unfolding assms(3) by (rule calm_invD(3) [OF assms(1)])
next
  fix u idx
  assume "wants s' u idx"
  then have "wants s u idx" using assms(6,7,9) by (cases "u = t") (simp_all add: wants_def)
  then have "holds_mutex s u idx" by (rule calm_invD(4) [OF assms(1)])
  then show "holds_mutex s' u idx" by (simp add: holds_mutex_def assms(3,4))
next
  fix u idx
  assume "ls_pc s' u = U_lock idx \<or> ls_pc s' u = U_find idx"
  then show "idx \<notin> ls_in s' u"
    using calm_invD(5) [OF assms(1), of u idx] assms(6,7,10) by (cases "u = t") simp_all
qed (rule assms(2))

lemma calm_wait:
  assumes "calm_inv s" "ls_pc s t = L_wait idx i m" "lt_step t (ls_pc s t) s = Some s'"
  shows "calm_inv s'"
proof (rule calm_invI)
  have s': "s' = ls_go t (L_relock idx i m) (s\<lparr>ls_mx := (ls_mx s)(m := Some t)\<rparr>)" and free: "ls_mx s m = None"
    using assms(2,3) by (simp_all split: if_splits)
  show "owners s'" by (rule owners_inner [OF calm_invD(1) [OF assms(1)] assms(3)])
  obtain tab where tab: "ls_table s = Some tab" "item_at tab idx i m"
    using calm_invD(3) [OF assms(1), of t idx i m] assms(2) by auto
  note ok = calm_invD(2) [OF assms(1) tab(1)]
  have map: "larray_map tab idx = Some m" using ok tab(2) by (intro item_map) (simp_all add: table_ok_def)
  fix u x k n tab'
  show "ls_table s' = Some tab' \<Longrightarrow> table_ok tab' (ls_fresh s')" using ok tab(1) by (simp add: s' ls_go_def)
  show "\<exists>tab. ls_table s' = Some tab \<and> item_at tab x k n" if "pc_slot (ls_pc s' u) = Some (x, k, n)"
    using that tab calm_invD(3) [OF assms(1), of u x k n] by (cases "u = t") (simp_all add: s' ls_go_def)
  show "x \<notin> ls_in s' u" if "ls_pc s' u = U_lock x \<or> ls_pc s' u = U_find x"
    using that calm_invD(5) [OF assms(1), of u x] by (cases "u = t") (simp_all add: s' ls_go_def)
  show "holds_mutex s' u x" if w: "wants s' u x"
  proof (cases "u = t \<and> x = idx")
    case True
    then show ?thesis using tab(1) map by (simp add: s' ls_go_def holds_mutex_def)
  next
    case False
    then have "wants s u x" using w by (cases "u = t") (simp_all add: s' ls_go_def wants_def assms(2))
    then obtain m' where "larray_map tab x = Some m'" "ls_mx s m' = Some u"
      using calm_invD(4) [OF assms(1), of u x] tab(1) by (auto simp: holds_mutex_def)
    then show ?thesis using free tab(1) by (auto simp: s' ls_go_def holds_mutex_def)
  qed
qed

lemma calm_find:
  assumes "calm_inv s" "ls_pc s t = L_find idx" "lt_step t (ls_pc s t) s = Some s'" "ls_size s' = ls_size s"
  shows "calm_inv s'"
proof -
  define tab where "tab = (case ls_table s of None \<Rightarrow> larray_init | Some l \<Rightarrow> l)"
  have ow: "owners s'" by (rule owners_inner [OF calm_invD(1) [OF assms(1)] assms(3)])
  have ok: "table_ok tab (ls_fresh s)"
    using calm_invD(2) [OF assms(1)] by (simp add: tab_def table_ok_def larray_init_wf split: option.split)
  have in_tab: "ls_table s = Some l \<Longrightarrow> l = tab" for l by (simp add: tab_def)
  have wf: "larray_wf tab" using ok by (simp add: table_ok_def)
  obtain i where i: "larray_geti tab idx = Some i" using larray_geti_ends [OF wf] by blast
  show ?thesis
  proof (cases "i = -1")
    case False
    then obtain m where m: "larray_map tab idx = Some m" "item_at tab idx (nat i) m" "slot_value tab (nat i) = Some m"
      using item_found [OF wf i] by blast
    then have tab: "ls_table s = Some tab" by (cases "ls_table s") (simp_all add: tab_def larray_init_wf)
    have "s' = ls_go t (L_prio idx (nat i) m) (s\<lparr>ls_table := Some tab\<rparr>)"
      using assms(2,3) i False m(3) by (simp add: tlock_find_def tab_def [symmetric])
    then have s': "s' = ls_go t (L_prio idx (nat i) m) s" using tab by (cases s) (simp add: ls_go_def)
    show ?thesis
    proof (rule calm_invI [OF ow])
      fix u x k n l
      show "ls_table s' = Some l \<Longrightarrow> table_ok l (ls_fresh s')" using ok in_tab by (simp add: s' ls_go_def)
      show "\<exists>tab. ls_table s' = Some tab \<and> item_at tab x k n" if "pc_slot (ls_pc s' u) = Some (x, k, n)"
        using that tab m(2) calm_invD(3) [OF assms(1), of u x k n] by (cases "u = t") (simp_all add: s' ls_go_def)
      show "x \<notin> ls_in s' u" if "ls_pc s' u = U_lock x \<or> ls_pc s' u = U_find x"
        using that calm_invD(5) [OF assms(1), of u x] by (cases "u = t") (simp_all add: s' ls_go_def)
      show "holds_mutex s' u x" if "wants s' u x"
        using that calm_invD(4) [OF assms(1), of u x]
        by (cases "u = t") (simp_all add: s' ls_go_def wants_def holds_mutex_def)
    qed
  next
    case True
    obtain tab' j where set: "larray_set tab idx (ls_fresh s) = Some (tab', j)"
      and s': "s' = ls_go t (L_done idx) (s\<lparr>ls_table := Some tab', ls_mx := (ls_mx s)(ls_fresh s := Some t), ls_fresh := ls_fresh s + 1\<rparr>)"
      using assms(2,3) i True by (auto simp: tlock_find_def tab_def [symmetric] bind_eq_Some_conv)
    have none: "larray_map tab idx = None"
      using larray_geti_ends [OF wf, of idx] i True by (auto split: option.splits)
    have "larray_grow.sets tab idx (ls_fresh s) tab'" using larray_set_sets [OF wf set] by blast
    then have wf': "larray_wf tab'" and map': "larray_map tab' = (larray_map tab)(idx \<mapsto> ls_fresh s)"
      by (simp_all add: larray_grow.sets_def)
    have size: "la_size tab' = la_size tab"
      using assms(4) by (auto simp: s' ls_go_def ls_size_def tab_def larray_init_def larray_initl_def split: option.splits)
    have keep: "item_at tab' x k m" if "item_at tab x k m" for x k m
      using larray_set_keeps [OF wf none set size] that by (simp add: item_at_def)
    have lt: "\<And>x m. larray_map tab x = Some m \<Longrightarrow> m < ls_fresh s" using ok by (simp add: table_ok_def)
    have inj: "\<And>x y m. larray_map tab x = Some m \<Longrightarrow> larray_map tab y = Some m \<Longrightarrow> x = y" using ok by (simp add: table_ok_def)
    show ?thesis
    proof (rule calm_invI [OF ow])
      fix u x k n l
      have "table_ok tab' (ls_fresh s + 1)"
        unfolding table_ok_def
      proof (intro conjI allI impI)
        fix x y m
        show "larray_map tab' x = Some m \<Longrightarrow> m < ls_fresh s + 1" using lt [of x m] by (auto simp: map' split: if_splits)
        assume "larray_map tab' x = Some m \<and> larray_map tab' y = Some m"
        then show "x = y" using lt [of x m] lt [of y m] inj [of x m y] by (auto simp: map' split: if_splits)
      qed (rule wf')
      then show "ls_table s' = Some l \<Longrightarrow> table_ok l (ls_fresh s')" by (simp add: s' ls_go_def)
      show "\<exists>tab. ls_table s' = Some tab \<and> item_at tab x k n" if "pc_slot (ls_pc s' u) = Some (x, k, n)"
        using that keep in_tab calm_invD(3) [OF assms(1), of u x k n] by (cases "u = t") (auto simp: s' ls_go_def)
      show "x \<notin> ls_in s' u" if "ls_pc s' u = U_lock x \<or> ls_pc s' u = U_find x"
        using that calm_invD(5) [OF assms(1), of u x] by (cases "u = t") (simp_all add: s' ls_go_def)
      show "holds_mutex s' u x" if w: "wants s' u x"
      proof (cases "u = t \<and> x = idx")
        case True
        then show ?thesis by (simp add: s' ls_go_def holds_mutex_def map')
      next
        case False
        then have "wants s u x" using w by (cases "u = t") (simp_all add: s' ls_go_def wants_def assms(2))
        then obtain m where m: "larray_map tab x = Some m" "ls_mx s m = Some u"
          using calm_invD(4) [OF assms(1), of u x] in_tab by (auto simp: holds_mutex_def)
        then have "x \<noteq> idx" "m \<noteq> ls_fresh s" using none lt [OF m(1)] by auto
        then show ?thesis using m by (simp add: s' ls_go_def holds_mutex_def map')
      qed
    qed
  qed
qed

lemma calm_unlock:
  assumes "calm_inv s" "ls_pc s t = U_find idx" "lt_step t (ls_pc s t) s = Some s'"
  shows "calm_inv s'"
proof (rule calm_invI)
  show "owners s'" by (rule owners_inner [OF calm_invD(1) [OF assms(1)] assms(3)])
  have "wants s t idx" using assms(2) by (simp add: wants_def)
  from calm_invD(4) [OF assms(1) this]
  obtain tab m where m: "ls_table s = Some tab" "larray_map tab idx = Some m" "ls_mx s m = Some t"
    unfolding holds_mutex_def by blast
  note ok = calm_invD(2) [OF assms(1) m(1)]
  then have wf: "larray_wf tab" by (simp add: table_ok_def)
  obtain i where i: "larray_geti tab idx = Some i" "i \<noteq> -1"
    using larray_geti_ends [OF wf, of idx] m(2) by (auto split: option.splits)
  then have at: "item_at tab idx (nat i) m" "slot_value tab (nat i) = Some m"
    using item_found [OF wf i] m(2) by auto
  have "s' = ls_go t (U_done idx) (s\<lparr>ls_mx := (ls_mx s)(m := None), ls_table := Some tab\<rparr>)"
    using assms(2,3) m(1) i at slot_put_same [OF at(1)] by (simp add: tunlock_find_def)
  then have s': "s' = ls_go t (U_done idx) (s\<lparr>ls_mx := (ls_mx s)(m := None)\<rparr>)" using m(1) by (cases s) (simp add: ls_go_def)
  fix u x k n l
  show "ls_table s' = Some l \<Longrightarrow> table_ok l (ls_fresh s')" using ok m(1) by (simp add: s' ls_go_def)
  show "\<exists>tab. ls_table s' = Some tab \<and> item_at tab x k n" if "pc_slot (ls_pc s' u) = Some (x, k, n)"
    using that calm_invD(3) [OF assms(1), of u x k n] by (cases "u = t") (simp_all add: s' ls_go_def)
  show "x \<notin> ls_in s' u" if "ls_pc s' u = U_lock x \<or> ls_pc s' u = U_find x"
    using that calm_invD(5) [OF assms(1), of u x] by (cases "u = t") (simp_all add: s' ls_go_def)
  show "holds_mutex s' u x" if w: "wants s' u x"
  proof -
    have "wants s u x" using w by (cases "u = t") (simp_all add: s' ls_go_def wants_def)
    then obtain m' where m': "larray_map tab x = Some m'" "ls_mx s m' = Some u"
      using calm_invD(4) [OF assms(1), of u x] m(1) by (auto simp: holds_mutex_def)
    have "m' \<noteq> m"
    proof
      assume "m' = m"
      then have "x = idx" "u = t" using m' m ok by (simp_all add: table_ok_def)
      moreover have "idx \<notin> ls_in s t" using calm_invD(5) [OF assms(1), of t idx] assms(2) by simp
      ultimately show False using w by (simp add: s' ls_go_def wants_def)
    qed
    then show ?thesis using m(1) m' by (simp add: s' ls_go_def holds_mutex_def)
  qed
qed

text \<open>The other steps change neither the table nor the mutexes of the indices.\<close>

lemma calm_go:
  assumes "calm_inv s" "owners s'" "s' = ls_go t pc (s\<lparr>ls_lk := a, ls_prio := b, ls_in := (ls_in s)(t := X)\<rparr>)"
    "pc_slot pc = None \<or> pc_slot pc = pc_slot (ls_pc s t)" "\<And>idx. idx \<in> X \<or> pc_owns pc idx \<Longrightarrow> wants s t idx"
    "\<And>idx. pc = U_lock idx \<or> pc = U_find idx \<Longrightarrow> idx \<notin> X"
  shows "calm_inv s'"
  using assms(3-6) by (intro calm_frame [OF assms(1,2), of t]) (simp_all add: ls_go_def wants_def)

lemma calm_inner:
  assumes "calm_inv s" "lt_step t (ls_pc s t) s = Some s'" "ls_size s' = ls_size s"
  shows "calm_inv s'"
proof -
  have ow: "owners s'" by (rule owners_inner [OF calm_invD(1) [OF assms(1)] assms(2)])
  note go = calm_go [OF assms(1) ow]
  show ?thesis
  proof (cases "ls_pc s t")
    case Idle
    then show ?thesis using assms(2) by simp
  next
    case (L_find idx)
    then show ?thesis using calm_find assms by blast
  next
    case (L_wait idx i m)
    then show ?thesis using calm_wait assms by blast
  next
    case (U_find idx)
    then show ?thesis using calm_unlock assms by blast
  next
    case (L_lock idx)
    then have "s' = ls_go t (L_find idx) (s\<lparr>ls_lk := Some t, ls_prio := ls_prio s, ls_in := (ls_in s)(t := ls_in s t)\<rparr>)"
      using assms(2) by (simp split: if_splits)
    then show ?thesis by (rule go) (simp_all add: wants_def L_lock)
  next
    case (L_prio idx i m)
    then have "s' = ls_go t (L_release idx i m) (s\<lparr>ls_lk := ls_lk s, ls_prio := Some t, ls_in := (ls_in s)(t := ls_in s t)\<rparr>)"
      using assms(2) by (simp split: if_splits)
    then show ?thesis by (rule go) (simp_all add: wants_def L_prio)
  next
    case (L_release idx i m)
    then have "s' = ls_go t (L_wait idx i m) (s\<lparr>ls_lk := None, ls_prio := ls_prio s, ls_in := (ls_in s)(t := ls_in s t)\<rparr>)"
      using assms(2) by simp
    then show ?thesis by (rule go) (simp_all add: wants_def L_release)
  next
    case (L_relock idx i m)
    then have "s' = ls_go t (L_unprio idx i m) (s\<lparr>ls_lk := Some t, ls_prio := ls_prio s, ls_in := (ls_in s)(t := ls_in s t)\<rparr>)"
      using assms(2) by (simp split: if_splits)
    then show ?thesis by (rule go) (auto simp: wants_def L_relock)
  next
    case (L_unprio idx i m)
    then have "s' = ls_go t (L_store idx i m) (s\<lparr>ls_lk := ls_lk s, ls_prio := None, ls_in := (ls_in s)(t := ls_in s t)\<rparr>)"
      using assms(2) by simp
    then show ?thesis by (rule go) (auto simp: wants_def L_unprio)
  next
    case (L_store idx i m)
    obtain tab where "ls_table s = Some tab" "item_at tab idx i m"
      using calm_invD(3) [OF assms(1), of t idx i m] L_store by auto
    then have "s' = ls_go t (L_done idx) (s\<lparr>ls_lk := ls_lk s, ls_prio := ls_prio s, ls_in := (ls_in s)(t := ls_in s t)\<rparr>)"
      using assms(2) L_store slot_put_same [of tab idx i m] by (cases s) (simp add: ls_go_def)
    then show ?thesis by (rule go) (auto simp: wants_def L_store)
  next
    case (L_done idx)
    then have "s' = ls_go t Idle (s\<lparr>ls_lk := None, ls_prio := ls_prio s, ls_in := (ls_in s)(t := insert idx (ls_in s t))\<rparr>)"
      using assms(2) by simp
    then show ?thesis by (rule go) (auto simp: wants_def L_done)
  next
    case (U_lock idx)
    then have eq: "s' = ls_go t (U_find idx) (s\<lparr>ls_lk := Some t, ls_prio := ls_prio s, ls_in := (ls_in s)(t := ls_in s t)\<rparr>)"
      using assms(2) by (simp split: if_splits)
    have "idx \<notin> ls_in s t" using calm_invD(5) [OF assms(1), of t idx] U_lock by simp
    then show ?thesis by (intro go [OF eq]) (auto simp: wants_def U_lock)
  next
    case (U_done idx)
    then have "s' = ls_go t Idle (s\<lparr>ls_lk := None, ls_prio := ls_prio s, ls_in := (ls_in s)(t := ls_in s t)\<rparr>)"
      using assms(2) by simp
    then show ?thesis by (rule go) (auto simp: wants_def U_done)
  qed
qed

lemma calm_step: "lstep s s' \<Longrightarrow> ls_size s' = ls_size s \<Longrightarrow> calm_inv s \<Longrightarrow> calm_inv s'"
proof (induction rule: lstep.induct)
  case (call_lock s t idx)
  have "owners (ls_go t (L_lock idx) s)"
    by (rule owners_step [OF lstep.call_lock [OF call_lock(1)] calm_invD(1) [OF call_lock(3)]])
  moreover have "ls_go t (L_lock idx) s
      = ls_go t (L_lock idx) (s\<lparr>ls_lk := ls_lk s, ls_prio := ls_prio s, ls_in := (ls_in s)(t := ls_in s t)\<rparr>)" by simp
  ultimately show ?case by (rule calm_go [OF call_lock(3)]) (simp_all add: wants_def)
next
  case (call_unlock s t idx)
  let ?X = "ls_in s t - {idx}"
  have "owners (ls_go t (U_lock idx) (s\<lparr>ls_in := (ls_in s)(t := ?X)\<rparr>))"
    by (rule owners_step [OF lstep.call_unlock [OF call_unlock(1,2)] calm_invD(1) [OF call_unlock(4)]])
  moreover have "ls_go t (U_lock idx) (s\<lparr>ls_in := (ls_in s)(t := ?X)\<rparr>)
      = ls_go t (U_lock idx) (s\<lparr>ls_lk := ls_lk s, ls_prio := ls_prio s, ls_in := (ls_in s)(t := ?X)\<rparr>)" by simp
  ultimately show ?case by (rule calm_go [OF call_unlock(4)]) (use call_unlock(2) in \<open>auto simp: wants_def\<close>)
next
  case (inner t s s')
  then show ?case by (blast intro: calm_inner)
qed

lemma lcalm_inv: "lcalm s \<Longrightarrow> calm_inv s"
proof (induction rule: lcalm.induct)
  case lcalm_init
  show ?case by (simp add: calm_inv_def owners_def ls_init_def wants_def)
qed (blast intro: calm_step)

lemma lcalm_exclusive:
  assumes "lcalm s" "idx \<in> ls_in s t" "idx \<in> ls_in s u"
  shows "t = u"
proof -
  have "holds_mutex s t idx" "holds_mutex s u idx"
    using lcalm_inv [OF assms(1)] assms(2,3) by (simp_all add: calm_inv_def wants_def)
  then show ?thesis by (auto simp: holds_mutex_def)
qed

section \<open>Runs\<close>

datatype levent = Call_lock u64 | Call_unlock u64 | Go

fun levent_step :: "nat \<times> levent \<Rightarrow> lsys \<Rightarrow> lsys option" where
  "levent_step (t, Call_lock idx) s = (if ls_pc s t = Idle then Some (ls_go t (L_lock idx) s) else None)"
| "levent_step (t, Call_unlock idx) s = (if ls_pc s t = Idle \<and> idx \<in> ls_in s t
     then Some (ls_go t (U_lock idx) (s\<lparr>ls_in := (ls_in s)(t := ls_in s t - {idx})\<rparr>)) else None)"
| "levent_step (t, Go) s = lt_step t (ls_pc s t) s"

fun lrun :: "(nat \<times> levent) list \<Rightarrow> lsys \<Rightarrow> lsys option" where
  "lrun [] s = Some s"
| "lrun (e # es) s = Option.bind (levent_step e s) (lrun es)"

lemma levent_step: "levent_step e s = Some s' \<Longrightarrow> lstep s s'"
  by (cases "(e, s)" rule: levent_step.cases) (auto intro: lstep.intros split: if_splits)

lemma lrun_reach: "lreach s \<Longrightarrow> lrun es s = Some s' \<Longrightarrow> lreach s'"
proof (induction es arbitrary: s)
  case (Cons e es)
  then obtain s1 where "levent_step e s = Some s1" "lrun es s1 = Some s'" by (auto simp: bind_eq_Some_conv)
  then show ?case using Cons.IH [of s1] lreach_step [OF Cons.prems(1) levent_step] by blast
qed simp

lemma lrun_calm: "lcalm s \<Longrightarrow> lrun es s = Some s' \<Longrightarrow> (\<And>n s''. lrun (take n es) s = Some s'' \<Longrightarrow> ls_size s'' = ls_size s) \<Longrightarrow> lcalm s'"
proof (induction es arbitrary: s)
  case (Cons e es)
  then obtain s1 where s1: "levent_step e s = Some s1" "lrun es s1 = Some s'" by (auto simp: bind_eq_Some_conv)
  have size: "lrun (take n es) s1 = Some s'' \<Longrightarrow> ls_size s'' = ls_size s" for n s''
    using Cons.prems(3) [of "Suc n" s''] s1(1) by simp
  from size [of 0] have "ls_size s1 = ls_size s" by simp
  then have "lcalm s1" using Cons.prems(1) s1(1) by (blast intro: lcalm_step levent_step)
  then show ?case using Cons.IH [OF _ s1(2)] size \<open>ls_size s1 = ls_size s\<close> by simp
qed simp

text \<open>Locking an index nobody has used, waiting for one that is locked, getting it, and unlocking.\<close>

definition r_new :: "nat \<Rightarrow> u64 \<Rightarrow> (nat \<times> levent) list" where
  "r_new t idx = [(t, Call_lock idx), (t, Go), (t, Go), (t, Go)]"

definition r_wait :: "nat \<Rightarrow> u64 \<Rightarrow> (nat \<times> levent) list" where
  "r_wait t idx = (t, Call_lock idx) # replicate 4 (t, Go)"

definition r_get :: "nat \<Rightarrow> (nat \<times> levent) list" where
  "r_get t = replicate 5 (t, Go)"

definition r_unlock :: "nat \<Rightarrow> u64 \<Rightarrow> (nat \<times> levent) list" where
  "r_unlock t idx = [(t, Call_unlock idx), (t, Go), (t, Go), (t, Go)]"

text \<open>While thread 1 waits for index 5 the table grows; the slot it remembers is then that of index 1, and
  it puts the mutex of 5 there.\<close>

definition stale_run :: "(nat \<times> levent) list" where
  "stale_run = r_new 0 5 @ r_wait 1 5 @ r_new 2 1 @ r_new 2 9 @ r_new 2 13 @ r_unlock 0 5 @ r_get 1
     @ r_wait 3 1 @ r_unlock 1 5 @ r_get 3"

text \<open>Thread 1 waits for index 0 with thread_priority_lock, thread 2 waits for that with thread_lock_lock, and
  thread 0 needs thread_lock_lock to unlock index 0.\<close>

definition stuck_run :: "(nat \<times> levent) list" where
  "stuck_run = r_new 0 0 @ r_wait 1 0 @ [(2, Call_lock 0), (2, Go), (2, Go), (0, Call_unlock 0)]"

lemma stale_run_end: "case lrun stale_run ls_init of None \<Rightarrow> False | Some s \<Rightarrow> 1 \<in> ls_in s 2 \<and> 1 \<in> ls_in s 3"
  by code_simp

lemma stuck_run_end: "case lrun stuck_run ls_init of None \<Rightarrow> False | Some s \<Rightarrow>
    ls_pc s 0 = U_lock 0 \<and> ls_pc s 1 = L_wait 0 0 0 \<and> ls_pc s 2 = L_prio 0 0 0 \<and> ls_mx s 0 = Some 0"
  by code_simp

section \<open>Deadlock\<close>

definition stuck :: "lsys \<Rightarrow> bool" where
  "stuck s \<longleftrightarrow> owners s \<and> ls_pc s 0 = U_lock 0 \<and> ls_pc s 1 = L_wait 0 0 0 \<and> ls_pc s 2 = L_prio 0 0 0 \<and> ls_mx s 0 = Some 0"

lemma stuck_blocked:
  assumes "stuck s" shows "lt_step t (ls_pc s t) s = None"
proof -
  have pcs: "(ls_lk s = Some u) = has_lk (ls_pc s u)" "(ls_prio s = Some u) = has_prio (ls_pc s u)" for u
    using assms unfolding stuck_def owners_def by blast+
  have lk: "ls_lk s = Some 2" "ls_prio s = Some 1" unfolding pcs using assms by (simp_all add: stuck_def)
  then have own: "has_lk (ls_pc s t) \<longleftrightarrow> t = 2" "has_prio (ls_pc s t) \<longleftrightarrow> t = 1"
    unfolding pcs [symmetric] by auto
  show ?thesis using assms lk own by (cases "ls_pc s t") (auto simp: stuck_def)
qed

lemma stuck_step: "lstep s s' \<Longrightarrow> stuck s \<Longrightarrow> stuck s'"
proof -
  assume step: "lstep s s'" and st: "stuck s"
  have "owners s'" using owners_step [OF step] st by (simp add: stuck_def)
  moreover have "ls_mx s' = ls_mx s \<and> (\<forall>t. ls_pc s t \<noteq> Idle \<longrightarrow> ls_pc s' t = ls_pc s t)"
    using step by cases (use stuck_blocked [OF st] in \<open>auto simp: ls_go_def\<close>)
  ultimately show "stuck s'" using st by (simp add: stuck_def)
qed

lemma stuck_forever: "rtranclp lstep s s' \<Longrightarrow> stuck s \<Longrightarrow> stuck s'"
  by (induction rule: rtranclp_induct) (blast intro: stuck_step)+

section \<open>Property\<close>

text \<open>C40: In every run of threads that lock indices and unlock those they have locked, thread_lock_lock
  and thread_priority_lock are held exactly by the thread that is between the calls that take and
  release it.  While the table of locks keeps its first size no index is locked by two threads.  When the
  table grows while a thread waits, two threads can hold the same index; and a thread that unlocks
  can meet two that wait in such a way that no thread ever takes another step.\<close>
theorem thread_locks_safe:
  assumes "lreach s"
  shows "(ls_lk s = Some t \<longleftrightarrow> has_lk (ls_pc s t)) \<and> (ls_prio s = Some t \<longleftrightarrow> has_prio (ls_pc s t))
    \<and> (lcalm s \<and> idx \<in> ls_in s t \<and> idx \<in> ls_in s u \<longrightarrow> t = u)
    \<and> (\<exists>s. lreach s \<and> 1 \<in> ls_in s 2 \<and> 1 \<in> ls_in s 3)
    \<and> (\<exists>s. lreach s \<and> ls_pc s 0 = U_lock 0
        \<and> (\<forall>s'. rtranclp lstep s s' \<longrightarrow> (\<forall>t. lt_step t (ls_pc s' t) s' = None)))"
proof (intro conjI)
  show "ls_lk s = Some t \<longleftrightarrow> has_lk (ls_pc s t)" "ls_prio s = Some t \<longleftrightarrow> has_prio (ls_pc s t)"
    using lreach_owners [OF assms] by (simp_all add: owners_def)
  show "lcalm s \<and> idx \<in> ls_in s t \<and> idx \<in> ls_in s u \<longrightarrow> t = u" using lcalm_exclusive by blast
  show "\<exists>s. lreach s \<and> 1 \<in> ls_in s 2 \<and> 1 \<in> ls_in s 3"
    using stale_run_end lrun_reach [OF lreach_init, of stale_run] by (auto split: option.splits)
  obtain s0 where "lrun stuck_run ls_init = Some s0" "ls_pc s0 0 = U_lock 0" "ls_pc s0 1 = L_wait 0 0 0"
    "ls_pc s0 2 = L_prio 0 0 0" "ls_mx s0 0 = Some 0"
    using stuck_run_end by (auto split: option.splits)
  moreover from this have r: "lreach s0" using lrun_reach [OF lreach_init] by blast
  ultimately have "stuck s0" using lreach_owners [OF r] by (simp add: stuck_def)
  then have "\<forall>s'. rtranclp lstep s0 s' \<longrightarrow> (\<forall>t. lt_step t (ls_pc s' t) s' = None)"
    using stuck_forever stuck_blocked by blast
  then show "\<exists>s. lreach s \<and> ls_pc s 0 = U_lock 0
      \<and> (\<forall>s'. rtranclp lstep s s' \<longrightarrow> (\<forall>t. lt_step t (ls_pc s' t) s' = None))"
    using r \<open>ls_pc s0 0 = U_lock 0\<close> by blast
qed

lemma thread_locks_safe_witness:
  "\<exists>s. lreach s \<and> lcalm s \<and> 0 \<in> ls_in s 0 \<and> ls_pc s 1 = L_wait 0 0 0 \<and> ls_prio s = Some 1 \<and> (\<forall>u. 0 \<in> ls_in s u \<longrightarrow> u = 0)"
proof -
  have "case lrun (r_new 0 0 @ r_wait 1 0) ls_init of None \<Rightarrow> False | Some s \<Rightarrow> 0 \<in> ls_in s 0 \<and> ls_pc s 1 = L_wait 0 0 0"
    by code_simp
  then obtain s where s: "lrun (r_new 0 0 @ r_wait 1 0) ls_init = Some s" "0 \<in> ls_in s 0" "ls_pc s 1 = L_wait 0 0 0"
    by (auto split: option.splits)
  have all: "\<forall>n\<in>set [0..<10]. case lrun (take n (r_new 0 0 @ r_wait 1 0)) ls_init of None \<Rightarrow> False | Some s \<Rightarrow> ls_size s = 4"
    by code_simp
  have size: "ls_size s' = 4" if run: "lrun (take n (r_new 0 0 @ r_wait 1 0)) ls_init = Some s'" for n s'
  proof -
    have "take n (r_new 0 0 @ r_wait 1 0) = take (min n 9) (r_new 0 0 @ r_wait 1 0)"
      by (simp add: r_new_def r_wait_def min_def)
    then have "lrun (take (min n 9) (r_new 0 0 @ r_wait 1 0)) ls_init = Some s'" using run by (simp only:)
    moreover have "min n 9 \<in> set [0..<10]" by simp
    ultimately show ?thesis using bspec [OF all] by fastforce
  qed
  have "ls_size ls_init = 4" by (simp add: ls_size_def ls_init_def)
  then have c: "lcalm s" using lrun_calm [OF lcalm_init s(1)] size by simp
  have r: "lreach s" using lrun_reach [OF lreach_init s(1)] .
  have "ls_prio s = Some 1" using thread_locks_safe [OF r, of 1 0 0] s(3) by simp
  moreover have "\<forall>u. 0 \<in> ls_in s u \<longrightarrow> u = 0" using thread_locks_safe [OF r, of 0 0] c s(2) by blast
  ultimately show ?thesis using r c s by blast
qed

end
