(* ===== verification/Spec2Isabelle.thy ===== *)
theory Spec2Isabelle
  imports Checksums StringHashes OneShotHashes Md5 Sha1 Sha256 Sha512 Blake Blake2
    Sorts TableFns MathLib LArray HashMap StrBuf PArray Uuencode BaseConvert HttpResponse Routes HttpClient Urls Server Threads
begin

text \<open>
  Lullaby is a C library of Lua modules (src/src): hashes and checksums (crypto.c, hash/), text
  encodings (encode/), sorting and table helpers (sort.c, table.c), containers used inside
  (types/), an event-driven HTTP server (net.c, net/), threads (thread.c) and glue that moves Lua
  values between interpreters (lua.c).  Each module registers C functions that take their arguments
  from the Lua stack.

  Conventions.  A C struct is a record, a fixed-width integer a machine word (u8, u16, u32, u64 of
  theory Prelude), a size or an index that the code keeps far from its bound a natural number.  The
  content of an array or a string is the list of its elements; an access outside of it, which C
  leaves undefined, is the value None (c_load, c_store, c_memcpy, c_memset).  The Lua stack is not
  modelled: a function l_f of the code takes the Lua arguments it reads and returns what it pushes.

  Prelude holds these conventions, byte order and the printf conversions; Rotate the six rotations
  of crypto.c with the shift counts C defines; Words the injectivity of the steps hashes are made of.

  Hashes.  StreamHash states what every hash of hash/ offers to its callers as the locale
  stream_hash (an update by a concatenation is two updates, the one-shot function is init, update,
  final), detecting_hash (a step is injective in the byte and in the state, so changing one byte
  changes the hash), and models the macros of crypto.h that make Lua objects of a hash (ud_heap,
  l_hash_init, l_hash_update, l_hash_clone, l_hash_add).  Checksums, StringHashes and OneShotHashes
  hold the byte-at-a-time hashes, each with its interpretation of the contract.  BlockHash holds
  the buffering that the block hashes share (block_loop, block_update) and the locale block_hash,
  the contract a round offers to it: for which inputs an update stays inside its input, that a
  defined update absorbs the input byte by byte, and which registers and which buffer a message
  leaves.  Md5, Sha1, Sha256, Sha512, Blake and Blake2 model the rounds, the finals with their
  padding, the one-shot functions and the Lua clones, and state the digest for every tail length.

  Tables of numbers.  Doubles models the Lua number as the bit pattern of a double, with the
  comparisons of IEEE 754, and IntArrays the arrays of the sorting functions: int indices, whose
  arithmetic is checked for overflow, accesses outside the array as None, and the loop that reads a
  Lua table (table_loop), with the argument error of an entry that is no number.  Its locale
  lua_sort is the contract of a sort; Quicksort, Mergesort, Heapsort, Shellsort and Bubblesort model
  the C loops of sort.c and interpret it.  Countingsort and EsotericSorts hold the sorts from the
  least to the greatest (slowsort, stalinsort, miraclesort, bogosort, with i_shuffle of table.c);
  Sorts states what the module returns and raises.  TableFns models the other functions of table.c
  (l_reverse, l_indexof, l_sindexof, l_split and more), MathLib gcd and lcm of math.c.

  Containers.  OpenAddressing has what the hash tables of types/ share, the invariant of linear
  probing, and the locale keyed_store, the interface of a store to the rest of the program;
  GrowingTable the loops round the ring of slots (locale ring_table) and the insertion that grows
  the table (locale growing_table).  LArray models larray.c and HashMap map.c, whose hash is the
  FNV-1a of StringHashes; both interpret the locales and refine a finite map.  StrBuf models the
  string buffer str.c, on a block whose unwritten bytes are unknown; the locale byte_sink is what
  the callers that append rely on.

  PArray models parray.c, the array of key/value pairs of the server, against an association list, and
  its wildcard matcher against the recursive meaning of a pattern.

  Encodings.  Sextets has what base64.c and uuencode.c share: texts that grow by sprintf in a block of
  fixed size (holds_text), the regrouping of three bytes as four sextets, and the locale text_steps,
  the contract of a loop that appends.  Base64 and Uuencode model the coders and the two Lua functions of
  each, interpret the locale for their four loops, and state which strings survive the round trip.
  BaseConvert models baseN.c.

  Server.  Util models util.c: the bounded search strnstr and the parser of key=value lists.
  HttpRequest and HttpResponse model net/util.c: the loop that receives a header, where the results
  of recv are a list of chunks, the parser of the header, percent decoding, the text of responses
  (sprintf into a buffer of fixed size is None when the text does not fit) and the parameters of a
  header value.  The parsers are related to functions of the bytes by the relations str_is and
  tab_is of Util, and a request that is written from its parts is parsed back into them.  Routes models
  match_param and route_match: a route is read as tokens (letters, stars, names in braces), and the
  loop, which goes back to the last star, is proved against the recursive meaning of the tokens.
  WebSocket models the frames of the client of net.c (i_ws_read, i_ws_write) on a connection that delivers
  its bytes in pieces, against the frames of RFC 6455.  HttpClient models what _request and the stream of
  the content do with a response: the loop up to the blank line, the Lua table, and
  chunked_encoding_round, whose invariant (chunk_inv) relates its state to the rest of the stream, so that
  the places where the bytes are cut do not matter.  Urls models parse_url, the message of a request and
  path_parse of the server.  Server models the table of handlers (l_req_com), what handle_client does with
  the path of a request, up to the handlers it runs, which are an argument, and the functions of a
  response (net/lua.c) with the bytes they send.

  Threads.  Threads models the locks of thread.c as a step relation: a state has the table of locks (an
  array of LArray), the holder of every mutex and the place of every thread in l_tlock or l_tunlock; a
  step is one call on a mutex with the work up to the next.  Invariants over the reachable states give
  mutual exclusion while the table does not grow, and two runs that are evaluated give its failure
  and a deadlock.

  Bounds.  The loops are structural recursions over the input or well-founded by a measure.  A loop
  that may run for ever (miracle_loop, bogo_loop, reverse_loop, index_loop, split_loop, geti_loop,
  fmatch_loop, export_loop) is a partial function whose value is None when it does.  Arrays of fewer than 2^30 elements keep every
  int of the sorts in range.  larray_set and map_set nest growths; 16 levels of fuel are enough since each one
  multiplies a size below 2^31 by 4 (larray_set_ends).

  Parameters.  The numbers of rand() are a stream; the addition of doubles (l_sum), lua_rawequal
  (l_indexof), the step with pow of l_baseconvert and the bytes behind an unterminated copy
  (l_base64encode) are arguments.

  Not modelled: the sockets and TLS of net.c and its accept loop, the Lua table of a request, sending and
  receiving files (net/), the starting of threads in thread.c, the copying of values between Lua states
  (lua.c), the settings of modules (config.c), printing (io.c), registration (reg.c, test.c), and the
  release of memory.
\<close>

section \<open>Hashes: incremental use\<close>

text \<open>C1: Every stream hash of src/src/hash gives the digest of the concatenation, however the input
  is cut into updates: final after a sequence of updates is the one-shot function of the
  concatenated pieces.\<close>
theorem incremental_is_oneshot:
  "(adler32_final (fold adler32_update css adler32_init) = adler32 (concat css))
   \<and> (bsdchecksum_final (fold bsdchecksum_update css bsdchecksum_init) = bsdchecksum (concat css))
   \<and> (fletcher8_final (fold fletcher8_update css fletcher8_init) = fletcher8 (concat css))
   \<and> (fletcher16_final (fold fletcher16_update css fletcher16_init) = fletcher16 (concat css))
   \<and> (fletcher32_final (fold fletcher32_update css fletcher32_init) = fletcher32 (concat css))
   \<and> (sysvchecksum_final (fold sysvchecksum_update css sysvchecksum_init) = sysvchecksum (concat css))
   \<and> (xor8_final (fold xor8_update css xor8_init) = xor8 (concat css))
   \<and> (loselose_final (fold loselose_update css loselose_init) = loselose (concat css))
   \<and> (pearson_final (fold (pearson_update tbl) css pearson_init) = pearson tbl (concat css))
   \<and> (crc8_final (fold crc8_update css crc8_init) = crc8 (concat css))
   \<and> (crc16_final (fold crc16_update css crc16_init) = crc16 (concat css))
   \<and> (crc32_final (fold crc32_update css crc32_init) = crc32 (concat css))
   \<and> (djb2_final (fold djb2_update css djb2_init) = djb2 (concat css))
   \<and> (sdbm_final (fold sdbm_update css sdbm_init) = sdbm (concat css))
   \<and> (fnv_1_final (fold fnv_1_update css (fnv_1_init A)) = fnv_1 (concat css) A)
   \<and> (jenkins_oaat_final (fold jenkins_oaat_update css jenkins_oaat_init) = jenkins_oaat (concat css))
   \<and> (pjw_final (fold pjw_update css pjw_init) = pjw (concat css))"
  by (intro conjI; rule adler32_s.chunks bsdchecksum_s.chunks fletcher8_s.chunks fletcher16_s.chunks
      fletcher32_s.chunks sysvchecksum_s.chunks xor8_s.chunks loselose_s.chunks pearson_s.chunks
      crc8_s.chunks crc16_s.chunks crc32_s.chunks djb2_s.chunks sdbm_s.chunks fnv_s.chunks
      oaat_s.chunks pjw_s.chunks)

text \<open>C2: Changing a single byte of the input always changes the result of adler32, bsdchecksum,
  xor8, loselose, pearson (with its initial table), the three CRCs, djb2, sdbm, the three FNV
  variants, oaat, fasthash64 and both murmur hashes.\<close>
theorem single_byte_detected:
  assumes "x \<noteq> y"
  shows "adler32 (as @ x # bs) \<noteq> adler32 (as @ y # bs)
    \<and> bsdchecksum (as @ x # bs) \<noteq> bsdchecksum (as @ y # bs)
    \<and> xor8 (as @ x # bs) \<noteq> xor8 (as @ y # bs)
    \<and> loselose (as @ x # bs) \<noteq> loselose (as @ y # bs)
    \<and> pearson pearson_table (as @ x # bs) \<noteq> pearson pearson_table (as @ y # bs)
    \<and> crc8 (as @ x # bs) \<noteq> crc8 (as @ y # bs)
    \<and> crc16 (as @ x # bs) \<noteq> crc16 (as @ y # bs)
    \<and> crc32 (as @ x # bs) \<noteq> crc32 (as @ y # bs)
    \<and> djb2 (as @ x # bs) \<noteq> djb2 (as @ y # bs)
    \<and> sdbm (as @ x # bs) \<noteq> sdbm (as @ y # bs)
    \<and> fnv_1 (as @ x # bs) A \<noteq> fnv_1 (as @ y # bs) A
    \<and> jenkins_oaat (as @ x # bs) \<noteq> jenkins_oaat (as @ y # bs)
    \<and> fasthash64 (as @ x # bs) seed \<noteq> fasthash64 (as @ y # bs) seed
    \<and> murmur1_32 (as @ x # bs) seed' \<noteq> murmur1_32 (as @ y # bs) seed'
    \<and> murmur2_32 (as @ x # bs) seed' \<noteq> murmur2_32 (as @ y # bs) seed'"
  by (intro conjI; rule adler32_s.detects_byte bsdchecksum_s.detects_byte xor8_s.detects_byte
      loselose_s.detects_byte pearson_d.detects_byte crc8_s.detects_byte crc16_s.detects_byte
      crc32_s.detects_byte djb2_s.detects_byte sdbm_s.detects_byte fnv_d.detects_byte
      oaat_s.detects_byte fasthash64_detects_byte murmur1_32_detects_byte murmur2_32_detects_byte;
      rule assms)

lemma single_byte_detected_witness: "(1 :: u8) \<noteq> 2 \<and> crc32 ([7, 9] @ 1 # [3]) \<noteq> crc32 ([7, 9] @ 2 # [3])"
  using single_byte_detected [of 1 2 "[7, 9]" "[3]"] by simp

section \<open>Hashes: the block buffer\<close>

text \<open>C3: For every well-formed state, an update of MD5, SHA-0/1, SHA-224/256, SHA-384/512,
  BLAKE and BLAKE2 stays inside its input exactly when the buffer is empty or the input does not go
  past the block it completes.  (In the other case the code skips bufflen bytes too far and reads
  bufflen bytes behind the input.)\<close>
theorem block_updates_defined:
  "(block_wf 64 h1 \<longrightarrow>
     md5_update inp h1 \<noteq> None \<longleftrightarrow> bufflen h1 = 0 \<or> bufflen h1 + length inp \<le> 64)
   \<and> (block_wf 64 h2 \<longrightarrow>
     sha01_update inp h2 \<noteq> None \<longleftrightarrow> bufflen h2 = 0 \<or> bufflen h2 + length inp \<le> 64)
   \<and> (block_wf 64 h3 \<longrightarrow>
     sha256_update inp h3 \<noteq> None \<longleftrightarrow> bufflen h3 = 0 \<or> bufflen h3 + length inp \<le> 64)
   \<and> (block_wf 128 h4 \<longrightarrow>
     sha512_update inp h4 \<noteq> None \<longleftrightarrow> bufflen h4 = 0 \<or> bufflen h4 + length inp \<le> 128)
   \<and> (block_wf 64 h5 \<longrightarrow>
     blake256_update inp h5 \<noteq> None \<longleftrightarrow> bufflen h5 = 0 \<or> bufflen h5 + length inp \<le> 64)
   \<and> (block_wf 128 h6 \<longrightarrow>
     blake512_update inp h6 \<noteq> None \<longleftrightarrow> bufflen h6 = 0 \<or> bufflen h6 + length inp \<le> 128)
   \<and> (block_wf 128 h7 \<longrightarrow>
     blake2b_update inp h7 \<noteq> None \<longleftrightarrow> bufflen h7 = 0 \<or> bufflen h7 + length inp \<le> 128)
   \<and> (block_wf 64 h8 \<longrightarrow>
     blake2s_update inp h8 \<noteq> None \<longleftrightarrow> bufflen h8 = 0 \<or> bufflen h8 + length inp \<le> 64)"
  unfolding md5_update_def sha01_update_def sha256_update_def sha512_update_def blake256_update_def
    blake512_update_def blake2b_update_def blake2s_update_def
  by (intro conjI impI; rule md5_b.update_defined_iff sha01_b.update_defined_iff sha256_b.update_defined_iff
      sha512_b.update_defined_iff blake256_b.update_defined_iff blake512_b.update_defined_iff
      blake2b_b.update_defined_iff blake2s_b.update_defined_iff; assumption)

lemma block_updates_defined_witness:
  "md5_update [1, 2, 3] md5_init \<noteq> None
   \<and> md5_update [1, 2, 3] (md5_init\<lparr>buffer := [7, 8] @ replicate 62 0, bufflen := 2\<rparr>) \<noteq> None
   \<and> \<not> md5_update (replicate 63 1) (md5_init\<lparr>buffer := [7, 8] @ replicate 62 0, bufflen := 2\<rparr>) \<noteq> None"
  using block_updates_defined [of md5_init]
    block_updates_defined [of "md5_init\<lparr>buffer := [7, 8] @ replicate 62 0, bufflen := 2\<rparr>"]
  by (simp add: md5_init_def block_wf_def)


text \<open>C5: md5 is the MD5 of RFC 1321 (mark, zeros, 64-bit little-endian bit count) on every message
  of less than 2^29 bytes whose length is at most 55 modulo 64, and writes past its buffer on every
  message with a longer tail.\<close>
theorem md5_correct:
  "(length m mod 64 \<le> 55 \<and> length m < 2 ^ 29 \<longrightarrow>
     md5 m = Some (md5_text (fold md5_compress
     (blocks 64 (md_pad 64 (le_bytes64 (of_nat (8 * length m))) m))
     (0x67452301, 0xefcdab89, 0x98badcfe, 0x10325476))))
   \<and> (55 < length m mod 64 \<longrightarrow>
     md5 m = None)"
  using md5_short_tail [of m] md5_long_tail [of m]
  by (simp_all add: md5_spec_def md5_regs_def md5_init_def)

lemma md5_correct_witness:
  "md5 [] = Some (md5_text (fold md5_compress (blocks 64 (md_pad 64 (replicate 8 0) []))
     (0x67452301, 0xefcdab89, 0x98badcfe, 0x10325476))) \<and> md5 (replicate 56 0) = None"
  using md5_correct [of "[]"] md5_correct [of "replicate 56 0"]
  by (simp add: le_bytes64_def map_replicate_const)

text \<open>C6: SHA-1 (and SHA-0, with the schedule rotation 0) is the standard's hash on every message
  whose length is at most 55 modulo 64; on every other one the final writes past its buffer.\<close>
theorem sha01_correct:
  "(sha1 m = (if length m mod 64 \<le> 55 then Some (sha01_text (fold sha01_compress
     (blocks 64 (md_pad 64 (be_bytes64 (of_nat (8 * length m))) m)) (sha01_regs sha1_init))) else None))
   \<and> (sha0 m = (if length m mod 64 \<le> 55 then Some (sha01_text (fold sha01_compress
     (blocks 64 (md_pad 64 (be_bytes64 (of_nat (8 * length m))) m)) (sha01_regs sha0_init))) else None))"
  by (simp_all only: sha1_result sha0_result sha01_spec_def sha1_init_def sha0_init_def)

text \<open>C7: SHA-256 and SHA-224 are the standard's hashes on every message whose length is at most 55
  modulo 64.  For 56 modulo 64 the last block lacks the mark; on longer tails the final writes past
  its buffer.\<close>
theorem sha256_correct:
  "(sha256 m =
    (if length m mod 64 \<le> 55 then Some (sha2_text (sha256_words (fold sha256_compress
       (blocks 64 (md_pad 64 (be_bytes64 (of_nat (8 * length m))) m)) (sha256_regs sha256_init))))
     else if length m mod 64 = 56 then Some (sha2_text (sha256_words (fold sha256_compress
       (blocks 64 (m @ be_bytes64 (of_nat (8 * length m)))) (sha256_regs sha256_init))))
     else None))
   \<and> (sha224 m =
    (if length m mod 64 \<le> 55 then Some (sha2_text (take 7 (sha256_words (fold sha256_compress
       (blocks 64 (md_pad 64 (be_bytes64 (of_nat (8 * length m))) m)) (sha256_regs sha224_init)))))
     else if length m mod 64 = 56 then Some (sha2_text (take 7 (sha256_words (fold sha256_compress
       (blocks 64 (m @ be_bytes64 (of_nat (8 * length m)))) (sha256_regs sha224_init)))))
     else None))"
  by (simp_all only: sha256_result sha224_result sha256_spec_def sha256_unmarked_def)

text \<open>C8: SHA-512, SHA-384 and SHA-512/t: the standard's hash (with the length in 16 bytes) for
  tails of at most 111 bytes, a block without the mark for 112, None above; SHA-512/t for
  0 <= t <= 999 starts from the hash of its name and cuts the digest to t / 4 digits.\<close>
theorem sha512_correct:
  "(sha512 m = map_option (\<lambda>s. sha512_text (sha512_words s)) (sha512_result sha512_iv m))
   \<and> (sha384 m = map_option (\<lambda>s. sha512_text (take 6 (sha512_words s))) (sha512_result sha384_iv m))
   \<and> (sha512_t m t = do {
     v \<leftarrow> sha_iv_gen t; s \<leftarrow> sha512_result v m; cut_digest t (sha512_text (sha512_words s)) })
   \<and> (sha512_result v m =
    (if length m mod 128 \<le> 111 then Some (fold sha512_compress
       (blocks 128 (md_pad 128 (replicate 8 0 @ be_bytes64 (of_nat (8 * length m))) m)) v)
     else if length m mod 128 = 112 then Some (fold sha512_compress
       (blocks 128 (m @ replicate 8 0 @ be_bytes64 (of_nat (8 * length m)))) v)
     else None))"
  by (simp_all only: sha512_digest sha512_t_digest sha512_result_def sha512_spec_def sha512_unmarked_def)

text \<open>C9: BLAKE-256 and BLAKE-224: what is compressed last, with which counter, for every length of
  the tail.  For a tail of 55 bytes BLAKE-256 should end the padding with 0x81 and ends it with 0x80.\<close>
theorem blake256_correct:
  "(blake256 m = map_option (\<lambda>h. blake256_text (take 8 h)) (blake256_result 0x01 (b256_hash blake256_init) m))
   \<and> (blake224 m = map_option (\<lambda>h. blake256_text (take 7 h)) (blake256_result 0 (b256_hash blake224_init) m))
   \<and> (length m mod 64 \<le> 54 \<longrightarrow>
     blake256_result e v m =
     Some (blake256_spec v m (tail 64 m @ 0x80 # replicate (54 - length m mod 64) 0
       @ e # be_bytes32 0 @ be_bytes32 (of_nat (8 * length m)))))
   \<and> (length m mod 64 = 55 \<longrightarrow>
     blake256_result e v m =
     Some (blake256_spec v m (tail 64 m @ 0x80 # be_bytes32 0 @ be_bytes32 (of_nat (8 * length m)))))
   \<and> (55 < length m mod 64 \<longrightarrow>
     blake256_result e v m = None)"
  by (intro conjI impI, rule blake256_digest, rule blake224_digest)
    (simp_all add: blake256_result_def blake256_last_def blake256_last_55_def)

lemma blake256_correct_witness:
  "blake256_result 1 [] [5] = Some (blake256_spec [] [5] (tail 64 [5] @ 0x80 # replicate 53 0
     @ 1 # be_bytes32 0 @ be_bytes32 8))
   \<and> blake256_result 1 [] (replicate 55 0) \<noteq> None \<and> blake256_result 1 [] (replicate 60 0) = None"
  using blake256_correct [of "[5]" 1 "[]"] blake256_correct [of "replicate 55 0" 1 "[]"]
    blake256_correct [of "replicate 60 0" 1 "[]"] by simp



text \<open>C11: BLAKE2b and BLAKE2s: with a key of at most one block, the digest is the first bytes of the
  chained value after the tail, filled with zeros, is compressed with the counter and the final
  flag; digests longer than the chained value are None, and so are BLAKE2s tails of more than 55
  bytes.  The counter of BLAKE2b advances by 64 for every block of 128 bytes.\<close>
theorem blake2_correct:
  "(blake2b m key n = (if length key \<le> 128
     then blake2_digest n (concat (map le_bytes64 (blake2b_spec key n m))) else None))
   \<and> (blake2s m key n = (if length key \<le> 64 \<and> length m mod 64 \<le> 55
     then blake2_digest n (concat (map le_bytes32 (blake2s_spec key n m))) else None))
   \<and> (length m < 128 \<longrightarrow>
     blake2b_spec [] n m =
     compress2b (blake2b_iv 0 n) (m @ replicate (128 - length m) 0) (of_nat (length m)) True)
   \<and> (snd (fold blake2b_compress (blocks 128 m) (blake2b_start [] n)) = 64 * of_nat (length m div 128))"
  by (intro conjI impI, rule blake2b_digest, rule blake2s_digest)
    (simp add: blake2b_spec_def blake2b_start_def blocks_short, rule blake2b_counter_message)

lemma blake2_correct_witness:
  "blake2b_spec [] 64 [1, 2] = compress2b (blake2b_iv 0 64) ([1, 2] @ replicate 126 0) 2 True"
  using blake2_correct [of "[1, 2]" _ 64] by simp

section \<open>Hash objects\<close>



text \<open>The clone of a well-formed object of MD5, SHA-0/1, SHA-224/256, SHA-384/512, BLAKE or
  BLAKE2s is equal to it whatever the new object held.\<close>
theorem clones_are_copies:
  "(block_wf 64 a1 \<and> block_wf 64 b1 \<longrightarrow>
     md5_copy a1 b1 = a1)
   \<and> (block_wf 64 a2 \<and> block_wf 64 b2 \<longrightarrow>
     sha01_copy a2 b2 = a2)
   \<and> (block_wf 64 a3 \<and> block_wf 64 b3 \<longrightarrow>
     sha256_copy a3 b3 = a3)
   \<and> (block_wf 128 a4 \<and> block_wf 128 b4 \<longrightarrow>
     sha512_copy a4 b4 = a4)
   \<and> (block_wf 64 a5 \<and> block_wf 64 b5 \<and> length (b256_hash a5) = 8 \<and> length (b256_hash b5) = 8 \<longrightarrow>
     blake256_copy a5 b5 = a5)
   \<and> (block_wf 128 a6 \<and> block_wf 128 b6 \<and> length (b512_hash a6) = 8 \<and> length (b512_hash b6) = 8 \<longrightarrow>
     blake512_copy a6 b6 = a6)
   \<and> (block_wf 64 a7 \<and> length (b2s_hash a7) = 8 \<and> length (b2s_key a7) \<le> 64 \<longrightarrow>
     l_blake2s_clone a7 = Some a7)"
  by (simp add: md5_copy_wf sha01_copy_wf sha256_copy_wf sha512_copy_wf blake256_copy_wf
      blake512_copy_wf l_blake2s_clone_result)

lemma clones_are_copies_witness:
  "md5_copy (md5_init\<lparr>buffer := [5] @ replicate 63 0, bufflen := 1\<rparr>) md5_init
    = md5_init\<lparr>buffer := [5] @ replicate 63 0, bufflen := 1\<rparr>"
  using clones_are_copies [of "md5_init\<lparr>buffer := [5] @ replicate 63 0, bufflen := 1\<rparr>" md5_init]
  by (simp add: md5_init_def block_wf_def)

text \<open>The clone of a BLAKE2b object keeps 64 of the 128 bytes of the buffer: it is the object
  with the second half of the buffer erased.\<close>
theorem blake2b_clone_truncates:
  assumes "block_wf 128 a" and "length (b2b_hash a) = 8" and "length (b2b_key a) \<le> 128"
  shows "l_blake2b_clone a = Some (a\<lparr>buffer := take 64 (buffer a) @ replicate 64 0\<rparr>)
    \<and> (l_blake2b_clone a = Some a \<longleftrightarrow> drop 64 (buffer a) = replicate 64 0)"
proof -
  have clone: "l_blake2b_clone a = Some (a\<lparr>buffer := take 64 (buffer a) @ replicate 64 0\<rparr>)"
    using assms by (rule l_blake2b_clone_result)
  have "a\<lparr>buffer := take 64 (buffer a) @ replicate 64 0\<rparr> = a
      \<longleftrightarrow> take 64 (buffer a) @ replicate 64 0 = buffer a"
    by (cases a) simp
  also have "\<dots> \<longleftrightarrow> drop 64 (buffer a) = replicate 64 0"
    by (metis append_take_drop_id same_append_eq)
  finally show ?thesis by (simp add: clone)
qed

lemma blake2b_clone_truncates_witness:
  "l_blake2b_clone \<lparr>buffer = replicate 100 1 @ replicate 28 0, bufflen = 100, total = 100,
     b2b_key = [], b2b_hash = replicate 8 0, b2b_compressed = 0, b2b_digest_len = 64\<rparr>
   \<noteq> Some \<lparr>buffer = replicate 100 1 @ replicate 28 0, bufflen = 100, total = 100,
     b2b_key = [], b2b_hash = replicate 8 0, b2b_compressed = 0, b2b_digest_len = 64\<rparr>"
  using blake2b_clone_truncates [of "\<lparr>buffer = replicate 100 1 @ replicate 28 0, bufflen = 100,
     total = 100, b2b_key = [], b2b_hash = replicate 8 0, b2b_compressed = 0, b2b_digest_len = 64\<rparr>"]
  by (simp add: block_wf_def replicate_eq_replicate numeral_eq_Suc)



section \<open>Checksums\<close>

text \<open>C16: Closed forms: the Fletcher sums modulo 15, 255 and 65535; the two sums of adler32 modulo
  2^16 (where Adler-32 asks for 65521); the negated sum of xor8; and sysvchecksum, which is the
  folded byte sum, but 0 where that sum needs a second fold.\<close>
theorem checksums_closed:
  "(unat (fletcher8 aa) = 16 * (weighted_sum aa mod 15) + byte_sum aa mod 15)
   \<and> (unat (fletcher16 aa) = 256 * (weighted_sum aa mod 255) + byte_sum aa mod 255)
   \<and> (unat (fletcher32 aa) = 65536 * (weighted_sum aa mod 65535) + byte_sum aa mod 65535)
   \<and> (adler32 aa = ucast (of_nat (length aa + weighted_sum aa) :: u16) * 65536
     + ucast (of_nat (1 + byte_sum aa) :: u16))
   \<and> (xor8 aa = - of_nat (byte_sum aa))
   \<and> (byte_sum aa < 2 ^ 32 \<longrightarrow>
     unat (sysvchecksum aa) =
     (let r = byte_sum aa mod 65536 + byte_sum aa div 65536 in if r < 65536 then r else 0))"
  by (intro conjI impI, (rule fletcher8_closed fletcher16_closed fletcher32_closed)+)
    (simp_all add: adler32_def adler32_final_def adler32_sums adler32_init_def xor8_def
      xor8_final_neg xor8_sum xor8_init_def sysvchecksum_closed)

lemma checksums_closed_witness: "unat (sysvchecksum (replicate 514 255 @ [1])) = 0"
  using checksums_closed [of "replicate 514 255 @ [1]"]
  by (simp add: byte_sum_def sum_list_replicate)

text \<open>djb2 and sdbm are polynomials in 33 and 65599 with the bytes as coefficients.\<close>
theorem djb2_sdbm_polynomials:
  "(djb2 xs = 5381 * 33 ^ length xs + byte_poly 33 xs)
   \<and> (sdbm xs = byte_poly 65599 xs)"
  by (simp_all add: djb2_def djb2_final_def djb2_poly djb2_init_def sdbm_def sdbm_final_def
      sdbm_poly sdbm_init_def)

text \<open>C18: The inner loops of crc.c are the textbook reduction: xor the byte into the register, then
  eight shifts with a conditional xor of the reflected polynomial; crc32 ends with the complement.\<close>
theorem crc_loops_reduce:
  "(crc32_update [x] h32 = h32\<lparr>c32_crc := (crc_shift 0xEDB88320 ^^ 8) (c32_crc h32 XOR ucast x)\<rparr>)
   \<and> (crc16_update [x] h16 = h16\<lparr>c16_crc := (crc_shift 0xA001 ^^ 8) (c16_crc h16 XOR ucast x)\<rparr>)
   \<and> (crc8_update [x] h8 = h8\<lparr>c8_crc := (crc_shift 0x8c ^^ 8) (c8_crc h8 XOR x)\<rparr>)
   \<and> (crc32_final h32 = NOT (c32_crc h32))"
  by (intro conjI; rule crc32_step crc16_step crc8_step crc32_final_not)

text \<open>C19: After l_setpearson with a permutation of the 256 bytes, pearson still detects every change
  of one byte; with the initial table it is the exclusive or of the bytes.\<close>
theorem pearson_permutation:
  assumes "length vs = 256" and "distinct vs" and "length tbl = 256" and "x \<noteq> y"
  shows "l_setpearson (map Some vs) tbl = TableSet vs
    \<and> pearson vs (as @ x # bs) \<noteq> pearson vs (as @ y # bs)
    \<and> pearson pearson_table as = fold (\<lambda>x r. r XOR x) as 0"
  using assms set_table_loop_all [of 0 vs tbl]
    detecting_hash.detects_byte [OF pearson_detects_locale [OF assms(1,2)] assms(4), of as bs]
  by (simp add: l_setpearson_def pearson_def pearson_final_def pearson_identity_xor pearson_init_def)

lemma pearson_permutation_witness:
  "pearson (map of_nat (rev [0..<256])) ([] @ 1 # [3]) \<noteq> pearson (map of_nat (rev [0..<256])) ([] @ 2 # [3])"
proof -
  have "distinct (rev pearson_table)" and table: "rev pearson_table = map of_nat (rev [0..<256])"
    using pearson_table_wf(2) by (simp, simp add: pearson_table_def rev_map)
  then show ?thesis unfolding table [symmetric]
    using pearson_permutation [of "rev pearson_table" pearson_table 1 2 "[]" "[3]"] pearson_table_wf
    by simp
qed

text \<open>The rotations of buzhash are defined by C exactly for inputs of at most 9 bytes (buzhash8)
  and 17 bytes (buzhash16).\<close>
theorem buzhash_defined:
  "(buzhash8 T inp \<noteq> None \<longleftrightarrow> length inp \<le> 9)
   \<and> (buzhash16 T inp \<noteq> None \<longleftrightarrow> length inp \<le> 17)"
  by (intro conjI; rule buzhash8_defined buzhash16_defined)

end
